(* ===== verification/LKV_Prelude.thy ===== *)
theory LKV_Prelude
  imports Main "HOL-Library.List_Lexorder" "HOL-Library.Char_ord" "HOL-Library.Word"
    "HOL-Library.Monad_Syntax" "HOL-Library.Signed_Division" "HOL-Library.Extended_Nat"
begin

text \<open>
  Prelude of the LitemultiKV development: what every component shares.

  \<^item> A C string is the list of its bytes before the terminating NUL; a \<open>char *\<close> that may be
    NULL is a \<^typ>\<open>string option\<close>.
  \<^item> A C function that may fault (a NULL, dangling or out-of-range access) or not return is
    modelled in the option monad: \<^const>\<open>None\<close> is "does not return normally". A theorem that a
    call equals \<open>Some r\<close> therefore says that it is memory safe, terminates and returns \<open>r\<close>.
  \<^item> What the C library decides outside the program is the record \<open>env\<close>: whether the
    \<open>i\<close>-th allocation request of the call succeeds, the \<open>i\<close>-th value of \<open>rand()\<close>, and
    the seconds and nanoseconds of the \<open>i\<close>-th reading of the monotonic clock; \<open>wall_time\<close> is the value of \<open>time(NULL)\<close>.
  \<^item> \<open>strcmp\<close>, \<open>strncpy\<close>, \<open>snprintf\<close> and the conversion of a plain (signed) \<open>char\<close>
    to \<open>int\<close> are modelled here, since every component uses them.
\<close>

named_theorems cstr_simps \<open>rewrite rules for the C string library\<close>
named_theorems engine_simps \<open>unfolding rules of the storage engines' operations\<close>

type_synonym cstr = "string option"

text \<open>Addresses of the stores of linked structures.\<close>

type_synonym addr = nat

text \<open>Pointers into a store of linked nodes.\<close>

datatype ref = NULL | Ref nat

record env =
  alloc :: "nat \<Rightarrow> bool"
  rand_val :: "nat \<Rightarrow> int"
  clock :: "nat \<Rightarrow> nat \<times> nat"
  wall_time :: int

definition RAND_MAX :: int where
  "RAND_MAX = 2147483647"

text \<open>All allocation requests succeed.\<close>

definition env_ok :: "env \<Rightarrow> bool" where
  "env_ok e \<longleftrightarrow> alloc e = (\<lambda>_. True)"

text \<open>The environment of a call with enough memory, for evaluating operations on concrete inputs.\<close>

definition env0 :: env where
  "env0 = \<lparr>alloc = (\<lambda>_. True), rand_val = (\<lambda>_. 0), clock = (\<lambda>_. (0, 0)), wall_time = 0\<rparr>"

lemma env0_ok [simp]: "env_ok env0"
  by (simp add: env_ok_def env0_def)

text \<open>\<open>strcmp\<close>: bytes are compared as \<open>unsigned char\<close>; only the sign of the result is
  specified by the C standard, and only its sign is used by the program.\<close>

fun strcmp :: "string \<Rightarrow> string \<Rightarrow> int" where
  "strcmp [] [] = 0"
| "strcmp [] (y # ys) = -1"
| "strcmp (x # xs) [] = 1"
| "strcmp (x # xs) (y # ys) =
     (if x = y then strcmp xs ys
      else if (of_char x :: nat) < of_char y then -1 else 1)"

text \<open>The value of a plain \<open>char\<close> promoted to \<open>int\<close>, on the (signed-\<open>char\<close>) x86-64 target.\<close>

definition schar :: "char \<Rightarrow> int" where
  "schar c = (let n = (of_char c :: int) in if n \<ge> 128 then n - 256 else n)"

text \<open>\<open>snprintf(buf, n, ...)\<close> of a formatted text \<open>s\<close>: the bytes stored before the NUL, and
  the returned length, which is that of the untruncated text.\<close>

definition snprintf :: "nat \<Rightarrow> string \<Rightarrow> string \<times> int" where
  "snprintf n s = (take (n - 1) s, int (length s))"

text \<open>\<open>kvs_malloc\<close>, \<open>kvs_calloc\<close> and \<open>kvs_free\<close> forward to the C allocator; the outcome of
  the \<open>i\<close>-th request of a call is the environment's. \<open>kvs_strdup\<close> copies the string.\<close>

definition kvs_malloc :: "env \<Rightarrow> nat \<Rightarrow> bool" where
  "kvs_malloc e i = alloc e i"

definition kvs_calloc :: "env \<Rightarrow> nat \<Rightarrow> bool" where
  "kvs_calloc e i = alloc e i"

definition kvs_strdup :: "env \<Rightarrow> nat \<Rightarrow> cstr \<Rightarrow> cstr" where
  "kvs_strdup e i s =
     (case s of None \<Rightarrow> None
      | Some t \<Rightarrow> if kvs_malloc e i then Some t else None)"

lemma env_ok_alloc [simp]: "env_ok e \<Longrightarrow> alloc e i"
  by (simp add: env_ok_def)

lemma kvs_malloc_ok [simp]: "env_ok e \<Longrightarrow> kvs_malloc e i"
  by (simp add: kvs_malloc_def)

lemma kvs_calloc_ok [simp]: "env_ok e \<Longrightarrow> kvs_calloc e i"
  by (simp add: kvs_calloc_def)

lemma kvs_strdup_None [simp]: "kvs_strdup e i None = None"
  by (simp add: kvs_strdup_def)

lemma kvs_strdup_Some: "kvs_strdup e i (Some t) = (if alloc e i then Some t else None)"
  by (simp add: kvs_strdup_def kvs_malloc_def)

lemma kvs_strdup_ok [simp]: "env_ok e \<Longrightarrow> kvs_strdup e i s = s"
  by (cases s) (simp_all add: kvs_strdup_Some)

text \<open>\<open>strcmp\<close> decides the lexicographic order of the library.\<close>

lemma strcmp_eq_0 [simp]: "strcmp a b = 0 \<longleftrightarrow> a = b"
  by (induction a b rule: strcmp.induct) auto

lemma strcmp_less_0 [simp]: "strcmp a b < 0 \<longleftrightarrow> a < b"
  by (induction a b rule: strcmp.induct) (auto simp: less_char_def)

lemma strcmp_gt_0 [simp]: "0 < strcmp a b \<longleftrightarrow> b < a"
  using strcmp_less_0 [of a b] strcmp_eq_0 [of a b]
  by (metis less_linear linorder_neqE_linordered_idom order_less_asym)

lemma schar_range: "- 128 \<le> schar c" "schar c \<le> 127"
proof -
  have "(of_char c :: int) < 256" "0 \<le> (of_char c :: int)"
    using pos_mod_bound [of 256 "of_char c"] pos_mod_sign [of 256 "of_char c"] by simp_all
  then show "- 128 \<le> schar c" "schar c \<le> 127"
    by (simp_all add: schar_def Let_def)
qed

text \<open>The first index that passes a test, as found by an upward counting loop.\<close>

lemma find_upt_Some:
  "find P [0..<n] = Some i \<longleftrightarrow> i < n \<and> P i \<and> (\<forall>j<i. \<not> P j)"
  by (auto simp: find_Some_iff)

lemma find_upt_None: "find P [0..<n] = None \<longleftrightarrow> (\<forall>i<n. \<not> P i)"
  by (auto simp: find_None_iff)

lemma find_append:
  "find P (xs @ ys) = (case find P xs of None \<Rightarrow> find P ys | Some x \<Rightarrow> Some x)"
  by (induction xs) auto

lemma find_concat_nth:
  assumes i: "i < length t" and other: "\<And>j. j < length t \<Longrightarrow> j \<noteq> i \<Longrightarrow> find P (t ! j) = None"
  shows "find P (concat t) = find P (t ! i)"
proof -
  have none: "find P (concat ts) = None" if "\<And>xs. xs \<in> set ts \<Longrightarrow> find P xs = None" for ts
    using that by (induction ts) (auto simp: find_append)
  have "find P (concat (take i t)) = None"
    by (rule none) (use i other in \<open>auto simp: in_set_conv_nth\<close>)
  moreover have "find P (concat (drop (Suc i) t)) = None"
    by (rule none) (use i other in \<open>auto simp: in_set_conv_nth\<close>)
  moreover have "concat t = concat (take i t) @ t ! i @ concat (drop (Suc i) t)"
    by (metis concat.simps(2) concat_append i id_take_nth_drop)
  ultimately show ?thesis
    by (simp add: find_append split: option.splits)
qed

lemma length_concat_update:
  assumes "i < length t"
  shows "length (concat (t[i := xs])) + length (t ! i) = length (concat t) + length xs"
proof -
  have "concat t = concat (take i t) @ t ! i @ concat (drop (Suc i) t)"
    by (metis assms concat.simps(2) concat_append id_take_nth_drop)
  then show ?thesis
    using assms by (simp add: upd_conv_take_nth_drop)
qed

lemma smod_bounds: "0 < m \<Longrightarrow> - m < a smod (m :: int) \<and> a smod m < m"
  using smod_int_range [of m a] by auto

text \<open>Association lists under insertion and removal in the middle.\<close>

lemma map_of_insert_mid:
  "k \<notin> fst ` set xs \<Longrightarrow> map_of (xs @ (k, v) # ys) = (map_of (xs @ ys))(k \<mapsto> v)"
  by (induction xs) (auto simp: fun_upd_twist)

lemma map_of_remove_mid:
  "k \<notin> fst ` set (xs @ ys) \<Longrightarrow> map_of (xs @ ys) = (map_of (xs @ (k, v) # ys))(k := None)"
  by (induction xs) (auto simp: fun_eq_iff map_of_eq_None_iff)

end
