(* ===== verification/Engine_Spec.thy ===== *)
theory Engine_Spec
  imports LKV_Prelude
begin

text \<open>
  The contract that the four string engines (array, red-black tree, hash table, skip list)
  share and that their clients, the command protocol and the RDB loader, rely on.

  \<open>engine_ops\<close> is the table of the five operations an engine exports (\<open>kvs_X_set\<close>,
  \<open>kvs_X_get\<close>, \<open>kvs_X_del\<close>, \<open>kvs_X_mod\<close>, \<open>kvs_X_exist\<close> in \<open>include/kvstore.h\<close>).
  \<open>spec_step\<close> is the abstract engine: a finite map with a capacity. The locale \<open>kv_engine\<close>
  states what an engine promises, one law per branch of each operation, and proves once what
  its clients need: that any sequence of operations returns exactly the replies of the
  abstract engine, and that inserting a list of fresh records rebuilds the map they denote.
\<close>

record 's engine_ops =
  op_set :: "env \<Rightarrow> 's \<Rightarrow> cstr \<Rightarrow> cstr \<Rightarrow> (int \<times> 's) option"
  op_get :: "'s \<Rightarrow> cstr \<Rightarrow> cstr option"
  op_del :: "'s \<Rightarrow> cstr \<Rightarrow> (int \<times> 's) option"
  op_mod :: "env \<Rightarrow> 's \<Rightarrow> cstr \<Rightarrow> cstr \<Rightarrow> (int \<times> 's) option"
  op_exist :: "'s \<Rightarrow> cstr \<Rightarrow> int option"

datatype kv_cmd =
    KSet string string
  | KGet string
  | KDel string
  | KMod string string
  | KExist string

datatype kv_reply = Code int | Val cstr

fun cmd_key :: "kv_cmd \<Rightarrow> string" where
  "cmd_key (KSet k v) = k"
| "cmd_key (KGet k) = k"
| "cmd_key (KDel k) = k"
| "cmd_key (KMod k v) = k"
| "cmd_key (KExist k) = k"

text \<open>One call on an engine, and a sequence of calls, each with its own environment.\<close>

fun eng_step :: "'s engine_ops \<Rightarrow> env \<Rightarrow> 's \<Rightarrow> kv_cmd \<Rightarrow> (kv_reply \<times> 's) option" where
  "eng_step ops e s (KSet k v) = do { (r, s') \<leftarrow> op_set ops e s (Some k) (Some v); Some (Code r, s') }"
| "eng_step ops e s (KGet k) = do { r \<leftarrow> op_get ops s (Some k); Some (Val r, s) }"
| "eng_step ops e s (KDel k) = do { (r, s') \<leftarrow> op_del ops s (Some k); Some (Code r, s') }"
| "eng_step ops e s (KMod k v) = do { (r, s') \<leftarrow> op_mod ops e s (Some k) (Some v); Some (Code r, s') }"
| "eng_step ops e s (KExist k) = do { r \<leftarrow> op_exist ops s (Some k); Some (Code r, s) }"

fun eng_run :: "'s engine_ops \<Rightarrow> 's \<Rightarrow> (env \<times> kv_cmd) list \<Rightarrow> (kv_reply list \<times> 's) option" where
  "eng_run ops s [] = Some ([], s)"
| "eng_run ops s ((e, c) # cs) =
     do { (r, s') \<leftarrow> eng_step ops e s c; (rs, s'') \<leftarrow> eng_run ops s' cs; Some (r # rs, s'') }"

text \<open>The abstract engine: a map that refuses a \<open>set\<close> when it holds \<open>cap\<close> keys, never
  overwrites on \<open>set\<close>, and never creates on \<open>mod\<close>.\<close>

type_synonym kv_map = "string \<rightharpoonup> string"

definition has_room :: "enat \<Rightarrow> kv_map \<Rightarrow> bool" where
  "has_room cap m \<longleftrightarrow> enat (card (dom m)) < cap"

fun spec_step :: "enat \<Rightarrow> kv_map \<Rightarrow> kv_cmd \<Rightarrow> kv_reply \<times> kv_map" where
  "spec_step cap m (KSet k v) =
     (if \<not> has_room cap m then (Code (-1), m)
      else if m k \<noteq> None then (Code 1, m)
      else (Code 0, m(k \<mapsto> v)))"
| "spec_step cap m (KGet k) = (Val (m k), m)"
| "spec_step cap m (KDel k) = (if m k = None then (Code 1, m) else (Code 0, m(k := None)))"
| "spec_step cap m (KMod k v) = (if m k = None then (Code 1, m) else (Code 0, m(k \<mapsto> v)))"
| "spec_step cap m (KExist k) = (Code (if m k = None then 1 else 0), m)"

fun spec_run :: "enat \<Rightarrow> kv_map \<Rightarrow> kv_cmd list \<Rightarrow> kv_reply list \<times> kv_map" where
  "spec_run cap m [] = ([], m)"
| "spec_run cap m (c # cs) =
     (let (r, m') = spec_step cap m c; (rs, m'') = spec_run cap m' cs in (r # rs, m''))"

text \<open>Inserting a list of records one after the other, as the RDB loader does, each call with its
  own environment.\<close>

fun load_all :: "'s engine_ops \<Rightarrow> 's \<Rightarrow> (env \<times> string \<times> string) list \<Rightarrow> 's option" where
  "load_all ops s [] = Some s"
| "load_all ops s ((e, k, v) # kvs) =
     do { (r, s') \<leftarrow> op_set ops e s (Some k) (Some v); load_all ops s' kvs }"

locale kv_engine =
  fixes ops :: "'s engine_ops"
    and start :: "'s"
    and inv :: "'s \<Rightarrow> bool"
    and contents :: "'s \<Rightarrow> kv_map"
    and key_ok :: "string \<Rightarrow> bool"
    and cap :: enat
  assumes start_inv: "inv start"
    and start_contents: "contents start = Map.empty"
    and finite_contents: "inv s \<Longrightarrow> finite (dom (contents s))"
    and get_law: "inv s \<Longrightarrow> key_ok k \<Longrightarrow> op_get ops s (Some k) = Some (contents s k)"
    and exist_law: "inv s \<Longrightarrow> key_ok k \<Longrightarrow>
      op_exist ops s (Some k) = Some (if contents s k = None then 1 else 0)"
    and set_full: "inv s \<Longrightarrow> key_ok k \<Longrightarrow> \<not> has_room cap (contents s) \<Longrightarrow>
      op_set ops e s (Some k) (Some v) = Some (-1, s)"
    and set_dup: "inv s \<Longrightarrow> key_ok k \<Longrightarrow> has_room cap (contents s) \<Longrightarrow> contents s k \<noteq> None \<Longrightarrow>
      op_set ops e s (Some k) (Some v) = Some (1, s)"
    and set_new: "inv s \<Longrightarrow> key_ok k \<Longrightarrow> env_ok e \<Longrightarrow> has_room cap (contents s) \<Longrightarrow>
      contents s k = None \<Longrightarrow>
      \<exists>s'. op_set ops e s (Some k) (Some v) = Some (0, s') \<and> inv s' \<and>
           contents s' = (contents s)(k \<mapsto> v)"
    and del_miss: "inv s \<Longrightarrow> key_ok k \<Longrightarrow> contents s k = None \<Longrightarrow>
      op_del ops s (Some k) = Some (1, s)"
    and del_hit: "inv s \<Longrightarrow> key_ok k \<Longrightarrow> contents s k \<noteq> None \<Longrightarrow>
      \<exists>s'. op_del ops s (Some k) = Some (0, s') \<and> inv s' \<and>
           contents s' = (contents s)(k := None)"
    and mod_miss: "inv s \<Longrightarrow> key_ok k \<Longrightarrow> contents s k = None \<Longrightarrow>
      op_mod ops e s (Some k) (Some v) = Some (1, s)"
    and mod_hit: "inv s \<Longrightarrow> key_ok k \<Longrightarrow> env_ok e \<Longrightarrow> contents s k \<noteq> None \<Longrightarrow>
      \<exists>s'. op_mod ops e s (Some k) (Some v) = Some (0, s') \<and> inv s' \<and>
           contents s' = (contents s)(k \<mapsto> v)"
begin

lemma step_refines:
  assumes "inv s" and "key_ok (cmd_key c)" and "env_ok e"
  shows "\<exists>s'. eng_step ops e s c = Some (fst (spec_step cap (contents s) c), s') \<and> inv s' \<and>
           contents s' = snd (spec_step cap (contents s) c)"
proof (cases c)
  case (KSet k v)
  then show ?thesis
    using assms set_full [of s k e v] set_dup [of s k e v] set_new [of s k e v]
    by (cases "has_room cap (contents s)"; cases "contents s k = None") auto
next
  case (KDel k)
  then show ?thesis
    using assms del_miss [of s k] del_hit [of s k] by (cases "contents s k = None") auto
next
  case (KMod k v)
  then show ?thesis
    using assms mod_miss [of s k e v] mod_hit [of s k e v] by (cases "contents s k = None") auto
qed (use assms in \<open>simp_all add: get_law exist_law\<close>)

lemma run_refines:
  assumes "inv s" and "\<forall>(e, c) \<in> set ecs. env_ok e \<and> key_ok (cmd_key c)"
  shows "\<exists>s'. eng_run ops s ecs = Some (fst (spec_run cap (contents s) (map snd ecs)), s') \<and>
           inv s' \<and> contents s' = snd (spec_run cap (contents s) (map snd ecs))"
  using assms
proof (induction ecs arbitrary: s)
  case Nil
  then show ?case by simp
next
  case (Cons ec ecs)
  obtain e c where ec: "ec = (e, c)" by (cases ec)
  obtain s1 where s1: "eng_step ops e s c = Some (fst (spec_step cap (contents s) c), s1)"
    "inv s1" "contents s1 = snd (spec_step cap (contents s) c)"
    using step_refines [of s c e] Cons.prems ec by auto
  obtain s2 where "eng_run ops s1 ecs = Some (fst (spec_run cap (contents s1) (map snd ecs)), s2)"
    "inv s2" "contents s2 = snd (spec_run cap (contents s1) (map snd ecs))"
    using Cons.IH [OF s1(2)] Cons.prems(2) by auto
  then show ?case
    using s1 by (auto simp: ec Let_def split_beta)
qed

lemma run_from_start:
  assumes "\<forall>(e, c) \<in> set ecs. env_ok e \<and> key_ok (cmd_key c)"
  shows "\<exists>s'. eng_run ops start ecs = Some (fst (spec_run cap Map.empty (map snd ecs)), s') \<and>
           inv s' \<and> contents s' = snd (spec_run cap Map.empty (map snd ecs))"
  using run_refines [OF start_inv assms] by (simp add: start_contents)

text \<open>Loading records with pairwise distinct keys, none of them present yet, within the
  capacity: every record is stored.\<close>

lemma load_all_map:
  assumes "inv s" and "\<forall>(e, k, v) \<in> set kvs. env_ok e \<and> key_ok k \<and> contents s k = None"
    and "distinct (map (fst \<circ> snd) kvs)"
    and "enat (card (dom (contents s)) + length kvs) \<le> cap"
  shows "\<exists>s'. load_all ops s kvs = Some s' \<and> inv s' \<and>
           contents s' = contents s ++ map_of (map snd kvs)"
  using assms
proof (induction kvs arbitrary: s)
  case Nil
  then show ?case by simp
next
  case (Cons kv kvs)
  obtain e k v where kv: "kv = (e, k, v)" by (cases kv)
  have "enat (card (dom (contents s))) < enat (card (dom (contents s)) + length (kv # kvs))"
    by simp
  then have room: "has_room cap (contents s)"
    unfolding has_room_def using Cons.prems(4) by (rule less_le_trans)
  obtain s1 where s1: "op_set ops e s (Some k) (Some v) = Some (0, s1)" "inv s1"
    "contents s1 = (contents s)(k \<mapsto> v)"
    using set_new [of s k e v] Cons.prems room kv by auto
  have card1: "card (dom (contents s1)) = Suc (card (dom (contents s)))"
    using s1(3) Cons.prems(2) finite_contents [OF Cons.prems(1)] kv by (auto simp: domIff)
  have "\<exists>s'. load_all ops s1 kvs = Some s' \<and> inv s' \<and> contents s' = contents s1 ++ map_of (map snd kvs)"
  proof (rule Cons.IH)
    show "\<forall>(e, k, v) \<in> set kvs. env_ok e \<and> key_ok k \<and> contents s1 k = None"
      using Cons.prems(2,3) s1(3) kv by (fastforce simp: image_iff)
    show "enat (card (dom (contents s1)) + length kvs) \<le> cap"
      using Cons.prems(4) by (simp add: card1)
  qed (use Cons.prems s1(2) in auto)
  note IH = this
  have "map_of (map snd kvs) k = None"
    using Cons.prems(3) kv by (simp add: map_of_eq_None_iff image_comp)
  then have eq: "contents s1 ++ map_of (map snd kvs) = contents s ++ map_of (map snd (kv # kvs))"
    by (auto simp: map_add_def fun_eq_iff s1(3) kv split: option.splits)
  show ?case
    unfolding eq [symmetric] using IH s1(1) by (simp add: kv)
qed

lemma load_from_start:
  assumes "\<forall>(e, k, v) \<in> set kvs. env_ok e \<and> key_ok k" and "distinct (map (fst \<circ> snd) kvs)"
    and "enat (length kvs) \<le> cap"
  shows "\<exists>s'. load_all ops start kvs = Some s' \<and> inv s' \<and> contents s' = map_of (map snd kvs)"
  using load_all_map [OF start_inv, of kvs] assms by (auto simp: start_contents)

end

end
