(* ===== verification/Kvs_Array.thy ===== *)
theory Kvs_Array
  imports Engine_Spec
begin

text \<open>
  The array engine (\<open>src/engine/kvs_array.c\<close>): a fixed table of \<open>KVS_ARRAY_SIZE\<close> slots, a
  high-water mark \<open>idx\<close> and a count \<open>total\<close> of live entries. A slot whose key is NULL is
  free and is reused by the next \<open>set\<close>.

  The index loops \<open>for (i = 0; i < inst->idx; i++) if (test) ...return\<close> are the first index
  of \<open>[0..<idx]\<close> that passes the test. Instances are the address of \<open>global_array\<close>, so the
  \<open>inst == NULL\<close> guards never fire and only the key and value guards are modelled.
  \<open>array_inv\<close> is the data invariant, \<open>array_map\<close> the map a table denotes; the engine is an
  interpretation of \<open>kv_engine\<close> with capacity \<open>KVS_ARRAY_SIZE\<close>.
\<close>

record kvs_array_item_t =
  akey :: cstr
  avalue :: cstr

definition KVS_ARRAY_SIZE :: nat where
  "KVS_ARRAY_SIZE = 12000"

record kvs_array_t =
  table :: "kvs_array_item_t list option"
  idx :: nat
  total :: int

definition free_item :: kvs_array_item_t where
  "free_item = \<lparr>akey = None, avalue = None\<rparr>"

text \<open>The static instance before \<open>init_kvengine\<close> and after its \<open>memset\<close>.\<close>

definition array_zero :: kvs_array_t where
  "array_zero = \<lparr>table = None, idx = 0, total = 0\<rparr>"

definition kvs_array_create :: "env \<Rightarrow> kvs_array_t \<Rightarrow> int \<times> kvs_array_t" where
  "kvs_array_create e inst =
     (if table inst \<noteq> None then (-1, inst)
      else if \<not> kvs_calloc e 0 then (-1, inst)
      else (0, inst\<lparr>table := Some (replicate KVS_ARRAY_SIZE free_item), idx := 0, total := 0\<rparr>))"

definition kvs_array_destroy :: "kvs_array_t \<Rightarrow> kvs_array_t" where
  "kvs_array_destroy inst = inst\<lparr>table := None, idx := 0, total := 0\<rparr>"

text \<open>\<open>inst->table[i]\<close>; a table that was never allocated or an index past its end is a fault.\<close>

definition slot :: "kvs_array_t \<Rightarrow> nat \<Rightarrow> kvs_array_item_t option" where
  "slot inst i = (case table inst of None \<Rightarrow> None
     | Some t \<Rightarrow> if i < length t then Some (t ! i) else None)"

definition set_slot :: "kvs_array_t \<Rightarrow> nat \<Rightarrow> kvs_array_item_t \<Rightarrow> kvs_array_t option" where
  "set_slot inst i x = (case table inst of None \<Rightarrow> None
     | Some t \<Rightarrow> if i < length t then Some (inst\<lparr>table := Some (t[i := x])\<rparr>) else None)"

text \<open>The scan \<open>for (int i = from; i < inst->idx; i++)\<close> up to the first slot that passes the
  test: \<open>Some (Some i)\<close> if there is one, \<open>Some None\<close> if the loop runs to its end.\<close>

function scan :: "(kvs_array_item_t \<Rightarrow> bool) \<Rightarrow> kvs_array_t \<Rightarrow> nat \<Rightarrow> nat option option" where
  "scan test inst i =
     (if i < idx inst then
        do { x \<leftarrow> slot inst i; if test x then Some (Some i) else scan test inst (Suc i) }
      else Some None)"
  by pat_completeness auto
termination
  by (relation "measure (\<lambda>(test, inst, i). idx inst - i)") auto

declare scan.simps [simp del]

definition holds_key :: "string \<Rightarrow> kvs_array_item_t \<Rightarrow> bool" where
  "holds_key k x = (case akey x of None \<Rightarrow> False | Some k' \<Rightarrow> strcmp k' k = 0)"

definition kvs_array_get :: "kvs_array_t \<Rightarrow> cstr \<Rightarrow> cstr option" where
  "kvs_array_get inst key =
     (case key of None \<Rightarrow> Some None
      | Some k \<Rightarrow> do { r \<leftarrow> scan (holds_key k) inst 0;
          case r of None \<Rightarrow> Some None
          | Some i \<Rightarrow> do { x \<leftarrow> slot inst i; Some (avalue x) } })"

definition kvs_array_set :: "env \<Rightarrow> kvs_array_t \<Rightarrow> cstr \<Rightarrow> cstr \<Rightarrow> (int \<times> kvs_array_t) option" where
  "kvs_array_set e inst key value =
     (if key = None \<or> value = None then Some (-1, inst)
      else if total inst \<ge> int KVS_ARRAY_SIZE then Some (-1, inst)
      else do {
        str \<leftarrow> kvs_array_get inst key;
        if str \<noteq> None then Some (1, inst)
        else let kcopy = kvs_strdup e 0 key in
          if kcopy = None then Some (-2, inst)
          else let kvalue = kvs_strdup e 1 value in
            if kvalue = None then Some (-2, inst)
            else do {
              r \<leftarrow> scan (\<lambda>x. akey x = None) inst 0;
              case r of
                Some i \<Rightarrow> do {
                  inst' \<leftarrow> set_slot inst i \<lparr>akey = kcopy, avalue = kvalue\<rparr>;
                  Some (0, inst'\<lparr>total := total inst + 1\<rparr>) }
              | None \<Rightarrow>
                  if idx inst < KVS_ARRAY_SIZE then do {
                    inst' \<leftarrow> set_slot inst (idx inst) \<lparr>akey = kcopy, avalue = kvalue\<rparr>;
                    Some (0, inst'\<lparr>idx := idx inst + 1, total := total inst + 1\<rparr>) }
                  else Some (-1, inst) } })"

text \<open>The shrinking loop of \<open>kvs_array_del\<close>:
  \<open>while (idx > 0 && table[idx - 1].key == NULL) idx--\<close>.\<close>

fun shrink :: "kvs_array_t \<Rightarrow> nat \<Rightarrow> nat option" where
  "shrink inst 0 = Some 0"
| "shrink inst (Suc n) =
     do { x \<leftarrow> slot inst n; if akey x = None then shrink inst n else Some (Suc n) }"

definition kvs_array_del :: "kvs_array_t \<Rightarrow> cstr \<Rightarrow> (int \<times> kvs_array_t) option" where
  "kvs_array_del inst key =
     (case key of None \<Rightarrow> Some (-1, inst)
      | Some k \<Rightarrow> do { r \<leftarrow> scan (holds_key k) inst 0;
          case r of None \<Rightarrow> Some (1, inst)
          | Some i \<Rightarrow> do {
              inst' \<leftarrow> set_slot inst i \<lparr>akey = None, avalue = None\<rparr>;
              n \<leftarrow> shrink inst' (idx inst);
              Some (0, inst'\<lparr>total := total inst - 1, idx := n\<rparr>) } })"

definition kvs_array_mod :: "env \<Rightarrow> kvs_array_t \<Rightarrow> cstr \<Rightarrow> cstr \<Rightarrow> (int \<times> kvs_array_t) option" where
  "kvs_array_mod e inst key value =
     (case (key, value) of
        (Some k, Some v) \<Rightarrow> do { r \<leftarrow> scan (holds_key k) inst 0;
          case r of None \<Rightarrow> Some (1, inst)
          | Some i \<Rightarrow> do {
              x \<leftarrow> slot inst i;
              inst' \<leftarrow> set_slot inst i (x\<lparr>avalue := kvs_strdup e 0 value\<rparr>);
              if kvs_strdup e 0 value = None then Some (-2, inst') else Some (0, inst') } }
      | _ \<Rightarrow> Some (-1, inst))"

definition kvs_array_exist :: "kvs_array_t \<Rightarrow> cstr \<Rightarrow> int option" where
  "kvs_array_exist inst key =
     (if key = None then Some (-1)
      else do { str \<leftarrow> kvs_array_get inst key; Some (if str = None then 1 else 0) })"

definition array_ops :: "kvs_array_t engine_ops" where
  "array_ops = \<lparr>op_set = kvs_array_set, op_get = kvs_array_get, op_del = kvs_array_del,
     op_mod = kvs_array_mod, op_exist = kvs_array_exist\<rparr>"

text \<open>The instance \<open>init_kvengine\<close> creates when its allocation succeeds.\<close>

definition array_start :: kvs_array_t where
  "array_start = \<lparr>table = Some (replicate KVS_ARRAY_SIZE free_item), idx = 0, total = 0\<rparr>"

text \<open>The map a table denotes, and the invariant of a created instance.\<close>

definition array_map :: "kvs_array_t \<Rightarrow> kv_map" where
  "array_map inst k =
     (case table inst of None \<Rightarrow> None
      | Some t \<Rightarrow> (case find (holds_key k) t of None \<Rightarrow> None | Some x \<Rightarrow> avalue x))"

definition live :: "kvs_array_item_t list \<Rightarrow> nat set" where
  "live t = {i. i < length t \<and> akey (t ! i) \<noteq> None}"

definition table_inv :: "kvs_array_item_t list \<Rightarrow> bool" where
  "table_inv t \<longleftrightarrow> length t = KVS_ARRAY_SIZE \<and>
     (\<forall>i < length t. akey (t ! i) = None \<longleftrightarrow> avalue (t ! i) = None) \<and>
     (\<forall>i < length t. \<forall>j < length t. akey (t ! i) \<noteq> None \<longrightarrow> akey (t ! i) = akey (t ! j) \<longrightarrow> i = j)"

definition array_inv :: "kvs_array_t \<Rightarrow> bool" where
  "array_inv inst \<longleftrightarrow> (\<exists>t. table inst = Some t \<and> table_inv t \<and> idx inst \<le> KVS_ARRAY_SIZE \<and>
     (\<forall>i < length t. idx inst \<le> i \<longrightarrow> akey (t ! i) = None) \<and> total inst = int (card (live t)))"

lemma array_invE:
  assumes "array_inv inst"
  obtains t where "table inst = Some t" "table_inv t" "idx inst \<le> length t"
    "length t = KVS_ARRAY_SIZE"
    "\<forall>i < length t. idx inst \<le> i \<longrightarrow> akey (t ! i) = None" "total inst = int (card (live t))"
  using assms unfolding array_inv_def by (auto simp: table_inv_def)

lemma holds_key_iff: "holds_key k x \<longleftrightarrow> akey x = Some k"
  by (auto simp: holds_key_def split: option.splits)

lemma slot_Some [simp]: "table inst = Some t \<Longrightarrow> i < length t \<Longrightarrow> slot inst i = Some (t ! i)"
  by (simp add: slot_def)

lemma set_slot_Some [simp]:
  "table inst = Some t \<Longrightarrow> i < length t \<Longrightarrow> set_slot inst i x = Some (inst\<lparr>table := Some (t[i := x])\<rparr>)"
  by (simp add: set_slot_def)

lemma scan_find:
  "table inst = Some t \<Longrightarrow> idx inst \<le> length t \<Longrightarrow>
   scan test inst i = Some (find (\<lambda>j. test (t ! j)) [i..<idx inst])"
proof (induction test inst i rule: scan.induct)
  case (1 test inst i)
  then show ?case
    by (cases "i < idx inst") (auto simp: scan.simps [of test inst i] upt_conv_Cons)
qed

lemma table_inv_unique:
  "table_inv t \<Longrightarrow> i < length t \<Longrightarrow> j < length t \<Longrightarrow> akey (t ! i) = Some k \<Longrightarrow>
   akey (t ! j) = Some k \<Longrightarrow> i = j"
  by (simp add: table_inv_def)

lemma table_inv_value:
  "table_inv t \<Longrightarrow> i < length t \<Longrightarrow> akey (t ! i) = Some k \<Longrightarrow> \<exists>v. avalue (t ! i) = Some v"
  by (auto simp: table_inv_def)

lemma array_map_eq:
  assumes t: "table inst = Some t" "table_inv t" and i: "i < length t" "akey (t ! i) = Some k"
  shows "array_map inst k = avalue (t ! i)"
proof -
  have "\<exists>x. find (holds_key k) t = Some x"
    using i by (auto simp: find_None_iff holds_key_iff in_set_conv_nth simp flip: not_None_eq)
  then obtain j where "j < length t" "akey (t ! j) = Some k" "find (holds_key k) t = Some (t ! j)"
    by (auto simp: find_Some_iff holds_key_iff)
  with table_inv_unique [OF t(2)] i show ?thesis
    by (auto simp: array_map_def t(1))
qed

lemma array_map_None:
  "table inst = Some t \<Longrightarrow> (\<And>i. i < length t \<Longrightarrow> akey (t ! i) \<noteq> Some k) \<Longrightarrow> array_map inst k = None"
  by (auto simp: array_map_def find_Some_iff holds_key_iff split: option.splits)

lemma array_map_NoneD:
  assumes "table inst = Some t" "table_inv t" "array_map inst k = None" "i < length t"
  shows "akey (t ! i) \<noteq> Some k"
  using assms array_map_eq table_inv_value by (metis option.distinct(1))

text \<open>The scan for a key finds the slot that holds it, wherever it is below \<open>idx\<close>.\<close>

lemma scan_key:
  assumes "array_inv inst" "table inst = Some t"
  shows "array_map inst k = None \<Longrightarrow> scan (holds_key k) inst 0 = Some None"
    and "array_map inst k \<noteq> None \<Longrightarrow>
      \<exists>i. scan (holds_key k) inst 0 = Some (Some i) \<and> i < length t \<and> i < idx inst \<and>
          akey (t ! i) = Some k \<and> avalue (t ! i) = array_map inst k"
proof -
  from assms have ti: "table_inv t" and le: "idx inst \<le> length t"
    and above: "\<And>i. i < length t \<Longrightarrow> idx inst \<le> i \<Longrightarrow> akey (t ! i) = None"
    by (auto elim!: array_invE)
  have sc: "scan (holds_key k) inst 0 = Some (find (\<lambda>j. akey (t ! j) = Some k) [0..<idx inst])"
    using scan_find [OF assms(2) le] by (simp add: holds_key_iff)
  show "scan (holds_key k) inst 0 = Some None" if "array_map inst k = None"
    using array_map_NoneD [OF assms(2) ti that] le by (auto simp: sc find_upt_None)
  show "\<exists>i. scan (holds_key k) inst 0 = Some (Some i) \<and> i < length t \<and> i < idx inst \<and>
          akey (t ! i) = Some k \<and> avalue (t ! i) = array_map inst k" if m: "array_map inst k \<noteq> None"
  proof -
    obtain j where j: "j < length t" "akey (t ! j) = Some k"
      using array_map_None [OF assms(2), of k] m by blast
    then have "j < idx inst" using above by (metis leI option.distinct(1))
    then obtain i where i: "find (\<lambda>j. akey (t ! j) = Some k) [0..<idx inst] = Some i"
      using j(2) by (cases "find (\<lambda>j. akey (t ! j) = Some k) [0..<idx inst]")
        (auto simp: find_upt_None)
    then have "i < idx inst" "akey (t ! i) = Some k" by (simp_all add: find_upt_Some)
    then show ?thesis
      using i le array_map_eq [OF assms(2) ti, of i k] by (auto simp: sc)
  qed
qed

text \<open>Effect of one slot write on the live slots, the invariant and the denoted map.\<close>

lemma live_update:
  "i < length t \<Longrightarrow> live (t[i := x]) = (if akey x = None then live t - {i} else insert i (live t))"
  by (auto simp: live_def nth_list_update)

lemma finite_live [simp]: "finite (live t)"
  by (simp add: live_def)

lemma table_inv_fill:
  assumes "table_inv t" "i < length t" "\<And>j. j < length t \<Longrightarrow> j \<noteq> i \<Longrightarrow> akey (t ! j) \<noteq> Some k"
  shows "table_inv (t[i := \<lparr>akey = Some k, avalue = Some v\<rparr>])"
  using assms unfolding table_inv_def by (auto simp: nth_list_update)

lemma table_inv_clear:
  "table_inv t \<Longrightarrow> i < length t \<Longrightarrow> table_inv (t[i := \<lparr>akey = None, avalue = None\<rparr>])"
  unfolding table_inv_def by (auto simp: nth_list_update)

lemma array_map_fill:
  assumes "table inst = Some t" "table_inv t" "i < length t"
    "\<And>j. j < length t \<Longrightarrow> j \<noteq> i \<Longrightarrow> akey (t ! j) \<noteq> Some k"
    "akey (t ! i) = None \<or> akey (t ! i) = Some k"
    "table inst' = Some (t[i := \<lparr>akey = Some k, avalue = Some v\<rparr>])"
  shows "array_map inst' = (array_map inst)(k \<mapsto> v)"
proof
  fix q
  let ?t' = "t[i := \<lparr>akey = Some k, avalue = Some v\<rparr>]"
  have ti': "table_inv ?t'" using assms by (intro table_inv_fill)
  show "array_map inst' q = ((array_map inst)(k \<mapsto> v)) q"
  proof (cases "q = k")
    case True
    then show ?thesis using array_map_eq [OF assms(6) ti', of i k] assms(3) by simp
  next
    case False
    show ?thesis
    proof (cases "\<exists>j<length t. akey (t ! j) = Some q")
      case True
      then obtain j where j: "j < length t" "akey (t ! j) = Some q" by blast
      with False assms(5) have "j \<noteq> i" by auto
      then show ?thesis
        using array_map_eq [OF assms(6) ti', of j q] array_map_eq [OF assms(1,2) j] j False by simp
    next
      case no: False
      have "array_map inst' q = None"
        by (rule array_map_None [OF assms(6)]) (use no False assms(3) in \<open>auto simp: nth_list_update split: if_splits\<close>)
      then show ?thesis
        using array_map_None [OF assms(1), of q] no False by auto
    qed
  qed
qed

lemma array_map_clear:
  assumes "table inst = Some t" "table_inv t" "i < length t" "akey (t ! i) = Some k"
    "table inst' = Some (t[i := \<lparr>akey = None, avalue = None\<rparr>])"
  shows "array_map inst' = (array_map inst)(k := None)"
proof
  fix q
  let ?t' = "t[i := \<lparr>akey = None, avalue = None\<rparr>]"
  have ti': "table_inv ?t'" using assms(2,3) by (rule table_inv_clear)
  show "array_map inst' q = ((array_map inst)(k := None)) q"
  proof (cases "q \<noteq> k \<and> (\<exists>j<length t. akey (t ! j) = Some q)")
    case True
    then obtain j where j: "j < length t" "akey (t ! j) = Some q" and "q \<noteq> k" by blast
    with assms(4) have "j \<noteq> i" by auto
    then show ?thesis
      using array_map_eq [OF assms(5) ti', of j q] array_map_eq [OF assms(1,2) j] j \<open>q \<noteq> k\<close> by simp
  next
    case no: False
    have "array_map inst' q = None"
    proof (rule array_map_None [OF assms(5)])
      fix j assume "j < length ?t'"
      then have j: "j < length t" by simp
      show "akey (?t' ! j) \<noteq> Some q"
      proof (cases "j = i")
        case True
        with j show ?thesis by simp
      next
        case False
        with table_inv_unique [OF assms(2) j assms(3) _ assms(4)] have "akey (t ! j) \<noteq> Some k"
          by blast
        with no j have "akey (t ! j) \<noteq> Some q" by (cases "q = k") auto
        with False show ?thesis by simp
      qed
    qed
    then show ?thesis
      using array_map_None [OF assms(1), of q] no by auto
  qed
qed

text \<open>The number of keys of the map is the engine's \<open>total\<close>.\<close>

lemma card_dom_array_map:
  assumes "array_inv inst"
  shows "finite (dom (array_map inst))" "total inst = int (card (dom (array_map inst)))"
proof -
  from assms obtain t where t: "table inst = Some t" "table_inv t"
    and tot: "total inst = int (card (live t))"
    by (rule array_invE)
  let ?key = "\<lambda>i. the (akey (t ! i))"
  have dom: "dom (array_map inst) = ?key ` live t"
  proof (intro set_eqI iffI)
    fix k assume "k \<in> dom (array_map inst)"
    then have "array_map inst k \<noteq> None" by blast
    then obtain i where "i < length t" "akey (t ! i) = Some k"
      using array_map_None [OF t(1), of k] by metis
    then show "k \<in> ?key ` live t" by (force simp: live_def)
  next
    fix k assume "k \<in> ?key ` live t"
    then obtain i where i: "i < length t" "akey (t ! i) = Some k" by (auto simp: live_def)
    then show "k \<in> dom (array_map inst)"
      using array_map_eq [OF t i] table_inv_value [OF t(2) i] by auto
  qed
  have "inj_on ?key (live t)"
    using table_inv_unique [OF t(2)] by (auto simp: inj_on_def live_def)
  then show "finite (dom (array_map inst))" "total inst = int (card (dom (array_map inst)))"
    by (simp_all add: dom tot card_image)
qed

lemma has_room_array: "array_inv inst \<Longrightarrow> has_room KVS_ARRAY_SIZE (array_map inst) \<longleftrightarrow> total inst < int KVS_ARRAY_SIZE"
  by (simp add: has_room_def card_dom_array_map(2))

text \<open>The operations, branch by branch.\<close>

lemma array_get_correct: "array_inv inst \<Longrightarrow> kvs_array_get inst (Some k) = Some (array_map inst k)"
proof -
  assume inv: "array_inv inst"
  then obtain t where t: "table inst = Some t" by (rule array_invE)
  show ?thesis
    using scan_key [OF inv t, of k] t
    by (cases "array_map inst k") (auto simp: kvs_array_get_def)
qed

lemma array_exist_correct:
  "array_inv inst \<Longrightarrow> kvs_array_exist inst (Some k) = Some (if array_map inst k = None then 1 else 0)"
  by (simp add: kvs_array_exist_def array_get_correct)

lemma array_set_full:
  "total inst \<ge> int KVS_ARRAY_SIZE \<Longrightarrow> kvs_array_set e inst (Some k) (Some v) = Some (-1, inst)"
  by (simp add: kvs_array_set_def)

lemma array_set_dup:
  "array_inv inst \<Longrightarrow> total inst < int KVS_ARRAY_SIZE \<Longrightarrow> array_map inst k \<noteq> None \<Longrightarrow>
   kvs_array_set e inst (Some k) (Some v) = Some (1, inst)"
  by (simp add: kvs_array_set_def array_get_correct)

lemma array_set_new:
  assumes inv: "array_inv inst" and room: "total inst < int KVS_ARRAY_SIZE"
    and new: "array_map inst k = None" and ok: "env_ok e"
  shows "\<exists>inst'. kvs_array_set e inst (Some k) (Some v) = Some (0, inst') \<and> array_inv inst' \<and>
           array_map inst' = (array_map inst)(k \<mapsto> v)"
proof -
  from inv obtain t where t: "table inst = Some t" "table_inv t" "idx inst \<le> length t"
    "length t = KVS_ARRAY_SIZE"
    and above: "\<forall>i < length t. idx inst \<le> i \<longrightarrow> akey (t ! i) = None"
    and tot: "total inst = int (card (live t))"
    by (rule array_invE)
  have nokey: "akey (t ! j) \<noteq> Some k" if "j < length t" for j
    using array_map_NoneD [OF t(1,2) new that] .
  let ?x = "\<lparr>akey = Some k, avalue = Some v\<rparr>"
  have fill: "array_inv (inst\<lparr>table := Some (t[i := ?x]), idx := n, total := total inst + 1\<rparr>) \<and>
      array_map (inst\<lparr>table := Some (t[i := ?x]), idx := n, total := total inst + 1\<rparr>) =
        (array_map inst)(k \<mapsto> v)"
    if "i < length t" "akey (t ! i) = None" "i < n" "idx inst \<le> n" "n \<le> length t" for i n
  proof
    have "i \<notin> live t" using that(2) by (simp add: live_def)
    then have "card (live (t[i := ?x])) = Suc (card (live t))"
      using that(1) by (simp add: live_update)
    then show "array_inv (inst\<lparr>table := Some (t[i := ?x]), idx := n, total := total inst + 1\<rparr>)"
      using that above t(4) tot table_inv_fill [OF t(2) that(1) nokey]
      by (auto simp: array_inv_def nth_list_update)
    show "array_map (inst\<lparr>table := Some (t[i := ?x]), idx := n, total := total inst + 1\<rparr>) =
        (array_map inst)(k \<mapsto> v)"
      by (rule array_map_fill [OF t(1,2) that(1) nokey]) (use that in auto)
  qed
  show ?thesis
  proof (cases "find (\<lambda>j. akey (t ! j) = None) [0..<idx inst]")
    case (Some i)
    then have i: "i < idx inst" "akey (t ! i) = None" by (simp_all add: find_upt_Some)
    with t fill [of i "idx inst"] show ?thesis
      using Some room new ok
      by (auto simp: kvs_array_set_def array_get_correct [OF inv] scan_find [OF t(1,3)])
  next
    case None
    have "idx inst < KVS_ARRAY_SIZE"
    proof (rule ccontr)
      assume "\<not> idx inst < KVS_ARRAY_SIZE"
      with t None have "live t = {0..<KVS_ARRAY_SIZE}"
        by (auto simp: live_def find_upt_None)
      with tot room show False by simp
    qed
    with t fill [of "idx inst" "Suc (idx inst)"] above show ?thesis
      using None room new ok
      by (auto simp: kvs_array_set_def array_get_correct [OF inv] scan_find [OF t(1,3)])
  qed
qed

lemma shrink_correct:
  "table inst = Some t \<Longrightarrow> n \<le> length t \<Longrightarrow>
   \<exists>m. shrink inst n = Some m \<and> m \<le> n \<and> (\<forall>i. m \<le> i \<longrightarrow> i < n \<longrightarrow> akey (t ! i) = None) \<and>
       (m = 0 \<or> akey (t ! (m - 1)) \<noteq> None)"
proof (induction n)
  case (Suc n)
  then show ?case
    by (cases "akey (t ! n) = None") (auto simp: less_Suc_eq)
qed simp

lemma array_del_miss:
  assumes "array_inv inst" "array_map inst k = None"
  shows "kvs_array_del inst (Some k) = Some (1, inst)"
proof -
  from assms(1) obtain t where "table inst = Some t" by (rule array_invE)
  with scan_key(1) [OF assms(1) this assms(2)] show ?thesis by (simp add: kvs_array_del_def)
qed

lemma array_del_hit:
  assumes inv: "array_inv inst" and hit: "array_map inst k \<noteq> None"
  shows "\<exists>inst'. kvs_array_del inst (Some k) = Some (0, inst') \<and> array_inv inst' \<and>
           array_map inst' = (array_map inst)(k := None)"
proof -
  from inv obtain t where t: "table inst = Some t" "table_inv t" "idx inst \<le> length t"
    "length t = KVS_ARRAY_SIZE"
    and above: "\<forall>i < length t. idx inst \<le> i \<longrightarrow> akey (t ! i) = None"
    and tot: "total inst = int (card (live t))"
    by (rule array_invE)
  obtain i where i: "scan (holds_key k) inst 0 = Some (Some i)" "i < length t"
    "i < idx inst" "akey (t ! i) = Some k"
    using scan_key(2) [OF inv t(1) hit] by auto
  let ?t' = "t[i := \<lparr>akey = None, avalue = None\<rparr>]"
  let ?inst = "inst\<lparr>table := Some ?t'\<rparr>"
  obtain m where m: "shrink ?inst (idx inst) = Some m" "m \<le> idx inst"
    "\<forall>j. m \<le> j \<longrightarrow> j < idx inst \<longrightarrow> akey (?t' ! j) = None"
    using shrink_correct [of ?inst ?t' "idx inst"] t(3) by auto
  let ?inst' = "?inst\<lparr>total := total inst - 1, idx := m\<rparr>"
  have "kvs_array_del inst (Some k) = Some (0, ?inst')"
    using i m t by (simp add: kvs_array_del_def)
  moreover have "i \<in> live t" using i by (simp add: live_def)
  then have "int (card (live ?t')) = int (card (live t)) - 1"
    using i(2) card_Diff_singleton [of i "live t"] card_gt_0_iff [of "live t"]
    by (auto simp: live_update)
  moreover have "akey (?t' ! j) = None" if "j < length t" "m \<le> j" for j
    using that m(3) above by (cases "j < idx inst"; cases "j = i") auto
  ultimately have "array_inv ?inst'"
    using m(2) t tot table_inv_clear [OF t(2) i(2)] by (simp add: array_inv_def)
  moreover have "array_map ?inst' = (array_map inst)(k := None)"
    by (rule array_map_clear [OF t(1,2) i(2,4)]) simp
  ultimately show ?thesis
    using \<open>kvs_array_del inst (Some k) = Some (0, ?inst')\<close> by blast
qed

lemma array_mod_miss:
  assumes "array_inv inst" "array_map inst k = None"
  shows "kvs_array_mod e inst (Some k) (Some v) = Some (1, inst)"
proof -
  from assms(1) obtain t where "table inst = Some t" by (rule array_invE)
  with scan_key(1) [OF assms(1) this assms(2)] show ?thesis by (simp add: kvs_array_mod_def)
qed

lemma array_mod_hit:
  assumes inv: "array_inv inst" and hit: "array_map inst k \<noteq> None" and ok: "env_ok e"
  shows "\<exists>inst'. kvs_array_mod e inst (Some k) (Some v) = Some (0, inst') \<and> array_inv inst' \<and>
           array_map inst' = (array_map inst)(k \<mapsto> v)"
proof -
  from inv obtain t where t: "table inst = Some t" "table_inv t" "idx inst \<le> length t"
    "length t = KVS_ARRAY_SIZE"
    and above: "\<forall>i < length t. idx inst \<le> i \<longrightarrow> akey (t ! i) = None"
    and tot: "total inst = int (card (live t))"
    by (rule array_invE)
  obtain i where i: "scan (holds_key k) inst 0 = Some (Some i)" "i < length t"
    "i < idx inst" "akey (t ! i) = Some k"
    using scan_key(2) [OF inv t(1) hit] by auto
  let ?x = "\<lparr>akey = Some k, avalue = Some v\<rparr>"
  have x: "(t ! i)\<lparr>avalue := Some v\<rparr> = ?x" using i(4) by simp
  have other: "akey (t ! j) \<noteq> Some k" if "j < length t" "j \<noteq> i" for j
    using table_inv_unique [OF t(2) that(1) i(2) _ i(4)] that(2) by blast
  let ?inst' = "inst\<lparr>table := Some (t[i := ?x])\<rparr>"
  have "kvs_array_mod e inst (Some k) (Some v) = Some (0, ?inst')"
    using i t ok by (simp add: kvs_array_mod_def x)
  moreover have "i \<in> live t" using i by (simp add: live_def)
  then have "live (t[i := ?x]) = live t" using i(2) by (simp add: live_update insert_absorb)
  then have "array_inv ?inst'"
    using t tot above i table_inv_fill [OF t(2) i(2) other]
    by (auto simp: array_inv_def nth_list_update)
  moreover have "array_map ?inst' = (array_map inst)(k \<mapsto> v)"
    by (rule array_map_fill [OF t(1,2) i(2) other]) (use i in auto)
  ultimately show ?thesis by blast
qed

lemma array_start_inv: "array_inv array_start"
  by (auto simp: array_inv_def array_start_def table_inv_def free_item_def live_def)

lemma array_start_map: "array_map array_start = Map.empty"
  by (rule ext, rule array_map_None) (auto simp: array_start_def free_item_def)

interpretation arr: kv_engine array_ops array_start array_inv array_map "\<lambda>_. True" "enat KVS_ARRAY_SIZE"
proof unfold_locales
  fix s k e v
  assume inv: "array_inv s"
  show "finite (dom (array_map s))" by (rule card_dom_array_map(1) [OF inv])
  show "op_get array_ops s (Some k) = Some (array_map s k)"
    by (simp add: array_ops_def array_get_correct [OF inv])
  show "op_exist array_ops s (Some k) = Some (if array_map s k = None then 1 else 0)"
    by (simp add: array_ops_def array_exist_correct [OF inv])
  { assume "\<not> has_room KVS_ARRAY_SIZE (array_map s)"
    then show "op_set array_ops e s (Some k) (Some v) = Some (-1, s)"
      by (simp add: array_ops_def has_room_array [OF inv] array_set_full) }
  { assume "has_room KVS_ARRAY_SIZE (array_map s)" "array_map s k \<noteq> None"
    then show "op_set array_ops e s (Some k) (Some v) = Some (1, s)"
      by (simp add: array_ops_def has_room_array [OF inv] array_set_dup [OF inv]) }
  { assume "env_ok e" "has_room KVS_ARRAY_SIZE (array_map s)" "array_map s k = None"
    then show "\<exists>s'. op_set array_ops e s (Some k) (Some v) = Some (0, s') \<and> array_inv s' \<and>
        array_map s' = (array_map s)(k \<mapsto> v)"
      by (simp add: array_ops_def has_room_array [OF inv] array_set_new [OF inv]) }
  { assume "array_map s k = None"
    then show "op_del array_ops s (Some k) = Some (1, s)"
      by (simp add: array_ops_def array_del_miss [OF inv]) }
  { assume "array_map s k \<noteq> None"
    then show "\<exists>s'. op_del array_ops s (Some k) = Some (0, s') \<and> array_inv s' \<and>
        array_map s' = (array_map s)(k := None)"
      by (simp add: array_ops_def array_del_hit [OF inv]) }
  { assume "array_map s k = None"
    then show "op_mod array_ops e s (Some k) (Some v) = Some (1, s)"
      by (simp add: array_ops_def array_mod_miss [OF inv]) }
  { assume "env_ok e" "array_map s k \<noteq> None"
    then show "\<exists>s'. op_mod array_ops e s (Some k) (Some v) = Some (0, s') \<and> array_inv s' \<and>
        array_map s' = (array_map s)(k \<mapsto> v)"
      by (simp add: array_ops_def array_mod_hit [OF inv]) }
qed (simp_all add: array_start_inv array_start_map)

section \<open>Properties of the array engine\<close>

text \<open>C13: Any sequence of set, get, del, mod and exist calls on a freshly created array returns,
  when memory suffices, exactly the replies of a map of at most 12000 keys (set refuses a
  present key and a full table, mod and del refuse an absent key), without any fault.\<close>

theorem array_refines_map:
  assumes "\<forall>(e, c) \<in> set ecs. env_ok e"
  shows "\<exists>s'. eng_run array_ops array_start ecs =
        Some (fst (spec_run (enat KVS_ARRAY_SIZE) Map.empty (map snd ecs)), s') \<and>
      array_inv s' \<and> array_map s' = snd (spec_run (enat KVS_ARRAY_SIZE) Map.empty (map snd ecs))"
  by (rule arr.run_from_start) (use assms in auto)

theorem array_refines_map_witness:
  "\<exists>s'. eng_run array_ops array_start
      [(env0, KSet ''a'' ''1''), (env0, KSet ''a'' ''2''), (env0, KMod ''a'' ''3''), (env0, KGet ''a''),
       (env0, KDel ''a''), (env0, KGet ''a'')] =
     Some ([Code 0, Code 1, Code 0, Val (Some ''3''), Code 0, Val None], s')"
  using array_refines_map [of "[(env0, KSet ''a'' ''1''), (env0, KSet ''a'' ''2''),
      (env0, KMod ''a'' ''3''), (env0, KGet ''a''), (env0, KDel ''a''), (env0, KGet ''a'')]"]
  by (auto simp: has_room_def KVS_ARRAY_SIZE_def)

text \<open>Reading a table in which only the value of one slot has changed.\<close>

lemma array_get_value_write:
  assumes inv: "array_inv s" and t: "table s = Some t" and i: "i < length t" "akey (t ! i) = Some k"
  shows "kvs_array_get (s\<lparr>table := Some (t[i := (t ! i)\<lparr>avalue := w\<rparr>])\<rparr>) (Some q) =
     (if q = k then Some w else kvs_array_get s (Some q))"
proof -
  let ?t = "t[i := (t ! i)\<lparr>avalue := w\<rparr>]"
  let ?s = "s\<lparr>table := Some ?t\<rparr>"
  have le: "idx s \<le> length t" and ti: "table_inv t" and lt: "i < idx s"
    using inv t i by (auto elim!: array_invE simp: not_less [symmetric])
  have keys: "akey (?t ! j) = akey (t ! j)" for j by (cases "j = i") (use i in auto)
  have sc: "scan (holds_key q) ?s 0 = Some (find (\<lambda>j. akey (t ! j) = Some q) [0..<idx s])"
    "scan (holds_key q) s 0 = Some (find (\<lambda>j. akey (t ! j) = Some q) [0..<idx s])"
    using scan_find [of ?s ?t "holds_key q" 0] scan_find [OF t le, of "holds_key q" 0] le keys
    by (simp_all add: holds_key_iff)
  show ?thesis
  proof (cases "find (\<lambda>j. akey (t ! j) = Some q) [0..<idx s]")
    case None
    then have "q \<noteq> k" using lt i by (auto simp: find_upt_None)
    then show ?thesis using None sc by (simp add: kvs_array_get_def)
  next
    case (Some j)
    then have j: "j < length t" "akey (t ! j) = Some q" using le by (auto simp: find_upt_Some)
    then have "q = k \<longleftrightarrow> j = i" using table_inv_unique [OF ti j(1) i(1)] i by auto
    then show ?thesis using Some sc i j t by (auto simp: kvs_array_get_def)
  qed
qed

text \<open>A mod whose allocation fails returns -2 and the old value is lost: the key then
  reads as absent although its slot stays occupied, while every other key keeps its value.\<close>

lemma array_mod_out_of_memory:
  assumes "array_inv s" and "\<not> alloc e 0" and "array_map s k \<noteq> None"
  shows "\<exists>s'. kvs_array_mod e s (Some k) (Some v) = Some (-2, s') \<and>
      kvs_array_get s' (Some k) = Some None \<and> kvs_array_exist s' (Some k) = Some 1 \<and>
      total s' = total s \<and>
      (\<forall>q. q \<noteq> k \<longrightarrow> kvs_array_get s' (Some q) = kvs_array_get s (Some q))"
proof -
  from assms(1) obtain t where t: "table s = Some t" by (rule array_invE)
  from scan_key(2) [OF assms(1) t assms(3)] obtain i where i: "scan (holds_key k) s 0 = Some (Some i)"
    "i < length t" "akey (t ! i) = Some k" by blast
  note get = array_get_value_write [OF assms(1) t i(2,3), of None]
  have "kvs_array_mod e s (Some k) (Some v) =
      Some (-2, s\<lparr>table := Some (t[i := (t ! i)\<lparr>avalue := None\<rparr>])\<rparr>)"
    using i t assms(2) by (simp add: kvs_array_mod_def kvs_strdup_Some)
  then show ?thesis by (auto simp: get kvs_array_exist_def)
qed

end
