(* ===== verification/Kvs_Hash.thy ===== *)
theory Kvs_Hash
  imports Engine_Spec
begin

text \<open>
  The hash engine (\<open>src/engine/kvs_hash.c\<close>): \<open>MAX_TABLE_SIZE\<close> buckets, each a singly linked
  chain of nodes with their own copies of key and value (the \<open>ENABLE_KEY_POINTER\<close> build).

  A chain is the list of its nodes. A node whose value pointer dangles (what
  \<open>kvs_hash_mod\<close> leaves when its allocation fails) has \<open>hvalue = None\<close>; using it is a fault,
  as is indexing \<open>nodes\<close> outside the table, which \<open>hash_of\<close> makes possible: it sums signed
  \<open>char\<close>s and C's \<open>%\<close> keeps the sign. \<open>hash_key_ok\<close> names the keys with a bucket, and
  the engine is an interpretation of \<open>kv_engine\<close> for those keys.
\<close>

record hashnode_t =
  hkey :: string
  hvalue :: cstr

definition MAX_TABLE_SIZE :: nat where
  "MAX_TABLE_SIZE = 1024"

record kvs_hash_t =
  nodes :: "hashnode_t list list option"
  max_slots :: int
  count :: int

definition hash_zero :: kvs_hash_t where
  "hash_zero = \<lparr>nodes = None, max_slots = 0, count = 0\<rparr>"

text \<open>\<open>_hash\<close>: the loop \<open>sum += key[i]\<close> over signed characters, then \<open>sum % size\<close>. The sum of a key of at most
  \<open>2 ^ 24\<close> bytes fits an \<open>int\<close> (\<open>hash_sum_bound\<close>); a message of the server has at most 1024 bytes and a
  string of a dump at most \<open>2 ^ 20\<close>, so that no key is longer.\<close>

fun hash_sum :: "string \<Rightarrow> int \<Rightarrow> int" where
  "hash_sum [] acc = acc"
| "hash_sum (c # cs) acc = hash_sum cs (acc + schar c)"

definition hash_of :: "cstr \<Rightarrow> int \<Rightarrow> int" where
  "hash_of key sz = (case key of None \<Rightarrow> -1 | Some k \<Rightarrow> hash_sum k 0 smod sz)"

text \<open>\<open>_create_node\<close>: three allocations; NULL when one fails.\<close>

definition create_node :: "env \<Rightarrow> string \<Rightarrow> string \<Rightarrow> hashnode_t option" where
  "create_node e key value =
     (if \<not> kvs_malloc e 0 then None
      else if \<not> kvs_malloc e 1 then None
      else if \<not> kvs_malloc e 2 then None
      else Some \<lparr>hkey = key, hvalue = Some value\<rparr>)"

definition kvs_hash_create :: "env \<Rightarrow> kvs_hash_t \<Rightarrow> int \<times> kvs_hash_t" where
  "kvs_hash_create e hash =
     (if \<not> kvs_calloc e 0 then (-1, hash\<lparr>nodes := None\<rparr>)
      else (0, hash\<lparr>nodes := Some (replicate MAX_TABLE_SIZE []),
                    max_slots := int MAX_TABLE_SIZE, count := 0\<rparr>))"

text \<open>\<open>kvs_hash_destroy\<close> frees every node and the bucket array; no field is reset, and
  \<open>nodes\<close> dangles.\<close>

definition kvs_hash_destroy :: "kvs_hash_t \<Rightarrow> kvs_hash_t" where
  "kvs_hash_destroy hash = hash\<lparr>nodes := None\<rparr>"

definition bucket :: "kvs_hash_t \<Rightarrow> int \<Rightarrow> hashnode_t list option" where
  "bucket hash i = (case nodes hash of None \<Rightarrow> None
     | Some t \<Rightarrow> if 0 \<le> i \<and> i < int (length t) then Some (t ! nat i) else None)"

definition set_bucket :: "kvs_hash_t \<Rightarrow> int \<Rightarrow> hashnode_t list \<Rightarrow> kvs_hash_t option" where
  "set_bucket hash i ns = (case nodes hash of None \<Rightarrow> None
     | Some t \<Rightarrow> if 0 \<le> i \<and> i < int (length t) then Some (hash\<lparr>nodes := Some (t[nat i := ns])\<rparr>) else None)"

text \<open>The walk \<open>while (node != NULL) { if (strcmp(node->key, key) == 0) ...; node = node->next; }\<close>.\<close>

fun chain_find :: "string \<Rightarrow> hashnode_t list \<Rightarrow> hashnode_t option" where
  "chain_find key [] = None"
| "chain_find key (node # rest) = (if strcmp (hkey node) key = 0 then Some node else chain_find key rest)"

definition kvs_hash_set :: "env \<Rightarrow> kvs_hash_t \<Rightarrow> cstr \<Rightarrow> cstr \<Rightarrow> (int \<times> kvs_hash_t) option" where
  "kvs_hash_set e hash key value =
     (case (key, value) of
        (Some k, Some v) \<Rightarrow> do {
          let idx = hash_of key (int MAX_TABLE_SIZE);
          chain \<leftarrow> bucket hash idx;
          if chain_find k chain \<noteq> None then Some (1, hash)
          else do {
            new_node \<leftarrow> create_node e k v;
            hash' \<leftarrow> set_bucket hash idx (new_node # chain);
            Some (0, hash'\<lparr>count := count hash + 1\<rparr>) } }
      | _ \<Rightarrow> Some (-1, hash))"

definition kvs_hash_get :: "kvs_hash_t \<Rightarrow> cstr \<Rightarrow> cstr option" where
  "kvs_hash_get hash key =
     (case key of None \<Rightarrow> Some None
      | Some k \<Rightarrow> do {
          chain \<leftarrow> bucket hash (hash_of key (int MAX_TABLE_SIZE));
          case chain_find k chain of None \<Rightarrow> Some None
          | Some node \<Rightarrow> (case hvalue node of None \<Rightarrow> None | Some v \<Rightarrow> Some (Some v)) })"

text \<open>The update \<open>kvs_hash_mod\<close> makes to the first node of the chain that holds the key.\<close>

fun chain_update :: "string \<Rightarrow> cstr \<Rightarrow> hashnode_t list \<Rightarrow> hashnode_t list" where
  "chain_update key v [] = []"
| "chain_update key v (node # rest) =
     (if strcmp (hkey node) key = 0 then node\<lparr>hvalue := v\<rparr> # rest
      else node # chain_update key v rest)"

text \<open>\<open>kvs_hash_mod\<close> frees the old value before it allocates the new one: when the allocation
  fails it returns -2 and the node keeps a dangling value. Freeing a dangling value is a fault. The
  new value is not checked for NULL (\<open>strlen(NULL)\<close> faults).\<close>

definition kvs_hash_mod :: "env \<Rightarrow> kvs_hash_t \<Rightarrow> cstr \<Rightarrow> cstr \<Rightarrow> (int \<times> kvs_hash_t) option" where
  "kvs_hash_mod e hash key value =
     (case key of None \<Rightarrow> Some (-1, hash)
      | Some k \<Rightarrow> do {
          let idx = hash_of key (int MAX_TABLE_SIZE);
          chain \<leftarrow> bucket hash idx;
          case chain_find k chain of None \<Rightarrow> Some (1, hash)
          | Some node \<Rightarrow> do {
              old \<leftarrow> hvalue node;
              v \<leftarrow> value;
              if \<not> kvs_malloc e 0 then do {
                hash' \<leftarrow> set_bucket hash idx (chain_update k None chain);
                Some (-2, hash') }
              else do {
                hash' \<leftarrow> set_bucket hash idx (chain_update k (Some v) chain);
                Some (0, hash') } } })"

definition kvs_hash_count :: "kvs_hash_t \<Rightarrow> int" where
  "kvs_hash_count hash = count hash"

text \<open>The second half of \<open>kvs_hash_del\<close>: from a node \<open>cur\<close> that is not the one sought, look
  for the first \<open>cur->next\<close> with the key and unlink it. \<open>None\<close> means the end was reached.\<close>

fun chain_unlink :: "string \<Rightarrow> hashnode_t list \<Rightarrow> hashnode_t list option" where
  "chain_unlink key [] = None"
| "chain_unlink key [cur] = None"
| "chain_unlink key (cur # nxt # rest) =
     (if strcmp (hkey nxt) key = 0 then Some (cur # rest)
      else map_option (\<lambda>ns. cur # ns) (chain_unlink key (nxt # rest)))"

text \<open>The node that is unlinked is the first one with the key; its key and value are freed with it.\<close>

definition kvs_hash_del :: "kvs_hash_t \<Rightarrow> cstr \<Rightarrow> (int \<times> kvs_hash_t) option" where
  "kvs_hash_del hash key =
     (case key of None \<Rightarrow> Some (-2, hash)
      | Some k \<Rightarrow> do {
          let idx = hash_of key (int MAX_TABLE_SIZE);
          chain \<leftarrow> bucket hash idx;
          case chain of [] \<Rightarrow> Some (1, hash)
          | head # rest \<Rightarrow>
              if strcmp (hkey head) k = 0 then do {
                old \<leftarrow> hvalue head;
                hash' \<leftarrow> set_bucket hash idx rest;
                Some (0, hash'\<lparr>count := count hash - 1\<rparr>) }
              else (case chain_unlink k chain of None \<Rightarrow> Some (1, hash)
                | Some ns \<Rightarrow> do {
                    tmp \<leftarrow> chain_find k chain;
                    old \<leftarrow> hvalue tmp;
                    hash' \<leftarrow> set_bucket hash idx ns;
                    Some (0, hash'\<lparr>count := count hash - 1\<rparr>) }) })"

definition kvs_hash_exist :: "kvs_hash_t \<Rightarrow> cstr \<Rightarrow> int option" where
  "kvs_hash_exist hash key = do { value \<leftarrow> kvs_hash_get hash key; Some (if value = None then 1 else 0) }"

definition hash_ops :: "kvs_hash_t engine_ops" where
  "hash_ops = \<lparr>op_set = kvs_hash_set, op_get = kvs_hash_get, op_del = kvs_hash_del,
     op_mod = kvs_hash_mod, op_exist = kvs_hash_exist\<rparr>"

definition hash_start :: kvs_hash_t where
  "hash_start = \<lparr>nodes = Some (replicate MAX_TABLE_SIZE []), max_slots = int MAX_TABLE_SIZE, count = 0\<rparr>"

text \<open>Keys with a bucket; the map the table denotes; the invariant.\<close>

definition hash_key_ok :: "string \<Rightarrow> bool" where
  "hash_key_ok k \<longleftrightarrow> 0 \<le> hash_of (Some k) (int MAX_TABLE_SIZE)"

definition hash_map :: "kvs_hash_t \<Rightarrow> kv_map" where
  "hash_map hash k =
     (case nodes hash of None \<Rightarrow> None
      | Some t \<Rightarrow> (case find (\<lambda>node. hkey node = k) (concat t) of None \<Rightarrow> None | Some node \<Rightarrow> hvalue node))"

definition chain_inv :: "nat \<Rightarrow> hashnode_t list \<Rightarrow> bool" where
  "chain_inv i ns \<longleftrightarrow> distinct (map hkey ns) \<and>
     (\<forall>node \<in> set ns. hash_of (Some (hkey node)) (int MAX_TABLE_SIZE) = int i \<and> hvalue node \<noteq> None)"

definition hash_inv :: "kvs_hash_t \<Rightarrow> bool" where
  "hash_inv hash \<longleftrightarrow> (\<exists>t. nodes hash = Some t \<and> length t = MAX_TABLE_SIZE \<and>
     max_slots hash = int MAX_TABLE_SIZE \<and>
     (\<forall>i < length t. chain_inv i (t ! i)) \<and> count hash = int (length (concat t)))"

lemma hash_sum_acc: "hash_sum k acc = acc + hash_sum k 0"
proof (induction k arbitrary: acc)
  case (Cons c k)
  show ?case
    using Cons.IH [of "acc + schar c"] Cons.IH [of "schar c"] by simp
qed simp

lemma hash_sum_bound: "- 128 * int (length k) \<le> hash_sum k 0" "hash_sum k 0 \<le> 127 * int (length k)"
proof (induction k)
  case (Cons c k)
  {
    case 1
    show ?case using Cons.IH(1) schar_range(1) [of c] hash_sum_acc [of k "schar c"] by simp
  next
    case 2
    show ?case using Cons.IH(2) schar_range(2) [of c] hash_sum_acc [of k "schar c"] by simp
  }
qed simp_all

lemma hash_of_range: "- int MAX_TABLE_SIZE < hash_of (Some k) (int MAX_TABLE_SIZE)"
    "hash_of (Some k) (int MAX_TABLE_SIZE) < int MAX_TABLE_SIZE"
  using smod_bounds [of "int MAX_TABLE_SIZE"] by (simp_all add: hash_of_def MAX_TABLE_SIZE_def)

text \<open>Chains as partial maps.\<close>

definition chain_val :: "string \<Rightarrow> hashnode_t list \<Rightarrow> cstr" where
  "chain_val k ns = (case chain_find k ns of None \<Rightarrow> None | Some node \<Rightarrow> hvalue node)"

lemma chain_find_eq: "chain_find k ns = find (\<lambda>node. hkey node = k) ns"
  by (induction ns) auto

lemma chain_find_Some: "chain_find k ns = Some node \<Longrightarrow> node \<in> set ns \<and> hkey node = k"
  by (induction ns) (auto split: if_splits)

lemma chain_find_None: "chain_find k ns = None \<longleftrightarrow> k \<notin> hkey ` set ns"
  by (induction ns) auto

lemma chain_find_value: "chain_inv i ns \<Longrightarrow> chain_find k ns = Some node \<Longrightarrow> \<exists>v. hvalue node = Some v"
  by (auto simp: chain_inv_def dest!: chain_find_Some)

lemma chain_val_None: "chain_inv i ns \<Longrightarrow> chain_val k ns = None \<longleftrightarrow> chain_find k ns = None"
  by (auto simp: chain_val_def chain_inv_def split: option.splits dest!: chain_find_Some)

lemma chain_val_Cons: "chain_val q (node # ns) = (if hkey node = q then hvalue node else chain_val q ns)"
  by (simp add: chain_val_def)

lemma chain_inv_Cons:
  "chain_inv i (node # ns) \<longleftrightarrow> chain_inv i ns \<and> hkey node \<notin> hkey ` set ns \<and>
     hash_of (Some (hkey node)) (int MAX_TABLE_SIZE) = int i \<and> hvalue node \<noteq> None"
  by (auto simp: chain_inv_def)

lemma chain_update_keys: "map hkey (chain_update k w ns) = map hkey ns"
  by (induction ns) auto

lemma chain_update_length [simp]: "length (chain_update k w ns) = length ns"
  by (induction ns) auto

lemma chain_update_inv: "chain_inv i ns \<Longrightarrow> chain_inv i (chain_update k (Some v) ns)"
proof (induction ns)
  case (Cons node ns)
  then show ?case
    using arg_cong [OF chain_update_keys [of k "Some v" ns], of set]
    by (auto simp: chain_inv_Cons simp del: list.set_map)
qed simp

lemma chain_update_val:
  "chain_val q (chain_update k w ns) =
     (if q = k \<and> chain_find k ns \<noteq> None then w else chain_val q ns)"
  by (induction ns) (auto simp: chain_val_Cons)

abbreviation without :: "string \<Rightarrow> hashnode_t list \<Rightarrow> hashnode_t list" where
  "without k ns \<equiv> filter (\<lambda>node. hkey node \<noteq> k) ns"

lemma without_id: "k \<notin> hkey ` set ns \<Longrightarrow> without k ns = ns"
  by (auto simp: filter_id_conv)

lemma chain_unlink_eq:
  "hkey cur \<noteq> k \<Longrightarrow> distinct (map hkey (cur # ns)) \<Longrightarrow>
   chain_unlink k (cur # ns) = (if chain_find k ns = None then None else Some (without k (cur # ns)))"
  by (induction ns arbitrary: cur) (auto simp: chain_find_None without_id)

lemma without_inv: "chain_inv i ns \<Longrightarrow> chain_inv i (without k ns)"
  by (induction ns) (auto simp: chain_inv_Cons)

lemma without_val: "chain_val q (without k ns) = (if q = k then None else chain_val q ns)"
  by (induction ns) (auto simp: chain_val_def)

lemma without_length:
  "distinct (map hkey ns) \<Longrightarrow> chain_find k ns \<noteq> None \<Longrightarrow> Suc (length (without k ns)) = length ns"
proof (induction ns)
  case (Cons node ns)
  then show ?case
    by (cases "hkey node = k") (auto simp: without_id)
qed simp

text \<open>Tables: every key lives in the bucket its hash names, so a bucket write changes the map
  for the keys of that bucket only.\<close>

definition buckets_ok :: "hashnode_t list list \<Rightarrow> bool" where
  "buckets_ok t \<longleftrightarrow> length t = MAX_TABLE_SIZE \<and> (\<forall>i < length t. chain_inv i (t ! i))"

abbreviation home :: "string \<Rightarrow> nat" where
  "home k \<equiv> nat (hash_of (Some k) (int MAX_TABLE_SIZE))"

lemma home_less: "hash_key_ok k \<Longrightarrow> home k < MAX_TABLE_SIZE"
  using hash_of_range(2) [of k] by (auto simp: hash_key_ok_def)

lemma bucket_home:
  "nodes h = Some t \<Longrightarrow> buckets_ok t \<Longrightarrow> hash_key_ok k \<Longrightarrow>
   bucket h (hash_of (Some k) (int MAX_TABLE_SIZE)) = Some (t ! home k)"
  using hash_of_range(2) [of k] by (auto simp: bucket_def buckets_ok_def hash_key_ok_def)

lemma set_bucket_home:
  "nodes h = Some t \<Longrightarrow> buckets_ok t \<Longrightarrow> hash_key_ok k \<Longrightarrow>
   set_bucket h (hash_of (Some k) (int MAX_TABLE_SIZE)) ns = Some (h\<lparr>nodes := Some (t[home k := ns])\<rparr>)"
  using hash_of_range(2) [of k] by (auto simp: set_bucket_def buckets_ok_def hash_key_ok_def)

lemma hash_map_home:
  assumes "nodes h = Some t" "buckets_ok t"
  shows "hash_map h k = (if hash_key_ok k then chain_val k (t ! home k) else None)"
proof -
  have away: "find (\<lambda>node. hkey node = k) (t ! j) = None"
    if "j < length t" "hash_of (Some k) (int MAX_TABLE_SIZE) \<noteq> int j" for j
    using that assms(2) by (auto simp: find_None_iff buckets_ok_def chain_inv_def)
  show ?thesis
  proof (cases "hash_key_ok k")
    case True
    have "find (\<lambda>node. hkey node = k) (concat t) = find (\<lambda>node. hkey node = k) (t ! home k)"
    proof (rule find_concat_nth)
      show "home k < length t"
        using home_less [OF True] assms(2) by (simp add: buckets_ok_def)
      fix j assume "j < length t" "j \<noteq> home k"
      then show "find (\<lambda>node. hkey node = k) (t ! j) = None"
        by (intro away) auto
    qed
    then show ?thesis
      using True assms(1) by (simp add: hash_map_def chain_val_def chain_find_eq)
  next
    case False
    have "find (\<lambda>node. hkey node = k) (concat t) = None"
    proof -
      have "hash_of (Some k) (int MAX_TABLE_SIZE) \<noteq> int j" for j
        using False by (auto simp: hash_key_ok_def)
      then have "\<forall>ns\<in>set t. find (\<lambda>node. hkey node = k) ns = None"
        using away by (auto simp: in_set_conv_nth)
      then show ?thesis
        by (auto simp: find_None_iff)
    qed
    then show ?thesis
      using False assms(1) by (simp add: hash_map_def)
  qed
qed

lemma hash_invE:
  assumes "hash_inv h"
  obtains t where "nodes h = Some t" "buckets_ok t" "max_slots h = int MAX_TABLE_SIZE"
    "count h = int (length (concat t))"
  using assms by (auto simp: hash_inv_def buckets_ok_def)

lemma hash_write:
  assumes t: "nodes h = Some t" "buckets_ok t" and k: "hash_key_ok k" and m: "max_slots h = int MAX_TABLE_SIZE"
    and ns: "chain_inv (home k) ns"
    and val: "\<And>q. chain_val q ns = (if q = k then w else chain_val q (t ! home k))"
    and c: "c = int (length (concat t)) + int (length ns) - int (length (t ! home k))"
  shows "hash_inv (h\<lparr>nodes := Some (t[home k := ns]), count := c\<rparr>) \<and>
    hash_map (h\<lparr>nodes := Some (t[home k := ns]), count := c\<rparr>) = (hash_map h)(k := w)"
proof
  have i: "home k < length t" using home_less [OF k] t(2) by (simp add: buckets_ok_def)
  have ok: "buckets_ok (t[home k := ns])"
    using t(2) ns i by (auto simp: buckets_ok_def nth_list_update)
  have "c = int (length (concat (t[home k := ns])))"
    using length_concat_update [OF i, of ns] c by linarith
  with ok m show "hash_inv (h\<lparr>nodes := Some (t[home k := ns]), count := c\<rparr>)"
    by (auto simp: hash_inv_def buckets_ok_def)
  show "hash_map (h\<lparr>nodes := Some (t[home k := ns]), count := c\<rparr>) = (hash_map h)(k := w)"
  proof
    fix q
    have "chain_val q (t[home k := ns] ! home q) = (if q = k then w else chain_val q (t ! home q))"
      using val [of q] i by (cases "home q = home k") auto
    then show "hash_map (h\<lparr>nodes := Some (t[home k := ns]), count := c\<rparr>) q = ((hash_map h)(k := w)) q"
      using k by (cases "q = k") (simp_all add: hash_map_home [OF t] hash_map_home [OF _ ok])
  qed
qed

lemma hash_get_correct:
  assumes "hash_inv h" "hash_key_ok k"
  shows "kvs_hash_get h (Some k) = Some (hash_map h k)"
proof -
  from assms(1) obtain t where t: "nodes h = Some t" "buckets_ok t" by (rule hash_invE)
  have "chain_inv (home k) (t ! home k)"
    using t(2) home_less [OF assms(2)] by (simp add: buckets_ok_def)
  then show ?thesis
    using assms(2) by (auto simp: kvs_hash_get_def bucket_home [OF t] hash_map_home [OF t]
        chain_val_def chain_inv_def split: option.splits dest!: chain_find_Some)
qed

lemma hash_step:
  assumes "hash_inv h" "hash_key_ok k"
  obtains t where "nodes h = Some t" "buckets_ok t" "max_slots h = int MAX_TABLE_SIZE"
    "count h = int (length (concat t))" "chain_inv (home k) (t ! home k)"
    "hash_map h k = None \<longleftrightarrow> chain_find k (t ! home k) = None"
proof -
  from assms(1) obtain t where t: "nodes h = Some t" "buckets_ok t" "max_slots h = int MAX_TABLE_SIZE"
    "count h = int (length (concat t))" by (rule hash_invE)
  have ci: "chain_inv (home k) (t ! home k)"
    using t(2) home_less [OF assms(2)] by (simp add: buckets_ok_def)
  then have "hash_map h k = None \<longleftrightarrow> chain_find k (t ! home k) = None"
    using assms(2) by (simp add: hash_map_home [OF t(1,2)] chain_val_None)
  with t ci show thesis by (rule that)
qed

lemma hash_set_dup:
  assumes "hash_inv h" "hash_key_ok k" "hash_map h k \<noteq> None"
  shows "kvs_hash_set e h (Some k) (Some v) = Some (1, h)"
  using assms(1,2)
proof (rule hash_step)
  fix t assume "nodes h = Some t" "buckets_ok t"
    and "hash_map h k = None \<longleftrightarrow> chain_find k (t ! home k) = None"
  then show ?thesis
    using assms(2,3) by (auto simp: kvs_hash_set_def bucket_home)
qed

lemma hash_set_new:
  assumes inv: "hash_inv h" and k: "hash_key_ok k" and new: "hash_map h k = None" and ok: "env_ok e"
  shows "\<exists>h'. kvs_hash_set e h (Some k) (Some v) = Some (0, h') \<and> hash_inv h' \<and>
           hash_map h' = (hash_map h)(k \<mapsto> v)"
  using inv k
proof (rule hash_step)
  fix t assume t: "nodes h = Some t" "buckets_ok t" "max_slots h = int MAX_TABLE_SIZE"
    and cnt: "count h = int (length (concat t))" and ci: "chain_inv (home k) (t ! home k)"
    and nf: "hash_map h k = None \<longleftrightarrow> chain_find k (t ! home k) = None"
  let ?ns = "\<lparr>hkey = k, hvalue = Some v\<rparr> # t ! home k"
  let ?h' = "h\<lparr>nodes := Some (t[home k := ?ns]), count := count h + 1\<rparr>"
  have "kvs_hash_set e h (Some k) (Some v) = Some (0, ?h')"
    using nf new ok k
    by (simp add: kvs_hash_set_def bucket_home [OF t(1,2)] set_bucket_home [OF t(1,2)] create_node_def Let_def)
  moreover have "hash_of (Some k) (int MAX_TABLE_SIZE) = int (home k)"
    using k by (simp add: hash_key_ok_def)
  then have "chain_inv (home k) ?ns"
    using ci nf new by (simp add: chain_inv_Cons chain_find_None)
  then have "hash_inv ?h' \<and> hash_map ?h' = (hash_map h)(k := Some v)"
    by (intro hash_write [OF t(1,2) k t(3)]; simp add: chain_val_Cons cnt)
  ultimately show ?thesis by blast
qed

lemma hash_del_miss:
  assumes "hash_inv h" "hash_key_ok k" "hash_map h k = None"
  shows "kvs_hash_del h (Some k) = Some (1, h)"
  using assms(1,2)
proof (rule hash_step)
  fix t assume t: "nodes h = Some t" "buckets_ok t" and ci: "chain_inv (home k) (t ! home k)"
    and nf: "hash_map h k = None \<longleftrightarrow> chain_find k (t ! home k) = None"
  show ?thesis
  proof (cases "t ! home k")
    case Nil
    then show ?thesis using assms(2) by (simp add: kvs_hash_del_def bucket_home [OF t])
  next
    case (Cons node ns)
    with nf assms(3) have "hkey node \<noteq> k" "chain_find k ns = None" by (auto split: if_splits)
    with Cons ci assms(2) show ?thesis
      by (simp add: kvs_hash_del_def bucket_home [OF t] chain_unlink_eq chain_inv_def)
  qed
qed

lemma hash_del_hit:
  assumes inv: "hash_inv h" and k: "hash_key_ok k" and hit: "hash_map h k \<noteq> None"
  shows "\<exists>h'. kvs_hash_del h (Some k) = Some (0, h') \<and> hash_inv h' \<and>
           hash_map h' = (hash_map h)(k := None)"
  using inv k
proof (rule hash_step)
  fix t assume t: "nodes h = Some t" "buckets_ok t" "max_slots h = int MAX_TABLE_SIZE"
    and cnt: "count h = int (length (concat t))" and ci: "chain_inv (home k) (t ! home k)"
    and nf: "hash_map h k = None \<longleftrightarrow> chain_find k (t ! home k) = None"
  let ?ns = "without k (t ! home k)"
  let ?h' = "h\<lparr>nodes := Some (t[home k := ?ns]), count := count h - 1\<rparr>"
  have val: "\<exists>v. hvalue node = Some v" if "chain_find k (t ! home k) = Some node" for node
    using chain_find_value [OF ci that] .
  have "kvs_hash_del h (Some k) = Some (0, ?h')"
  proof (cases "t ! home k")
    case Nil
    with nf hit show ?thesis by simp
  next
    case (Cons node ns)
    then have dist: "distinct (map hkey (node # ns))" using ci by (simp add: chain_inv_def)
    show ?thesis
    proof (cases "hkey node = k")
      case True
      with dist have "without k (node # ns) = ns" by (auto simp: without_id)
      moreover obtain v where "hvalue node = Some v" using val [of node] Cons True by auto
      ultimately show ?thesis using Cons True k
        by (simp add: kvs_hash_del_def bucket_home [OF t(1,2)] set_bucket_home [OF t(1,2)])
    next
      case False
      with nf hit Cons obtain tmp where f: "chain_find k ns = Some tmp" by auto
      then obtain v where "hvalue tmp = Some v" using val [of tmp] Cons False by auto
      then show ?thesis using f Cons False k dist
        by (simp add: kvs_hash_del_def bucket_home [OF t(1,2)] set_bucket_home [OF t(1,2)] chain_unlink_eq)
    qed
  qed
  moreover have "Suc (length ?ns) = length (t ! home k)"
    using without_length ci nf hit by (simp add: chain_inv_def)
  then have "hash_inv ?h' \<and> hash_map ?h' = (hash_map h)(k := None)"
    by (intro hash_write [OF t(1,2) k t(3)]; simp add: without_inv ci without_val cnt)
  ultimately show ?thesis by blast
qed

lemma hash_mod_miss:
  assumes "hash_inv h" "hash_key_ok k" "hash_map h k = None"
  shows "kvs_hash_mod e h (Some k) (Some v) = Some (1, h)"
  using assms(1,2)
proof (rule hash_step)
  fix t assume "nodes h = Some t" "buckets_ok t"
    and "hash_map h k = None \<longleftrightarrow> chain_find k (t ! home k) = None"
  then show ?thesis
    using assms(2,3) by (auto simp: kvs_hash_mod_def bucket_home)
qed

lemma hash_mod_hit:
  assumes inv: "hash_inv h" and k: "hash_key_ok k" and hit: "hash_map h k \<noteq> None" and ok: "env_ok e"
  shows "\<exists>h'. kvs_hash_mod e h (Some k) (Some v) = Some (0, h') \<and> hash_inv h' \<and>
           hash_map h' = (hash_map h)(k \<mapsto> v)"
  using inv k
proof (rule hash_step)
  fix t assume t: "nodes h = Some t" "buckets_ok t" "max_slots h = int MAX_TABLE_SIZE"
    and cnt: "count h = int (length (concat t))" and ci: "chain_inv (home k) (t ! home k)"
    and nf: "hash_map h k = None \<longleftrightarrow> chain_find k (t ! home k) = None"
  let ?ns = "chain_update k (Some v) (t ! home k)"
  let ?h' = "h\<lparr>nodes := Some (t[home k := ?ns]), count := count h\<rparr>"
  have "kvs_hash_mod e h (Some k) (Some v) = Some (0, ?h')"
  proof -
    obtain node where node: "chain_find k (t ! home k) = Some node" using nf hit by auto
    then obtain old where "hvalue node = Some old" using chain_find_value [OF ci] by blast
    then show ?thesis using node ok k
      by (simp add: kvs_hash_mod_def bucket_home [OF t(1,2)] set_bucket_home [OF t(1,2)] Let_def)
  qed
  moreover have "hash_inv ?h' \<and> hash_map ?h' = (hash_map h)(k := Some v)"
    by (intro hash_write [OF t(1,2) k t(3)];
        use nf hit ci in \<open>simp add: chain_update_inv chain_update_val cnt\<close>)
  ultimately show ?thesis by blast
qed

lemma hash_start_inv: "hash_inv hash_start"
  by (simp add: hash_inv_def hash_start_def chain_inv_def)

lemma hash_start_map: "hash_map hash_start = Map.empty"
  by (simp add: fun_eq_iff hash_map_def hash_start_def concat_replicate_trivial)

lemma finite_hash_map:
  assumes "hash_inv h"
  shows "finite (dom (hash_map h))"
proof -
  from assms obtain t where t: "nodes h = Some t" by (rule hash_invE)
  have "dom (hash_map h) \<subseteq> hkey ` set (concat t)"
    by (auto simp: hash_map_def t find_Some_iff in_set_conv_nth split: option.splits)
      (metis image_eqI nth_mem set_concat)
  then show ?thesis by (rule finite_subset) simp
qed

interpretation hsh: kv_engine hash_ops hash_start hash_inv hash_map hash_key_ok \<infinity>
proof unfold_locales
  fix s k e v
  assume inv: "hash_inv s"
  show "finite (dom (hash_map s))" by (rule finite_hash_map [OF inv])
  assume k: "hash_key_ok k"
  show "op_get hash_ops s (Some k) = Some (hash_map s k)"
    by (simp add: hash_ops_def hash_get_correct [OF inv k])
  show "op_exist hash_ops s (Some k) = Some (if hash_map s k = None then 1 else 0)"
    by (simp add: hash_ops_def kvs_hash_exist_def hash_get_correct [OF inv k])
  { assume "\<not> has_room \<infinity> (hash_map s)"
    then show "op_set hash_ops e s (Some k) (Some v) = Some (-1, s)"
      by (simp add: has_room_def) }
  { assume "hash_map s k \<noteq> None"
    then show "op_set hash_ops e s (Some k) (Some v) = Some (1, s)"
      by (simp add: hash_ops_def hash_set_dup [OF inv k]) }
  { assume "env_ok e" "hash_map s k = None"
    then show "\<exists>s'. op_set hash_ops e s (Some k) (Some v) = Some (0, s') \<and> hash_inv s' \<and>
        hash_map s' = (hash_map s)(k \<mapsto> v)"
      by (simp add: hash_ops_def hash_set_new [OF inv k]) }
  { assume "hash_map s k = None"
    then show "op_del hash_ops s (Some k) = Some (1, s)"
      by (simp add: hash_ops_def hash_del_miss [OF inv k]) }
  { assume "hash_map s k \<noteq> None"
    then show "\<exists>s'. op_del hash_ops s (Some k) = Some (0, s') \<and> hash_inv s' \<and>
        hash_map s' = (hash_map s)(k := None)"
      by (simp add: hash_ops_def hash_del_hit [OF inv k]) }
  { assume "hash_map s k = None"
    then show "op_mod hash_ops e s (Some k) (Some v) = Some (1, s)"
      by (simp add: hash_ops_def hash_mod_miss [OF inv k]) }
  { assume "env_ok e" "hash_map s k \<noteq> None"
    then show "\<exists>s'. op_mod hash_ops e s (Some k) (Some v) = Some (0, s') \<and> hash_inv s' \<and>
        hash_map s' = (hash_map s)(k \<mapsto> v)"
      by (simp add: hash_ops_def hash_mod_hit [OF inv k]) }
qed (simp_all add: hash_start_inv hash_start_map)

section \<open>Properties of the hash engine\<close>

text \<open>C12: Any sequence of calls on a freshly created hash table, with enough memory and keys
  whose hash is not negative, returns exactly the replies of an unbounded map.\<close>

theorem hash_refines_map:
  assumes "\<forall>(e, c) \<in> set ecs. env_ok e \<and> hash_key_ok (cmd_key c)"
  shows "\<exists>s'. eng_run hash_ops hash_start ecs =
        Some (fst (spec_run \<infinity> Map.empty (map snd ecs)), s') \<and>
      hash_inv s' \<and> hash_map s' = snd (spec_run \<infinity> Map.empty (map snd ecs))"
  by (rule hsh.run_from_start) (use assms in auto)

theorem hash_refines_map_witness:
  "\<exists>s'. eng_run hash_ops hash_start
      [(env0, KSet ''ab'' ''1''), (env0, KSet ''ba'' ''2''), (env0, KGet ''ab''), (env0, KDel ''ab''),
       (env0, KGet ''ba'')] =
     Some ([Code 0, Code 0, Val (Some ''1''), Code 0, Val (Some ''2'')], s')"
  using hash_refines_map [of "[(env0, KSet ''ab'' ''1''), (env0, KSet ''ba'' ''2''),
      (env0, KGet ''ab''), (env0, KDel ''ab''), (env0, KGet ''ba'')]"]
  by (auto simp: has_room_def hash_key_ok_def hash_of_def schar_def MAX_TABLE_SIZE_def
      signed_modulo_int_def signed_divide_int_def)

lemma hash_sum_ascii: "\<forall>c \<in> set k. (of_char c :: nat) < 128 \<Longrightarrow> 0 \<le> hash_sum k 0"
proof (induction k)
  case (Cons c k)
  have "(of_char c :: int) = int (of_char c)" by (simp add: of_nat_of_char)
  then have "0 \<le> schar c" using Cons.prems by (simp add: schar_def Let_def)
  then show ?case using Cons hash_sum_acc [of k "schar c"] by simp
qed simp

text \<open>The hash of a 7-bit ASCII key is an index of the table, and the sum never overflows
  a 32-bit int on a key of up to 2 ^ 24 bytes.\<close>

lemma hash_ascii_in_table:
  assumes "\<forall>c \<in> set k. (of_char c :: nat) < 128"
  shows "0 \<le> hash_of (Some k) (int MAX_TABLE_SIZE) \<and>
     hash_of (Some k) (int MAX_TABLE_SIZE) < int MAX_TABLE_SIZE \<and>
     (length k \<le> 2 ^ 24 \<longrightarrow> hash_sum k 0 < 2 ^ 31)"
proof -
  have "0 \<le> hash_sum k 0 smod int MAX_TABLE_SIZE"
    using hash_sum_ascii [OF assms] by (simp add: signed_modulo_int_def signed_divide_int_def MAX_TABLE_SIZE_def sgn_if)
  moreover have "hash_sum k 0 < 2 ^ 31" if "length k \<le> 2 ^ 24"
    using hash_sum_bound(2) [of k] that by simp
  ultimately show ?thesis using hash_of_range(2) by (simp add: hash_of_def)
qed

text \<open>C20: A key with a negative hash (possible for bytes above 127, such as UTF-8 text) makes
  set, get, mod, del and exist index the bucket array out of range.\<close>

theorem hash_negative_key_faults:
  assumes "\<not> hash_key_ok k"
  shows "kvs_hash_set e s (Some k) (Some v) = None \<and> kvs_hash_get s (Some k) = None \<and>
     kvs_hash_mod e s (Some k) (Some v) = None \<and> kvs_hash_del s (Some k) = None \<and>
     kvs_hash_exist s (Some k) = None"
proof -
  have "bucket s (hash_of (Some k) (int MAX_TABLE_SIZE)) = None"
    using assms by (auto simp: bucket_def hash_key_ok_def split: option.split)
  then show ?thesis
    by (simp add: kvs_hash_set_def kvs_hash_get_def kvs_hash_mod_def kvs_hash_del_def
        kvs_hash_exist_def Let_def)
qed

theorem hash_negative_key_faults_witness:
  "kvs_hash_set env0 hash_start (Some [CHR 0xE4, CHR 0xBD, CHR 0xA0]) (Some ''1'') = None"
  using hash_negative_key_faults [of "[CHR 0xE4, CHR 0xBD, CHR 0xA0]" env0 hash_start "''1''"]
  by (simp add: hash_key_ok_def hash_of_def schar_def MAX_TABLE_SIZE_def
      signed_modulo_int_def signed_divide_int_def)

end
