(* ===== verification/Kvs_Skiptable.thy ===== *)
theory Kvs_Skiptable
  imports Engine_Spec
begin

text \<open>
  The skip-list engine (\<open>src/engine/kvs_skiptable.c\<close>), with its pointers: nodes live in a
  store from addresses to \<open>Node\<close> records, \<open>forward\<close> is the array of next pointers of a node,
  and \<open>kvs_free\<close> removes a node from the store, so that following a freed or NULL pointer, or
  indexing \<open>forward\<close> past the node's height, is a fault (\<^const>\<open>None\<close>). The inner
  \<open>while\<close> loop follows pointers, so it is a partial function; that it stops is a lemma.

  \<open>rand()\<close> is the environment's \<open>rand_val\<close>. \<open>skip_rep\<close> relates a store to the ordered list
  of node addresses it represents: on every level, a node's pointer is the next node tall
  enough for that level.
\<close>

record Node =
  skey :: string
  svalue :: cstr
  forward :: "addr option list"

type_synonym skip_heap = "addr \<rightharpoonup> Node"

record kvs_skip_t =
  level :: nat
  header :: "addr option"
  sheap :: skip_heap
  snext :: addr

definition MAX_LEVEL :: nat where
  "MAX_LEVEL = 6"

definition skip_zero :: kvs_skip_t where
  "skip_zero = \<lparr>level = 0, header = None, sheap = Map.empty, snext = 0\<rparr>"

text \<open>\<open>createNode\<close>: four allocations (node, key, value, forward array).\<close>

definition createNode :: "env \<Rightarrow> nat \<Rightarrow> string \<Rightarrow> string \<Rightarrow> Node option" where
  "createNode e lv key value =
     (if \<not> kvs_malloc e 0 then None
      else if \<not> kvs_malloc e 1 then None
      else if \<not> kvs_malloc e 2 then None
      else if \<not> kvs_malloc e 3 then None
      else Some \<lparr>skey = key, svalue = Some value, forward = replicate (lv + 1) None\<rparr>)"

text \<open>\<open>freeNode\<close> and the open-coded release in \<open>kvs_skip_del\<close>. They read the pointers of the node and free
  what they point to: a node that is freed already is a fault, and so is a value that is.\<close>

definition freeNode :: "skip_heap \<Rightarrow> addr \<Rightarrow> skip_heap option" where
  "freeNode h a = do { n \<leftarrow> h a; value \<leftarrow> svalue n; Some (h(a := None)) }"

text \<open>\<open>while (rand() < RAND_MAX / 2 && level < MAX_LEVEL) level++\<close>, where the call number is
  the level reached so far.\<close>

function randomLevel :: "env \<Rightarrow> nat \<Rightarrow> nat" where
  "randomLevel e lv =
     (if rand_val e lv < RAND_MAX div 2 \<and> lv < MAX_LEVEL then randomLevel e (Suc lv) else lv)"
  by pat_completeness auto
termination
  by (relation "measure (\<lambda>(e, lv). MAX_LEVEL - lv)") auto

declare randomLevel.simps [simp del]

definition kvs_skip_create :: "env \<Rightarrow> kvs_skip_t \<Rightarrow> int \<times> kvs_skip_t" where
  "kvs_skip_create e s =
     (case createNode e MAX_LEVEL [] [] of
        None \<Rightarrow> (-1, s\<lparr>level := 0, header := None\<rparr>)
      | Some n \<Rightarrow> (0, s\<lparr>level := 0, header := Some (snext s),
                      sheap := (sheap s)(snext s \<mapsto> n), snext := snext s + 1\<rparr>))"

text \<open>\<open>p->forward[i]\<close> and \<open>p->forward[i] = q\<close>.\<close>

definition fwd :: "skip_heap \<Rightarrow> addr \<Rightarrow> nat \<Rightarrow> addr option option" where
  "fwd h a i = do { n \<leftarrow> h a; if i < length (forward n) then Some (forward n ! i) else None }"

definition set_fwd :: "skip_heap \<Rightarrow> addr \<Rightarrow> nat \<Rightarrow> addr option \<Rightarrow> skip_heap option" where
  "set_fwd h a i q = do { n \<leftarrow> h a;
     if i < length (forward n) then Some (h(a \<mapsto> n\<lparr>forward := (forward n)[i := q]\<rparr>)) else None }"

text \<open>The loop of \<open>kvs_skip_destroy\<close> over level 0, freeing each node.\<close>

partial_function (option) free_all :: "skip_heap \<Rightarrow> addr option \<Rightarrow> skip_heap option" where
  "free_all h current =
     (case current of None \<Rightarrow> Some h
      | Some a \<Rightarrow> do { nxt \<leftarrow> fwd h a 0; h \<leftarrow> freeNode h a; free_all h nxt })"

definition kvs_skip_destroy :: "kvs_skip_t \<Rightarrow> kvs_skip_t option" where
  "kvs_skip_destroy s =
     (case header s of None \<Rightarrow> Some s
      | Some hdr \<Rightarrow> do {
          first \<leftarrow> fwd (sheap s) hdr 0;
          h \<leftarrow> free_all (sheap s) first;
          h \<leftarrow> freeNode h hdr;
          Some (s\<lparr>sheap := h, header := None, level := 0\<rparr>) })"

text \<open>\<open>while (current->forward[i] != NULL && strcmp(current->forward[i]->key, key) < 0)
  current = current->forward[i];\<close>\<close>

partial_function (option) walk :: "skip_heap \<Rightarrow> string \<Rightarrow> nat \<Rightarrow> addr \<Rightarrow> addr option" where
  "walk h key i current =
     do { nxt \<leftarrow> fwd h current i;
          case nxt of None \<Rightarrow> Some current
          | Some a \<Rightarrow> do { n \<leftarrow> h a;
              if strcmp (skey n) key < 0 then walk h key i a else Some current } }"

text \<open>\<open>for (i = level; i >= 0; --i) { walk; update[i] = current; }\<close>: the list of \<open>update[0..i]\<close>.
  Its head is \<open>update[0]\<close>, the final \<open>current\<close>.\<close>

fun descend :: "skip_heap \<Rightarrow> string \<Rightarrow> nat \<Rightarrow> addr \<Rightarrow> addr list option" where
  "descend h key 0 current = do { c \<leftarrow> walk h key 0 current; Some [c] }"
| "descend h key (Suc i) current =
     do { c \<leftarrow> walk h key (Suc i) current; us \<leftarrow> descend h key i c; Some (us @ [c]) }"

text \<open>\<open>current->forward[0]\<close> after the descent, and whether it holds the key.\<close>

definition candidate :: "skip_heap \<Rightarrow> addr list \<Rightarrow> addr option option" where
  "candidate h us = fwd h (us ! 0) 0"

definition is_key :: "skip_heap \<Rightarrow> addr option \<Rightarrow> string \<Rightarrow> bool option" where
  "is_key h current key =
     (case current of None \<Rightarrow> Some False
      | Some a \<Rightarrow> do { n \<leftarrow> h a; Some (strcmp (skey n) key = 0) })"

text \<open>\<open>for (i = 0; i <= level; ++i) { newNode->forward[i] = update[i]->forward[i];
  update[i]->forward[i] = newNode; }\<close>, from \<open>i\<close>, for the \<open>k\<close> levels left.\<close>

fun link :: "skip_heap \<Rightarrow> addr list \<Rightarrow> addr \<Rightarrow> nat \<Rightarrow> nat \<Rightarrow> skip_heap option" where
  "link h us new i 0 = Some h"
| "link h us new i (Suc k) =
     do { q \<leftarrow> fwd h (us ! i) i;
          h1 \<leftarrow> set_fwd h new i q;
          h2 \<leftarrow> set_fwd h1 (us ! i) i (Some new);
          link h2 us new (Suc i) k }"

definition kvs_skip_set :: "env \<Rightarrow> kvs_skip_t \<Rightarrow> cstr \<Rightarrow> cstr \<Rightarrow> (int \<times> kvs_skip_t) option" where
  "kvs_skip_set e s key value =
     (case (header s, key, value) of
        (Some hdr, Some k, Some v) \<Rightarrow> do {
          us \<leftarrow> descend (sheap s) k (level s) hdr;
          current \<leftarrow> candidate (sheap s) us;
          found \<leftarrow> is_key (sheap s) current k;
          if found then Some (1, s)
          else do {
            let lv = randomLevel e 0;
            let us' = us @ replicate (lv - level s) hdr;
            let s1 = (if lv > level s then s\<lparr>level := lv\<rparr> else s);
            (case createNode e lv k v of
               None \<Rightarrow> Some (-1, s1)
             | Some n \<Rightarrow> do {
                 let new = snext s;
                 h \<leftarrow> link ((sheap s)(new \<mapsto> n)) us' new 0 (lv + 1);
                 Some (0, s1\<lparr>sheap := h, snext := snext s + 1\<rparr>) }) } }
      | _ \<Rightarrow> Some (-1, s))"

definition kvs_skip_get :: "kvs_skip_t \<Rightarrow> cstr \<Rightarrow> cstr option" where
  "kvs_skip_get s key =
     (case key of None \<Rightarrow> Some None
      | Some k \<Rightarrow> do {
          hdr \<leftarrow> header s;
          us \<leftarrow> descend (sheap s) k (level s) hdr;
          current \<leftarrow> candidate (sheap s) us;
          found \<leftarrow> is_key (sheap s) current k;
          if found then do { n \<leftarrow> sheap s (the current);
            case svalue n of None \<Rightarrow> None | Some v \<Rightarrow> Some (Some v) }
          else Some None })"

text \<open>\<open>kvs_skip_mod\<close> frees the old value before it allocates the new one, so a failed
  allocation leaves the value dangling; freeing a dangling value is a fault.\<close>

definition kvs_skip_mod :: "env \<Rightarrow> kvs_skip_t \<Rightarrow> cstr \<Rightarrow> cstr \<Rightarrow> (int \<times> kvs_skip_t) option" where
  "kvs_skip_mod e s key value =
     (case (key, value) of
        (Some k, Some v) \<Rightarrow> do {
          hdr \<leftarrow> header s;
          us \<leftarrow> descend (sheap s) k (level s) hdr;
          current \<leftarrow> candidate (sheap s) us;
          found \<leftarrow> is_key (sheap s) current k;
          if found then do {
            n \<leftarrow> sheap s (the current);
            old \<leftarrow> svalue n;
            if \<not> kvs_malloc e 0
            then Some (-2, s\<lparr>sheap := (sheap s)(the current \<mapsto> n\<lparr>svalue := None\<rparr>)\<rparr>)
            else Some (0, s\<lparr>sheap := (sheap s)(the current \<mapsto> n\<lparr>svalue := Some v\<rparr>)\<rparr>) }
          else Some (1, s) }
      | _ \<Rightarrow> Some (-1, s))"

text \<open>\<open>for (i = 0; i <= level; ++i) { if (update[i]->forward[i] != current) break;
  update[i]->forward[i] = current->forward[i]; }\<close>.\<close>

fun unlink :: "skip_heap \<Rightarrow> addr list \<Rightarrow> addr \<Rightarrow> nat \<Rightarrow> nat \<Rightarrow> skip_heap option" where
  "unlink h us cur i 0 = Some h"
| "unlink h us cur i (Suc k) =
     do { q \<leftarrow> fwd h (us ! i) i;
          if q \<noteq> Some cur then Some h
          else do { q' \<leftarrow> fwd h cur i; h1 \<leftarrow> set_fwd h (us ! i) i q'; unlink h1 us cur (Suc i) k } }"

text \<open>\<open>while (level > 0 && header->forward[level] == NULL) level--\<close>.\<close>

fun drop_level :: "skip_heap \<Rightarrow> addr \<Rightarrow> nat \<Rightarrow> nat option" where
  "drop_level h hdr 0 = Some 0"
| "drop_level h hdr (Suc lv) =
     do { q \<leftarrow> fwd h hdr (Suc lv); if q = None then drop_level h hdr lv else Some (Suc lv) }"

definition kvs_skip_del :: "kvs_skip_t \<Rightarrow> cstr \<Rightarrow> (int \<times> kvs_skip_t) option" where
  "kvs_skip_del s key =
     (case key of None \<Rightarrow> Some (-1, s)
      | Some k \<Rightarrow> do {
          hdr \<leftarrow> header s;
          us \<leftarrow> descend (sheap s) k (level s) hdr;
          current \<leftarrow> candidate (sheap s) us;
          found \<leftarrow> is_key (sheap s) current k;
          if \<not> found then Some (1, s)
          else do {
            h \<leftarrow> unlink (sheap s) us (the current) 0 (level s + 1);
            h' \<leftarrow> freeNode h (the current);
            lv \<leftarrow> drop_level h' hdr (level s);
            Some (0, s\<lparr>sheap := h', level := lv\<rparr>) } })"

definition kvs_skip_exist :: "kvs_skip_t \<Rightarrow> cstr \<Rightarrow> int option" where
  "kvs_skip_exist s key =
     (if key = None then Some (-1)
      else do { value \<leftarrow> kvs_skip_get s key; Some (if value = None then 1 else 0) })"

definition skip_ops :: "kvs_skip_t engine_ops" where
  "skip_ops = \<lparr>op_set = kvs_skip_set, op_get = kvs_skip_get, op_del = kvs_skip_del,
     op_mod = kvs_skip_mod, op_exist = kvs_skip_exist\<rparr>"

declare free_all.simps [code]
declare walk.simps [code]

text \<open>The list \<open>init_kvengine\<close> creates: a header of height \<open>MAX_LEVEL + 1\<close>.\<close>

definition skip_start :: kvs_skip_t where
  "skip_start = \<lparr>level = 0, header = Some 0,
     sheap = [0 \<mapsto> \<lparr>skey = [], svalue = Some [], forward = replicate (MAX_LEVEL + 1) None\<rparr>],
     snext = 1\<rparr>"

text \<open>The nodes on level 0 in order, which is also the traversal that saves the list.\<close>

partial_function (option) level0 :: "skip_heap \<Rightarrow> addr option \<Rightarrow> addr list option" where
  "level0 h current =
     (case current of None \<Rightarrow> Some []
      | Some a \<Rightarrow> do { nxt \<leftarrow> fwd h a 0; as \<leftarrow> level0 h nxt; Some (a # as) })"

declare level0.simps [code]

definition node_list :: "kvs_skip_t \<Rightarrow> addr list option" where
  "node_list s = do { hdr \<leftarrow> header s; first \<leftarrow> fwd (sheap s) hdr 0; level0 (sheap s) first }"

abbreviation nd :: "skip_heap \<Rightarrow> addr \<Rightarrow> Node" where
  "nd h a \<equiv> the (h a)"

abbreviation ky :: "skip_heap \<Rightarrow> addr \<Rightarrow> string" where
  "ky h a \<equiv> skey (nd h a)"

abbreviation ht :: "skip_heap \<Rightarrow> addr \<Rightarrow> nat" where
  "ht h a \<equiv> length (forward (nd h a))"

definition entries :: "skip_heap \<Rightarrow> addr list \<Rightarrow> (string \<times> string) list" where
  "entries h as = map (\<lambda>a. (ky h a, the (svalue (nd h a)))) as"

definition skip_map :: "kvs_skip_t \<Rightarrow> kv_map" where
  "skip_map s = (case node_list s of None \<Rightarrow> Map.empty | Some as \<Rightarrow> map_of (entries (sheap s) as))"

text \<open>The pointer of a node on level \<open>i\<close> is the next node of height above \<open>i\<close>.\<close>

definition next_at :: "skip_heap \<Rightarrow> nat \<Rightarrow> addr list \<Rightarrow> addr option" where
  "next_at h i as = find (\<lambda>a. i < ht h a) as"

fun links :: "skip_heap \<Rightarrow> addr list \<Rightarrow> bool" where
  "links h [] = True"
| "links h (a # as) = ((\<forall>i < ht h a. fwd h a i = Some (next_at h i as)) \<and> links h as)"

definition skip_rep :: "kvs_skip_t \<Rightarrow> addr \<Rightarrow> addr list \<Rightarrow> bool" where
  "skip_rep s hdr as \<longleftrightarrow>
     (let h = sheap s in
      header s = Some hdr \<and> h hdr \<noteq> None \<and> ht h hdr = MAX_LEVEL + 1 \<and> level s \<le> MAX_LEVEL \<and>
      distinct (hdr # as) \<and> links h (hdr # as) \<and> sorted_wrt (\<lambda>a b. ky h a < ky h b) as \<and>
      (\<forall>a \<in> set as. h a \<noteq> None \<and> svalue (nd h a) \<noteq> None \<and> 0 < ht h a \<and> ht h a \<le> level s + 1) \<and>
      (\<forall>a. h a \<noteq> None \<longrightarrow> a < snext s \<and> a \<in> set (hdr # as)) \<and> svalue (nd h hdr) \<noteq> None)"

definition skip_inv :: "kvs_skip_t \<Rightarrow> bool" where
  "skip_inv s \<longleftrightarrow> (\<exists>hdr as. skip_rep s hdr as)"

text \<open>What a pointer write leaves alone: keys, values and heights.\<close>

definition shape :: "skip_heap \<Rightarrow> addr \<Rightarrow> (string \<times> cstr \<times> nat) option" where
  "shape h a = map_option (\<lambda>n. (skey n, svalue n, length (forward n))) (h a)"

lemma shape_dom: "shape h a = shape h' a \<Longrightarrow> h a = None \<longleftrightarrow> h' a = None"
  by (auto simp: shape_def)

lemma shape_node:
  assumes "shape h a = shape h' a" "h a \<noteq> None"
  shows "ky h' a = ky h a" "ht h' a = ht h a" "svalue (nd h' a) = svalue (nd h a)"
  using assms by (cases "h a"; cases "h' a"; auto simp: shape_def)+

lemma fwd_defined: "fwd h a i \<noteq> None \<longleftrightarrow> h a \<noteq> None \<and> i < ht h a"
  by (auto simp: fwd_def split: bind_splits)

lemma fwd_shape: "shape h a = shape h' a \<Longrightarrow> fwd h a i = None \<longleftrightarrow> fwd h' a i = None"
  by (cases "h a"; cases "h' a") (auto simp: fwd_def shape_def)

lemma set_fwd_ok:
  assumes "fwd h a i \<noteq> None"
  shows "\<exists>h'. set_fwd h a i q = Some h' \<and> shape h' = shape h \<and>
      (\<forall>b j. fwd h' b j = (if b = a \<and> j = i then Some q else fwd h b j))"
proof -
  from fwd_defined [THEN iffD1, OF assms] obtain n where "h a = Some n" "i < length (forward n)"
    by auto
  then show ?thesis
    by (intro exI [of _ "h(a \<mapsto> n\<lparr>forward := (forward n)[i := q]\<rparr>)"])
      (auto simp: set_fwd_def fwd_def shape_def fun_eq_iff)
qed

lemma links_append: "links h (as @ bs) \<Longrightarrow> links h bs"
  by (induction as) auto

lemma next_at_append:
  "next_at h i (as @ bs) = (case next_at h i as of None \<Rightarrow> next_at h i bs | Some a \<Rightarrow> Some a)"
  by (auto simp: next_at_def find_append split: option.split)

lemma next_at_None: "next_at h i as = None \<longleftrightarrow> filter (\<lambda>a. i < ht h a) as = []"
  by (auto simp: next_at_def find_None_iff filter_empty_conv)

lemma next_at_Some:
  "next_at h i as = Some a \<Longrightarrow>
   \<exists>p q. as = p @ a # q \<and> filter (\<lambda>a. i < ht h a) p = [] \<and> i < ht h a"
proof (induction as)
  case (Cons x as)
  show ?case
  proof (cases "i < ht h x")
    case True
    with Cons.prems show ?thesis by (intro exI [of _ "[]"] exI [of _ as]) (simp add: next_at_def)
  next
    case False
    with Cons obtain p q where "as = p @ a # q" "filter (\<lambda>a. i < ht h a) p = []" "i < ht h a"
      by (auto simp: next_at_def)
    with False show ?thesis by (intro exI [of _ "x # p"] exI [of _ q]) simp
  qed
qed (simp add: next_at_def)

text \<open>The search: on level \<open>i\<close> it stops at the last node of that level with a smaller key.\<close>

definition last_below :: "skip_heap \<Rightarrow> nat \<Rightarrow> addr \<Rightarrow> addr list \<Rightarrow> addr" where
  "last_below h i c as = last (c # filter (\<lambda>a. i < ht h a) as)"

lemma walk_correct:
  assumes "links h (c # lo @ hi)" and "\<forall>a \<in> set (c # lo @ hi). h a \<noteq> None" and "i < ht h c"
    and "\<forall>a \<in> set lo. ky h a < k" and "\<forall>a \<in> set hi. \<not> ky h a < k"
  shows "walk h k i c = Some (last_below h i c lo)"
  using assms
proof (induction lo arbitrary: c rule: length_induct)
  case (1 lo)
  have f: "fwd h c i = Some (next_at h i (lo @ hi))" using 1(2,4) by simp
  show ?case
  proof (cases "next_at h i lo")
    case None
    then have none: "filter (\<lambda>a. i < ht h a) lo = []" by (simp add: next_at_None)
    note no_lo = None
    show ?thesis
    proof (cases "next_at h i hi")
      case None
      with f none no_lo show ?thesis
        by (simp add: walk.simps [of h k i c] next_at_append last_below_def)
    next
      case (Some a)
      then have "a \<in> set hi" by (auto simp: next_at_def find_Some_iff)
      then have "h a \<noteq> None" "\<not> ky h a < k" using 1(3,6) by auto
      with f none Some None show ?thesis
        by (auto simp: walk.simps [of h k i c] next_at_append last_below_def)
    qed
  next
    case (Some a)
    then obtain p q where pq: "lo = p @ a # q" "filter (\<lambda>a. i < ht h a) p = []" "i < ht h a"
      using next_at_Some by blast
    have "links h (a # q @ hi)" using 1(2) pq(1) links_append [of h "c # p" "a # q @ hi"] by simp
    then have "walk h k i a = Some (last_below h i a q)"
      using 1 pq by auto
    moreover have "h a \<noteq> None" "ky h a < k" using 1(3,5) pq(1) by auto
    moreover have "fwd h c i = Some (Some a)" using f Some by (simp add: next_at_append)
    moreover have "last_below h i c lo = last_below h i a q" using pq by (simp add: last_below_def)
    ultimately show ?thesis
      by (auto simp: walk.simps [of h k i c])
  qed
qed

lemma last_below_cases:
  "last_below h i c as = c \<and> filter (\<lambda>a. i < ht h a) as = [] \<or>
   (\<exists>p q. as = p @ last_below h i c as # q \<and> filter (\<lambda>a. i < ht h a) q = [] \<and>
          i < ht h (last_below h i c as))"
proof (induction as rule: rev_induct)
  case Nil
  then show ?case by (simp add: last_below_def)
next
  case (snoc x as)
  show ?case
  proof (cases "i < ht h x")
    case True
    then have "last_below h i c (as @ [x]) = x" by (simp add: last_below_def)
    with True show ?thesis by (intro disjI2 exI [of _ as] exI [of _ "[]"]) simp
  next
    case False
    then have eq: "last_below h i c (as @ [x]) = last_below h i c as" by (simp add: last_below_def)
    from snoc show ?thesis
    proof (elim disjE exE conjE)
      fix p q assume "as = p @ last_below h i c as # q" "filter (\<lambda>a. i < ht h a) q = []"
        "i < ht h (last_below h i c as)"
      with False eq show ?thesis
        by (intro disjI2 exI [of _ p] exI [of _ "q @ [x]"]) simp
    qed (use False eq in simp)
  qed
qed

lemma last_below_descend:
  assumes "as = p @ c' # q \<or> c' = c \<and> as = q" and "j < ht h c'"
  shows "last_below h j c as = last_below h j c' q"
  using assms by (auto simp: last_below_def)

lemma descend_correct:
  assumes "links h (c # lo @ hi)" and "\<forall>a \<in> set (c # lo @ hi). h a \<noteq> None" and "i < ht h c"
    and "\<forall>a \<in> set lo. ky h a < k" and "\<forall>a \<in> set hi. \<not> ky h a < k"
  shows "descend h k i c = Some (map (\<lambda>j. last_below h j c lo) [0..<Suc i])"
  using assms
proof (induction i arbitrary: c lo)
  case 0
  show ?case using walk_correct [OF 0] by simp
next
  case (Suc i)
  obtain d where d: "last_below h (Suc i) c lo = d" by blast
  have w: "walk h k (Suc i) c = Some d" using walk_correct [OF Suc.prems] d by simp
  obtain p q where c: "d = c \<and> lo = q \<or> lo = p @ d # q" and tall: "Suc i < ht h d"
    using last_below_cases [of h "Suc i" c lo] Suc.prems(3) d by metis
  have "links h (d # q @ hi)"
    using c Suc.prems(1) links_append [of h "c # p" "d # q @ hi"] by auto
  moreover have "set q \<subseteq> set lo" "d \<in> set (c # lo)"
    using c by auto
  ultimately have "descend h k i d = Some (map (\<lambda>j. last_below h j d q) [0..<Suc i])"
    using Suc.prems tall by (intro Suc.IH) auto
  moreover have "last_below h j c lo = last_below h j d q" if "j \<le> i" for j
    using last_below_descend [of lo p d q c j h] c tall that by auto
  ultimately show ?case
    using w d by simp
qed

text \<open>The pointers the descent returns lead, on their level, into the part not below the key.\<close>

lemma fwd_last_below:
  assumes "links h (c # lo @ hi)" and "i < ht h c"
  shows "fwd h (last_below h i c lo) i = Some (next_at h i hi)"
proof -
  obtain d where d: "last_below h i c lo = d" by blast
  from last_below_cases [of h i c lo] d assms(2) obtain p q where
    c: "d = c \<and> lo = q \<or> lo = p @ d # q" and tall: "i < ht h d"
    and none: "filter (\<lambda>a. i < ht h a) q = []"
    by metis
  have "links h (d # q @ hi)"
    using c assms(1) links_append [of h "c # p" "d # q @ hi"] by auto
  with tall none d show ?thesis
    by (simp add: next_at_append next_at_None [symmetric])
qed

lemma last_below_tall: "i < ht h c \<Longrightarrow> i < ht h (last_below h i c as)"
  using last_below_cases [of h i c as] by auto

lemma last_below_in: "last_below h i c as \<in> set (c # as)"
  by (auto simp: last_below_def dest: last_in_set)

lemma skip_repD:
  assumes "skip_rep s hdr as"
  shows "header s = Some hdr" "sheap s hdr \<noteq> None" "ht (sheap s) hdr = MAX_LEVEL + 1"
    "level s \<le> MAX_LEVEL" "distinct (hdr # as)" "links (sheap s) (hdr # as)"
    "sorted_wrt (\<lambda>a b. ky (sheap s) a < ky (sheap s) b) as"
    "\<forall>a \<in> set as. sheap s a \<noteq> None \<and> svalue (nd (sheap s) a) \<noteq> None \<and> 0 < ht (sheap s) a \<and>
       ht (sheap s) a \<le> level s + 1"
    "\<forall>a. sheap s a \<noteq> None \<longrightarrow> a < snext s \<and> a \<in> set (hdr # as)" "svalue (nd (sheap s) hdr) \<noteq> None"
  using assms by (simp_all add: skip_rep_def Let_def)

text \<open>The store without a node, which is what \<open>freeNode\<close> makes of it.\<close>

definition erase :: "skip_heap \<Rightarrow> addr \<Rightarrow> skip_heap" where
  "erase h a = h(a := None)"

lemma freeNode_erase: "h a \<noteq> None \<Longrightarrow> svalue (nd h a) \<noteq> None \<Longrightarrow> freeNode h a = Some (erase h a)"
  by (auto simp: freeNode_def erase_def)

lemma next_at_0: "\<forall>a \<in> set as. 0 < ht h a \<Longrightarrow> next_at h 0 as = (case as of [] \<Rightarrow> None | a # _ \<Rightarrow> Some a)"
  by (cases as) (auto simp: next_at_def)

lemma level0_correct:
  "links h as \<Longrightarrow> \<forall>a \<in> set as. 0 < ht h a \<Longrightarrow> level0 h (next_at h 0 as) = Some as"
proof (induction as)
  case Nil
  then show ?case by (simp add: level0.simps next_at_def)
next
  case (Cons a as)
  then have "fwd h a 0 = Some (next_at h 0 as)" by simp
  moreover have "next_at h 0 (a # as) = Some a" using Cons.prems(2) by (simp add: next_at_def)
  ultimately show ?case using Cons by (simp add: level0.simps [of h "Some a"])
qed

lemma node_list_correct:
  assumes "skip_rep s hdr as"
  shows "node_list s = Some as" "skip_map s = map_of (entries (sheap s) as)"
proof -
  note rep = skip_repD [OF assms]
  have "fwd (sheap s) hdr 0 = Some (next_at (sheap s) 0 as)" using rep(3,6) by simp
  then show "node_list s = Some as"
    using rep level0_correct [of "sheap s" as] by (simp add: node_list_def)
  then show "skip_map s = map_of (entries (sheap s) as)" by (simp add: skip_map_def)
qed

text \<open>Splitting the nodes at a key, and what the search of the operations computes.\<close>

lemma sorted_split:
  assumes "sorted_wrt (\<lambda>a b. ky h a < ky h b) as"
  obtains lo hi where "as = lo @ hi" "\<forall>a \<in> set lo. ky h a < k" "\<forall>a \<in> set hi. \<not> ky h a < k"
proof
  show "as = takeWhile (\<lambda>a. ky h a < k) as @ dropWhile (\<lambda>a. ky h a < k) as" by simp
  show "\<forall>a \<in> set (takeWhile (\<lambda>a. ky h a < k) as). ky h a < k" by (auto dest: set_takeWhileD)
  show "\<forall>a \<in> set (dropWhile (\<lambda>a. ky h a < k) as). \<not> ky h a < k"
    using assms
  proof (induction as)
    case (Cons a as)
    show ?case
    proof (cases "ky h a < k")
      case True
      then have "dropWhile (\<lambda>a. ky h a < k) (a # as) = dropWhile (\<lambda>a. ky h a < k) as" by simp
      with Cons.IH Cons.prems show ?thesis unfolding sorted_wrt.simps by metis
    next
      case False
      have "\<not> ky h b < k" if "b \<in> set as" for b
        using Cons.prems that False order.strict_trans [of "ky h a" "ky h b" k]
        unfolding sorted_wrt.simps by blast
      with False show ?thesis by simp
    qed
  qed simp
qed

lemma entries_lookup:
  assumes "sorted_wrt (\<lambda>a b. ky h a < ky h b) (lo @ hi)"
    and "\<forall>a \<in> set lo. ky h a < k" "\<forall>a \<in> set hi. \<not> ky h a < k"
    and "\<forall>a \<in> set (lo @ hi). svalue (nd h a) \<noteq> None"
  shows "map_of (entries h (lo @ hi)) k =
     (case hi of [] \<Rightarrow> None | a # _ \<Rightarrow> if ky h a = k then svalue (nd h a) else None)"
proof -
  have "map_of (entries h lo) k = None"
    using assms(2) by (auto simp: map_of_eq_None_iff entries_def)
  moreover have "map_of (entries h hi) k =
     (case hi of [] \<Rightarrow> None | a # _ \<Rightarrow> if ky h a = k then svalue (nd h a) else None)"
  proof (cases hi)
    case (Cons a as)
    have "k \<notin> ky h ` set as"
      using assms(1,3) Cons by (auto simp: sorted_wrt_append)
    then have "map_of (entries h as) k = None"
      by (auto simp: map_of_eq_None_iff entries_def image_image)
    then show ?thesis using Cons assms(4) by (auto simp: entries_def)
  qed (simp add: entries_def)
  ultimately show ?thesis by (simp add: entries_def map_add_def)
qed

lemma skip_search:
  assumes rep: "skip_rep s hdr as"
  obtains lo hi us where "as = lo @ hi" "\<forall>a \<in> set lo. ky (sheap s) a < k"
    "\<forall>a \<in> set hi. \<not> ky (sheap s) a < k"
    "us = map (\<lambda>j. last_below (sheap s) j hdr lo) [0..<Suc (level s)]"
    "descend (sheap s) k (level s) hdr = Some us"
    "candidate (sheap s) us = Some (case hi of [] \<Rightarrow> None | a # _ \<Rightarrow> Some a)"
    "is_key (sheap s) (case hi of [] \<Rightarrow> None | a # _ \<Rightarrow> Some a) k = Some (skip_map s k \<noteq> None)"
    "skip_map s k \<noteq> None \<Longrightarrow> \<exists>a rest. hi = a # rest \<and> ky (sheap s) a = k \<and> svalue (nd (sheap s) a) = skip_map s k"
proof -
  note r = skip_repD [OF rep]
  obtain lo hi where s: "as = lo @ hi" "\<forall>a \<in> set lo. ky (sheap s) a < k"
    "\<forall>a \<in> set hi. \<not> ky (sheap s) a < k"
    using sorted_split [OF r(7)] by blast
  define us where "us = map (\<lambda>j. last_below (sheap s) j hdr lo) [0..<Suc (level s)]"
  have d: "descend (sheap s) k (level s) hdr = Some us"
    unfolding us_def using r s by (intro descend_correct [where hi = hi]) auto
  have "us ! 0 = last_below (sheap s) 0 hdr lo" by (simp add: us_def upt_conv_Cons del: upt_Suc)
  then have c: "candidate (sheap s) us = Some (case hi of [] \<Rightarrow> None | a # _ \<Rightarrow> Some a)"
    using fwd_last_below [of "sheap s" hdr lo hi 0] r s next_at_0 [of hi "sheap s"]
    by (simp add: candidate_def)
  have m: "skip_map s k = (case hi of [] \<Rightarrow> None
      | a # _ \<Rightarrow> if ky (sheap s) a = k then svalue (nd (sheap s) a) else None)"
    using entries_lookup [of "sheap s" lo hi k] r s node_list_correct(2) [OF rep] by auto
  have key: "is_key (sheap s) (case hi of [] \<Rightarrow> None | a # _ \<Rightarrow> Some a) k = Some (skip_map s k \<noteq> None)"
  proof (cases hi)
    case (Cons a rest)
    then show ?thesis using m r(8) s(1) by (auto simp: is_key_def)
  qed (simp add: m is_key_def)
  have hit: "\<exists>a rest. hi = a # rest \<and> ky (sheap s) a = k \<and> svalue (nd (sheap s) a) = skip_map s k"
    if "skip_map s k \<noteq> None"
    using that m by (cases hi) (auto split: if_splits)
  from that [OF s us_def d c key hit] show thesis by blast
qed

lemma skip_get_correct:
  assumes "skip_inv s"
  shows "kvs_skip_get s (Some k) = Some (skip_map s k)"
proof -
  from assms obtain hdr as where rep: "skip_rep s hdr as" by (auto simp: skip_inv_def)
  note r = skip_repD [OF rep]
  show ?thesis
  proof (rule skip_search [OF rep, of k])
    fix lo hi us
    assume "as = lo @ hi" "descend (sheap s) k (level s) hdr = Some us"
      "candidate (sheap s) us = Some (case hi of [] \<Rightarrow> None | a # _ \<Rightarrow> Some a)"
      "is_key (sheap s) (case hi of [] \<Rightarrow> None | a # _ \<Rightarrow> Some a) k = Some (skip_map s k \<noteq> None)"
      and hit: "skip_map s k \<noteq> None \<Longrightarrow>
        \<exists>a rest. hi = a # rest \<and> ky (sheap s) a = k \<and> svalue (nd (sheap s) a) = skip_map s k"
    then show ?thesis
      using r(1,8) by (cases "skip_map s k") (auto simp: kvs_skip_get_def)
  qed
qed

text \<open>The pointer surgery of insertion and deletion.\<close>

lemma link_correct:
  assumes "\<forall>j. i \<le> j \<and> j < i + k \<longrightarrow> us ! j \<noteq> new \<and> fwd h (us ! j) j \<noteq> None \<and> fwd h new j \<noteq> None"
  shows "\<exists>h'. link h us new i k = Some h' \<and> shape h' = shape h \<and>
     (\<forall>a j. fwd h' a j =
        (if i \<le> j \<and> j < i + k \<and> a = new then fwd h (us ! j) j
         else if i \<le> j \<and> j < i + k \<and> a = us ! j then Some (Some new)
         else fwd h a j))"
  using assms
proof (induction k arbitrary: i h)
  case 0
  then show ?case by auto
next
  case (Suc k)
  have pre: "us ! i \<noteq> new" "fwd h (us ! i) i \<noteq> None" "fwd h new i \<noteq> None"
    using Suc.prems by auto
  then obtain q where q: "fwd h (us ! i) i = Some q" by blast
  obtain h1 where h1: "set_fwd h new i q = Some h1" "shape h1 = shape h"
    "\<And>b j. fwd h1 b j = (if b = new \<and> j = i then Some q else fwd h b j)"
    using set_fwd_ok [OF pre(3), of q] by blast
  have "fwd h1 (us ! i) i \<noteq> None" using pre q h1(3) by simp
  then obtain h2 where h2: "set_fwd h1 (us ! i) i (Some new) = Some h2" "shape h2 = shape h1"
    "\<And>b j. fwd h2 b j = (if b = us ! i \<and> j = i then Some (Some new) else fwd h1 b j)"
    using set_fwd_ok [of h1 "us ! i" i "Some new"] by blast
  have later: "fwd h2 b j = fwd h b j" if "j \<noteq> i" for b j
    using that h1(3) h2(3) by simp
  obtain h3 where h3: "link h2 us new (Suc i) k = Some h3" "shape h3 = shape h2"
    "\<forall>a j. fwd h3 a j =
        (if Suc i \<le> j \<and> j < Suc i + k \<and> a = new then fwd h2 (us ! j) j
         else if Suc i \<le> j \<and> j < Suc i + k \<and> a = us ! j then Some (Some new)
         else fwd h2 a j)"
    using Suc.IH [of "Suc i" h2] Suc.prems later by auto
  have "fwd h3 a j =
        (if i \<le> j \<and> j < i + Suc k \<and> a = new then fwd h (us ! j) j
         else if i \<le> j \<and> j < i + Suc k \<and> a = us ! j then Some (Some new)
         else fwd h a j)" for a j
    using h1(3) h2(3) h3(3) pre q by (cases "j = i") (auto simp: later)
  then show ?case
    using q h1 h2 h3 by simp
qed

lemma unlink_correct:
  assumes "\<forall>j. i \<le> j \<and> j < i + k \<longrightarrow> us ! j \<noteq> cur \<and>
      (if j < t then fwd h (us ! j) j = Some (Some cur) \<and> fwd h cur j \<noteq> None
       else \<exists>q. fwd h (us ! j) j = Some q \<and> q \<noteq> Some cur)"
  shows "\<exists>h'. unlink h us cur i k = Some h' \<and> shape h' = shape h \<and>
     (\<forall>a j. fwd h' a j = (if i \<le> j \<and> j < i + k \<and> j < t \<and> a = us ! j then fwd h cur j else fwd h a j))"
  using assms
proof (induction k arbitrary: i h)
  case 0
  then show ?case by auto
next
  case (Suc k)
  have pre: "us ! i \<noteq> cur" using Suc.prems by auto
  show ?case
  proof (cases "i < t")
    case False
    then obtain q where "fwd h (us ! i) i = Some q" "q \<noteq> Some cur" using Suc.prems by force
    then show ?thesis using False by auto
  next
    case True
    then have f: "fwd h (us ! i) i = Some (Some cur)" "fwd h cur i \<noteq> None" using Suc.prems by auto
    then obtain q where q: "fwd h cur i = Some q" by blast
    obtain h1 where h1: "set_fwd h (us ! i) i q = Some h1" "shape h1 = shape h"
      "\<And>b j. fwd h1 b j = (if b = us ! i \<and> j = i then Some q else fwd h b j)"
      using set_fwd_ok [of h "us ! i" i q] f by auto
    have later: "fwd h1 b j = fwd h b j" if "j \<noteq> i" for b j
      using that h1(3) by simp
    have "\<forall>j. Suc i \<le> j \<and> j < Suc i + k \<longrightarrow> us ! j \<noteq> cur \<and>
      (if j < t then fwd h1 (us ! j) j = Some (Some cur) \<and> fwd h1 cur j \<noteq> None
       else \<exists>q. fwd h1 (us ! j) j = Some q \<and> q \<noteq> Some cur)"
      using Suc.prems later by (metis Suc_le_lessD add_Suc_shift less_imp_le nat_neq_iff)
    from Suc.IH [OF this]
    obtain h2 where h2: "unlink h1 us cur (Suc i) k = Some h2" "shape h2 = shape h1"
      "\<forall>a j. fwd h2 a j =
        (if Suc i \<le> j \<and> j < Suc i + k \<and> j < t \<and> a = us ! j then fwd h1 cur j else fwd h1 a j)"
      by blast
    have "fwd h2 a j =
        (if i \<le> j \<and> j < i + Suc k \<and> j < t \<and> a = us ! j then fwd h cur j else fwd h a j)" for a j
      using h1(3) h2(3) pre q True by (cases "j = i") (auto simp: later)
    then show ?thesis
      using f q h1 h2 by simp
  qed
qed

lemma last_below_iff:
  assumes "hdr # lo = pre @ x # suf" "distinct (hdr # lo)" "i < ht h x"
  shows "last_below h i hdr lo = x \<longleftrightarrow> next_at h i suf = None"
proof -
  have "last_below h i hdr lo = last_below h i x suf"
    using assms(1,3) last_below_descend [of lo "tl pre" x suf hdr i h] by (cases pre) auto
  moreover have "x \<notin> set suf" using assms(1,2) by (metis distinct_append distinct.simps(2))
  moreover have "last (filter (\<lambda>a. i < ht h a) suf) \<in> set suf" if "filter (\<lambda>a. i < ht h a) suf \<noteq> []"
    using last_in_set [OF that] by simp
  ultimately show ?thesis
    by (auto simp: last_below_def next_at_None)
qed

lemma next_at_cong: "(\<And>a. a \<in> set as \<Longrightarrow> ht h' a = ht h a) \<Longrightarrow> next_at h' i as = next_at h i as"
  by (induction as) (auto simp: next_at_def)

lemma links_cong:
  "links h as \<Longrightarrow> (\<And>a. a \<in> set as \<Longrightarrow> ht h' a = ht h a) \<Longrightarrow>
   (\<And>a i. a \<in> set as \<Longrightarrow> i < ht h a \<Longrightarrow> fwd h' a i = fwd h a i) \<Longrightarrow> links h' as"
proof (induction as)
  case (Cons a as)
  then have "next_at h' i as = next_at h i as" for i by (intro next_at_cong) simp
  with Cons show ?case by simp
qed simp

text \<open>Inserting \<open>new\<close> between \<open>lo\<close> and \<open>hi\<close>, and removing \<open>cur\<close> from between them.\<close>

lemma links_insert:
  assumes l: "links h (hdr # lo @ hi)" and d: "distinct (hdr # lo)"
    and nlo: "\<forall>a \<in> set (hdr # lo @ hi). a \<noteq> new \<and> ht h' a = ht h a" and hn: "ht h' new = Suc lv"
    and fold: "\<And>a i. a \<in> set (hdr # lo @ hi) \<Longrightarrow> i < ht h a \<Longrightarrow> fwd h' a i =
       (if i \<le> lv \<and> a = last_below h i hdr lo then Some (Some new) else fwd h a i)"
    and fnew: "\<And>i. i \<le> lv \<Longrightarrow> fwd h' new i = Some (next_at h i hi)"
    and hi: "set hi \<inter> set (hdr # lo) = {}"
  shows "links h' (hdr # lo @ new # hi)"
proof -
  have nhi: "next_at h' i hi = next_at h i hi" for i using nlo by (intro next_at_cong) simp
  have "last_below h i hdr lo \<in> set (hdr # lo)" for i by (rule last_below_in)
  then have "a \<noteq> last_below h i hdr lo" if "a \<in> set hi" for a i using hi that by blast
  then have "links h' hi"
    using links_append [of h "hdr # lo" hi] l nlo fold by (intro links_cong [of h hi h']) auto
  then have base: "links h' (new # hi)" using fnew hn nhi by simp
  have "links h' (xs @ new # hi)" if "hdr # lo = pre @ xs" for pre xs
    using that
  proof (induction xs arbitrary: pre)
    case Nil
    show ?case using base by simp
  next
    case (Cons x xs)
    have x: "x \<in> set (hdr # lo @ hi)" "set xs \<subseteq> set (hdr # lo @ hi)"
      using arg_cong [OF Cons.prems, of set] by auto
    have lx: "links h (x # xs @ hi)"
      using l Cons.prems links_append [of h pre "x # xs @ hi"] by (simp flip: append_Cons)
    have "fwd h' x i = Some (next_at h' i (xs @ new # hi))" if i: "i < ht h' x" for i
    proof -
      have ix: "i < ht h x" using i x(1) nlo by (metis)
      have "next_at h' i xs = next_at h i xs" using x nlo by (intro next_at_cong) auto
      moreover have "next_at h' i (new # hi) = (if i \<le> lv then Some new else next_at h i hi)"
        using hn nhi by (auto simp: next_at_def)
      moreover have "last_below h i hdr lo = x \<longleftrightarrow> next_at h i xs = None"
        by (rule last_below_iff [where pre = pre]) (use Cons.prems d ix in auto)
      moreover have "fwd h x i = Some (next_at h i (xs @ hi))" using lx ix by simp
      ultimately show ?thesis
        using fold [OF x(1) ix] by (auto simp: next_at_append split: option.splits)
    qed
    moreover have "links h' (xs @ new # hi)" using Cons.IH [of "pre @ [x]"] Cons.prems by simp
    ultimately show ?case by simp
  qed
  from this [of "[]" "hdr # lo"] show ?thesis by simp
qed

lemma links_remove:
  assumes l: "links h (hdr # lo @ cur # hi)" and d: "distinct (hdr # lo)"
    and nlo: "\<forall>a \<in> set (hdr # lo @ hi). ht h' a = ht h a"
    and fold: "\<And>a i. a \<in> set (hdr # lo @ hi) \<Longrightarrow> i < ht h a \<Longrightarrow> fwd h' a i =
       (if i < ht h cur \<and> a = last_below h i hdr lo then fwd h cur i else fwd h a i)"
    and hi: "set hi \<inter> set (hdr # lo) = {}"
  shows "links h' (hdr # lo @ hi)"
proof -
  have nhi: "next_at h' i hi = next_at h i hi" for i using nlo by (intro next_at_cong) simp
  have lcur: "links h (cur # hi)" using links_append [of h "hdr # lo" "cur # hi"] l by simp
  have "last_below h i hdr lo \<in> set (hdr # lo)" for i by (rule last_below_in)
  then have "a \<noteq> last_below h i hdr lo" if "a \<in> set hi" for a i using hi that by blast
  then have base: "links h' hi"
    using lcur nlo fold by (intro links_cong [of h hi h']) auto
  have "links h' (xs @ hi)" if "hdr # lo = pre @ xs" for pre xs
    using that
  proof (induction xs arbitrary: pre)
    case Nil
    show ?case using base by simp
  next
    case (Cons x xs)
    have x: "x \<in> set (hdr # lo @ hi)" "set xs \<subseteq> set (hdr # lo @ hi)"
      using arg_cong [OF Cons.prems, of set] by auto
    have lx: "links h (x # xs @ cur # hi)"
      using l Cons.prems links_append [of h pre "x # xs @ cur # hi"] by (simp flip: append_Cons)
    have "fwd h' x i = Some (next_at h' i (xs @ hi))" if i: "i < ht h' x" for i
    proof -
      have ix: "i < ht h x" using i x(1) nlo by (metis)
      have "next_at h' i xs = next_at h i xs" using x nlo by (intro next_at_cong) auto
      moreover have "last_below h i hdr lo = x \<longleftrightarrow> next_at h i xs = None"
        by (rule last_below_iff [where pre = pre]) (use Cons.prems d ix in auto)
      moreover have "fwd h x i = Some (next_at h i (xs @ cur # hi))" using lx ix by simp
      moreover have "next_at h i (cur # hi) = (if i < ht h cur then Some cur else next_at h i hi)"
        by (simp add: next_at_def)
      moreover have "i < ht h cur \<Longrightarrow> fwd h cur i = Some (next_at h i hi)" using lcur by simp
      ultimately show ?thesis
        using fold [OF x(1) ix] nhi by (auto simp: next_at_append split: option.splits)
    qed
    moreover have "links h' (xs @ hi)" using Cons.IH [of "pre @ [x]"] Cons.prems by simp
    ultimately show ?case by simp
  qed
  from this [of "[]" "hdr # lo"] show ?thesis by simp
qed

text \<open>How the map of the entries changes with the node list.\<close>

lemma entries_cong:
  "(\<And>a. a \<in> set as \<Longrightarrow> ky h' a = ky h a \<and> svalue (nd h' a) = svalue (nd h a)) \<Longrightarrow>
   entries h' as = entries h as"
  by (simp add: entries_def)

lemma entries_append: "entries h (as @ bs) = entries h as @ entries h bs"
  by (simp add: entries_def)

lemma entries_keys: "fst ` set (entries h as) = ky h ` set as"
  by (simp add: entries_def image_image)

lemma randomLevel_bound: "lv \<le> MAX_LEVEL \<Longrightarrow> randomLevel e lv \<le> MAX_LEVEL"
  by (induction e lv rule: randomLevel.induct) (subst randomLevel.simps, auto)

lemma skip_miss:
  assumes rep: "skip_rep s hdr (lo @ hi)" and "\<forall>a \<in> set lo. ky (sheap s) a < k"
    and "\<forall>a \<in> set hi. \<not> ky (sheap s) a < k" and "skip_map s k = None"
  shows "\<forall>a \<in> set hi. k < ky (sheap s) a"
proof
  fix a assume a: "a \<in> set hi"
  then have "k \<noteq> ky (sheap s) a"
    using assms(4) node_list_correct(2) [OF rep]
    by (auto simp: map_of_eq_None_iff entries_keys)
  with a assms(3) show "k < ky (sheap s) a" by (meson linorder_cases)
qed

lemma last_below_high:
  assumes "\<forall>a \<in> set lo. ht h a \<le> l + 1" "l < j"
  shows "last_below h j hdr lo = hdr"
proof -
  have "filter (\<lambda>a. j < ht h a) lo = []" using assms by (auto simp: filter_empty_conv)
  then show ?thesis by (simp add: last_below_def)
qed

text \<open>The \<open>update\<close> array of an insertion, headers added for the new levels.\<close>

lemma update_array:
  assumes "us = map (\<lambda>j. last_below h j hdr lo) [0..<Suc l]" "\<forall>a \<in> set lo. ht h a \<le> l + 1"
    "j \<le> lv"
  shows "(us @ replicate (lv - l) hdr) ! j = last_below h j hdr lo"
proof (cases "j \<le> l")
  case True
  then show ?thesis using assms(1) by (simp add: nth_append del: upt_Suc)
next
  case False
  then have "last_below h j hdr lo = hdr" using last_below_high [OF assms(2)] by simp
  with False assms(1,3) show ?thesis by (simp add: nth_append)
qed

lemma rep_insert:
  assumes rep: "skip_rep s hdr (lo @ hi)"
    and lo: "\<forall>a \<in> set lo. ky (sheap s) a < k" and hi: "\<forall>a \<in> set hi. k < ky (sheap s) a"
    and lv: "lv \<le> MAX_LEVEL"
    and us: "\<And>j. j \<le> lv \<Longrightarrow> us ! j = last_below (sheap s) j hdr lo"
    and n: "n = \<lparr>skey = k, svalue = Some v, forward = replicate (lv + 1) None\<rparr>"
  shows "\<exists>h. link ((sheap s)(snext s \<mapsto> n)) us (snext s) 0 (lv + 1) = Some h \<and>
     skip_rep (s\<lparr>level := max (level s) lv, sheap := h, snext := snext s + 1\<rparr>) hdr
       (lo @ snext s # hi) \<and>
     entries h (lo @ snext s # hi) = entries (sheap s) lo @ (k, v) # entries (sheap s) hi"
proof -
  note r = skip_repD [OF rep]
  let ?new = "snext s" and ?h = "sheap s" and ?hn = "(sheap s)(snext s \<mapsto> n)"
  have old: "a \<noteq> ?new" "?h a \<noteq> None" if "a \<in> set (hdr # lo @ hi)" for a
    using that r(2,8,9) by force+
  have lb: "last_below ?h j hdr lo \<in> set (hdr # lo @ hi)" for j
    using last_below_in [of ?h j hdr lo] by auto
  have f0: "fwd ?hn a j = (if a = ?new then (if j \<le> lv then Some None else None) else fwd ?h a j)" for a j
    using n by (auto simp: fwd_def nth_Cons split: nat.split)
  have fl: "fwd ?h (last_below ?h j hdr lo) j = Some (next_at ?h j hi)" if "j \<le> lv" for j
    using fwd_last_below [OF r(6), of j] r(3) lv that by simp
  have "\<forall>j. 0 \<le> j \<and> j < 0 + (lv + 1) \<longrightarrow> us ! j \<noteq> ?new \<and> fwd ?hn (us ! j) j \<noteq> None \<and> fwd ?hn ?new j \<noteq> None"
    using us old(1) [OF lb] fl f0 by simp
  from link_correct [OF this] obtain h where h: "link ?hn us ?new 0 (lv + 1) = Some h"
    "shape h = shape ?hn"
    "\<And>a j. fwd h a j = (if j \<le> lv \<and> a = ?new then fwd ?hn (us ! j) j
         else if j \<le> lv \<and> a = us ! j then Some (Some ?new) else fwd ?hn a j)"
    by auto
  have same: "h a \<noteq> None" "ky h a = ky ?h a" "ht h a = ht ?h a" "svalue (nd h a) = svalue (nd ?h a)"
    if "a \<in> set (hdr # lo @ hi)" for a
    using shape_node [of ?hn a h] shape_dom [of ?hn a h] old [OF that] h(2) by auto
  have new: "h ?new \<noteq> None" "ky h ?new = k" "ht h ?new = Suc lv" "svalue (nd h ?new) = Some v"
    using shape_node [of ?hn ?new h] shape_dom [of ?hn ?new h] h(2) n by auto
  have "links h (hdr # lo @ ?new # hi)"
  proof (rule links_insert [where h = ?h])
    show "fwd h a i = (if i \<le> lv \<and> a = last_below ?h i hdr lo then Some (Some ?new) else fwd ?h a i)"
      if "a \<in> set (hdr # lo @ hi)" for a i
      using h(3) [of a i] old [OF that] us f0 by auto
    show "fwd h ?new i = Some (next_at ?h i hi)" if "i \<le> lv" for i
      using h(3) [of ?new i] that us [OF that] fl [OF that] f0 old(1) [OF lb] by simp
  qed (use r(5,6) old same new(3) in auto)
  moreover have "sorted_wrt (\<lambda>a b. ky h a < ky h b) (lo @ ?new # hi)"
  proof -
    have "sorted_wrt (\<lambda>a b. ky h a < ky h b) (lo @ hi)"
      using r(7) by (rule sorted_wrt_mono_rel [rotated]) (use same in auto)
    then show ?thesis using lo hi same new(2) by (auto simp: sorted_wrt_append)
  qed
  moreover have "a < snext s + 1 \<and> a \<in> set (hdr # lo @ ?new # hi)" if "h a \<noteq> None" for a
  proof (cases "a = ?new")
    case False
    then have "?h a \<noteq> None" using that shape_dom [of h a ?hn] h(2) by simp
    then have "a < ?new \<and> a \<in> set (hdr # lo @ hi)" using r(9) by blast
    then show ?thesis by auto
  qed simp
  moreover have "h a \<noteq> None \<and> svalue (nd h a) \<noteq> None \<and> 0 < ht h a \<and> ht h a \<le> max (level s) lv + 1"
    if "a \<in> set (lo @ ?new # hi)" for a
  proof (cases "a = ?new")
    case True
    with new show ?thesis by simp
  next
    case False
    with that have a: "a \<in> set (lo @ hi)" by simp
    then have "ht ?h a \<le> level s + 1" using r(8) by simp
    then have "ht ?h a \<le> Suc (max (level s) lv)" by linarith
    then show ?thesis using a same [of a] r(8) by simp
  qed
  moreover have "distinct (hdr # lo @ ?new # hi)"
    using r(5) old(1) by auto
  ultimately have "skip_rep (s\<lparr>level := max (level s) lv, sheap := h, snext := snext s + 1\<rparr>) hdr
       (lo @ snext s # hi)"
    unfolding skip_rep_def Let_def using r(1,3,4,10) same [of hdr] lv by simp
  moreover have "entries h (lo @ ?new # hi) = entries ?h lo @ (k, v) # entries ?h hi"
    using same new by (auto simp: entries_def)
  ultimately show ?thesis using h(1) by blast
qed

lemma skip_set_new:
  assumes "skip_inv s" "env_ok e" "skip_map s k = None"
  shows "\<exists>s'. kvs_skip_set e s (Some k) (Some v) = Some (0, s') \<and> skip_inv s' \<and>
           skip_map s' = (skip_map s)(k \<mapsto> v)"
proof -
  from assms obtain hdr as where rep: "skip_rep s hdr as" by (auto simp: skip_inv_def)
  obtain lo hi us where s: "as = lo @ hi" "\<forall>a \<in> set lo. ky (sheap s) a < k"
    "\<forall>a \<in> set hi. \<not> ky (sheap s) a < k"
    "us = map (\<lambda>j. last_below (sheap s) j hdr lo) [0..<Suc (level s)]"
    "descend (sheap s) k (level s) hdr = Some us"
    "candidate (sheap s) us = Some (case hi of [] \<Rightarrow> None | a # _ \<Rightarrow> Some a)"
    "is_key (sheap s) (case hi of [] \<Rightarrow> None | a # _ \<Rightarrow> Some a) k = Some (skip_map s k \<noteq> None)"
    by (rule skip_search [OF rep, of k])
  note rep = rep [unfolded s(1)] and r = skip_repD [OF rep [unfolded s(1)]]
  define lv where "lv = randomLevel e 0"
  define us' where "us' = us @ replicate (lv - level s) hdr"
  define n where "n = \<lparr>skey = k, svalue = Some v, forward = replicate (lv + 1) None\<rparr>"
  have us': "us' ! j = last_below (sheap s) j hdr lo" if "j \<le> lv" for j
    unfolding us'_def by (rule update_array [OF s(4) _ that]) (use r(8) in auto)
  have "lv \<le> MAX_LEVEL" unfolding lv_def by (rule randomLevel_bound) simp
  from rep_insert [OF rep s(2) skip_miss [OF rep s(2,3) assms(3)] this us' n_def]
  obtain h where h: "link ((sheap s)(snext s \<mapsto> n)) us' (snext s) 0 (lv + 1) = Some h"
    "skip_rep (s\<lparr>level := max (level s) lv, sheap := h, snext := snext s + 1\<rparr>) hdr (lo @ snext s # hi)"
    "entries h (lo @ snext s # hi) = entries (sheap s) lo @ (k, v) # entries (sheap s) hi"
    by blast
  let ?s' = "s\<lparr>level := max (level s) lv, sheap := h, snext := snext s + 1\<rparr>"
  have c: "createNode e lv k v = Some n" using assms(2) by (simp add: createNode_def n_def)
  have "kvs_skip_set e s (Some k) (Some v) = Some (0, ?s')"
    using s(5-7) assms(3) r(1) c h(1)
    by (auto simp: kvs_skip_set_def Let_def lv_def [symmetric] us'_def [symmetric] max_def
        simp del: link.simps)
  moreover have "k \<notin> fst ` set (entries (sheap s) lo)"
    using s(2) by (auto simp: entries_keys)
  then have "skip_map ?s' = (skip_map s)(k \<mapsto> v)"
    using node_list_correct(2) [OF h(2)] node_list_correct(2) [OF rep]
      map_of_insert_mid [of k "entries (sheap s) lo" v "entries (sheap s) hi"]
    by (simp add: h(3) entries_append [of "sheap s"])
  ultimately show ?thesis using h(2) unfolding skip_inv_def by blast
qed

text \<open>Deletion: the node is unlinked on each of its levels, freed, and empty top levels go.\<close>

lemma drop_level_correct:
  assumes "\<forall>i \<le> l. fwd h hdr i = Some (next_at h i as)" and "\<forall>a \<in> set as. 0 < ht h a \<and> ht h a \<le> l + 1"
  shows "\<exists>l'. drop_level h hdr l = Some l' \<and> l' \<le> l \<and> (\<forall>a \<in> set as. ht h a \<le> l' + 1)"
  using assms
proof (induction l)
  case (Suc l)
  show ?case
  proof (cases "next_at h (Suc l) as")
    case None
    then have "\<forall>a \<in> set as. ht h a \<le> l + 1" by (auto simp: next_at_None filter_empty_conv)
    then obtain l' where "drop_level h hdr l = Some l'" "l' \<le> l" "\<forall>a \<in> set as. ht h a \<le> l' + 1"
      using Suc by auto
    then show ?thesis using None Suc.prems(1) by auto
  qed (use Suc.prems in auto)
qed auto

lemma rep_remove:
  assumes rep: "skip_rep s hdr (lo @ cur # hi)"
    and us: "us = map (\<lambda>j. last_below (sheap s) j hdr lo) [0..<Suc (level s)]"
  shows "\<exists>h lv. unlink (sheap s) us cur 0 (level s + 1) = Some h \<and> freeNode h cur = Some (erase h cur) \<and>
     drop_level (erase h cur) hdr (level s) = Some lv \<and>
     skip_rep (s\<lparr>sheap := erase h cur, level := lv\<rparr>) hdr (lo @ hi) \<and>
     entries (erase h cur) (lo @ hi) = entries (sheap s) (lo @ hi)"
proof -
  note r = skip_repD [OF rep]
  let ?h = "sheap s"
  have other: "a \<noteq> cur" "?h a \<noteq> None" if "a \<in> set (hdr # lo @ hi)" for a
    using that r(2,5,8) by auto
  have lb: "last_below ?h j hdr lo \<in> set (hdr # lo @ hi)" for j
    using last_below_in [of ?h j hdr lo] by auto
  have usj: "us ! j = last_below ?h j hdr lo" if "j < level s + 1" for j
    using that us by (simp del: upt_Suc)
  have fl: "fwd ?h (us ! j) j = Some (next_at ?h j (cur # hi))" if "j < level s + 1" for j
    using fwd_last_below [OF r(6), of j] r(3,4) that usj [OF that] by simp
  have "cur \<notin> set hi" using r(5) by auto
  then have nhi: "next_at ?h j hi \<noteq> Some cur" for j by (auto dest: next_at_Some)
  have fcur: "fwd ?h cur j \<noteq> None" if "j < ht ?h cur" for j
    using that r(8) by (subst fwd_defined) simp
  have "\<forall>j. 0 \<le> j \<and> j < 0 + (level s + 1) \<longrightarrow> us ! j \<noteq> cur \<and>
      (if j < ht ?h cur then fwd ?h (us ! j) j = Some (Some cur) \<and> fwd ?h cur j \<noteq> None
       else \<exists>q. fwd ?h (us ! j) j = Some q \<and> q \<noteq> Some cur)"
    using usj other(1) [OF lb] fl fcur nhi by (auto simp: next_at_def)
  from unlink_correct [OF this] obtain h where h: "unlink ?h us cur 0 (level s + 1) = Some h"
    "shape h = shape ?h"
    "\<And>a j. fwd h a j = (if j < level s + 1 \<and> j < ht ?h cur \<and> a = us ! j then fwd ?h cur j else fwd ?h a j)"
    by auto
  let ?g = "erase h cur"
  have same: "?g a \<noteq> None" "ky ?g a = ky ?h a" "ht ?g a = ht ?h a" "svalue (nd ?g a) = svalue (nd ?h a)"
    if "a \<in> set (hdr # lo @ hi)" for a
    using shape_node [of ?h a h] shape_dom [of ?h a h] other [OF that] h(2) by (auto simp: erase_def)
  have fg: "fwd ?g a i = (if i < ht ?h cur \<and> a = last_below ?h i hdr lo then fwd ?h cur i else fwd ?h a i)"
    if "a \<in> set (hdr # lo @ hi)" for a i
  proof -
    have "fwd ?g a i = fwd h a i" using other(1) [OF that] by (simp add: erase_def fwd_def)
    moreover have "ht ?h cur \<le> level s + 1" using r(8) by simp
    ultimately show ?thesis using h(3) usj by auto
  qed
  have lk: "links ?g (hdr # lo @ hi)"
    by (rule links_remove [OF r(6)]) (use r(5) same fg in auto)
  have "\<forall>i \<le> level s. fwd ?g hdr i = Some (next_at ?g i (lo @ hi))"
    using lk r(3,4) same(3) [of hdr] by simp
  from drop_level_correct [OF this] obtain lv where lv: "drop_level ?g hdr (level s) = Some lv"
    "lv \<le> level s" "\<forall>a \<in> set (lo @ hi). ht ?g a \<le> lv + 1"
    using same r(8) by auto
  have "sorted_wrt (\<lambda>a b. ky ?g a < ky ?g b) (lo @ hi)"
  proof -
    have "sorted_wrt (\<lambda>a b. ky ?h a < ky ?h b) (lo @ hi)" using r(7) by (simp add: sorted_wrt_append)
    then show ?thesis by (rule sorted_wrt_mono_rel [rotated]) (use same in auto)
  qed
  moreover have "a < snext s \<and> a \<in> set (hdr # lo @ hi)" if "?g a \<noteq> None" for a
  proof -
    have "a \<noteq> cur" "?h a \<noteq> None"
      using that shape_dom [of h a ?h] h(2) by (auto simp: erase_def split: if_splits)
    then show ?thesis using r(9) by auto
  qed
  ultimately have "skip_rep (s\<lparr>sheap := ?g, level := lv\<rparr>) hdr (lo @ hi)"
    unfolding skip_rep_def Let_def using r(1,3,4,5,8,10) same lv lk by auto
  moreover have "entries ?g (lo @ hi) = entries ?h (lo @ hi)"
    by (rule entries_cong) (use same in auto)
  moreover have "freeNode h cur = Some (erase h cur)"
    using freeNode_erase [of h cur] shape_node [of ?h cur h] shape_dom [of ?h cur h] h(2) r(8) by simp
  ultimately show ?thesis using h(1) lv(1) by blast
qed

lemma skip_keys_unique:
  assumes "skip_rep s hdr (lo @ cur # hi)"
  shows "ky (sheap s) cur \<notin> fst ` set (entries (sheap s) lo @ entries (sheap s) hi)"
proof -
  have "sorted_wrt (\<lambda>a b. ky (sheap s) a < ky (sheap s) b) (lo @ cur # hi)"
    using skip_repD(7) [OF assms] .
  then have "ky (sheap s) a \<noteq> ky (sheap s) cur" if "a \<in> set lo \<union> set hi" for a
    using that by (auto simp: sorted_wrt_append)
  then have "ky (sheap s) cur \<notin> ky (sheap s) ` (set lo \<union> set hi)" by fastforce
  then show ?thesis by (simp add: entries_keys image_Un)
qed

lemma skip_map_split:
  assumes "skip_rep s hdr (lo @ cur # hi)"
  shows "skip_map s = map_of (entries (sheap s) lo @
     (ky (sheap s) cur, the (svalue (nd (sheap s) cur))) # entries (sheap s) hi)"
  using node_list_correct(2) [OF assms] by (simp add: entries_def)

lemma skip_del_hit:
  assumes "skip_inv s" "skip_map s k \<noteq> None"
  shows "\<exists>s'. kvs_skip_del s (Some k) = Some (0, s') \<and> skip_inv s' \<and>
           skip_map s' = (skip_map s)(k := None)"
proof -
  from assms obtain hdr as where rep: "skip_rep s hdr as" by (auto simp: skip_inv_def)
  obtain lo cur hi us where s: "as = lo @ cur # hi" "ky (sheap s) cur = k"
    "us = map (\<lambda>j. last_below (sheap s) j hdr lo) [0..<Suc (level s)]"
    "descend (sheap s) k (level s) hdr = Some us"
    "candidate (sheap s) us = Some (Some cur)"
    "is_key (sheap s) (Some cur) k = Some True"
    by (rule skip_search [OF rep, of k]) (use assms(2) in auto)
  note rep = rep [unfolded s(1)]
  from rep_remove [OF rep s(3)] obtain h lv where
    h: "unlink (sheap s) us cur 0 (level s + 1) = Some h" and f: "freeNode h cur = Some (erase h cur)" and
     d: "drop_level (erase h cur) hdr (level s) = Some lv"
     "skip_rep (s\<lparr>sheap := erase h cur, level := lv\<rparr>) hdr (lo @ hi)"
     "entries (erase h cur) (lo @ hi) = entries (sheap s) (lo @ hi)"
    by blast
  let ?s' = "s\<lparr>sheap := erase h cur, level := lv\<rparr>"
  have "kvs_skip_del s (Some k) = Some (0, ?s')"
    using s(4-6) h f d(1) skip_repD(1) [OF rep] by (auto simp: kvs_skip_del_def simp del: unlink.simps)
  moreover have "skip_map ?s' = (skip_map s)(k := None)"
    using node_list_correct(2) [OF d(2)] skip_map_split [OF rep] s(2)
      map_of_remove_mid [OF skip_keys_unique [OF rep]]
    by (simp add: d(3) entries_append [of "sheap s"])
  ultimately show ?thesis using d(2) unfolding skip_inv_def by blast
qed

text \<open>Overwriting a value in place.\<close>

lemma rep_set_value:
  assumes rep: "skip_rep s hdr (lo @ cur # hi)" and n: "sheap s cur = Some n"
    and s'_def: "s' = s\<lparr>sheap := (sheap s)(cur \<mapsto> n\<lparr>svalue := Some v\<rparr>)\<rparr>"
  shows "skip_rep s' hdr (lo @ cur # hi)" "skip_map s' = (skip_map s)(ky (sheap s) cur \<mapsto> v)"
proof -
  note r = skip_repD [OF rep]
  let ?h = "sheap s" and ?g = "sheap s'"
  have g: "?g a = (if a = cur then Some (n\<lparr>svalue := Some v\<rparr>) else ?h a)" for a
    by (simp add: s'_def)
  have same: "ky ?g a = ky ?h a" "ht ?g a = ht ?h a" "fwd ?g a i = fwd ?h a i" for a i
    using n by (auto simp: g fwd_def)
  have "links ?g (hdr # lo @ cur # hi)"
    by (rule links_cong [OF r(6)]) (auto simp: same)
  then show rep': "skip_rep s' hdr (lo @ cur # hi)"
    unfolding skip_rep_def Let_def using r same by (auto simp: s'_def n)
  have "entries ?g as = entries ?h as" if "cur \<notin> set as" for as
    by (rule entries_cong) (use that in \<open>auto simp: g\<close>)
  then have "entries ?g lo = entries ?h lo" "entries ?g hi = entries ?h hi" using r(5) by auto
  then show "skip_map s' = (skip_map s)(ky ?h cur \<mapsto> v)"
    using skip_map_split [OF rep] skip_map_split [OF rep'] same skip_keys_unique [OF rep]
      map_of_insert_mid [of "ky ?h cur" "entries ?h lo"]
    by (simp add: g n image_Un)
qed

lemma skip_mod_hit:
  assumes "skip_inv s" "env_ok e" "skip_map s k \<noteq> None"
  shows "\<exists>s'. kvs_skip_mod e s (Some k) (Some v) = Some (0, s') \<and> skip_inv s' \<and>
           skip_map s' = (skip_map s)(k \<mapsto> v)"
proof -
  from assms obtain hdr as where rep: "skip_rep s hdr as" by (auto simp: skip_inv_def)
  obtain lo cur hi us where s: "as = lo @ cur # hi" "ky (sheap s) cur = k"
    "descend (sheap s) k (level s) hdr = Some us"
    "candidate (sheap s) us = Some (Some cur)"
    "is_key (sheap s) (Some cur) k = Some True"
    by (rule skip_search [OF rep, of k]) (use assms(3) in auto)
  note rep = rep [unfolded s(1)]
  obtain n old where n: "sheap s cur = Some n" and old: "svalue n = Some old" using skip_repD(8) [OF rep] by auto
  have "kvs_skip_mod e s (Some k) (Some v) =
      Some (0, s\<lparr>sheap := (sheap s)(cur \<mapsto> n\<lparr>svalue := Some v\<rparr>)\<rparr>)"
    using s(3-5) n old assms(2) skip_repD(1) [OF rep] by (simp add: kvs_skip_mod_def)
  then show ?thesis
    using rep_set_value [OF rep n refl, of v] s(2) unfolding skip_inv_def by blast
qed

lemma skip_found:
  assumes "skip_inv s"
  obtains hdr us current where "header s = Some hdr"
    "descend (sheap s) k (level s) hdr = Some us" "candidate (sheap s) us = Some current"
    "is_key (sheap s) current k = Some (skip_map s k \<noteq> None)"
proof -
  from assms obtain hdr as where rep: "skip_rep s hdr as" by (auto simp: skip_inv_def)
  show thesis
    by (rule skip_search [OF rep, of k]) (use that skip_repD(1) [OF rep] in blast)
qed

lemma skip_set_dup:
  assumes "skip_inv s" "skip_map s k \<noteq> None"
  shows "kvs_skip_set e s (Some k) (Some v) = Some (1, s)"
  by (rule skip_found [OF assms(1), of k]) (use assms(2) in \<open>simp add: kvs_skip_set_def\<close>)

lemma skip_del_miss:
  assumes "skip_inv s" "skip_map s k = None"
  shows "kvs_skip_del s (Some k) = Some (1, s)"
  by (rule skip_found [OF assms(1), of k]) (use assms(2) in \<open>simp add: kvs_skip_del_def\<close>)

lemma skip_mod_miss:
  assumes "skip_inv s" "skip_map s k = None"
  shows "kvs_skip_mod e s (Some k) (Some v) = Some (1, s)"
  by (rule skip_found [OF assms(1), of k]) (use assms(2) in \<open>simp add: kvs_skip_mod_def\<close>)

lemma skip_start_rep: "skip_rep skip_start 0 []"
  by (auto simp: skip_rep_def skip_start_def Let_def fwd_def next_at_def nth_Cons split: if_splits nat.splits)

lemma skip_start_map: "skip_map skip_start = Map.empty"
  using node_list_correct(2) [OF skip_start_rep] by (simp add: entries_def)

lemma skip_create_start: "env_ok e \<Longrightarrow> kvs_skip_create e skip_zero = (0, skip_start)"
  by (simp add: kvs_skip_create_def createNode_def skip_zero_def skip_start_def)

interpretation skp: kv_engine skip_ops skip_start skip_inv skip_map "\<lambda>_. True" \<infinity>
proof
  show "finite (dom (skip_map s))" if "skip_inv s" for s
    using that node_list_correct(2) unfolding skip_inv_def by (metis finite_dom_map_of)
  show "skip_inv skip_start" unfolding skip_inv_def using skip_start_rep by blast
qed (auto simp: skip_ops_def skip_start_map skip_get_correct skip_set_dup skip_del_miss
      skip_mod_miss skip_set_new skip_del_hit skip_mod_hit kvs_skip_exist_def has_room_def)

text \<open>Destruction follows level 0 and frees every node once.\<close>

lemma free_all_correct:
  "links h as \<Longrightarrow> distinct as \<Longrightarrow> \<forall>a \<in> set as. h a \<noteq> None \<and> svalue (nd h a) \<noteq> None \<and> 0 < ht h a \<Longrightarrow>
   free_all h (next_at h 0 as) = Some (\<lambda>a. if a \<in> set as then None else h a)"
proof (induction as arbitrary: h)
  case Nil
  then show ?case by (simp add: free_all.simps [of h None] next_at_def)
next
  case (Cons a as)
  define g where "g = erase h a"
  have g: "g b = h b" if "b \<in> set as" for b
    using that Cons.prems(2) by (auto simp: g_def erase_def)
  have "links h as" using Cons.prems(1) by simp
  then have "links g as"
    by (rule links_cong) (simp_all add: g fwd_def)
  moreover have "distinct as" "\<forall>b \<in> set as. g b \<noteq> None \<and> svalue (nd g b) \<noteq> None \<and> 0 < ht g b"
    using Cons.prems(2,3) g by simp_all
  ultimately have "free_all g (next_at g 0 as) = Some (\<lambda>b. if b \<in> set as then None else g b)"
    by (rule Cons.IH)
  moreover have "next_at g 0 as = next_at h 0 as" by (rule next_at_cong) (simp add: g)
  moreover have "fwd h a 0 = Some (next_at h 0 as)" using Cons.prems by simp
  moreover have "next_at h 0 (a # as) = Some a" using Cons.prems(3) by (simp add: next_at_def)
  ultimately have "free_all h (next_at h 0 (a # as)) = Some (\<lambda>b. if b \<in> set as then None else g b)"
    using freeNode_erase [of h a] Cons.prems(3) by (subst free_all.simps) (simp add: g_def)
  moreover have "(\<lambda>b. if b \<in> set as then None else g b) = (\<lambda>b. if b \<in> set (a # as) then None else h b)"
    by (auto simp: g_def erase_def)
  ultimately show ?case by simp
qed

lemma skip_destroy_correct:
  assumes "skip_inv s"
  shows "kvs_skip_destroy s = Some (s\<lparr>sheap := Map.empty, header := None, level := 0\<rparr>)"
proof -
  from assms obtain hdr as where rep: "skip_rep s hdr as" by (auto simp: skip_inv_def)
  note r = skip_repD [OF rep]
  have "free_all (sheap s) (next_at (sheap s) 0 as) =
      Some (\<lambda>a. if a \<in> set as then None else sheap s a)"
    using r by (intro free_all_correct) auto
  moreover have "fwd (sheap s) hdr 0 = Some (next_at (sheap s) 0 as)" using r(3,6) by simp
  moreover have "freeNode (\<lambda>a. if a \<in> set as then None else sheap s a) hdr = Some Map.empty"
    using freeNode_erase [of "\<lambda>a. if a \<in> set as then None else sheap s a" hdr] r(2, 5, 9, 10) by (auto simp: erase_def fun_eq_iff)
  ultimately show ?thesis using r(1) by (simp add: kvs_skip_destroy_def)
qed

section \<open>Properties of the skip-list engine\<close>

text \<open>C11: Any sequence of calls on a freshly created skip list, with enough memory and whatever
  \<open>rand()\<close> returns, follows only valid pointers, terminates, and returns exactly the replies of
  an unbounded map.\<close>

theorem skip_refines_map:
  assumes "\<forall>(e, c) \<in> set ecs. env_ok e"
  shows "\<exists>s'. eng_run skip_ops skip_start ecs =
        Some (fst (spec_run \<infinity> Map.empty (map snd ecs)), s') \<and>
      skip_inv s' \<and> skip_map s' = snd (spec_run \<infinity> Map.empty (map snd ecs))"
  by (rule skp.run_from_start) (use assms in auto)

theorem skip_refines_map_witness:
  "\<exists>s'. eng_run skip_ops skip_start
      [(env0, KSet ''b'' ''1''), (env0\<lparr>rand_val := (\<lambda>_. RAND_MAX)\<rparr>, KSet ''a'' ''2''), (env0, KGet ''b''),
       (env0, KDel ''b''), (env0, KExist ''b''), (env0, KGet ''a'')] =
     Some ([Code 0, Code 0, Val (Some ''1''), Code 0, Code 1, Val (Some ''2'')], s')"
  using skip_refines_map [of "[(env0, KSet ''b'' ''1''), (env0\<lparr>rand_val := (\<lambda>_. RAND_MAX)\<rparr>, KSet ''a'' ''2''),
      (env0, KGet ''b''), (env0, KDel ''b''), (env0, KExist ''b''), (env0, KGet ''a'')]"]
  by (auto simp: has_room_def env_ok_def env0_def)

text \<open>C15: Destroying a list reached by such calls terminates and frees every node exactly once,
  header included: no node is left in the store, and since freeing a node or a value a second time
  is a fault, none is freed twice.\<close>

theorem skip_destroy_frees_all:
  assumes "\<forall>(e, c) \<in> set ecs. env_ok e" and "eng_run skip_ops skip_start ecs = Some (rs, s)"
  shows "\<exists>s'. kvs_skip_destroy s = Some s' \<and> sheap s' = Map.empty \<and> header s' = None"
proof -
  have "skip_inv s" using skp.run_from_start [of ecs] assms by auto
  then show ?thesis by (simp add: skip_destroy_correct)
qed

theorem skip_destroy_frees_all_witness:
  "\<exists>s s'. eng_run skip_ops skip_start [(env0, KSet ''b'' ''1''), (env0, KSet ''a'' ''2'')] =
       Some ([Code 0, Code 0], s) \<and> kvs_skip_destroy s = Some s' \<and> sheap s' = Map.empty"
proof -
  obtain s where s: "eng_run skip_ops skip_start [(env0, KSet ''b'' ''1''), (env0, KSet ''a'' ''2'')] =
      Some ([Code 0, Code 0], s)"
    using skp.run_from_start [of "[(env0, KSet ''b'' ''1''), (env0, KSet ''a'' ''2'')]"]
    by (auto simp: has_room_def)
  from skip_destroy_frees_all [OF _ s] s show ?thesis by auto
qed

lemma skip_value_write_get:
  assumes rep: "skip_rep s hdr (lo @ cur # hi)" and n: "sheap s cur = Some n"
  shows "kvs_skip_get (s\<lparr>sheap := (sheap s)(cur \<mapsto> n\<lparr>svalue := None\<rparr>)\<rparr>) (Some (skey n)) = None"
proof -
  let ?s = "s\<lparr>sheap := (sheap s)(cur \<mapsto> n\<lparr>svalue := None\<rparr>)\<rparr>"
  let ?g = "sheap ?s"
  note r = skip_repD [OF rep]
  have same: "ky ?g a = ky (sheap s) a" "ht ?g a = ht (sheap s) a" "fwd ?g a i = fwd (sheap s) a i" for a i
    using n by (auto simp: fwd_def)
  have l: "links ?g (hdr # lo @ cur # hi)" by (rule links_cong [OF r(6)]) (simp_all only: same)
  have below: "\<forall>a \<in> set lo. ky ?g a < skey n" "\<forall>a \<in> set (cur # hi). \<not> ky ?g a < skey n"
    using r(7) n unfolding same sorted_wrt_append by (auto dest: order.strict_trans)
  have dom: "\<forall>a \<in> set (hdr # lo @ cur # hi). ?g a \<noteq> None" using r(2,8) by auto
  have lv: "level s < ht ?g hdr" unfolding same using r(3,4) by simp
  have d: "descend ?g (skey n) (level s) hdr = Some (map (\<lambda>j. last_below ?g j hdr lo) [0..<Suc (level s)])"
    by (rule descend_correct [OF l dom lv below])
  have tall: "0 < ht ?g cur" unfolding same using r(8) by simp
  have "0 < ht ?g hdr" using lv by (rule le_less_trans [OF le0])
  then have "fwd ?g (last_below ?g 0 hdr lo) 0 = Some (Some cur)"
    using fwd_last_below [OF l, of 0] tall by (simp add: next_at_def)
  then have c: "candidate ?g (map (\<lambda>j. last_below ?g j hdr lo) [0..<Suc (level s)]) = Some (Some cur)"
    by (simp add: candidate_def upt_conv_Cons del: upt_Suc)
  have "is_key ?g (Some cur) (skey n) = Some True" by (simp add: is_key_def)
  with d c r(1) show ?thesis by (simp add: kvs_skip_get_def del: upt_Suc)
qed

text \<open>C21: A mod whose allocation fails returns -2 and leaves the node with a freed value, so
  the next get of that key reads freed memory.\<close>

theorem skip_mod_out_of_memory:
  assumes "skip_inv s" and "\<not> alloc e 0" and "skip_map s k \<noteq> None"
  shows "\<exists>s'. kvs_skip_mod e s (Some k) (Some v) = Some (-2, s') \<and> kvs_skip_get s' (Some k) = None"
proof -
  from assms obtain hdr as where rep: "skip_rep s hdr as" by (auto simp: skip_inv_def)
  obtain lo cur hi us where s: "as = lo @ cur # hi" "ky (sheap s) cur = k"
    "descend (sheap s) k (level s) hdr = Some us"
    "candidate (sheap s) us = Some (Some cur)"
    "is_key (sheap s) (Some cur) k = Some True"
    by (rule skip_search [OF rep, of k]) (use assms(3) in auto)
  note rep = rep [unfolded s(1)]
  obtain n old where n: "sheap s cur = Some n" and old: "svalue n = Some old" using skip_repD(8) [OF rep] by auto
  have "kvs_skip_mod e s (Some k) (Some v) =
      Some (-2, s\<lparr>sheap := (sheap s)(cur \<mapsto> n\<lparr>svalue := None\<rparr>)\<rparr>)"
    using s(3-5) n old assms(2) skip_repD(1) [OF rep] by (simp add: kvs_skip_mod_def kvs_malloc_def)
  then show ?thesis using skip_value_write_get [OF rep n] s(2) n by auto
qed

theorem skip_mod_out_of_memory_witness:
  "\<exists>s s'. eng_run skip_ops skip_start [(env0, KSet ''a'' ''1'')] = Some ([Code 0], s) \<and>
     kvs_skip_mod (env0\<lparr>alloc := (\<lambda>_. False)\<rparr>) s (Some ''a'') (Some ''2'') = Some (-2, s') \<and>
     kvs_skip_get s' (Some ''a'') = None"
proof -
  obtain s where s: "eng_run skip_ops skip_start [(env0, KSet ''a'' ''1'')] = Some ([Code 0], s)"
    "skip_inv s" "skip_map s = [''a'' \<mapsto> ''1'']"
    using skp.run_from_start [of "[(env0, KSet ''a'' ''1'')]"] by (auto simp: has_room_def)
  with skip_mod_out_of_memory [of s "env0\<lparr>alloc := (\<lambda>_. False)\<rparr>" "''a''" "''2''"]
  show ?thesis by auto
qed

end
