(* ===== verification/Kvs_Rbtree.thy ===== *)
theory Kvs_Rbtree
  imports Engine_Spec
begin

text \<open>
  The red-black tree engine (\<open>src/engine/kvs_rbtree.c\<close>), with its parent pointers and its
  sentinel \<open>nil\<close>. Nodes live in a store from addresses to \<open>rbtree_node\<close> records; NULL is never
  allocated, so a NULL dereference is a fault. A field that was never written
  is \<^const>\<open>None\<close> and reading it is a fault too: the colour and links of a fresh node, the
  links of the sentinel.

  Every C loop is a partial function or a recursion on the store; that each of them returns is
  part of the correctness lemmas. The proofs relate a store to a functional tree of nodes with
  their addresses (\<open>rep\<close>); a position inside the tree is a context (\<open>frame list\<close>) around a
  subtree, so that each rotation or recolouring is a local rewriting of \<open>plug C t\<close>.
\<close>

datatype rbcolor = RED | BLACK

record rbtree_node =
  rcolor :: "rbcolor option"
  rright :: "ref option"
  rleft :: "ref option"
  rparent :: "ref option"
  rkey :: cstr
  rvalue :: cstr

record rbtree =
  root :: ref
  nil :: ref
  rheap :: "ref \<rightharpoonup> rbtree_node"
  rnext :: nat

text \<open>Field reads and writes through a pointer.\<close>

definition get_color :: "rbtree \<Rightarrow> ref \<Rightarrow> rbcolor option" where
  "get_color T a = do { n \<leftarrow> rheap T a; rcolor n }"

definition get_left :: "rbtree \<Rightarrow> ref \<Rightarrow> ref option" where
  "get_left T a = do { n \<leftarrow> rheap T a; rleft n }"

definition get_right :: "rbtree \<Rightarrow> ref \<Rightarrow> ref option" where
  "get_right T a = do { n \<leftarrow> rheap T a; rright n }"

definition get_parent :: "rbtree \<Rightarrow> ref \<Rightarrow> ref option" where
  "get_parent T a = do { n \<leftarrow> rheap T a; rparent n }"

definition get_key :: "rbtree \<Rightarrow> ref \<Rightarrow> string option" where
  "get_key T a = do { n \<leftarrow> rheap T a; rkey n }"

definition get_value :: "rbtree \<Rightarrow> ref \<Rightarrow> string option" where
  "get_value T a = do { n \<leftarrow> rheap T a; rvalue n }"

definition write_node :: "(rbtree_node \<Rightarrow> rbtree_node) \<Rightarrow> rbtree \<Rightarrow> ref \<Rightarrow> rbtree option" where
  "write_node f T a = do { n \<leftarrow> rheap T a; Some (T\<lparr>rheap := (rheap T)(a \<mapsto> f n)\<rparr>) }"

definition set_color :: "rbtree \<Rightarrow> ref \<Rightarrow> rbcolor \<Rightarrow> rbtree option" where
  "set_color T a c = write_node (\<lambda>n. n\<lparr>rcolor := Some c\<rparr>) T a"

definition set_left :: "rbtree \<Rightarrow> ref \<Rightarrow> ref \<Rightarrow> rbtree option" where
  "set_left T a p = write_node (\<lambda>n. n\<lparr>rleft := Some p\<rparr>) T a"

definition set_right :: "rbtree \<Rightarrow> ref \<Rightarrow> ref \<Rightarrow> rbtree option" where
  "set_right T a p = write_node (\<lambda>n. n\<lparr>rright := Some p\<rparr>) T a"

definition set_parent :: "rbtree \<Rightarrow> ref \<Rightarrow> ref \<Rightarrow> rbtree option" where
  "set_parent T a p = write_node (\<lambda>n. n\<lparr>rparent := Some p\<rparr>) T a"

partial_function (option) rbtree_mini :: "rbtree \<Rightarrow> ref \<Rightarrow> ref option" where
  "rbtree_mini T x = do { l \<leftarrow> get_left T x; if l \<noteq> nil T then rbtree_mini T l else Some x }"

partial_function (option) rbtree_maxi :: "rbtree \<Rightarrow> ref \<Rightarrow> ref option" where
  "rbtree_maxi T x = do { r \<leftarrow> get_right T x; if r \<noteq> nil T then rbtree_maxi T r else Some x }"

text \<open>The climbing loop \<open>while (y != nil && x == y->right) { x = y; y = y->parent; }\<close>.\<close>

partial_function (option) climb :: "rbtree \<Rightarrow> ref \<Rightarrow> ref \<Rightarrow> ref option" where
  "climb T x y =
     (if y = nil T then Some y
      else do { r \<leftarrow> get_right T y;
        if x = r then do { p \<leftarrow> get_parent T y; climb T y p } else Some y })"

definition rbtree_successor :: "rbtree \<Rightarrow> ref \<Rightarrow> ref option" where
  "rbtree_successor T x = do {
     y \<leftarrow> get_parent T x;
     r \<leftarrow> get_right T x;
     if r \<noteq> nil T then rbtree_mini T r else climb T x y }"

text \<open>Two groups of statements that the rotations and the deletion share:
  \<open>if (q != nil) q->parent = p\<close>, and the update of the pointer that led to \<open>x\<close> below its
  parent \<open>xp\<close> (the root, or the child that is tested first).\<close>

definition reparent :: "rbtree \<Rightarrow> ref \<Rightarrow> ref \<Rightarrow> rbtree option" where
  "reparent T q p = (if q \<noteq> nil T then set_parent T q p else Some T)"

definition relink_left_first :: "rbtree \<Rightarrow> ref \<Rightarrow> ref \<Rightarrow> ref \<Rightarrow> rbtree option" where
  "relink_left_first T xp x y =
     (if xp = nil T then Some (T\<lparr>root := y\<rparr>)
      else do { xpl \<leftarrow> get_left T xp; if x = xpl then set_left T xp y else set_right T xp y })"

definition relink_right_first :: "rbtree \<Rightarrow> ref \<Rightarrow> ref \<Rightarrow> ref \<Rightarrow> rbtree option" where
  "relink_right_first T yp y x =
     (if yp = nil T then Some (T\<lparr>root := x\<rparr>)
      else do { ypr \<leftarrow> get_right T yp; if y = ypr then set_right T yp x else set_left T yp x })"

definition rbtree_left_rotate :: "rbtree \<Rightarrow> ref \<Rightarrow> rbtree option" where
  "rbtree_left_rotate T x = do {
     y \<leftarrow> get_right T x;
     yl \<leftarrow> get_left T y;
     T \<leftarrow> set_right T x yl;
     T \<leftarrow> reparent T yl x;
     xp \<leftarrow> get_parent T x;
     T \<leftarrow> set_parent T y xp;
     T \<leftarrow> relink_left_first T xp x y;
     T \<leftarrow> set_left T y x;
     set_parent T x y }"

definition rbtree_right_rotate :: "rbtree \<Rightarrow> ref \<Rightarrow> rbtree option" where
  "rbtree_right_rotate T y = do {
     x \<leftarrow> get_left T y;
     xr \<leftarrow> get_right T x;
     T \<leftarrow> set_left T y xr;
     T \<leftarrow> reparent T xr y;
     yp \<leftarrow> get_parent T y;
     T \<leftarrow> set_parent T x yp;
     T \<leftarrow> relink_right_first T yp y x;
     T \<leftarrow> set_right T x y;
     set_parent T y x }"

text \<open>One iteration of the loop of \<open>rbtree_insert_fixup\<close>, where \<open>p\<close> is \<open>z->parent\<close>: the new
  tree and the new \<open>z\<close>.\<close>

definition insert_fixup_step :: "rbtree \<Rightarrow> ref \<Rightarrow> ref \<Rightarrow> (rbtree \<times> ref) option" where
  "insert_fixup_step T z p = do {
     g \<leftarrow> get_parent T p;
     gl \<leftarrow> get_left T g;
     if p = gl then do {
       y \<leftarrow> get_right T g;
       cy \<leftarrow> get_color T y;
       if cy = RED then do {
         T \<leftarrow> set_color T p BLACK;
         T \<leftarrow> set_color T y BLACK;
         T \<leftarrow> set_color T g RED;
         Some (T, g) }
       else do {
         pr \<leftarrow> get_right T p;
         (T, z) \<leftarrow> (if z = pr then do { T \<leftarrow> rbtree_left_rotate T p; Some (T, p) } else Some (T, z));
         p \<leftarrow> get_parent T z;
         T \<leftarrow> set_color T p BLACK;
         g \<leftarrow> get_parent T p;
         T \<leftarrow> set_color T g RED;
         T \<leftarrow> rbtree_right_rotate T g;
         Some (T, z) } }
     else do {
       y \<leftarrow> get_left T g;
       cy \<leftarrow> get_color T y;
       if cy = RED then do {
         T \<leftarrow> set_color T p BLACK;
         T \<leftarrow> set_color T y BLACK;
         T \<leftarrow> set_color T g RED;
         Some (T, g) }
       else do {
         pl \<leftarrow> get_left T p;
         (T, z) \<leftarrow> (if z = pl then do { T \<leftarrow> rbtree_right_rotate T p; Some (T, p) } else Some (T, z));
         p \<leftarrow> get_parent T z;
         T \<leftarrow> set_color T p BLACK;
         g \<leftarrow> get_parent T p;
         T \<leftarrow> set_color T g RED;
         T \<leftarrow> rbtree_left_rotate T g;
         Some (T, z) } } }"

partial_function (option) rbtree_insert_fixup :: "rbtree \<Rightarrow> ref \<Rightarrow> rbtree option" where
  "rbtree_insert_fixup T z = do {
     p \<leftarrow> get_parent T z;
     c \<leftarrow> get_color T p;
     if c = RED then do {
       Tz \<leftarrow> insert_fixup_step T z p;
       rbtree_insert_fixup (fst Tz) (snd Tz) }
     else set_color T (root T) BLACK }"

text \<open>The descent of \<open>rbtree_insert\<close>: the last node \<open>y\<close> visited, or \<open>Inl ()\<close> when the key
  exists.\<close>

partial_function (option) insert_descend ::
    "rbtree \<Rightarrow> string \<Rightarrow> ref \<Rightarrow> ref \<Rightarrow> (unit + ref) option" where
  "insert_descend T zk y x =
     (if x = nil T then Some (Inr y)
      else do { xk \<leftarrow> get_key T x;
        if strcmp zk xk < 0 then do { l \<leftarrow> get_left T x; insert_descend T zk x l }
        else if strcmp zk xk > 0 then do { r \<leftarrow> get_right T x; insert_descend T zk x r }
        else Some (Inl ()) })"

text \<open>Linking \<open>z\<close> below \<open>y\<close> as a red leaf.\<close>

definition attach :: "rbtree \<Rightarrow> ref \<Rightarrow> string \<Rightarrow> ref \<Rightarrow> rbtree option" where
  "attach T z zk y = do {
     T \<leftarrow> set_parent T z y;
     T \<leftarrow> (if y = nil T then Some (T\<lparr>root := z\<rparr>)
          else do { yk \<leftarrow> get_key T y;
            if strcmp zk yk < 0 then set_left T y z else set_right T y z });
     T \<leftarrow> set_left T z (nil T);
     T \<leftarrow> set_right T z (nil T);
     set_color T z RED }"

definition rbtree_insert :: "rbtree \<Rightarrow> ref \<Rightarrow> rbtree option" where
  "rbtree_insert T z = do {
     zk \<leftarrow> get_key T z;
     d \<leftarrow> insert_descend T zk (nil T) (root T);
     case d of Inl _ \<Rightarrow> Some T
     | Inr y \<Rightarrow> do { T \<leftarrow> attach T z zk y; rbtree_insert_fixup T z } }"

text \<open>One iteration of the loop of \<open>rbtree_delete_fixup\<close>, in three parts: the step up to the
  test of the colours of \<open>w\<close>'s children, that test with the double rotation, and the last
  rotation; first for a left child \<open>x\<close>, then for a right child.\<close>

definition delete_left_last :: "rbtree \<Rightarrow> ref \<Rightarrow> ref \<Rightarrow> (rbtree \<times> ref) option" where
  "delete_left_last T x w = do {
     p \<leftarrow> get_parent T x;
     cp \<leftarrow> get_color T p;
     T \<leftarrow> set_color T w cp;
     T \<leftarrow> set_color T p BLACK;
     wr \<leftarrow> get_right T w;
     T \<leftarrow> set_color T wr BLACK;
     T \<leftarrow> rbtree_left_rotate T p;
     Some (T, root T) }"

definition delete_left_tail :: "rbtree \<Rightarrow> ref \<Rightarrow> ref \<Rightarrow> (rbtree \<times> ref) option" where
  "delete_left_tail T x w = do {
     wl \<leftarrow> get_left T w; cl \<leftarrow> get_color T wl;
     wr \<leftarrow> get_right T w; cr \<leftarrow> get_color T wr;
     if cl = BLACK \<and> cr = BLACK then do {
       T \<leftarrow> set_color T w RED;
       p \<leftarrow> get_parent T x;
       Some (T, p) }
     else do {
       (T, w) \<leftarrow> (if cr = BLACK then do {
           T \<leftarrow> set_color T wl BLACK;
           T \<leftarrow> set_color T w RED;
           T \<leftarrow> rbtree_right_rotate T w;
           p \<leftarrow> get_parent T x;
           w \<leftarrow> get_right T p;
           Some (T, w) }
         else Some (T, w));
       delete_left_last T x w } }"

definition delete_left_step :: "rbtree \<Rightarrow> ref \<Rightarrow> (rbtree \<times> ref) option" where
  "delete_left_step T x = do {
     p \<leftarrow> get_parent T x;
     w \<leftarrow> get_right T p;
     cw \<leftarrow> get_color T w;
     if cw = RED then do {
       T \<leftarrow> set_color T w BLACK;
       T \<leftarrow> set_color T p RED;
       T \<leftarrow> rbtree_left_rotate T p;
       p \<leftarrow> get_parent T x;
       w \<leftarrow> get_right T p;
       delete_left_tail T x w }
     else delete_left_tail T x w }"

definition delete_right_last :: "rbtree \<Rightarrow> ref \<Rightarrow> ref \<Rightarrow> (rbtree \<times> ref) option" where
  "delete_right_last T x w = do {
     p \<leftarrow> get_parent T x;
     cp \<leftarrow> get_color T p;
     T \<leftarrow> set_color T w cp;
     T \<leftarrow> set_color T p BLACK;
     wl \<leftarrow> get_left T w;
     T \<leftarrow> set_color T wl BLACK;
     T \<leftarrow> rbtree_right_rotate T p;
     Some (T, root T) }"

definition delete_right_tail :: "rbtree \<Rightarrow> ref \<Rightarrow> ref \<Rightarrow> (rbtree \<times> ref) option" where
  "delete_right_tail T x w = do {
     wl \<leftarrow> get_left T w; cl \<leftarrow> get_color T wl;
     wr \<leftarrow> get_right T w; cr \<leftarrow> get_color T wr;
     if cl = BLACK \<and> cr = BLACK then do {
       T \<leftarrow> set_color T w RED;
       p \<leftarrow> get_parent T x;
       Some (T, p) }
     else do {
       (T, w) \<leftarrow> (if cl = BLACK then do {
           T \<leftarrow> set_color T wr BLACK;
           T \<leftarrow> set_color T w RED;
           T \<leftarrow> rbtree_left_rotate T w;
           p \<leftarrow> get_parent T x;
           w \<leftarrow> get_left T p;
           Some (T, w) }
         else Some (T, w));
       delete_right_last T x w } }"

definition delete_right_step :: "rbtree \<Rightarrow> ref \<Rightarrow> (rbtree \<times> ref) option" where
  "delete_right_step T x = do {
     p \<leftarrow> get_parent T x;
     w \<leftarrow> get_left T p;
     cw \<leftarrow> get_color T w;
     if cw = RED then do {
       T \<leftarrow> set_color T w BLACK;
       T \<leftarrow> set_color T p RED;
       T \<leftarrow> rbtree_right_rotate T p;
       p \<leftarrow> get_parent T x;
       w \<leftarrow> get_left T p;
       delete_right_tail T x w }
     else delete_right_tail T x w }"

partial_function (option) rbtree_delete_fixup :: "rbtree \<Rightarrow> ref \<Rightarrow> rbtree option" where
  "rbtree_delete_fixup T x =
     (if x = root T then set_color T x BLACK
      else do {
        c \<leftarrow> get_color T x;
        if c = BLACK then do {
          p \<leftarrow> get_parent T x;
          l \<leftarrow> get_left T p;
          Tx \<leftarrow> (if x = l then delete_left_step T x else delete_right_step T x);
          rbtree_delete_fixup (fst Tx) (snd Tx) }
        else set_color T x BLACK })"

text \<open>\<open>rbtree_delete\<close> returns the node to free: \<open>z\<close>, or its successor \<open>y\<close> after their keys
  and values were exchanged.\<close>

definition swap_data :: "rbtree \<Rightarrow> ref \<Rightarrow> ref \<Rightarrow> rbtree option" where
  "swap_data T z y = do {
     nz \<leftarrow> rheap T z;
     ny \<leftarrow> rheap T y;
     Some (T\<lparr>rheap := (rheap T)(z \<mapsto> nz\<lparr>rkey := rkey ny, rvalue := rvalue ny\<rparr>,
                               y \<mapsto> ny\<lparr>rkey := rkey nz, rvalue := rvalue nz\<rparr>)\<rparr>) }"

definition rbtree_delete :: "rbtree \<Rightarrow> ref \<Rightarrow> (ref \<times> rbtree) option" where
  "rbtree_delete T z = do {
     zl \<leftarrow> get_left T z;
     zr \<leftarrow> get_right T z;
     y \<leftarrow> (if zl = nil T \<or> zr = nil T then Some z else rbtree_successor T z);
     yl \<leftarrow> get_left T y;
     yr \<leftarrow> get_right T y;
     let x = (if yl \<noteq> nil T then yl else if yr \<noteq> nil T then yr else nil T);
     yp \<leftarrow> get_parent T y;
     T \<leftarrow> set_parent T x yp;
     T \<leftarrow> relink_left_first T yp y x;
     T \<leftarrow> (if y \<noteq> z then swap_data T z y else Some T);
     c \<leftarrow> get_color T y;
     T \<leftarrow> (if c = BLACK then rbtree_delete_fixup T x else Some T);
     Some (y, T) }"

text \<open>The loop of \<open>rbtree_search\<close>.\<close>

partial_function (option) search_from :: "rbtree \<Rightarrow> string \<Rightarrow> ref \<Rightarrow> ref option" where
  "search_from T key node =
     (if node = nil T then Some (nil T)
      else do { k \<leftarrow> get_key T node;
        if strcmp key k < 0 then do { l \<leftarrow> get_left T node; search_from T key l }
        else if strcmp key k > 0 then do { r \<leftarrow> get_right T node; search_from T key r }
        else Some node })"

definition rbtree_search :: "rbtree \<Rightarrow> string \<Rightarrow> ref option" where
  "rbtree_search T key = search_from T key (root T)"

text \<open>The in-order traversal, with the pairs it visits.\<close>

partial_function (option) rbtree_traversal :: "rbtree \<Rightarrow> ref \<Rightarrow> (string \<times> string) list option" where
  "rbtree_traversal T node =
     (if node \<noteq> nil T then do {
        l \<leftarrow> get_left T node;
        xs \<leftarrow> rbtree_traversal T l;
        k \<leftarrow> get_key T node;
        v \<leftarrow> get_value T node;
        r \<leftarrow> get_right T node;
        ys \<leftarrow> rbtree_traversal T r;
        Some (xs @ (k, v) # ys) }
      else Some [])"

definition rbtree_zero :: rbtree where
  "rbtree_zero = \<lparr>root = NULL, nil = NULL, rheap = Map.empty, rnext = 1\<rparr>"

definition fresh_node :: rbtree_node where
  "fresh_node = \<lparr>rcolor = None, rright = None, rleft = None, rparent = None, rkey = None, rvalue = None\<rparr>"

text \<open>\<open>kvs_rbtree_create\<close> does not check its allocation: writing the colour through NULL is a
  fault.\<close>

definition kvs_rbtree_create :: "env \<Rightarrow> rbtree \<Rightarrow> (int \<times> rbtree) option" where
  "kvs_rbtree_create e inst =
     (if \<not> kvs_malloc e 0 then None
      else do {
        let a = Ref (rnext inst);
        let T = inst\<lparr>nil := a, rheap := (rheap inst)(a \<mapsto> fresh_node), rnext := rnext inst + 1\<rparr>;
        T \<leftarrow> set_color T a BLACK;
        Some (0, T\<lparr>root := nil T\<rparr>) })"

definition kvs_free_node :: "rbtree \<Rightarrow> ref \<Rightarrow> rbtree option" where
  "kvs_free_node T a = do { n \<leftarrow> rheap T a; Some (T\<lparr>rheap := (rheap T)(a := None)\<rparr>) }"

text \<open>The loop of \<open>kvs_rbtree_destroy\<close>: delete and free the smallest node until the tree is
  empty.\<close>

partial_function (option) destroy_loop :: "rbtree \<Rightarrow> rbtree option" where
  "destroy_loop T =
     (if root T \<noteq> nil T then do {
        mini \<leftarrow> rbtree_mini T (root T);
        d \<leftarrow> rbtree_delete T mini;
        T' \<leftarrow> kvs_free_node (snd d) (fst d);
        destroy_loop T' }
      else Some T)"

definition kvs_rbtree_destroy :: "rbtree \<Rightarrow> rbtree option" where
  "kvs_rbtree_destroy inst = do {
     T \<leftarrow> destroy_loop inst;
     T \<leftarrow> kvs_free_node T (nil T);
     Some (T\<lparr>nil := NULL, root := NULL\<rparr>) }"

definition kvs_rbtree_set :: "env \<Rightarrow> rbtree \<Rightarrow> cstr \<Rightarrow> cstr \<Rightarrow> (int \<times> rbtree) option" where
  "kvs_rbtree_set e inst key value =
     (case (key, value) of
        (Some k, Some v) \<Rightarrow> do {
          existing \<leftarrow> rbtree_search inst k;
          if existing \<noteq> NULL \<and> existing \<noteq> nil inst then Some (1, inst)
          else if \<not> kvs_malloc e 0 then Some (-2, inst)
          else let kc = kvs_strdup e 1 key in
            if kc = None then Some (-2, inst)
            else let vc = kvs_strdup e 2 value in
              if vc = None then Some (-2, inst)
              else do {
                let z = Ref (rnext inst);
                T \<leftarrow> rbtree_insert (inst\<lparr>rnext := rnext inst + 1,
                       rheap := (rheap inst)(z \<mapsto> fresh_node\<lparr>rkey := kc, rvalue := vc\<rparr>)\<rparr>) z;
                Some (0, T) } }
      | _ \<Rightarrow> Some (-1, inst))"

definition kvs_rbtree_get :: "rbtree \<Rightarrow> cstr \<Rightarrow> cstr option" where
  "kvs_rbtree_get inst key =
     (case key of None \<Rightarrow> Some None
      | Some k \<Rightarrow> do {
          node \<leftarrow> rbtree_search inst k;
          if node = NULL then Some None
          else if node = nil inst then Some None
          else do { n \<leftarrow> rheap inst node; Some (rvalue n) } })"

definition kvs_rbtree_del :: "rbtree \<Rightarrow> cstr \<Rightarrow> (int \<times> rbtree) option" where
  "kvs_rbtree_del inst key =
     (case key of None \<Rightarrow> Some (-1, inst)
      | Some k \<Rightarrow> do {
          node \<leftarrow> rbtree_search inst k;
          if node = NULL \<or> node = nil inst then Some (1, inst)
          else do {
            d \<leftarrow> rbtree_delete inst node;
            T \<leftarrow> kvs_free_node (snd d) (fst d);
            Some (0, T) } })"

text \<open>\<open>kvs_rbtree_mod\<close> stores the result of its allocation before it tests it, so that on
  failure the node has a NULL value.\<close>

definition kvs_rbtree_mod :: "env \<Rightarrow> rbtree \<Rightarrow> cstr \<Rightarrow> cstr \<Rightarrow> (int \<times> rbtree) option" where
  "kvs_rbtree_mod e inst key value =
     (case (key, value) of
        (Some k, Some v) \<Rightarrow> do {
          node \<leftarrow> rbtree_search inst k;
          if node = NULL then Some (1, inst)
          else if node = nil inst then Some (1, inst)
          else if \<not> kvs_malloc e 0 then do {
            T \<leftarrow> write_node (\<lambda>n. n\<lparr>rvalue := None\<rparr>) inst node; Some (-2, T) }
          else do { T \<leftarrow> write_node (\<lambda>n. n\<lparr>rvalue := Some v\<rparr>) inst node; Some (0, T) } }
      | _ \<Rightarrow> Some (-1, inst))"

definition kvs_rbtree_exist :: "rbtree \<Rightarrow> cstr \<Rightarrow> int option" where
  "kvs_rbtree_exist inst key =
     (case key of None \<Rightarrow> Some (-1)
      | Some k \<Rightarrow> do {
          node \<leftarrow> rbtree_search inst k;
          Some (if node = NULL then 1 else if node = nil inst then 1 else 0) })"

definition rbtree_ops :: "rbtree engine_ops" where
  "rbtree_ops = \<lparr>op_set = kvs_rbtree_set, op_get = kvs_rbtree_get, op_del = kvs_rbtree_del,
     op_mod = kvs_rbtree_mod, op_exist = kvs_rbtree_exist\<rparr>"

text \<open>The tree \<open>init_kvengine\<close> creates: a black sentinel and nothing else.\<close>

definition rbtree_start :: rbtree where
  "rbtree_start = \<lparr>root = Ref 1, nil = Ref 1, rheap = [Ref 1 \<mapsto> fresh_node\<lparr>rcolor := Some BLACK\<rparr>], rnext = 2\<rparr>"

declare rbtree_mini.simps [code] rbtree_maxi.simps [code] climb.simps [code]
  rbtree_insert_fixup.simps [code] insert_descend.simps [code] rbtree_delete_fixup.simps [code]
  search_from.simps [code] rbtree_traversal.simps [code] destroy_loop.simps [code]

end
