(* ===== verification/Kvs_Rdb.thy ===== *)
theory Kvs_Rdb
  imports Kvs_Array Kvs_Hash Kvs_Skiptable Kvs_Rbtree
begin

text \<open>
  Persistence (\<open>src/persist/kvs_rdb.c\<close>): the four string engines are dumped to a file as a
  header, one record (engine tag, key, value) per entry and an end marker, and read back at
  start-up.

  A file is the list of its bytes; the disk is a map from file names to files. The operating
  system is the record \<open>os\<close>: whether \<open>open\<close> and \<open>rename\<close> succeed, how many bytes the
  \<open>i\<close>-th \<open>write\<close> of the dump stores (negative for an error, fewer than asked for a short
  write), and the time. Reading a regular file returns the bytes asked for unless the file
  ends. Integers are stored in network byte order. \<open>printf\<close> diagnostics are not modelled.
\<close>

record engines =
  global_array :: kvs_array_t
  global_rbtree :: rbtree
  global_hash :: kvs_hash_t
  global_skip :: kvs_skip_t

record os =
  os_open :: bool
  os_write :: "nat \<Rightarrow> nat \<Rightarrow> int"
  os_rename :: bool
  os_time :: int

type_synonym disk = "string \<rightharpoonup> string"

text \<open>The descriptor of the file being written: the number of \<open>write\<close> calls so far and the
  bytes stored.\<close>

record wfd =
  wcalls :: nat
  wout :: string

definition sys_write :: "os \<Rightarrow> wfd \<Rightarrow> string \<Rightarrow> int \<times> wfd" where
  "sys_write os fd bs =
     (let r = min (os_write os (wcalls fd) (length bs)) (int (length bs)) in
      (r, \<lparr>wcalls = Suc (wcalls fd), wout = wout fd @ (if r < 0 then [] else take (nat r) bs)\<rparr>))"

text \<open>\<open>htonl\<close> and \<open>ntohl\<close> on the four bytes of an \<open>int\<close>.\<close>

definition htonl :: "int \<Rightarrow> string" where
  "htonl v = [char_of (v div 2 ^ 24 mod 256), char_of (v div 2 ^ 16 mod 256), char_of (v div 2 ^ 8 mod 256), char_of (v mod 256)]"

fun ntohl :: "string \<Rightarrow> int" where
  "ntohl [a, b, c, d] =
     (let n = of_char a * 2 ^ 24 + of_char b * 2 ^ 16 + of_char c * 2 ^ 8 + of_char d in
      if n \<ge> 2 ^ 31 then n - 2 ^ 32 else n)"
| "ntohl _ = 0"

definition RDB_MAGIC :: string where "RDB_MAGIC = ''KVSDB''"
definition RDB_VERSION :: int where "RDB_VERSION = 1"
definition RDB_FILENAME :: string where "RDB_FILENAME = ''dump.rdb''"
definition ENGINE_ARRAY :: int where "ENGINE_ARRAY = 0"
definition ENGINE_HASH :: int where "ENGINE_HASH = 1"
definition ENGINE_RBTREE :: int where "ENGINE_RBTREE = 2"
definition ENGINE_SKIPLIST :: int where "ENGINE_SKIPLIST = 3"

lemmas engine_tags = ENGINE_ARRAY_def ENGINE_HASH_def ENGINE_RBTREE_def ENGINE_SKIPLIST_def

definition rdb_write_int :: "os \<Rightarrow> wfd \<Rightarrow> int \<Rightarrow> int \<times> wfd" where
  "rdb_write_int os fd v = sys_write os fd (htonl v)"

text \<open>The integer read, or none when fewer than four bytes are left, and the rest of the file.\<close>

definition rdb_read_int :: "string \<Rightarrow> int option \<times> string" where
  "rdb_read_int bs =
     (if length bs < 4 then (None, []) else (Some (ntohl (take 4 bs)), drop 4 bs))"

text \<open>A NULL string is a fault of \<open>strlen\<close>.\<close>

definition rdb_write_string :: "os \<Rightarrow> wfd \<Rightarrow> cstr \<Rightarrow> (int \<times> wfd) option" where
  "rdb_write_string os fd str = do {
     t \<leftarrow> str;
     let (r, fd) = rdb_write_int os fd (int (length t));
     if r < 0 then Some (-1, fd)
     else let (r, fd) = sys_write os fd t in
       Some (if r \<noteq> int (length t) then -1 else 0, fd) }"

text \<open>What \<open>rdb_read_string\<close> leaves in \<open>*str\<close>: NULL after a failure before or in the
  allocation, a pointer that was freed when the bytes run out, or the C string.\<close>

datatype rdb_str = RNull | RFreed | RStr string

definition rdb_read_string :: "env \<Rightarrow> string \<Rightarrow> rdb_str \<times> string" where
  "rdb_read_string e bs =
     (case rdb_read_int bs of
        (None, rest) \<Rightarrow> (RNull, rest)
      | (Some len, rest) \<Rightarrow>
          if len \<le> 0 \<or> len > 1024 * 1024 then (RNull, rest)
          else if \<not> kvs_malloc e 0 then (RNull, rest)
          else if length rest < nat len then (RFreed, [])
          else (RStr (takeWhile (\<lambda>c. c \<noteq> CHR 0x00) (take (nat len) rest)), drop (nat len) rest))"

definition rdb_save_header :: "os \<Rightarrow> wfd \<Rightarrow> int \<times> wfd" where
  "rdb_save_header os fd =
     (let (r, fd) = sys_write os fd RDB_MAGIC in
      if r \<noteq> 5 then (-1, fd)
      else let (r, fd) = rdb_write_int os fd RDB_VERSION in
        if r < 0 then (-1, fd)
        else let (r, fd) = sys_write os fd (htonl (os_time os div 2 ^ 32)) in
          if r \<noteq> 4 then (-1, fd)
          else let (r, fd) = sys_write os fd (htonl (os_time os)) in
            if r \<noteq> 4 then (-1, fd) else (0, fd))"

text \<open>The version and the timestamp, or none for a file without a valid header.\<close>

definition rdb_load_header :: "string \<Rightarrow> (int \<times> int) option \<times> string" where
  "rdb_load_header bs =
     (if length bs < 5 then (None, [])
      else if take 5 bs \<noteq> RDB_MAGIC then (None, drop 5 bs)
      else case rdb_read_int (drop 5 bs) of
        (None, rest) \<Rightarrow> (None, rest)
      | (Some version, rest) \<Rightarrow>
          if version \<noteq> RDB_VERSION then (None, rest)
          else case rdb_read_int rest of
            (None, rest) \<Rightarrow> (None, rest)
          | (Some high, rest) \<Rightarrow>
              (case rdb_read_int rest of
                 (None, rest) \<Rightarrow> (None, rest)
               | (Some low, rest) \<Rightarrow> (Some (version, high mod 2 ^ 32 * 2 ^ 32 + low mod 2 ^ 32), rest)))"

text \<open>One record, with the short-circuit of the three writes: whether a write failed.\<close>

definition save_record :: "os \<Rightarrow> wfd \<Rightarrow> int \<Rightarrow> cstr \<Rightarrow> cstr \<Rightarrow> (bool \<times> wfd) option" where
  "save_record os fd engine key value =
     (let (r, fd) = rdb_write_int os fd engine in
      if r < 0 then Some (True, fd)
      else do {
        (r, fd) \<leftarrow> rdb_write_string os fd key;
        if r < 0 then Some (True, fd)
        else do { (r, fd) \<leftarrow> rdb_write_string os fd value; Some (r < 0, fd) } })"

text \<open>The four loops of \<open>rdb_save\<close>; each returns the error flag, the file and the count.\<close>

function save_array :: "os \<Rightarrow> kvs_array_t \<Rightarrow> nat \<Rightarrow> wfd \<Rightarrow> int \<Rightarrow> (bool \<times> wfd \<times> int) option" where
  "save_array os inst i fd cnt =
     (if i < idx inst then do {
        x \<leftarrow> slot inst i;
        if akey x \<noteq> None \<and> avalue x \<noteq> None then do {
          (err, fd) \<leftarrow> save_record os fd ENGINE_ARRAY (akey x) (avalue x);
          if err then Some (True, fd, cnt) else save_array os inst (Suc i) fd (cnt + 1) }
        else save_array os inst (Suc i) fd cnt }
      else Some (False, fd, cnt))"
  by pat_completeness auto
termination
  by (relation "measure (\<lambda>(os, inst, i, fd, cnt). idx inst - i)") auto

declare save_array.simps [simp del]

fun save_chain :: "os \<Rightarrow> hashnode_t list \<Rightarrow> wfd \<Rightarrow> int \<Rightarrow> (bool \<times> wfd \<times> int) option" where
  "save_chain os [] fd cnt = Some (False, fd, cnt)"
| "save_chain os (node # rest) fd cnt = do {
     (err, fd) \<leftarrow> save_record os fd ENGINE_HASH (Some (hkey node)) (hvalue node);
     if err then Some (True, fd, cnt) else save_chain os rest fd (cnt + 1) }"

function save_hash :: "os \<Rightarrow> kvs_hash_t \<Rightarrow> nat \<Rightarrow> wfd \<Rightarrow> int \<Rightarrow> (bool \<times> wfd \<times> int) option" where
  "save_hash os hash i fd cnt =
     (if int i < max_slots hash then do {
        chain \<leftarrow> bucket hash (int i);
        (err, fd, cnt) \<leftarrow> save_chain os chain fd cnt;
        if err then Some (True, fd, cnt) else save_hash os hash (Suc i) fd cnt }
      else Some (False, fd, cnt))"
  by pat_completeness auto
termination
  by (relation "measure (\<lambda>(os, hash, i, fd, cnt). nat (max_slots hash) - i)") auto

declare save_hash.simps [simp del]

text \<open>\<open>save_rbtree_node\<close> returns the number of records of the subtree, -1 after a failed write.\<close>

partial_function (option) save_rbtree_node :: "os \<Rightarrow> rbtree \<Rightarrow> ref \<Rightarrow> wfd \<Rightarrow> (int \<times> wfd) option" where
  "save_rbtree_node os T node fd =
     (if node = nil T then Some (0, fd)
      else do {
        l \<leftarrow> get_left T node;
        (left_count, fd) \<leftarrow> save_rbtree_node os T l fd;
        if left_count < 0 then Some (-1, fd)
        else do {
          n \<leftarrow> rheap T node;
          (err, fd, c) \<leftarrow> (case rkey n of None \<Rightarrow> Some (False, fd, left_count)
             | Some k \<Rightarrow> do {
                 (err, fd) \<leftarrow> save_record os fd ENGINE_RBTREE (Some k) (rvalue n);
                 Some (err, fd, left_count + 1) });
          if err then Some (-1, fd)
          else do {
            r \<leftarrow> get_right T node;
            (right_count, fd) \<leftarrow> save_rbtree_node os T r fd;
            if right_count < 0 then Some (-1, fd) else Some (c + right_count, fd) } } })"

partial_function (option) save_skip :: "os \<Rightarrow> skip_heap \<Rightarrow> addr \<Rightarrow> wfd \<Rightarrow> int \<Rightarrow> (bool \<times> wfd \<times> int) option" where
  "save_skip os h x fd cnt = do {
     nxt \<leftarrow> fwd h x 0;
     case nxt of None \<Rightarrow> Some (False, fd, cnt)
     | Some a \<Rightarrow> do {
         n \<leftarrow> h a;
         (err, fd) \<leftarrow> save_record os fd ENGINE_SKIPLIST (Some (skey n)) (svalue n);
         if err then Some (True, fd, cnt) else save_skip os h a fd (cnt + 1) } }"

text \<open>The body of the dump: the four engines in turn, stopping at the first error.\<close>

definition save_body :: "os \<Rightarrow> engines \<Rightarrow> wfd \<Rightarrow> (bool \<times> wfd \<times> int) option" where
  "save_body os s fd = do {
     (err, fd, cnt) \<leftarrow> save_array os (global_array s) 0 fd 0;
     (err, fd, cnt) \<leftarrow> (if err then Some (True, fd, cnt) else save_hash os (global_hash s) 0 fd cnt);
     (err, fd, cnt) \<leftarrow> (if err then Some (True, fd, cnt)
        else do {
          (c, fd) \<leftarrow> save_rbtree_node os (global_rbtree s) (root (global_rbtree s)) fd;
          Some (if c < 0 then (True, fd, cnt) else (False, fd, cnt + c)) });
     if err then Some (True, fd, cnt)
     else do { x \<leftarrow> header (global_skip s); save_skip os (sheap (global_skip s)) x fd cnt } }"

definition rdb_save :: "os \<Rightarrow> disk \<Rightarrow> engines \<Rightarrow> string \<Rightarrow> (int \<times> disk) option" where
  "rdb_save os dsk s filename =
     (let tmpfile = fst (snprintf 256 (filename @ ''.tmp'')) in
      if \<not> os_open os then Some (-1, dsk)
      else let (r, fd) = rdb_save_header os \<lparr>wcalls = 0, wout = []\<rparr> in
        if r < 0 then Some (-1, dsk(tmpfile := None))
        else do {
          (err, fd, cnt) \<leftarrow> save_body os s fd;
          if err then Some (-1, dsk(tmpfile := None))
          else let (r, fd) = rdb_write_int os fd (-1) in
            if \<not> os_rename os then Some (-1, dsk(tmpfile := None))
            else Some (cnt, dsk(tmpfile := None, filename \<mapsto> wout fd)) })"

definition load_record :: "env \<Rightarrow> engines \<Rightarrow> int \<Rightarrow> string \<Rightarrow> string \<Rightarrow> (int \<times> engines) option" where
  "load_record e s engine k v =
     (if engine = ENGINE_ARRAY then do {
        (r, x) \<leftarrow> kvs_array_set e (global_array s) (Some k) (Some v); Some (1, s\<lparr>global_array := x\<rparr>) }
      else if engine = ENGINE_HASH then do {
        (r, x) \<leftarrow> kvs_hash_set e (global_hash s) (Some k) (Some v); Some (1, s\<lparr>global_hash := x\<rparr>) }
      else if engine = ENGINE_RBTREE then do {
        (r, x) \<leftarrow> kvs_rbtree_set e (global_rbtree s) (Some k) (Some v); Some (1, s\<lparr>global_rbtree := x\<rparr>) }
      else if engine = ENGINE_SKIPLIST then do {
        (r, x) \<leftarrow> kvs_skip_set e (global_skip s) (Some k) (Some v); Some (1, s\<lparr>global_skip := x\<rparr>) }
      else Some (0, s))"

text \<open>The record loop. After a failed \<open>rdb_read_string\<close> the code frees every non-NULL pointer,
  which is a double free when the string was freed already. Environment \<open>n\<close> belongs to the
  \<open>n\<close>-th call that allocates.\<close>

lemma rdb_read_int_rest: "rdb_read_int bs = (Some v, rest) \<Longrightarrow> length rest < length bs"
  by (auto simp: rdb_read_int_def split: if_splits)

lemma rdb_read_int_shorter: "rdb_read_int bs = (r, rest) \<Longrightarrow> length rest \<le> length bs"
  by (auto simp: rdb_read_int_def split: if_splits)

lemma rdb_read_string_rest: "rdb_read_string e bs = (r, rest) \<Longrightarrow> length rest \<le> length bs"
  by (auto simp: rdb_read_string_def split: if_splits prod.splits option.splits dest!: rdb_read_int_shorter)

function load_loop :: "(nat \<Rightarrow> env) \<Rightarrow> nat \<Rightarrow> engines \<Rightarrow> string \<Rightarrow> int \<Rightarrow> (int \<times> engines) option" where
  "load_loop es n s bs cnt =
     (case rdb_read_int bs of
        (None, _) \<Rightarrow> Some (cnt, s)
      | (Some engine, bs1) \<Rightarrow>
          if engine = -1 then Some (cnt, s)
          else (case rdb_read_string (es n) bs1 of
              (RNull, _) \<Rightarrow> Some (cnt, s)
            | (RFreed, _) \<Rightarrow> None
            | (RStr k, bs2) \<Rightarrow>
                (case rdb_read_string (es (n + 1)) bs2 of
                   (RNull, _) \<Rightarrow> Some (cnt, s)
                 | (RFreed, _) \<Rightarrow> None
                 | (RStr v, bs3) \<Rightarrow> do {
                     (loaded, s') \<leftarrow> load_record (es (n + 2)) s engine k v;
                     load_loop es (n + 3) s' bs3 (cnt + loaded) })))"
  by pat_completeness auto
termination
  by (relation "measure (\<lambda>(es, n, s, bs, cnt). length bs)")
    (auto dest!: rdb_read_int_rest [OF sym] rdb_read_string_rest [OF sym])

declare load_loop.simps [simp del]

definition rdb_load :: "(nat \<Rightarrow> env) \<Rightarrow> disk \<Rightarrow> engines \<Rightarrow> string \<Rightarrow> (int \<times> engines) option" where
  "rdb_load es dsk s filename =
     (case dsk filename of None \<Rightarrow> Some (0, s)
      | Some bs \<Rightarrow> (case rdb_load_header bs of
          (None, _) \<Rightarrow> Some (-1, s)
        | (Some _, rest) \<Rightarrow> load_loop es 0 s rest 0))"

definition rdb_save_default :: "os \<Rightarrow> disk \<Rightarrow> engines \<Rightarrow> (int \<times> disk) option" where
  "rdb_save_default os dsk s = rdb_save os dsk s RDB_FILENAME"

definition rdb_load_default :: "(nat \<Rightarrow> env) \<Rightarrow> disk \<Rightarrow> engines \<Rightarrow> (int \<times> engines) option" where
  "rdb_load_default es dsk s = rdb_load es dsk s RDB_FILENAME"

end
