(* ===== verification/Kvs_Cache.thy ===== *)
theory Kvs_Cache
  imports LKV_Prelude
begin

text \<open>
  The cache layer (\<open>src/cache/kvs_cache.c\<close>): one global \<open>CacheManager\<close> with three eviction
  policies, each with its own structure: LRU (a doubly linked list), LFU (a binary min-heap
  of node pointers, indices from 1) and ARC (four doubly linked lists).

  \<open>EvictNode\<close>s live in the store \<open>cheap\<close>; \<open>kvs_free\<close> removes a node, so a dangling or NULL
  access is a fault (\<^const>\<open>None\<close>), and so is an index outside the heap array. Allocations are
  numbered by their place in the function; the code does not check them, so that a failed one
  is a NULL dereference. A cached \<open>value\<close> is always a C string copied with its NUL
  (\<open>value_len\<close> is \<open>strlen + 1\<close> at every call), so it is modelled as a string. The four lists
  of ARC are allocated once, at \<open>kvs_cache_init\<close>, and are records here.
\<close>

record EvictNode =
  ekey :: cstr
  evalue :: cstr
  value_len :: int
  eprev :: ref
  enext :: ref
  access_time :: "64 word"
  access_count :: "64 word"
  is_frequent :: int

type_synonym eheap = "ref \<rightharpoonup> EvictNode"

record LRUCache =
  lhead :: ref
  ltail :: ref
  lsize :: int
  lmax_size :: int

record LFUCache =
  lnodes :: "ref list option"
  hsize :: nat
  capacity :: nat

record ARCCache =
  t1 :: LRUCache
  t2 :: LRUCache
  b1 :: LRUCache
  b2 :: LRUCache
  target_size :: int
  amax_size :: int

record CacheManager =
  policy :: int
  max_items :: int
  lru :: LRUCache
  lfu :: LFUCache
  arc :: ARCCache
  total_access :: "64 word"
  cache_hit :: "64 word"
  cache_miss :: "64 word"
  eviction_count :: "64 word"
  policy_changes :: "64 word"
  cheap :: eheap
  cnext :: nat

definition EVICT_LRU :: int where "EVICT_LRU = 0"
definition EVICT_LFU :: int where "EVICT_LFU = 1"
definition EVICT_ARC :: int where "EVICT_ARC = 2"
definition DEFAULT_MAX_ITEMS :: int where "DEFAULT_MAX_ITEMS = 1000"

lemmas policy_defs = EVICT_LRU_def EVICT_LFU_def EVICT_ARC_def

definition current_time_ms :: "env \<Rightarrow> nat \<Rightarrow> 64 word" where
  "current_time_ms e i = (case clock e i of (sec, nsec) \<Rightarrow> of_nat sec * 1000 + of_nat (nsec div 1000000))"

definition current_time_sec :: "env \<Rightarrow> nat \<Rightarrow> 64 word" where
  "current_time_sec e i = of_nat (fst (clock e i))"

section \<open>The LRU list\<close>

definition lru_init :: "int \<Rightarrow> LRUCache" where
  "lru_init mx = \<lparr>lhead = NULL, ltail = NULL, lsize = 0, lmax_size = mx\<rparr>"

definition lru_remove :: "eheap \<Rightarrow> LRUCache \<Rightarrow> ref \<Rightarrow> (eheap \<times> LRUCache) option" where
  "lru_remove h c node = do {
     n \<leftarrow> h node;
     (h, c) \<leftarrow> (if eprev n \<noteq> NULL
        then do { p \<leftarrow> h (eprev n); Some (h(eprev n \<mapsto> p\<lparr>enext := enext n\<rparr>), c) }
        else Some (h, c\<lparr>lhead := enext n\<rparr>));
     n \<leftarrow> h node;
     (h, c) \<leftarrow> (if enext n \<noteq> NULL
        then do { q \<leftarrow> h (enext n); Some (h(enext n \<mapsto> q\<lparr>eprev := eprev n\<rparr>), c) }
        else Some (h, c\<lparr>ltail := eprev n\<rparr>));
     Some (h, c\<lparr>lsize := lsize c - 1\<rparr>) }"

definition lru_add_front :: "eheap \<Rightarrow> LRUCache \<Rightarrow> ref \<Rightarrow> (eheap \<times> LRUCache) option" where
  "lru_add_front h c node = do {
     n \<leftarrow> h node;
     let h = h(node \<mapsto> n\<lparr>enext := lhead c, eprev := NULL\<rparr>);
     h \<leftarrow> (if lhead c \<noteq> NULL
        then do { f \<leftarrow> h (lhead c); Some (h(lhead c \<mapsto> f\<lparr>eprev := node\<rparr>)) }
        else Some h);
     let c = c\<lparr>lhead := node\<rparr>;
     let c = (if ltail c = NULL then c\<lparr>ltail := node\<rparr> else c);
     Some (h, c\<lparr>lsize := lsize c + 1\<rparr>) }"

definition lru_touch :: "env \<Rightarrow> nat \<Rightarrow> eheap \<Rightarrow> LRUCache \<Rightarrow> ref \<Rightarrow> (eheap \<times> LRUCache) option" where
  "lru_touch e i h c node = do {
     (h, c) \<leftarrow> lru_remove h c node;
     (h, c) \<leftarrow> lru_add_front h c node;
     n \<leftarrow> h node;
     Some (h(node \<mapsto> n\<lparr>access_time := current_time_ms e i\<rparr>), c) }"

text \<open>The victim, NULL when the list is empty.\<close>

definition lru_evict :: "eheap \<Rightarrow> LRUCache \<Rightarrow> (ref \<times> eheap \<times> LRUCache) option" where
  "lru_evict h c =
     (if ltail c = NULL then Some (NULL, h, c)
      else do { (h', c') \<leftarrow> lru_remove h c (ltail c); Some (ltail c, h', c') })"

definition has_key :: "EvictNode \<Rightarrow> string \<Rightarrow> bool" where
  "has_key n key = (case ekey n of None \<Rightarrow> False | Some k \<Rightarrow> strcmp k key = 0)"

text \<open>The walk from \<open>head\<close>: the first node with the key, or NULL.\<close>

partial_function (option) find_from :: "eheap \<Rightarrow> string \<Rightarrow> ref \<Rightarrow> ref option" where
  "find_from h key node =
     (if node = NULL then Some NULL
      else do { n \<leftarrow> h node; if has_key n key then Some node else find_from h key (enext n) })"

definition lru_find :: "eheap \<Rightarrow> LRUCache \<Rightarrow> string \<Rightarrow> ref option" where
  "lru_find h c key = find_from h key (lhead c)"

section \<open>The LFU heap\<close>

definition lfu_init :: "env \<Rightarrow> nat \<Rightarrow> LFUCache" where
  "lfu_init e cap = \<lparr>lnodes = (if kvs_calloc e 10 then Some (replicate (cap + 1) NULL) else None),
     hsize = 0, capacity = cap\<rparr>"

definition lfu_at :: "LFUCache \<Rightarrow> nat \<Rightarrow> ref option" where
  "lfu_at c i = do { ns \<leftarrow> lnodes c; if i < length ns then Some (ns ! i) else None }"

definition lfu_put :: "LFUCache \<Rightarrow> nat \<Rightarrow> ref \<Rightarrow> LFUCache option" where
  "lfu_put c i r = do { ns \<leftarrow> lnodes c; if i < length ns then Some (c\<lparr>lnodes := Some (ns[i := r])\<rparr>) else None }"

definition count_at :: "eheap \<Rightarrow> LFUCache \<Rightarrow> nat \<Rightarrow> 64 word option" where
  "count_at h c i = do { r \<leftarrow> lfu_at c i; n \<leftarrow> h r; Some (access_count n) }"

definition lfu_swap :: "LFUCache \<Rightarrow> nat \<Rightarrow> nat \<Rightarrow> LFUCache option" where
  "lfu_swap c i j = do {
     x \<leftarrow> lfu_at c i;
     y \<leftarrow> lfu_at c j;
     c \<leftarrow> lfu_put c i y;
     lfu_put c j x }"

function lfu_heapify_up :: "eheap \<Rightarrow> LFUCache \<Rightarrow> nat \<Rightarrow> LFUCache option" where
  "lfu_heapify_up h c idx =
     (if idx > 1 then do {
        p \<leftarrow> count_at h c (idx div 2);
        x \<leftarrow> count_at h c idx;
        if p \<le> x then Some c
        else do { c' \<leftarrow> lfu_swap c (idx div 2) idx; lfu_heapify_up h c' (idx div 2) } }
      else Some c)"
  by pat_completeness auto
termination
  by (relation "measure (\<lambda>(h, c, idx). idx)") auto

declare lfu_heapify_up.simps [simp del]

text \<open>The smallest of a node and its children, by access count.\<close>

definition smaller_of :: "eheap \<Rightarrow> LFUCache \<Rightarrow> nat \<Rightarrow> nat \<Rightarrow> nat option" where
  "smaller_of h c child smallest =
     (if child \<le> hsize c then do {
        x \<leftarrow> count_at h c child;
        y \<leftarrow> count_at h c smallest;
        Some (if x < y then child else smallest) }
      else Some smallest)"

partial_function (option) lfu_heapify_down :: "eheap \<Rightarrow> LFUCache \<Rightarrow> nat \<Rightarrow> LFUCache option" where
  "lfu_heapify_down h c idx = do {
     s \<leftarrow> smaller_of h c (idx * 2) idx;
     smallest \<leftarrow> smaller_of h c (idx * 2 + 1) s;
     if smallest = idx then Some c
     else do { c' \<leftarrow> lfu_swap c smallest idx; lfu_heapify_down h c' smallest } }"

definition lfu_add :: "eheap \<Rightarrow> LFUCache \<Rightarrow> ref \<Rightarrow> LFUCache option" where
  "lfu_add h c node =
     (if hsize c \<ge> capacity c then Some c
      else do {
        c \<leftarrow> lfu_put (c\<lparr>hsize := hsize c + 1\<rparr>) (hsize c + 1) node;
        lfu_heapify_up h c (hsize c) })"

definition lfu_touch :: "eheap \<Rightarrow> ref \<Rightarrow> eheap option" where
  "lfu_touch h node = do { n \<leftarrow> h node; Some (h(node \<mapsto> n\<lparr>access_count := access_count n + 1\<rparr>)) }"

definition lfu_evict :: "eheap \<Rightarrow> LFUCache \<Rightarrow> (ref \<times> LFUCache) option" where
  "lfu_evict h c =
     (if hsize c = 0 then Some (NULL, c)
      else do {
        victim \<leftarrow> lfu_at c 1;
        last \<leftarrow> lfu_at c (hsize c);
        c \<leftarrow> lfu_put c 1 last;
        c \<leftarrow> lfu_heapify_down h (c\<lparr>hsize := hsize c - 1\<rparr>) 1;
        Some (victim, c) })"

text \<open>The scan \<open>for (i = 1; i <= size; i++)\<close> for a key; 0 when there is none.\<close>

function lfu_scan :: "eheap \<Rightarrow> LFUCache \<Rightarrow> string \<Rightarrow> nat \<Rightarrow> nat option" where
  "lfu_scan h c key i =
     (if i \<le> hsize c then do {
        r \<leftarrow> lfu_at c i;
        if r = NULL then lfu_scan h c key (Suc i)
        else do { n \<leftarrow> h r; if has_key n key then Some i else lfu_scan h c key (Suc i) } }
      else Some 0)"
  by pat_completeness auto
termination
  by (relation "measure (\<lambda>(h, c, key, i). Suc (hsize c) - i)") auto

declare lfu_scan.simps [simp del]

section \<open>The ARC lists\<close>

definition arc_init :: "env \<Rightarrow> int \<Rightarrow> ARCCache option" where
  "arc_init e mx =
    (if \<not> (kvs_calloc e 11 \<and> kvs_calloc e 12 \<and> kvs_calloc e 13 \<and> kvs_calloc e 14) then None
     else Some \<lparr>t1 = lru_init mx, t2 = lru_init mx, b1 = lru_init mx, b2 = lru_init mx,
     target_size = mx sdiv 2, amax_size = mx\<rparr>)"

definition lru_remove_node :: "eheap \<Rightarrow> LRUCache \<Rightarrow> ref \<Rightarrow> (eheap \<times> LRUCache) option" where
  "lru_remove_node h c node = do {
     n \<leftarrow> h node;
     (h, c) \<leftarrow> (if eprev n \<noteq> NULL
        then do { p \<leftarrow> h (eprev n); Some (h(eprev n \<mapsto> p\<lparr>enext := enext n\<rparr>), c) }
        else Some (h, c\<lparr>lhead := enext n\<rparr>));
     n \<leftarrow> h node;
     (h, c) \<leftarrow> (if enext n \<noteq> NULL
        then do { q \<leftarrow> h (enext n); Some (h(enext n \<mapsto> q\<lparr>eprev := eprev n\<rparr>), c) }
        else Some (h, c\<lparr>ltail := eprev n\<rparr>));
     Some (h, c\<lparr>lsize := lsize c - 1\<rparr>) }"

definition lru_add_node_front :: "eheap \<Rightarrow> LRUCache \<Rightarrow> ref \<Rightarrow> (eheap \<times> LRUCache) option" where
  "lru_add_node_front h c node = do {
     n \<leftarrow> h node;
     let h = h(node \<mapsto> n\<lparr>enext := lhead c, eprev := NULL\<rparr>);
     h \<leftarrow> (if lhead c \<noteq> NULL
        then do { f \<leftarrow> h (lhead c); Some (h(lhead c \<mapsto> f\<lparr>eprev := node\<rparr>)) }
        else Some h);
     let c = c\<lparr>lhead := node\<rparr>;
     let c = (if ltail c = NULL then c\<lparr>ltail := node\<rparr> else c);
     Some (h, c\<lparr>lsize := lsize c + 1\<rparr>) }"

definition ARC_MISS :: int where "ARC_MISS = 0"
definition ARC_HIT_T1 :: int where "ARC_HIT_T1 = 1"
definition ARC_HIT_T2 :: int where "ARC_HIT_T2 = 2"
definition ARC_HIT_B1 :: int where "ARC_HIT_B1 = 3"
definition ARC_HIT_B2 :: int where "ARC_HIT_B2 = 4"

text \<open>\<open>delta = x / y\<close> when the other ghost list is not empty, at least 1. A zero divisor is a
  fault.\<close>

definition arc_delta :: "int \<Rightarrow> int \<Rightarrow> int option" where
  "arc_delta other own =
     (if other > 0 then if own = 0 then None else Some (max 1 (other sdiv own)) else Some 1)"

definition mark_frequent :: "eheap \<Rightarrow> ref \<Rightarrow> eheap option" where
  "mark_frequent h node = do { n \<leftarrow> h node; Some (h(node \<mapsto> n\<lparr>is_frequent := 1\<rparr>)) }"

definition arc_access :: "eheap \<Rightarrow> ARCCache \<Rightarrow> string \<Rightarrow> (int \<times> eheap \<times> ARCCache) option" where
  "arc_access h A key = do {
     node \<leftarrow> lru_find h (t1 A) key;
     if node \<noteq> NULL then do {
       (h, c1) \<leftarrow> lru_remove_node h (t1 A) node;
       (h, c2) \<leftarrow> lru_add_node_front h (t2 A) node;
       h \<leftarrow> mark_frequent h node;
       Some (ARC_HIT_T1, h, A\<lparr>t1 := c1, t2 := c2\<rparr>) }
     else do {
     node \<leftarrow> lru_find h (t2 A) key;
     if node \<noteq> NULL then do {
       (h, c) \<leftarrow> lru_remove_node h (t2 A) node;
       (h, c) \<leftarrow> lru_add_node_front h c node;
       Some (ARC_HIT_T2, h, A\<lparr>t2 := c\<rparr>) }
     else do {
     node \<leftarrow> lru_find h (b1 A) key;
     if node \<noteq> NULL then do {
       delta \<leftarrow> arc_delta (lsize (b2 A)) (lsize (b1 A));
       let t = min (amax_size A) (target_size A + delta);
       (h, c1) \<leftarrow> lru_remove_node h (b1 A) node;
       (h, c2) \<leftarrow> lru_add_node_front h (t2 A) node;
       h \<leftarrow> mark_frequent h node;
       Some (ARC_HIT_B1, h, A\<lparr>target_size := t, b1 := c1, t2 := c2\<rparr>) }
     else do {
     node \<leftarrow> lru_find h (b2 A) key;
     if node \<noteq> NULL then do {
       delta \<leftarrow> arc_delta (lsize (b1 A)) (lsize (b2 A));
       let t = max 0 (target_size A - delta);
       (h, c1) \<leftarrow> lru_remove_node h (b2 A) node;
       (h, c2) \<leftarrow> lru_add_node_front h (t2 A) node;
       h \<leftarrow> mark_frequent h node;
       Some (ARC_HIT_B2, h, A\<lparr>target_size := t, b2 := c1, t2 := c2\<rparr>) }
     else Some (ARC_MISS, h, A) } } } }"

text \<open>The trimming loop \<open>while (b->size > max_size)\<close> of a ghost list.\<close>

partial_function (option) trim_ghosts :: "eheap \<Rightarrow> LRUCache \<Rightarrow> int \<Rightarrow> (eheap \<times> LRUCache) option" where
  "trim_ghosts h c mx =
     (if lsize c > mx then do {
        r \<leftarrow> lru_remove_node h c (ltail c);
        n \<leftarrow> fst r (ltail c);
        trim_ghosts ((fst r)(ltail c := None)) (snd r) mx }
      else Some (h, c))"

text \<open>A ghost of \<open>victim\<close>: its key, no value. The ghost is stored at \<open>new\<close>.\<close>

definition make_ghost :: "env \<Rightarrow> eheap \<Rightarrow> ref \<Rightarrow> ref \<Rightarrow> int \<Rightarrow> eheap option" where
  "make_ghost e h victim new freq =
     (if \<not> kvs_malloc e 0 then None
      else do {
        v \<leftarrow> h victim;
        Some (h(new \<mapsto> \<lparr>ekey = kvs_strdup e 1 (ekey v), evalue = None, value_len = 0, eprev = NULL,
           enext = NULL, access_time = current_time_ms e 0, access_count = access_count v,
           is_frequent = freq\<rparr>)) })"

text \<open>\<open>arc_evict\<close> returns the victim, NULL when there is none; \<open>new\<close> is where the ghost goes.\<close>

definition arc_evict :: "env \<Rightarrow> eheap \<Rightarrow> ARCCache \<Rightarrow> ref \<Rightarrow> (ref \<times> eheap \<times> ARCCache) option" where
  "arc_evict e h A new =
     (if lsize (t1 A) + lsize (t2 A) < amax_size A then Some (NULL, h, A)
      else if lsize (t1 A) > target_size A \<and> ltail (t1 A) \<noteq> NULL then do {
        let victim = ltail (t1 A);
        (h, c) \<leftarrow> lru_remove_node h (t1 A) victim;
        h \<leftarrow> make_ghost e h victim new 0;
        (h, g) \<leftarrow> lru_add_node_front h (b1 A) new;
        (h, g) \<leftarrow> trim_ghosts h g (amax_size A);
        Some (victim, h, A\<lparr>t1 := c, b1 := g\<rparr>) }
      else if ltail (t2 A) \<noteq> NULL then do {
        let victim = ltail (t2 A);
        (h, c) \<leftarrow> lru_remove_node h (t2 A) victim;
        h \<leftarrow> make_ghost e h victim new 1;
        (h, g) \<leftarrow> lru_add_node_front h (b2 A) new;
        (h, g) \<leftarrow> trim_ghosts h g (amax_size A);
        Some (victim, h, A\<lparr>t2 := c, b2 := g\<rparr>) }
      else Some (NULL, h, A))"

definition free_evict_node :: "eheap \<Rightarrow> ref \<Rightarrow> eheap option" where
  "free_evict_node h node = do { n \<leftarrow> h node; Some (h(node := None)) }"

definition arc_add :: "env \<Rightarrow> CacheManager \<Rightarrow> string \<Rightarrow> string \<Rightarrow> int \<Rightarrow> CacheManager option" where
  "arc_add e g key value len = do {
     (victim, h, A) \<leftarrow> arc_evict e (cheap g) (arc g) (Ref (cnext g));
     h \<leftarrow> (if victim \<noteq> NULL then free_evict_node h victim else Some h);
     if \<not> kvs_malloc e 2 \<or> \<not> kvs_malloc e 4 then None
     else do {
       let node = Ref (cnext g + 1);
       let h = h(node \<mapsto> \<lparr>ekey = kvs_strdup e 3 (Some key), evalue = Some value, value_len = len,
           eprev = NULL, enext = NULL, access_time = current_time_ms e 1, access_count = 1,
           is_frequent = 0\<rparr>);
       (h, c) \<leftarrow> lru_add_node_front h (t1 A) node;
       Some (g\<lparr>cheap := h, cnext := cnext g + 2, arc := A\<lparr>t1 := c\<rparr>\<rparr>) } }"

definition arc_get :: "eheap \<Rightarrow> ARCCache \<Rightarrow> string \<Rightarrow> (cstr \<times> eheap \<times> ARCCache) option" where
  "arc_get h A key = do {
     (hit, h, A) \<leftarrow> arc_access h A key;
     if hit = ARC_HIT_T1 \<or> hit = ARC_HIT_T2 then do {
       node \<leftarrow> lru_find h (t2 A) key;
       node \<leftarrow> (if node = NULL then lru_find h (t1 A) key else Some node);
       if node \<noteq> NULL then do { n \<leftarrow> h node; Some (evalue n, h, A) }
       else Some (None, h, A) }
     else Some (None, h, A) }"

text \<open>Deletion from the first of the four lists that has the key.\<close>

definition arc_del :: "eheap \<Rightarrow> ARCCache \<Rightarrow> string \<Rightarrow> (int \<times> eheap \<times> ARCCache) option" where
  "arc_del h A key = do {
     node \<leftarrow> lru_find h (t1 A) key;
     if node \<noteq> NULL then do {
       (h, c) \<leftarrow> lru_remove_node h (t1 A) node;
       h \<leftarrow> free_evict_node h node; Some (0, h, A\<lparr>t1 := c\<rparr>) }
     else do {
     node \<leftarrow> lru_find h (t2 A) key;
     if node \<noteq> NULL then do {
       (h, c) \<leftarrow> lru_remove_node h (t2 A) node;
       h \<leftarrow> free_evict_node h node; Some (0, h, A\<lparr>t2 := c\<rparr>) }
     else do {
     node \<leftarrow> lru_find h (b1 A) key;
     if node \<noteq> NULL then do {
       (h, c) \<leftarrow> lru_remove_node h (b1 A) node;
       h \<leftarrow> free_evict_node h node; Some (0, h, A\<lparr>b1 := c\<rparr>) }
     else do {
     node \<leftarrow> lru_find h (b2 A) key;
     if node \<noteq> NULL then do {
       (h, c) \<leftarrow> lru_remove_node h (b2 A) node;
       h \<leftarrow> free_evict_node h node; Some (0, h, A\<lparr>b2 := c\<rparr>) }
     else Some (-1, h, A) } } } }"

section \<open>The cache manager\<close>

definition kvs_cache_init :: "env \<Rightarrow> int \<Rightarrow> CacheManager option" where
  "kvs_cache_init e n = do {
     let mx = (if n > 0 then n else DEFAULT_MAX_ITEMS);
     A \<leftarrow> arc_init e mx;
     Some \<lparr>policy = EVICT_LRU, max_items = mx, lru = lru_init mx, lfu = lfu_init e (nat mx),
       arc = A, total_access = 0, cache_hit = 0, cache_miss = 0, eviction_count = 0,
       policy_changes = 0, cheap = Map.empty, cnext = 0\<rparr> }"

text \<open>Freeing a list from its head, as \<open>kvs_cache_destroy\<close> does for LRU and the ARC lists.\<close>

partial_function (option) free_list :: "eheap \<Rightarrow> ref \<Rightarrow> eheap option" where
  "free_list h node =
     (if node = NULL then Some h
      else do { n \<leftarrow> h node; free_list (h(node := None)) (enext n) })"

fun free_heap_nodes :: "eheap \<Rightarrow> ref list \<Rightarrow> eheap option" where
  "free_heap_nodes h [] = Some h"
| "free_heap_nodes h (r # rs) =
     (if r = NULL then free_heap_nodes h rs
      else do { h \<leftarrow> free_evict_node h r; free_heap_nodes h rs })"

definition kvs_cache_destroy :: "CacheManager \<Rightarrow> CacheManager option" where
  "kvs_cache_destroy g = do {
     h \<leftarrow> free_list (cheap g) (lhead (lru g));
     h \<leftarrow> (case lnodes (lfu g) of None \<Rightarrow> Some h
          | Some ns \<Rightarrow> free_heap_nodes h (take (hsize (lfu g)) (tl ns)));
     h \<leftarrow> free_list h (lhead (t1 (arc g)));
     h \<leftarrow> free_list h (lhead (t2 (arc g)));
     h \<leftarrow> free_list h (lhead (b1 (arc g)));
     h \<leftarrow> free_list h (lhead (b2 (arc g)));
     Some (g\<lparr>cheap := h, lru := (lru g)\<lparr>lhead := NULL, ltail := NULL\<rparr>,
       lfu := (lfu g)\<lparr>lnodes := None\<rparr>,
       arc := (arc g)\<lparr>t1 := lru_init 0, t2 := lru_init 0, b1 := lru_init 0, b2 := lru_init 0\<rparr>\<rparr>) }"

text \<open>The walk of \<open>kvs_cache_touch_lru\<close>, which compares keys without a NULL test.\<close>

partial_function (option) touch_walk :: "eheap \<Rightarrow> string \<Rightarrow> ref \<Rightarrow> ref option" where
  "touch_walk h key node =
     (if node = NULL then Some NULL
      else do { n \<leftarrow> h node; k \<leftarrow> ekey n;
        if strcmp k key = 0 then Some node else touch_walk h key (enext n) })"

definition kvs_cache_touch_lru :: "env \<Rightarrow> CacheManager \<Rightarrow> string \<Rightarrow> CacheManager option" where
  "kvs_cache_touch_lru e g key = do {
     node \<leftarrow> touch_walk (cheap g) key (lhead (lru g));
     if node = NULL then Some g
     else do { (h, c) \<leftarrow> lru_touch e 0 (cheap g) (lru g) node; Some (g\<lparr>cheap := h, lru := c\<rparr>) } }"

definition kvs_cache_lru_evict_key :: "CacheManager \<Rightarrow> (cstr \<times> CacheManager) option" where
  "kvs_cache_lru_evict_key g = do {
     (victim, h, c) \<leftarrow> lru_evict (cheap g) (lru g);
     if victim = NULL then Some (None, g)
     else do {
       n \<leftarrow> h victim;
       Some (ekey n, g\<lparr>cheap := h(victim := None), lru := c, eviction_count := eviction_count g + 1\<rparr>) } }"

definition kvs_cache_lru_need_evict :: "CacheManager \<Rightarrow> bool" where
  "kvs_cache_lru_need_evict g = (lsize (lru g) \<ge> max_items g)"

text \<open>The loop \<open>while (g_cache.lru.size >= g_cache.max_items)\<close> of an insertion.\<close>

partial_function (option) evict_loop :: "CacheManager \<Rightarrow> CacheManager option" where
  "evict_loop g =
     (if lsize (lru g) \<ge> max_items g then do { r \<leftarrow> kvs_cache_lru_evict_key g; evict_loop (snd r) }
      else Some g)"

definition kvs_cache_lru_add :: "env \<Rightarrow> CacheManager \<Rightarrow> string \<Rightarrow> string \<Rightarrow> int \<Rightarrow> CacheManager option" where
  "kvs_cache_lru_add e g key value len =
     (if policy g = EVICT_ARC then arc_add e g key value len
      else if \<not> kvs_malloc e 0 \<or> \<not> kvs_malloc e 1 \<or> \<not> kvs_malloc e 2 then None
      else do {
        let node = Ref (cnext g);
        let g = g\<lparr>cnext := cnext g + 1, cheap := (cheap g)(node \<mapsto>
             \<lparr>ekey = Some key, evalue = Some value, value_len = len, eprev = NULL, enext = NULL,
              access_time = current_time_ms e 0, access_count = 1, is_frequent = 0\<rparr>)\<rparr>;
        if policy g = EVICT_LRU then do {
          g \<leftarrow> evict_loop g;
          (h, c) \<leftarrow> lru_add_front (cheap g) (lru g) node;
          Some (g\<lparr>cheap := h, lru := c\<rparr>) }
        else if policy g = EVICT_LFU then do {
          g \<leftarrow> (if hsize (lfu g) \<ge> capacity (lfu g) then do {
               (victim, c) \<leftarrow> lfu_evict (cheap g) (lfu g);
               h \<leftarrow> (if victim \<noteq> NULL then free_evict_node (cheap g) victim else Some (cheap g));
               Some (g\<lparr>cheap := h, lfu := c\<rparr>) }
             else Some g);
          c \<leftarrow> lfu_add (cheap g) (lfu g) node;
          Some (g\<lparr>lfu := c\<rparr>) }
        else Some g })"

definition kvs_cache_policy_name :: "int \<Rightarrow> string" where
  "kvs_cache_policy_name p =
     (if p = EVICT_LRU then ''LRU'' else if p = EVICT_LFU then ''LFU''
      else if p = EVICT_ARC then ''ARC'' else ''UNKNOWN'')"

definition kvs_cache_set_policy :: "CacheManager \<Rightarrow> int \<Rightarrow> CacheManager" where
  "kvs_cache_set_policy g p = g\<lparr>policy := p, policy_changes := policy_changes g + 1\<rparr>"

definition kvs_cache_get_policy :: "CacheManager \<Rightarrow> int" where
  "kvs_cache_get_policy g = policy g"

definition kvs_cache_record_hit :: "CacheManager \<Rightarrow> CacheManager" where
  "kvs_cache_record_hit g = g\<lparr>cache_hit := cache_hit g + 1\<rparr>"

definition kvs_cache_record_miss :: "CacheManager \<Rightarrow> CacheManager" where
  "kvs_cache_record_miss g = g\<lparr>cache_miss := cache_miss g + 1\<rparr>"

definition count_hit :: "CacheManager \<Rightarrow> CacheManager" where
  "count_hit g = g\<lparr>cache_hit := cache_hit g + 1, total_access := total_access g + 1\<rparr>"

definition count_miss :: "CacheManager \<Rightarrow> CacheManager" where
  "count_miss g = g\<lparr>cache_miss := cache_miss g + 1, total_access := total_access g + 1\<rparr>"

definition kvs_cache_get :: "env \<Rightarrow> CacheManager \<Rightarrow> cstr \<Rightarrow> (cstr \<times> CacheManager) option" where
  "kvs_cache_get e g key =
     (case key of None \<Rightarrow> Some (None, g)
      | Some k \<Rightarrow>
        if max_items g = 0 then Some (None, g)
        else if policy g = EVICT_LRU then do {
          node \<leftarrow> find_from (cheap g) k (lhead (lru g));
          if node = NULL then Some (None, count_miss g)
          else do {
            (h, c) \<leftarrow> lru_touch e 0 (cheap g) (lru g) node;
            n \<leftarrow> h node;
            Some (evalue n, count_hit (g\<lparr>cheap := h, lru := c\<rparr>)) } }
        else if policy g = EVICT_LFU then do {
          i \<leftarrow> lfu_scan (cheap g) (lfu g) k 1;
          if i = 0 then Some (None, count_miss g)
          else do {
            node \<leftarrow> lfu_at (lfu g) i;
            h \<leftarrow> lfu_touch (cheap g) node;
            c \<leftarrow> lfu_heapify_down h (lfu g) i;
            n \<leftarrow> h node;
            Some (evalue n, count_hit (g\<lparr>cheap := h, lfu := c\<rparr>)) } }
        else if policy g = EVICT_ARC then do {
          (result, h, A) \<leftarrow> arc_get (cheap g) (arc g) k;
          let g = g\<lparr>cheap := h, arc := A\<rparr>;
          Some (result, if result \<noteq> None then count_hit g else count_miss g) }
        else Some (None, count_miss g))"

definition kvs_cache_del :: "CacheManager \<Rightarrow> cstr \<Rightarrow> (int \<times> CacheManager) option" where
  "kvs_cache_del g key =
     (case key of None \<Rightarrow> Some (-1, g)
      | Some k \<Rightarrow>
        if max_items g = 0 then Some (-1, g)
        else if policy g = EVICT_LRU then do {
          node \<leftarrow> find_from (cheap g) k (lhead (lru g));
          if node = NULL then Some (-2, g)
          else do {
            (h, c) \<leftarrow> lru_remove (cheap g) (lru g) node;
            h \<leftarrow> free_evict_node h node;
            Some (0, g\<lparr>cheap := h, lru := c\<rparr>) } }
        else if policy g = EVICT_LFU then do {
          i \<leftarrow> lfu_scan (cheap g) (lfu g) k 1;
          if i = 0 then Some (-2, g)
          else do {
            node \<leftarrow> lfu_at (lfu g) i;
            last \<leftarrow> lfu_at (lfu g) (hsize (lfu g));
            c \<leftarrow> lfu_put (lfu g) i last;
            c \<leftarrow> lfu_heapify_down (cheap g) (c\<lparr>hsize := hsize c - 1\<rparr>) i;
            h \<leftarrow> free_evict_node (cheap g) node;
            Some (0, g\<lparr>cheap := h, lfu := c\<rparr>) } }
        else if policy g = EVICT_ARC then do {
          (r, h, A) \<leftarrow> arc_del (cheap g) (arc g) k;
          Some (r, g\<lparr>cheap := h, arc := A\<rparr>) }
        else Some (-2, g))"

declare find_from.simps [code] touch_walk.simps [code] lfu_heapify_down.simps [code] trim_ghosts.simps [code]
  free_list.simps [code] evict_loop.simps [code]

end
