(* ===== verification/Kvs_Libc.thy ===== *)
theory Kvs_Libc
  imports LKV_Prelude
begin

text \<open>
  What the statistics, the vector engine and the command protocol use of the C library:
  formatted and parsed numbers, \<open>strtok_r\<close>, bounds-checked array accesses, and
  single-precision arithmetic.

  Single-precision numbers are a type parameter and their operations a table \<open>float_ops\<close>,
  which is an argument of every definition that computes with them: \<open>f_lit\<close> is the float
  nearest to a literal, \<open>f_show d\<close> is the conversion \<open>%.df\<close>, \<open>f_atof\<close> is \<open>(float)atof\<close>,
  \<open>f_exp\<close> and \<open>f_sqrt\<close> round the results of \<open>exp\<close> and \<open>sqrt\<close>, and \<open>f_below\<close> compares with a
  double literal.
\<close>

section \<open>Formatted numbers\<close>

text \<open>\<open>%d\<close>, \<open>%ld\<close> and \<open>%lu\<close>.\<close>

fun show_nat :: "nat \<Rightarrow> string" where
  "show_nat n = (if n < 10 then [char_of (48 + n)] else show_nat (n div 10) @ [char_of (48 + n mod 10)])"

declare show_nat.simps [simp del]

definition show_int :: "int \<Rightarrow> string" where
  "show_int i = (if i < 0 then CHR ''-'' # show_nat (nat (- i)) else show_nat (nat i))"

definition show_word :: "64 word \<Rightarrow> string" where
  "show_word w = show_nat (unat w)"

definition crlf :: string where
  "crlf = [CHR 0x0D, CHR 0x0A]"

text \<open>\<open>atoi\<close>: \<open>strtol\<close> saturates at the range of \<open>long\<close>, and the conversion to \<open>int\<close> keeps the
  low 32 bits.\<close>

definition isspace :: "char \<Rightarrow> bool" where
  "isspace c \<longleftrightarrow> c = CHR '' '' \<or> (9 \<le> (of_char c :: nat) \<and> (of_char c :: nat) \<le> 13)"

definition isdigit :: "char \<Rightarrow> bool" where
  "isdigit c \<longleftrightarrow> 48 \<le> (of_char c :: nat) \<and> (of_char c :: nat) \<le> 57"

definition sign_of :: "string \<Rightarrow> bool \<times> string" where
  "sign_of s = (case s of [] \<Rightarrow> (False, [])
     | c # t \<Rightarrow> if c = CHR ''-'' then (True, t) else if c = CHR ''+'' then (False, t) else (False, s))"

definition atoi :: "string \<Rightarrow> int" where
  "atoi s = (let (neg, t) = sign_of (dropWhile isspace s);
       n = foldl (\<lambda>n c. 10 * n + (of_char c - 48)) 0 (takeWhile isdigit t);
       v = (if neg then - n else n) in
     signed_take_bit 31 (max (- (2 ^ 63)) (min (2 ^ 63 - 1) v)))"

text \<open>\<open>strtok_r(..., " ", &saveptr)\<close>: the next token and what \<open>saveptr\<close> points to afterwards.\<close>

definition strtok :: "string \<Rightarrow> (string \<times> string) option" where
  "strtok s = (let t = dropWhile (\<lambda>c. c = CHR '' '') s in
     if t = [] then None
     else Some (takeWhile (\<lambda>c. c \<noteq> CHR '' '') t, drop 1 (dropWhile (\<lambda>c. c \<noteq> CHR '' '') t)))"

section \<open>Arrays and floats\<close>

text \<open>\<open>a[i]\<close> and \<open>a[i] = v\<close>.\<close>

definition arr_get :: "'a list \<Rightarrow> int \<Rightarrow> 'a option" where
  "arr_get xs i = (if 0 \<le> i \<and> i < int (length xs) then Some (xs ! nat i) else None)"

definition arr_put :: "'a list \<Rightarrow> int \<Rightarrow> 'a \<Rightarrow> 'a list option" where
  "arr_put xs i v = (if 0 \<le> i \<and> i < int (length xs) then Some (xs[nat i := v]) else None)"

record 'f float_ops =
  f_lit :: "rat \<Rightarrow> 'f"
  f_of_word :: "64 word \<Rightarrow> 'f"
  f_of_int :: "int \<Rightarrow> 'f"
  f_add :: "'f \<Rightarrow> 'f \<Rightarrow> 'f"
  f_sub :: "'f \<Rightarrow> 'f \<Rightarrow> 'f"
  f_mul :: "'f \<Rightarrow> 'f \<Rightarrow> 'f"
  f_div :: "'f \<Rightarrow> 'f \<Rightarrow> 'f"
  f_sqrt :: "'f \<Rightarrow> 'f"
  f_exp :: "'f \<Rightarrow> 'f"
  f_less :: "'f \<Rightarrow> 'f \<Rightarrow> bool"
  f_below :: "'f \<Rightarrow> rat \<Rightarrow> bool"
  f_show :: "nat \<Rightarrow> 'f \<Rightarrow> string"
  f_atof :: "string \<Rightarrow> 'f"

text \<open>A concrete table, on rational numbers, for evaluating the definitions: \<open>sqrt\<close> and \<open>exp\<close> are
  order-preserving stand-ins, numbers print and parse as their integral part.\<close>

definition rat_ops :: "rat float_ops" where
  "rat_ops = \<lparr>f_lit = id, f_of_word = (\<lambda>w. of_int (uint w)), f_of_int = of_int, f_add = (+), f_sub = (-),
     f_mul = (*), f_div = (/), f_sqrt = id, f_exp = (\<lambda>x. 1 + x), f_less = (<), f_below = (<),
     f_show = (\<lambda>d x. show_int \<lfloor>x\<rfloor>), f_atof = (\<lambda>s. of_int (atoi s))\<rparr>"

lemma arr_get_nat [simp]: "i < length xs \<Longrightarrow> arr_get xs (int i) = Some (xs ! i)"
  by (simp add: arr_get_def)

lemma arr_put_nat [simp]: "i < length xs \<Longrightarrow> arr_put xs (int i) v = Some (xs[i := v])"
  by (simp add: arr_put_def)

end
