(* ===== verification/Cache_Stats.thy ===== *)
theory Cache_Stats
  imports Kvs_Cache Kvs_Libc
begin

text \<open>
  Statistics and recommendations of the cache (\<open>src/cache/kvs_cache.c\<close>): the access windows, the
  history of hit rates, the dynamic thresholds, the pattern detection, and the texts of the
  \<open>STATS\<close> and \<open>RECOMMEND\<close> commands.

  \<open>full_cache\<close> is the rest of the C struct \<open>CacheManager\<close>: \<open>base\<close> is the part the policies use.
  Single-precision arithmetic is the argument \<open>F\<close>, so that nothing below depends on rounding.
  Array accesses outside their bounds are faults (\<^const>\<open>None\<close>).
\<close>

section \<open>State\<close>

datatype AccessPattern = PATTERN_STABLE | PATTERN_BURSTY | PATTERN_PERIODIC | PATTERN_RANDOM

definition HISTORY_SIZE :: nat where "HISTORY_SIZE = 20"
definition MINUTE_WINDOW :: nat where "MINUTE_WINDOW = 60"
definition HOUR_WINDOW :: nat where "HOUR_WINDOW = 24"
definition CONFIDENCE_HIGH :: int where "CONFIDENCE_HIGH = 3"
definition CONFIDENCE_MEDIUM :: int where "CONFIDENCE_MEDIUM = 2"
definition CONFIDENCE_LOW :: int where "CONFIDENCE_LOW = 1"

record 'f AIStats =
  hit_rate_history :: "'f list"
  history_idx :: nat
  history_count :: nat
  threshold_hit_rate :: 'f
  threshold_burst_ratio :: 'f
  access_by_minute :: "64 word list"
  access_by_hour :: "64 word list"
  predicted_qps :: 'f
  predicted_hit_rate :: 'f
  detected_pattern :: AccessPattern
  pattern_confidence :: int
  last_minute :: "64 word"
  last_hour :: "64 word"
  auto_adjust_enabled :: int
  adjust_cooldown :: int

record 'f full_cache =
  base :: CacheManager
  access_by_second :: "64 word list"
  last_update_time :: "64 word"
  ai :: "'f AIStats"

text \<open>The statistics part of \<open>kvs_cache_init\<close>: \<open>memset\<close> to zero, then the thresholds.\<close>

definition stats_init :: "'f float_ops \<Rightarrow> CacheManager \<Rightarrow> 'f full_cache" where
  "stats_init F g = \<lparr>base = g, access_by_second = replicate 60 0, last_update_time = 0,
     ai = \<lparr>hit_rate_history = replicate HISTORY_SIZE (f_lit F 0), history_idx = 0, history_count = 0,
       threshold_hit_rate = f_lit F 50, threshold_burst_ratio = f_lit F 5,
       access_by_minute = replicate MINUTE_WINDOW 0, access_by_hour = replicate HOUR_WINDOW 0,
       predicted_qps = f_lit F 0, predicted_hit_rate = f_lit F 0, detected_pattern = PATTERN_STABLE,
       pattern_confidence = CONFIDENCE_MEDIUM, last_minute = 0, last_hour = 0,
       auto_adjust_enabled = 1, adjust_cooldown = 60\<rparr>\<rparr>"

section \<open>Analysis\<close>

text \<open>The loop of \<open>exponential_smooth\<close>, from index \<open>i\<close>.\<close>

function smooth_from :: "'f float_ops \<Rightarrow> 'f list \<Rightarrow> nat \<Rightarrow> 'f \<Rightarrow> nat \<Rightarrow> 'f \<Rightarrow> 'f option" where
  "smooth_from F history count alpha i prediction =
     (if i < count \<and> i < HISTORY_SIZE then do {
        h \<leftarrow> arr_get history (int i);
        smooth_from F history count alpha (Suc i)
          (f_add F (f_mul F alpha h) (f_mul F (f_sub F (f_lit F 1) alpha) prediction)) }
      else Some prediction)"
  by pat_completeness auto
termination
  by (relation "measure (\<lambda>(F, history, count, alpha, i, prediction). count - i)") auto

declare smooth_from.simps [simp del]

definition exponential_smooth :: "'f float_ops \<Rightarrow> 'f list \<Rightarrow> nat \<Rightarrow> 'f \<Rightarrow> 'f option" where
  "exponential_smooth F history count alpha =
     (if count = 0 then Some (f_lit F 0)
      else do { h \<leftarrow> arr_get history 0; smooth_from F history count alpha 1 h })"

text \<open>The loop \<open>for (i = 0; i < count && i < HISTORY_SIZE; i++) acc = step(acc, data[i])\<close>.\<close>

definition fold_history :: "('f \<Rightarrow> 'f \<Rightarrow> 'f) \<Rightarrow> 'f list \<Rightarrow> nat \<Rightarrow> 'f \<Rightarrow> 'f option" where
  "fold_history step data count acc =
     (if min count HISTORY_SIZE \<le> length data then Some (foldl step acc (take (min count HISTORY_SIZE) data)) else None)"

definition calculate_variance :: "'f float_ops \<Rightarrow> 'f list \<Rightarrow> nat \<Rightarrow> 'f \<Rightarrow> 'f option" where
  "calculate_variance F data count mean =
     (if count \<le> 1 then Some (f_lit F 0)
      else do {
        s \<leftarrow> fold_history (\<lambda>s x. let diff = f_sub F x mean in f_add F s (f_mul F diff diff)) data count (f_lit F 0);
        Some (f_div F s (f_of_int F (int count - 1))) })"

definition history_mean :: "'f float_ops \<Rightarrow> 'f AIStats \<Rightarrow> 'f option" where
  "history_mean F a = do {
     s \<leftarrow> fold_history (f_add F) (hit_rate_history a) (history_count a) (f_lit F 0);
     Some (f_div F s (f_of_int F (int (history_count a)))) }"

text \<open>Peak and total of the per-second window.\<close>

definition peak_of :: "64 word list \<Rightarrow> 64 word" where
  "peak_of xs = foldl (\<lambda>p v. if v > p then v else p) 0 xs"

definition total_of :: "64 word list \<Rightarrow> 64 word" where
  "total_of xs = foldl (+) 0 xs"

definition detect_access_pattern :: "'f float_ops \<Rightarrow> 'f full_cache \<Rightarrow> AccessPattern option" where
  "detect_access_pattern F g = (let a = ai g in
     if history_count a < 5 then Some PATTERN_STABLE
     else do {
       mean \<leftarrow> history_mean F a;
       variance \<leftarrow> calculate_variance F (hit_rate_history a) (history_count a) mean;
       let std_dev = f_sqrt F variance;
       let peak_qps = peak_of (access_by_second g);
       let avg_qps = total_of (access_by_second g) div 60;
       let burst_ratio = (if avg_qps > 0 then f_div F (f_of_word F peak_qps) (f_of_word F avg_qps) else f_lit F 1);
       Some (if f_less F (f_lit F 3) burst_ratio then PATTERN_BURSTY
         else if f_less F std_dev (f_lit F 5) \<and> f_less F (f_lit F 60) mean then PATTERN_STABLE
         else if f_less F (f_lit F 15) std_dev then PATTERN_RANDOM
         else PATTERN_PERIODIC) })"

text \<open>\<open>if (x < lo) x = lo; if (x > hi) x = hi;\<close> in the two orders of the code.\<close>

definition raise_to :: "'f float_ops \<Rightarrow> 'f \<Rightarrow> 'f \<Rightarrow> 'f" where
  "raise_to F lo x = (if f_less F x lo then lo else x)"

definition lower_to :: "'f float_ops \<Rightarrow> 'f \<Rightarrow> 'f \<Rightarrow> 'f" where
  "lower_to F hi x = (if f_less F hi x then hi else x)"

definition update_dynamic_thresholds :: "'f float_ops \<Rightarrow> 'f full_cache \<Rightarrow> 'f full_cache option" where
  "update_dynamic_thresholds F g = (let a = ai g in
     if history_count a < 3 then Some g
     else do {
       mean \<leftarrow> history_mean F a;
       variance \<leftarrow> calculate_variance F (hit_rate_history a) (history_count a) mean;
       let std_dev = f_sqrt F variance;
       Some (g\<lparr>ai := a\<lparr>
         threshold_hit_rate := lower_to F (f_lit F 70) (raise_to F (f_lit F 30) (f_sub F mean std_dev)),
         threshold_burst_ratio := raise_to F (f_lit F 2)
           (lower_to F (f_lit F 8) (f_add F (f_lit F 3) (f_div F std_dev (f_lit F 10))))\<rparr>\<rparr>) })"

definition record_hit_rate_sample :: "'f full_cache \<Rightarrow> 'f \<Rightarrow> 'f full_cache option" where
  "record_hit_rate_sample g hit_rate = (let a = ai g in do {
     hs \<leftarrow> arr_put (hit_rate_history a) (int (history_idx a)) hit_rate;
     Some (g\<lparr>ai := a\<lparr>hit_rate_history := hs, history_idx := (history_idx a + 1) mod HISTORY_SIZE,
       history_count := (if history_count a < HISTORY_SIZE then history_count a + 1 else history_count a)\<rparr>\<rparr>) })"

section \<open>Windows\<close>

text \<open>\<open>for (int i = n - 1; i >= shift; i--) a[i] = a[i - shift];\<close>\<close>

function shift_loop :: "64 word list \<Rightarrow> int \<Rightarrow> int \<Rightarrow> 64 word list option" where
  "shift_loop xs i shift =
     (if i \<ge> shift then do {
        v \<leftarrow> arr_get xs (i - shift);
        xs \<leftarrow> arr_put xs i v;
        shift_loop xs (i - 1) shift }
      else Some xs)"
  by pat_completeness auto
termination
  by (relation "measure (\<lambda>(xs, i, shift). nat (i - shift + 1))") auto

declare shift_loop.simps [simp del]

text \<open>\<open>for (int i = 0; i < shift && i < n; i++) a[i] = 0;\<close>\<close>

function zero_loop :: "64 word list \<Rightarrow> int \<Rightarrow> int \<Rightarrow> int \<Rightarrow> 64 word list option" where
  "zero_loop xs i shift n =
     (if i < shift \<and> i < n then do { xs \<leftarrow> arr_put xs i 0; zero_loop xs (i + 1) shift n } else Some xs)"
  by pat_completeness auto
termination
  by (relation "measure (\<lambda>(xs, i, shift, n). nat (n - i))") auto

declare zero_loop.simps [simp del]

text \<open>The window after \<open>(int)(now - last)\<close> periods; \<open>limit\<close> is the shift from which it is
  cleared. The cast keeps the low 32 bits, as a signed number.\<close>

definition shift_of :: "64 word \<Rightarrow> 64 word \<Rightarrow> int" where
  "shift_of now prev = signed_take_bit 31 (uint (now - prev))"

definition shift_window :: "64 word list \<Rightarrow> int \<Rightarrow> int \<Rightarrow> int \<Rightarrow> 64 word list option" where
  "shift_window xs shift limit n =
     (if shift \<ge> limit then Some (replicate (length xs) 0)
      else do { xs \<leftarrow> shift_loop xs (n - 1) shift; zero_loop xs 0 shift n })"

definition update_time_windows :: "env \<Rightarrow> nat \<Rightarrow> 'f full_cache \<Rightarrow> 'f full_cache option" where
  "update_time_windows e i g = (let now = current_time_sec e i; a = ai g in
     if last_minute a = 0 then Some (g\<lparr>ai := a\<lparr>last_minute := now div 60, last_hour := now div 3600\<rparr>\<rparr>)
     else do {
       a \<leftarrow> (if now div 60 > last_minute a then do {
              w \<leftarrow> shift_window (access_by_minute a) (shift_of (now div 60) (last_minute a))
                (int MINUTE_WINDOW) (int MINUTE_WINDOW);
              Some (a\<lparr>access_by_minute := w, last_minute := now div 60\<rparr>) } else Some a);
       a \<leftarrow> (if now div 3600 > last_hour a then do {
              w \<leftarrow> shift_window (access_by_hour a) (shift_of (now div 3600) (last_hour a))
                (int HOUR_WINDOW) (int HOUR_WINDOW);
              Some (a\<lparr>access_by_hour := w, last_hour := now div 3600\<rparr>) } else Some a);
       Some (g\<lparr>ai := a\<rparr>) })"

text \<open>\<open>a[i]++\<close>.\<close>

definition bump :: "64 word list \<Rightarrow> int \<Rightarrow> 64 word list option" where
  "bump xs i = do { v \<leftarrow> arr_get xs i; arr_put xs i (v + 1) }"

definition hit_rate_of :: "'f float_ops \<Rightarrow> CacheManager \<Rightarrow> 'f" where
  "hit_rate_of F g =
     (if total_access g > 0
      then f_div F (f_mul F (f_lit F 100) (f_of_word F (cache_hit g))) (f_of_word F (total_access g))
      else f_lit F 0)"

text \<open>The branch of a new second.\<close>

definition roll_second :: "'f float_ops \<Rightarrow> 64 word \<Rightarrow> 'f full_cache \<Rightarrow> 'f full_cache option" where
  "roll_second F second g =
     (if second > last_update_time g then do {
        w \<leftarrow> shift_window (access_by_second g) (shift_of second (last_update_time g)) 61 60;
        let g = g\<lparr>access_by_second := w, last_update_time := second\<rparr>;
        g \<leftarrow> record_hit_rate_sample g (hit_rate_of F (base g));
        update_dynamic_thresholds F g }
      else Some g)"

text \<open>\<open>kvs_cache_record_access\<close>: four readings of the clock.\<close>

definition kvs_cache_record_access :: "'f float_ops \<Rightarrow> env \<Rightarrow> 'f full_cache \<Rightarrow> 'f full_cache option" where
  "kvs_cache_record_access F e g = (let
       g = g\<lparr>base := (base g)\<lparr>total_access := total_access (base g) + 1\<rparr>\<rparr>;
       second = current_time_ms e 0 div 1000;
       g = (if last_update_time g = 0 then g\<lparr>last_update_time := second\<rparr> else g) in do {
     g \<leftarrow> roll_second F second g;
     w \<leftarrow> bump (access_by_second g) (uint (second mod 60));
     let g = g\<lparr>access_by_second := w\<rparr>;
     g \<leftarrow> update_time_windows e 1 g;
     m \<leftarrow> bump (access_by_minute (ai g)) (uint (current_time_sec e 2 div 60 mod 60));
     let g = g\<lparr>ai := (ai g)\<lparr>access_by_minute := m\<rparr>\<rparr>;
     h \<leftarrow> bump (access_by_hour (ai g)) (uint (current_time_sec e 3 div 3600 mod 24));
     Some (g\<lparr>ai := (ai g)\<lparr>access_by_hour := h\<rparr>\<rparr>) })"

section \<open>Reports\<close>

fun pattern_name :: "AccessPattern \<Rightarrow> string" where
  "pattern_name PATTERN_STABLE = ''Stable''"
| "pattern_name PATTERN_BURSTY = ''Bursty''"
| "pattern_name PATTERN_PERIODIC = ''Periodic''"
| "pattern_name PATTERN_RANDOM = ''Random''"

definition confidence_name :: "int \<Rightarrow> string" where
  "confidence_name c =
     (if c = CONFIDENCE_HIGH then ''High'' else if c = CONFIDENCE_MEDIUM then ''Medium''
      else if c = CONFIDENCE_LOW then ''Low'' else ''Unknown'')"

text \<open>A line of a report.\<close>

definition line :: "string list \<Rightarrow> string" where
  "line ws = concat ws @ crlf"

definition kvs_cache_get_stats :: "'f float_ops \<Rightarrow> 'f full_cache \<Rightarrow> nat \<Rightarrow> string" where
  "kvs_cache_get_stats F g max_len = (let
       b = base g;
       recent_qps = total_of (access_by_second g) div 60;
       avg_per_minute = total_of (access_by_minute (ai g)) div 60;
       common = line [''  Total Access: '', show_word (total_access b)] @
         line [''  Cache Hits: '', show_word (cache_hit b)] @
         line [''  Cache Miss: '', show_word (cache_miss b)] @
         line [''  Hit Rate: '', f_show F 2 (hit_rate_of F b), ''%''] @
         line [''  Evictions: '', show_word (eviction_count b)] @
         line [''  Policy Changes: '', show_word (policy_changes b)] @
         line [''  Recent QPS: ~'', show_word recent_qps, ''/s''] @
         line [''  Avg Access/Min: ~'', show_word avg_per_minute] @
         line [''  Detected Pattern: '', pattern_name (detected_pattern (ai g))] @
         line [''  Dynamic Threshold (Hit Rate): '', f_show F 1 (threshold_hit_rate (ai g)), ''%''] @
         line [''  Dynamic Threshold (Burst): '', f_show F 1 (threshold_burst_ratio (ai g)), ''x''] @
         line [''===================================''];
       head = line [''=== Cache Statistics (Enhanced) ===''] @
         line [''  Policy: '', kvs_cache_policy_name (policy b)] @
         line [''  Max Items: '', show_int (max_items b)] in
     fst (snprintf max_len (if policy b = EVICT_ARC
       then head @
         line [''  T1 Size: '', show_int (lsize (t1 (arc b))), '' (recent)''] @
         line [''  T2 Size: '', show_int (lsize (t2 (arc b))), '' (frequent)''] @
         line [''  B1 Size: '', show_int (lsize (b1 (arc b))), '' (ghost recent)''] @
         line [''  B2 Size: '', show_int (lsize (b2 (arc b))), '' (ghost frequent)''] @
         line [''  Target T1 Size: '', show_int (target_size (arc b))] @ common
       else head @ line [''  Cache Size: '', show_int (lsize (lru b))] @ common)))"

text \<open>The recommendation: policy, size, confidence, reason and detail.\<close>

definition recommendation :: "'f float_ops \<Rightarrow> 'f full_cache \<Rightarrow> 'f \<Rightarrow> 'f \<Rightarrow> int \<times> int \<times> int \<times> string \<times> string" where
  "recommendation F g hit_rate peak_to_avg = (let b = base g; a = ai g in
     if f_less F hit_rate (threshold_hit_rate a) then
       (EVICT_LFU, max_items b * 2, CONFIDENCE_HIGH, ''Low hit rate detected'',
        ''LFU better identifies persistent hot keys when hit rate is low'')
     else if f_less F (threshold_burst_ratio a) peak_to_avg then
       (EVICT_ARC, max_items b * 2, CONFIDENCE_HIGH, ''Bursty access pattern detected'',
        ''ARC dual-buffer adapts well to sudden traffic spikes'')
     else if detected_pattern a = PATTERN_PERIODIC then
       (EVICT_ARC, max_items b, CONFIDENCE_MEDIUM, ''Periodic access pattern detected'',
        ''ARC adapts well to time-varying access patterns'')
     else if detected_pattern a = PATTERN_RANDOM then
       (EVICT_LRU, max_items b, CONFIDENCE_LOW, ''Random access pattern detected'',
        ''LRU provides best overall performance for random access'')
     else if policy_changes b > 3 then
       (EVICT_LRU, max_items b, CONFIDENCE_MEDIUM, ''Frequent policy changes detected'',
        ''Stick with LRU for stability'')
     else (policy b, max_items b, CONFIDENCE_HIGH, ''Current configuration is optimal'',
        ''No changes needed - system performing well''))"

definition kvs_cache_ai_recommend :: "'f float_ops \<Rightarrow> 'f full_cache \<Rightarrow> nat \<Rightarrow> (string \<times> 'f full_cache) option" where
  "kvs_cache_ai_recommend F g max_len = (let
       peak_qps = peak_of (access_by_second g);
       avg_qps = total_of (access_by_second g) div 60;
       hit_rate = hit_rate_of F (base g);
       peak_to_avg = (if avg_qps > 0 then f_div F (f_of_word F peak_qps) (f_of_word F avg_qps) else f_lit F 0) in do {
     pattern \<leftarrow> detect_access_pattern F g;
     let g = g\<lparr>ai := (ai g)\<lparr>detected_pattern := pattern\<rparr>\<rparr>;
     pred \<leftarrow> exponential_smooth F (hit_rate_history (ai g)) (history_count (ai g)) (f_lit F (3 / 10));
     let g = g\<lparr>ai := (ai g)\<lparr>predicted_hit_rate := pred, predicted_qps := f_mul F (f_of_word F avg_qps) (f_lit F (11 / 10))\<rparr>\<rparr>;
     let (rpol, rmax, conf, reason, detail) = recommendation F g hit_rate peak_to_avg;
     Some (fst (snprintf max_len (
       line [''=== AI Cache Recommendation (Enhanced) ===''] @ line [] @
       line [''[Current Status]''] @
       line [''  Policy: '', kvs_cache_policy_name (policy (base g))] @
       line [''  Hit Rate: '', f_show F 2 hit_rate, ''% (Predicted: '', f_show F 1 (predicted_hit_rate (ai g)), ''%)''] @
       line [''  Peak QPS: '', show_word peak_qps, '', Avg QPS: '', show_word avg_qps] @
       line [''  Peak/Avg Ratio: '', f_show F 2 peak_to_avg, ''x''] @
       line [''  Predicted QPS: '', f_show F 0 (predicted_qps (ai g))] @ line [] @
       line [''[Pattern Analysis]''] @
       line [''  Detected Pattern: '', pattern_name (detected_pattern (ai g))] @
       line [''  Dynamic Hit Rate Threshold: '', f_show F 1 (threshold_hit_rate (ai g)), ''%''] @
       line [''  Dynamic Burst Threshold: '', f_show F 1 (threshold_burst_ratio (ai g)), ''x''] @
       line [''  History Samples: '', show_nat (history_count (ai g))] @ line [] @
       line [''[Recommendation]''] @
       line [''  Recommended Policy: '', kvs_cache_policy_name rpol] @
       line [''  Recommended Max Items: '', show_int rmax] @
       line [''  Confidence: '', confidence_name conf] @
       line [''  Reason: '', reason] @
       line [''  Detail: '', detail] @ line [] @
       line [''[Actions]''] @
       line [''  To apply: POLICY SET '', kvs_cache_policy_name rpol] @
       line [''  To view stats: STATS''] @
       line [''=========================================''])), g) })"

section \<open>Correctness of the windows\<close>

lemma shift_loop_correct:
  assumes "s \<le> k" "k \<le> length xs"
  shows "shift_loop (take k xs @ Z) (int k - 1) (int s) = Some (take s xs @ take (k - s) xs @ Z)"
  using assms
proof (induction "k - s" arbitrary: k Z)
  case 0
  then have "k = s" by simp
  then show ?case by (subst shift_loop.simps) simp
next
  case (Suc d)
  obtain j where k: "k = Suc j" using Suc.hyps(2) by (cases k) auto
  have j: "s \<le> j" "j < length xs" "d = j - s" using Suc k by auto
  let ?v = "xs ! (j - s)"
  have g: "arr_get (take k xs @ Z) (int j - int s) = Some ?v"
    using arr_get_nat [of "j - s" "take k xs @ Z"] j k by (simp add: of_nat_diff nth_append less_Suc_eq_le)
  have p: "arr_put (take k xs @ Z) (int j) ?v = Some (take j xs @ ?v # Z)"
    using j k by (simp add: take_Suc_conv_app_nth list_update_append)
  have "shift_loop (take k xs @ Z) (int k - 1) (int s) = shift_loop (take j xs @ ?v # Z) (int j - 1) (int s)"
    using g p j k shift_loop.simps [of "take k xs @ Z" "int j" "int s"] by simp
  also have "\<dots> = Some (take s xs @ take (j - s) xs @ ?v # Z)" using Suc.hyps(1) [OF j(3)] j by simp
  also have "take (j - s) xs @ ?v # Z = take (k - s) xs @ Z"
    using j k by (simp add: Suc_diff_le take_Suc_conv_app_nth)
  finally show ?case .
qed

lemma zero_loop_correct:
  assumes "i \<le> s" "s \<le> i + length ys" "n = i + length ys"
  shows "zero_loop (replicate i 0 @ ys) (int i) (int s) (int n) = Some (replicate s 0 @ drop (s - i) ys)"
  using assms
proof (induction "s - i" arbitrary: i ys)
  case 0
  then have "s = i" by simp
  then show ?case by (subst zero_loop.simps) simp
next
  case (Suc d)
  obtain y zs where ys: "ys = y # zs" using Suc by (cases ys) auto
  have lt: "i < s" "i < n" using Suc.hyps(2) Suc.prems ys by auto
  have "arr_put (replicate i 0 @ ys) (int i) 0 = Some (replicate i 0 @ 0 # zs)"
    by (simp add: ys list_update_append)
  also have "replicate i 0 @ 0 # zs = replicate (Suc i) 0 @ zs" by (simp add: replicate_app_Cons_same)
  finally have "zero_loop (replicate i 0 @ ys) (int i) (int s) (int n) =
      zero_loop (replicate (Suc i) 0 @ zs) (int (Suc i)) (int s) (int n)"
    using lt zero_loop.simps [of "replicate i 0 @ ys" "int i" "int s" "int n"] by (simp add: add.commute)
  also have "\<dots> = Some (replicate s 0 @ drop (s - Suc i) zs)"
    by (rule Suc.hyps(1)) (use Suc ys in auto)
  also have "drop (s - Suc i) zs = drop (s - i) ys" using lt ys by (simp add: Suc_diff_Suc [symmetric])
  finally show ?case .
qed

text \<open>The reference: \<open>s\<close> fresh periods in front, the oldest ones dropped.\<close>

definition shifted :: "nat \<Rightarrow> 64 word list \<Rightarrow> 64 word list" where
  "shifted s xs = take (length xs) (replicate s 0 @ xs)"

lemma length_shifted [simp]: "length (shifted s xs) = length xs"
  by (simp add: shifted_def)

lemma shift_window_shifted:
  assumes "int (length xs) \<le> limit" "limit \<le> int (length xs) + 1"
  shows "shift_window xs (int s) limit (int (length xs)) = Some (shifted s xs)"
proof (cases "int s < limit")
  case True
  then have "s \<le> length xs" using assms by simp
  then show ?thesis
    using True shift_loop_correct [of s "length xs" xs "[]"]
      zero_loop_correct [of 0 s "take s xs @ take (length xs - s) xs" "length xs"]
    by (simp add: shift_window_def shifted_def)
qed (use assms in \<open>simp add: shift_window_def shifted_def\<close>)

text \<open>C29: the in-place shift of an access window is the reference shift, without an access out
  of bounds, for the limits of all three windows (\<open>n\<close> and \<open>n + 1\<close>).\<close>

theorem shift_window_is_reference:
  assumes "limit \<in> {int (length xs), int (length xs) + 1}" "0 \<le> shift"
  shows "shift_window xs shift limit (int (length xs)) = Some (shifted (nat shift) xs)"
  using shift_window_shifted [of xs limit "nat shift"] assms by auto

theorem shift_window_is_reference_witness:
  "shift_window [1, 2, 3, 4] 1 4 4 = Some [0, 1, 2, 3]"
  using shift_window_is_reference [of 4 "[1, 2, 3, 4]" 1] by (simp add: shifted_def)

text \<open>Well-formed statistics: array sizes, ring-buffer indices, and times below \<open>2 ^ 31\<close> seconds.\<close>

definition stats_ok :: "'f full_cache \<Rightarrow> bool" where
  "stats_ok g \<longleftrightarrow> length (access_by_second g) = 60 \<and> length (access_by_minute (ai g)) = MINUTE_WINDOW \<and>
     length (access_by_hour (ai g)) = HOUR_WINDOW \<and> length (hit_rate_history (ai g)) = HISTORY_SIZE \<and>
     history_idx (ai g) < HISTORY_SIZE \<and> history_count (ai g) \<le> HISTORY_SIZE \<and>
     last_update_time g < 2 ^ 31 \<and> last_minute (ai g) < 2 ^ 31 \<and> last_hour (ai g) < 2 ^ 31"

definition clock_ok :: "env \<Rightarrow> bool" where
  "clock_ok e \<longleftrightarrow> (\<forall>i. fst (clock e i) < 2 ^ 31 \<and> snd (clock e i) < 10 ^ 9)"

lemma shift_of_pos:
  assumes "prev < now" "now < 2 ^ 31"
  shows "0 \<le> shift_of now prev"
proof -
  have u: "uint prev < uint now" "uint now < 2 ^ 31" using assms by (simp_all add: word_less_def)
  have d: "uint (now - prev) = uint now - uint prev" using assms(1) by (simp add: uint_sub_if' word_less_def)
  have "signed_take_bit 31 (uint now - uint prev) = uint now - uint prev"
    by (rule signed_take_bit_int_eq_self) (use u uint_ge_0 [of prev] in \<open>simp_all, linarith?\<close>)
  then show ?thesis unfolding shift_of_def d using u by simp
qed

lemma shift_window_forward:
  assumes "prev < now" "now < 2 ^ 31" "length xs = n" "int n \<le> limit" "limit \<le> int n + 1"
  shows "\<exists>ys. shift_window xs (shift_of now prev) limit (int n) = Some ys \<and> length ys = n"
  using shift_window_shifted [of xs limit "nat (shift_of now prev)"] shift_of_pos [OF assms(1, 2)] assms(3-5)
  by auto

lemma sec_bound: "clock_ok e \<Longrightarrow> current_time_sec e i < 2 ^ 31"
  unfolding clock_ok_def current_time_sec_def word_less_nat_alt
  by (erule allE [of _ i]) (simp add: unat_of_nat)

lemma div_bound: "(x :: 64 word) < 2 ^ 31 \<Longrightarrow> x div d < 2 ^ 31"
  by (simp add: word_less_nat_alt unat_div) (meson div_le_dividend le_less_trans)

lemma ms_bound: "clock_ok e \<Longrightarrow> current_time_ms e i div 1000 < 2 ^ 31"
proof -
  assume "clock_ok e"
  then have c: "fst (clock e i) < 2 ^ 31" "snd (clock e i) < 10 ^ 9" by (auto simp: clock_ok_def)
  have "current_time_ms e i = of_nat (fst (clock e i) * 1000 + snd (clock e i) div 1000000)"
    by (simp add: current_time_ms_def split_beta)
  also have "unat \<dots> = fst (clock e i) * 1000 + snd (clock e i) div 1000000"
    by (subst unat_of_nat, rule mod_less) (use c in simp)
  finally show ?thesis using c by (simp add: word_less_nat_alt unat_div)
qed

lemma fold_history_total:
  "HISTORY_SIZE \<le> length data \<Longrightarrow> \<exists>y. fold_history step data count acc = Some y"
  by (simp add: fold_history_def)

lemma bump_total: "0 \<le> i \<Longrightarrow> i < int (length xs) \<Longrightarrow> \<exists>ys. bump xs i = Some ys \<and> length ys = length xs"
  by (simp add: bump_def arr_get_def arr_put_def)

lemma update_dynamic_thresholds_ok:
  assumes "stats_ok g"
  shows "\<exists>g'. update_dynamic_thresholds F g = Some g' \<and> stats_ok g' \<and> base g' = base g \<and>
    last_update_time g' = last_update_time g"
  using assms
  by (auto simp: update_dynamic_thresholds_def history_mean_def calculate_variance_def fold_history_def
      stats_ok_def Let_def)

lemma record_hit_rate_sample_ok:
  assumes "stats_ok g"
  shows "\<exists>g'. record_hit_rate_sample g r = Some g' \<and> stats_ok g' \<and> base g' = base g \<and>
    last_update_time g' = last_update_time g"
  using assms
  by (auto simp: record_hit_rate_sample_def stats_ok_def Let_def HISTORY_SIZE_def)

lemma update_time_windows_ok:
  assumes "stats_ok g" "clock_ok e"
  shows "\<exists>g'. update_time_windows e i g = Some g' \<and> stats_ok g' \<and> base g' = base g"
proof -
  let ?now = "current_time_sec e i" and ?a = "ai g"
  have b: "?now div d < 2 ^ 31" for d using div_bound sec_bound [OF assms(2)] .
  have m: "\<exists>w. shift_window (access_by_minute ?a) (shift_of (?now div 60) (last_minute ?a)) (int MINUTE_WINDOW)
      (int MINUTE_WINDOW) = Some w \<and> length w = MINUTE_WINDOW" if "?now div 60 > last_minute ?a"
    by (rule shift_window_forward) (use that b assms(1) in \<open>auto simp: stats_ok_def\<close>)
  have h: "\<exists>w. shift_window (access_by_hour ?a) (shift_of (?now div 3600) (last_hour ?a)) (int HOUR_WINDOW)
      (int HOUR_WINDOW) = Some w \<and> length w = HOUR_WINDOW" if "?now div 3600 > last_hour ?a"
    by (rule shift_window_forward) (use that b assms(1) in \<open>auto simp: stats_ok_def\<close>)
  show ?thesis
    using m h assms(1) b [of 60] b [of 3600]
    by (cases "?now div 60 > last_minute ?a"; cases "?now div 3600 > last_hour ?a")
      (auto simp: update_time_windows_def stats_ok_def Let_def)
qed

lemma stats_ok_base [simp]: "stats_ok (g\<lparr>base := b\<rparr>) = stats_ok g"
  by (simp add: stats_ok_def)

lemma second_window_ok:
  assumes "stats_ok g" "last_update_time g < now" "now < 2 ^ 31"
  shows "\<exists>w. shift_window (access_by_second g) (shift_of now (last_update_time g)) 61 60 = Some w \<and>
    stats_ok (g\<lparr>access_by_second := w, last_update_time := now\<rparr>)"
  using shift_window_forward [OF assms(2, 3), of "access_by_second g" 60 61] assms(1, 3)
  by (auto simp: stats_ok_def)

lemma roll_second_ok:
  assumes "stats_ok g" "now < 2 ^ 31"
  shows "\<exists>g'. roll_second F now g = Some g' \<and> stats_ok g' \<and> base g' = base g"
proof (cases "now > last_update_time g")
  case True
  obtain w where w: "shift_window (access_by_second g) (shift_of now (last_update_time g)) 61 60 = Some w"
      "stats_ok (g\<lparr>access_by_second := w, last_update_time := now\<rparr>)"
    using second_window_ok [OF assms(1) True assms(2)] by blast
  let ?g = "g\<lparr>access_by_second := w, last_update_time := now\<rparr>"
  obtain g1 where g1: "record_hit_rate_sample ?g (hit_rate_of F (base g)) = Some g1" "stats_ok g1" "base g1 = base g"
    using record_hit_rate_sample_ok [OF w(2)] by fastforce
  obtain g2 where "update_dynamic_thresholds F g1 = Some g2" "stats_ok g2" "base g2 = base g"
    using update_dynamic_thresholds_ok [OF g1(2), of F] g1(3) by auto
  then show ?thesis using True w(1) g1(1) by (simp add: roll_second_def Let_def)
qed (use assms in \<open>simp add: roll_second_def\<close>)

lemma bump_mod:
  assumes "length xs = nat (uint m)" "0 < m"
  shows "\<exists>ys. bump xs (uint ((x :: 64 word) mod m)) = Some ys \<and> length ys = length xs"
  using bump_total [of "uint (x mod m)" xs] assms by (simp add: word_less_def uint_mod)

text \<open>C28: counting an access never touches memory outside the windows or the history, for
  clocks below \<open>2 ^ 31\<close> seconds; it keeps the statistics well formed (array sizes, ring-buffer index and fill) and
  changes nothing else of the cache than the access counter.\<close>

theorem record_access_safe:
  assumes "stats_ok g" "clock_ok e"
  shows "\<exists>g'. kvs_cache_record_access F e g = Some g' \<and> stats_ok g' \<and>
    base g' = (base g)\<lparr>total_access := total_access (base g) + 1\<rparr>"
proof -
  let ?s = "current_time_ms e 0 div 1000"
  have s: "?s < 2 ^ 31" using ms_bound [OF assms(2)] .
  define b where "b = (base g)\<lparr>total_access := total_access (base g) + 1\<rparr>"
  define g0 where "g0 = (if last_update_time g = 0 then g\<lparr>base := b, last_update_time := ?s\<rparr> else g\<lparr>base := b\<rparr>)"
  have g0: "stats_ok g0" "base g0 = b" using assms(1) s by (auto simp: g0_def stats_ok_def)
  obtain g1 where g1: "roll_second F ?s g0 = Some g1" "stats_ok g1" "base g1 = b"
    using roll_second_ok [OF g0(1) s, of F] g0(2) by auto
  obtain w where w: "bump (access_by_second g1) (uint (?s mod 60)) = Some w" "length w = 60"
    using bump_mod [of "access_by_second g1" 60] g1(2) by (auto simp: stats_ok_def)
  have "stats_ok (g1\<lparr>access_by_second := w\<rparr>)" using g1(2) w(2) by (simp add: stats_ok_def)
  then obtain g2 where g2: "update_time_windows e 1 (g1\<lparr>access_by_second := w\<rparr>) = Some g2" "stats_ok g2" "base g2 = b"
    using update_time_windows_ok assms(2) g1(3) by fastforce
  obtain m where m: "bump (access_by_minute (ai g2)) (uint (current_time_sec e 2 div 60 mod 60)) = Some m"
      "length m = MINUTE_WINDOW"
    using bump_mod [of "access_by_minute (ai g2)" 60] g2(2) by (auto simp: stats_ok_def MINUTE_WINDOW_def)
  obtain h where h: "bump (access_by_hour (ai g2)) (uint (current_time_sec e 3 div 3600 mod 24)) = Some h"
      "length h = HOUR_WINDOW"
    using bump_mod [of "access_by_hour (ai g2)" 24] g2(2) by (auto simp: stats_ok_def HOUR_WINDOW_def)
  have g0': "g0 = (let g = g\<lparr>base := b\<rparr> in if last_update_time g = 0 then g\<lparr>last_update_time := ?s\<rparr> else g)"
    by (simp add: g0_def Let_def)
  have "kvs_cache_record_access F e g =
      Some (g2\<lparr>ai := (ai g2)\<lparr>access_by_minute := m, access_by_hour := h\<rparr>\<rparr>)"
    using g1(1) w(1) g2(1) m(1) h(1) unfolding kvs_cache_record_access_def
    by (simp only: b_def [symmetric] g0' [symmetric, unfolded Let_def] Let_def) simp
  then show ?thesis using g2 m(2) h(2) by (auto simp: stats_ok_def b_def)
qed

lemma stats_init_ok: "stats_ok (stats_init F g)"
  by (simp add: stats_ok_def stats_init_def MINUTE_WINDOW_def HOUR_WINDOW_def HISTORY_SIZE_def)

lemma env0_clock: "clock_ok env0"
  by (simp add: clock_ok_def env0_def)

theorem record_access_safe_witness:
  "\<exists>g g'. kvs_cache_init env0 2 = Some g \<and>
     kvs_cache_record_access rat_ops env0 (stats_init rat_ops g) = Some g' \<and> total_access (base g') = 1"
proof -
  obtain g where g: "kvs_cache_init env0 2 = Some g" "total_access g = 0"
    by (auto simp: kvs_cache_init_def arc_init_def Let_def)
  show ?thesis
    using record_access_safe [OF stats_init_ok env0_clock, of rat_ops rat_ops g] g
    by (auto simp: stats_init_def)
qed

text \<open>With at least three samples, the dynamic thresholds are recomputed and lie between their
  limits: the hit-rate threshold within 30 and 70, the burst threshold within 2 and 8, whatever
  the samples are, for any arithmetic whose comparison is irreflexive and orders those four
  literals.\<close>

lemma dynamic_thresholds_bounded:
  assumes "stats_ok g" "3 \<le> history_count (ai g)"
    and "\<forall>x. \<not> f_less F x x" "\<not> f_less F (f_lit F 70) (f_lit F 30)" "\<not> f_less F (f_lit F 8) (f_lit F 2)"
  shows "\<exists>g'. update_dynamic_thresholds F g = Some g' \<and>
    \<not> f_less F (threshold_hit_rate (ai g')) (f_lit F 30) \<and> \<not> f_less F (f_lit F 70) (threshold_hit_rate (ai g')) \<and>
    \<not> f_less F (threshold_burst_ratio (ai g')) (f_lit F 2) \<and> \<not> f_less F (f_lit F 8) (threshold_burst_ratio (ai g'))"
  using assms
  by (simp add: update_dynamic_thresholds_def history_mean_def calculate_variance_def fold_history_def
      stats_ok_def Let_def raise_to_def lower_to_def)

end
