(* ===== verification/Kvs_Vector.thy ===== *)
theory Kvs_Vector
  imports Kvs_Libc
begin

text \<open>
  The vector engine (\<open>src/engine/kvs_vector.c\<close>): an array of nodes with one forward pointer per
  level, deletion marks, and a search that scans the live nodes and sorts them by distance.

  A node is allocated once and stored in the slot of the array that is its \<open>id\<close>, so a pointer
  to a node is its slot number; \<open>nodes i = None\<close> is a NULL slot. A vector is the list of the
  floats allocated for it: reading past its end is a fault (\<^const>\<open>None\<close>), as is following a
  NULL pointer or indexing a node's \<open>forward\<close> array above its level. The loops that follow
  forward pointers are partial functions; that they stop is proved with the engine's
  invariant. The flag \<open>is_deleted\<close> is a Boolean.
\<close>

definition MAX_DIM :: nat where "MAX_DIM = 1536"
definition MAX_ELEMENTS :: nat where "MAX_ELEMENTS = 100000"
definition M_MAX :: int where "M_MAX = 32"
definition EF_SEARCH :: nat where "EF_SEARCH = 128"
definition LAYER_DECAY :: rat where "LAYER_DECAY = 253 / 10000"
definition MAX_LAYERS :: nat where "MAX_LAYERS = 16"

record 'f HNSWNode =
  nid :: nat
  nlevel :: nat
  nvec :: "'f list"
  ndim :: nat
  nkey :: cstr
  is_deleted :: bool
  delete_time :: int
  nforward :: "nat option list"
  distances :: "int list"
  neighbors_count :: "int list"

record 'f HNSWIndex =
  idim :: nat
  isize :: nat
  deleted_count :: int
  imax_size :: nat
  imax_level :: nat
  enterpoint_id :: nat
  ml :: 'f
  nodes :: "nat \<rightharpoonup> 'f HNSWNode"
  level_counts :: "int list option"

text \<open>The pointer \<open>index\<close>: NULL, freed, or valid.\<close>

datatype 'i vptr = VNull | VFreed | VPtr 'i

record 'f kvs_vector_t =
  index :: "'f HNSWIndex vptr"
  vdim :: nat
  vcount :: int
  vmax_size :: nat

section \<open>Distances\<close>

function dist_from :: "'f float_ops \<Rightarrow> 'f list \<Rightarrow> 'f list \<Rightarrow> nat \<Rightarrow> nat \<Rightarrow> 'f \<Rightarrow> 'f option" where
  "dist_from F a b dm i ds =
     (if i < dm then do {
        x \<leftarrow> arr_get a (int i);
        y \<leftarrow> arr_get b (int i);
        let d = f_sub F x y;
        dist_from F a b dm (Suc i) (f_add F ds (f_mul F d d)) }
      else Some ds)"
  by pat_completeness auto
termination
  by (relation "measure (\<lambda>(F, a, b, dm, i, ds). dm - i)") auto

declare dist_from.simps [simp del]

definition euclidean_distance :: "'f float_ops \<Rightarrow> 'f list \<Rightarrow> 'f list \<Rightarrow> nat \<Rightarrow> 'f option" where
  "euclidean_distance F a b dm = do {
     ds \<leftarrow> dist_from F a b dm 0 (f_lit F 0);
     Some (f_sqrt F ds) }"

function dot_from :: "'f float_ops \<Rightarrow> 'f list \<Rightarrow> 'f list \<Rightarrow> nat \<Rightarrow> nat \<Rightarrow> 'f \<Rightarrow> 'f option" where
  "dot_from F a b dm i s =
     (if i < dm then do {
        x \<leftarrow> arr_get a (int i);
        y \<leftarrow> arr_get b (int i);
        dot_from F a b dm (Suc i) (f_add F s (f_mul F x y)) }
      else Some s)"
  by pat_completeness auto
termination
  by (relation "measure (\<lambda>(F, a, b, dm, i, s). dm - i)") auto

declare dot_from.simps [simp del]

definition dot_product :: "'f float_ops \<Rightarrow> 'f list \<Rightarrow> 'f list \<Rightarrow> nat \<Rightarrow> 'f option" where
  "dot_product F a b dm = dot_from F a b dm 0 (f_lit F 0)"

definition cosine_similarity :: "'f float_ops \<Rightarrow> 'f list \<Rightarrow> 'f list \<Rightarrow> nat \<Rightarrow> 'f option" where
  "cosine_similarity F a b dm = do {
     dot \<leftarrow> dot_product F a b dm;
     aa \<leftarrow> dot_product F a a dm;
     bb \<leftarrow> dot_product F b b dm;
     let norm_a = f_sqrt F aa;
     let norm_b = f_sqrt F bb;
     if f_below F norm_a (1 / 10 ^ 6) \<or> f_below F norm_b (1 / 10 ^ 6) then Some (f_lit F 0)
     else Some (f_div F dot (f_mul F norm_a norm_b)) }"

section \<open>Nodes\<close>

text \<open>\<open>(float)rand() / RAND_MAX\<close>, and the loop of \<open>random_level\<close>.\<close>

definition random_unit :: "'f float_ops \<Rightarrow> env \<Rightarrow> nat \<Rightarrow> 'f" where
  "random_unit F e i = f_div F (f_of_int F (rand_val e i)) (f_of_int F RAND_MAX)"

definition level_threshold :: "'f float_ops \<Rightarrow> 'f \<Rightarrow> nat \<Rightarrow> 'f" where
  "level_threshold F m lv = f_exp F (f_mul F (f_of_int F (- int lv)) m)"

function level_loop :: "'f float_ops \<Rightarrow> env \<Rightarrow> 'f \<Rightarrow> nat \<Rightarrow> nat" where
  "level_loop F e m lv =
     (if f_less F (random_unit F e lv) (level_threshold F m lv) \<and> lv < MAX_LAYERS - 1
      then level_loop F e m (Suc lv) else lv)"
  by pat_completeness auto
termination
  by (relation "measure (\<lambda>(F, e, m, lv). MAX_LAYERS - lv)") auto

declare level_loop.simps [simp del]

definition random_level :: "'f float_ops \<Rightarrow> env \<Rightarrow> 'f \<Rightarrow> nat" where
  "random_level F e m = level_loop F e m 0"

text \<open>The allocation requests of a call are numbered; those of \<open>hnsw_create_node\<close> follow the
  one of its caller.\<close>

definition hnsw_create_node :: "env \<Rightarrow> nat \<Rightarrow> 'f list \<Rightarrow> nat \<Rightarrow> nat \<Rightarrow> cstr \<Rightarrow> 'f HNSWNode option" where
  "hnsw_create_node e n vector dm lv key =
     (if \<not> kvs_malloc e 1 then None
      else if \<not> kvs_malloc e 2 then None
      else if \<not> kvs_malloc e 4 \<or> \<not> kvs_malloc e 5 \<or> \<not> kvs_malloc e 6 then None
      else Some \<lparr>nid = n, nlevel = lv, nvec = take dm vector, ndim = dm, nkey = kvs_strdup e 3 key,
        is_deleted = False, delete_time = 0, nforward = replicate (lv + 1) None,
        distances = replicate (lv + 1) 0, neighbors_count = replicate (lv + 1) 0\<rparr>)"

section \<open>Search\<close>

text \<open>\<open>greedy_search\<close> and \<open>search_layer\<close>, which no other function calls. The node reached, for
  the first the last step of the walk repeated once.\<close>

partial_function (option) greedy_walk ::
    "'f float_ops \<Rightarrow> 'f HNSWIndex \<Rightarrow> 'f list \<Rightarrow> nat \<Rightarrow> nat \<Rightarrow> 'f \<Rightarrow> (nat \<times> 'f) option" where
  "greedy_walk F ix query lv cur best = do {
     c \<leftarrow> nodes ix cur;
     f \<leftarrow> arr_get (nforward c) (int lv);
     case f of None \<Rightarrow> Some (cur, best)
     | Some next \<Rightarrow> do {
         n \<leftarrow> nodes ix next;
         ds \<leftarrow> euclidean_distance F query (nvec n) (idim ix);
         if f_less F ds best then greedy_walk F ix query lv next ds else Some (cur, best) } }"

definition greedy_search :: "'f float_ops \<Rightarrow> 'f HNSWIndex \<Rightarrow> 'f list \<Rightarrow> nat \<Rightarrow> nat option" where
  "greedy_search F ix query lv = do {
     c \<leftarrow> nodes ix (enterpoint_id ix);
     d \<leftarrow> euclidean_distance F query (nvec c) (idim ix);
     (cur, best) \<leftarrow> greedy_walk F ix query lv (enterpoint_id ix) d;
     c \<leftarrow> nodes ix cur;
     f \<leftarrow> arr_get (nforward c) (int lv);
     case f of None \<Rightarrow> Some cur
     | Some next \<Rightarrow> do {
         n \<leftarrow> nodes ix next;
         ds \<leftarrow> euclidean_distance F query (nvec n) (idim ix);
         Some (if f_less F ds best then next else cur) } }"

definition compare_result :: "'f float_ops \<Rightarrow> 'f \<Rightarrow> 'f \<Rightarrow> int" where
  "compare_result F da db = (if f_less F db da then -1 else if f_less F da db then 1 else 0)"

partial_function (option) layer_walk ::
    "'f float_ops \<Rightarrow> 'f HNSWIndex \<Rightarrow> 'f list \<Rightarrow> nat \<Rightarrow> nat option \<Rightarrow> nat \<Rightarrow> (nat option \<times> nat) option" where
  "layer_walk F ix query lv prev cur = do {
     c \<leftarrow> nodes ix cur;
     f \<leftarrow> arr_get (nforward c) (int lv);
     case f of None \<Rightarrow> Some (prev, cur)
     | Some next \<Rightarrow> do {
         n \<leftarrow> nodes ix next;
         ds \<leftarrow> euclidean_distance F query (nvec n) (idim ix);
         layer_walk F ix query lv (Some cur) next } }"

definition search_layer :: "'f float_ops \<Rightarrow> env \<Rightarrow> 'f HNSWIndex \<Rightarrow> nat \<Rightarrow> 'f list \<Rightarrow> nat \<Rightarrow> nat list option" where
  "search_layer F e ix ep query lv = do {
     c \<leftarrow> nodes ix ep;
     d \<leftarrow> euclidean_distance F query (nvec c) (idim ix);
     (prev, cur) \<leftarrow> layer_walk F ix query lv None ep;
     if kvs_malloc e 0 then Some [case prev of Some p \<Rightarrow> p | None \<Rightarrow> cur] else None }"

text \<open>The descent of \<open>search_hnsw\<close> through the upper levels.\<close>

partial_function (option) search_walk ::
    "'f float_ops \<Rightarrow> 'f HNSWIndex \<Rightarrow> 'f list \<Rightarrow> nat \<Rightarrow> nat \<Rightarrow> 'f \<Rightarrow> nat option" where
  "search_walk F ix query lv cur best = do {
     c \<leftarrow> nodes ix cur;
     f \<leftarrow> arr_get (nforward c) (int lv);
     case f of None \<Rightarrow> Some cur
     | Some next \<Rightarrow> do {
         n \<leftarrow> nodes ix next;
         if is_deleted n then Some cur
         else do {
           ds \<leftarrow> euclidean_distance F query (nvec n) (ndim n);
           if f_less F ds best then search_walk F ix query lv next ds else Some cur } } }"

fun search_levels :: "'f float_ops \<Rightarrow> 'f HNSWIndex \<Rightarrow> 'f list \<Rightarrow> nat \<Rightarrow> nat \<Rightarrow> nat option" where
  "search_levels F ix query 0 cur = Some cur"
| "search_levels F ix query (Suc l) cur = do {
     c \<leftarrow> nodes ix cur;
     if Suc l > nlevel c then search_levels F ix query l cur
     else do {
       best \<leftarrow> euclidean_distance F query (nvec c) (idim ix);
       cur \<leftarrow> search_walk F ix query (Suc l) cur best;
       search_levels F ix query l cur } }"

text \<open>The scan for candidates: the winners so far, with their distances.\<close>

function scan_live :: "'f float_ops \<Rightarrow> 'f HNSWIndex \<Rightarrow> 'f list \<Rightarrow> nat option \<Rightarrow> nat \<Rightarrow>
    (nat \<times> 'f) list \<Rightarrow> (nat \<times> 'f) list option" where
  "scan_live F ix query cur i ws =
     (if i < isize ix \<and> length ws < EF_SEARCH then
        (case nodes ix i of
           None \<Rightarrow> scan_live F ix query cur (Suc i) ws
         | Some n \<Rightarrow>
             if is_deleted n \<or> cur = Some i then scan_live F ix query cur (Suc i) ws
             else do {
               ds \<leftarrow> euclidean_distance F query (nvec n) (ndim n);
               scan_live F ix query cur (Suc i) (ws @ [(i, ds)]) })
      else Some ws)"
  by pat_completeness auto
termination
  by (relation "measure (\<lambda>(F, ix, query, cur, i, ws). isize ix - i)") auto

declare scan_live.simps [simp del]

text \<open>The two nested loops of the exchange sort.\<close>

definition swap :: "nat \<Rightarrow> nat \<Rightarrow> 'a list \<Rightarrow> 'a list" where
  "swap i j xs = xs[i := xs ! j, j := xs ! i]"

function sort_inner :: "'f float_ops \<Rightarrow> nat \<Rightarrow> nat \<Rightarrow> (nat \<times> 'f) list \<Rightarrow> (nat \<times> 'f) list" where
  "sort_inner F i j ws =
     (if j < length ws
      then sort_inner F i (Suc j) (if f_less F (snd (ws ! j)) (snd (ws ! i)) then swap i j ws else ws)
      else ws)"
  by pat_completeness auto
termination
  by (relation "measure (\<lambda>(F, i, j, ws). length ws - j)") (auto simp: swap_def)

declare sort_inner.simps [simp del]

lemma length_sort_inner [simp]: "length (sort_inner F i j ws) = length ws"
proof (induction F i j ws rule: sort_inner.induct)
  case (1 F i j ws)
  then show ?case by (subst sort_inner.simps) (auto simp: swap_def)
qed

function sort_outer :: "'f float_ops \<Rightarrow> nat \<Rightarrow> (nat \<times> 'f) list \<Rightarrow> (nat \<times> 'f) list" where
  "sort_outer F i ws =
     (if int i < int (length ws) - 1 then sort_outer F (Suc i) (sort_inner F i (Suc i) ws) else ws)"
  by pat_completeness auto
termination
  by (relation "measure (\<lambda>(F, i, ws). length ws - i)") auto

declare sort_outer.simps [simp del]

text \<open>\<open>search_hnsw\<close>: the pairs stored in \<open>result_ids\<close> and \<open>result_dists\<close>. The number of
  results is their number, except that a negative \<open>k\<close> is returned as it is.\<close>

definition search_hnsw :: "'f float_ops \<Rightarrow> 'f HNSWIndex \<Rightarrow> 'f list \<Rightarrow> int \<Rightarrow> (int \<times> (nat \<times> 'f) list) option" where
  "search_hnsw F ix query k =
     (if isize ix = 0 \<or> enterpoint_id ix \<ge> isize ix then Some (0, [])
      else do {
        let cur = (case nodes ix (enterpoint_id ix) of None \<Rightarrow> None
          | Some c \<Rightarrow> if is_deleted c then None else Some (enterpoint_id ix));
        cur \<leftarrow> (case cur of None \<Rightarrow> Some None
          | Some c \<Rightarrow> do { c \<leftarrow> search_levels F ix query (imax_level ix) c; Some (Some c) });
        ws \<leftarrow> scan_live F ix query cur 0 [];
        ws \<leftarrow> (case cur of None \<Rightarrow> Some ws
          | Some c \<Rightarrow> do {
              n \<leftarrow> nodes ix c;
              if \<not> is_deleted n \<and> length ws < EF_SEARCH then do {
                ds \<leftarrow> euclidean_distance F query (nvec n) (ndim n);
                Some (ws @ [(c, ds)]) }
              else Some ws });
        let ws = sort_outer F 0 ws;
        let n_result = (if int (length ws) < k then int (length ws) else k);
        rs \<leftarrow> those (map (\<lambda>(i, d). map_option (\<lambda>n. (nid n, d)) (nodes ix i)) (take (nat n_result) ws));
        Some (n_result, rs) })"

section \<open>Insertion\<close>

text \<open>The walk to the insertion point: the predecessor and the candidate reached.\<close>

partial_function (option) insert_walk ::
    "'f float_ops \<Rightarrow> 'f HNSWIndex \<Rightarrow> 'f list \<Rightarrow> nat \<Rightarrow> nat option \<Rightarrow> nat \<Rightarrow> 'f \<Rightarrow> (nat option \<times> nat) option" where
  "insert_walk F ix v lv prev candidate new_dist = do {
     c \<leftarrow> nodes ix candidate;
     f \<leftarrow> arr_get (nforward c) (int lv);
     if f \<noteq> None \<and> lv \<le> nlevel c then do {
       next \<leftarrow> f;
       n \<leftarrow> nodes ix next;
       next_dist \<leftarrow> euclidean_distance F v (nvec n) (idim ix);
       if f_less F next_dist new_dist then insert_walk F ix v lv (Some candidate) next next_dist
       else Some (prev, candidate) }
     else Some (prev, candidate) }"

text \<open>\<open>new_node->forward[level] = prev->forward[level]\<close>, the link from \<open>prev\<close>, and the
  neighbour count. The two nodes are updated one after the other in the array.\<close>

definition link_level :: "'f HNSWIndex \<Rightarrow> nat \<Rightarrow> nat \<Rightarrow> nat \<Rightarrow> 'f HNSWIndex option" where
  "link_level ix new prev lv = do {
     p \<leftarrow> nodes ix prev;
     n \<leftarrow> nodes ix new;
     f \<leftarrow> arr_get (nforward p) (int lv);
     nf \<leftarrow> arr_put (nforward n) (int lv) f;
     let ix = ix\<lparr>nodes := (nodes ix)(new \<mapsto> n\<lparr>nforward := nf\<rparr>)\<rparr>;
     p \<leftarrow> nodes ix prev;
     pf \<leftarrow> arr_put (nforward p) (int lv) (Some new);
     let ix = ix\<lparr>nodes := (nodes ix)(prev \<mapsto> p\<lparr>nforward := pf\<rparr>)\<rparr>;
     n \<leftarrow> nodes ix new;
     c \<leftarrow> arr_get (neighbors_count n) (int lv);
     nc \<leftarrow> arr_put (neighbors_count n) (int lv) (if c + 1 > M_MAX then M_MAX else c + 1);
     Some (ix\<lparr>nodes := (nodes ix)(new \<mapsto> n\<lparr>neighbors_count := nc\<rparr>)\<rparr>) }"

text \<open>One iteration of the loop over the levels, and the loop from level \<open>l - 1\<close> down to 0.\<close>

definition insert_level :: "'f float_ops \<Rightarrow> 'f HNSWIndex \<Rightarrow> nat \<Rightarrow> nat \<Rightarrow> nat \<Rightarrow> 'f HNSWIndex option" where
  "insert_level F ix new cur lv = do {
     n \<leftarrow> nodes ix new;
     c \<leftarrow> nodes ix cur;
     if lv > nlevel n then Some ix
     else if lv > nlevel c then Some ix
     else do {
       new_dist \<leftarrow> euclidean_distance F (nvec n) (nvec c) (idim ix);
       (prev, candidate) \<leftarrow> insert_walk F ix (nvec n) lv None cur new_dist;
       link_level ix new (case prev of None \<Rightarrow> candidate | Some p \<Rightarrow> p) lv } }"

fun insert_levels :: "'f float_ops \<Rightarrow> 'f HNSWIndex \<Rightarrow> nat \<Rightarrow> nat \<Rightarrow> nat \<Rightarrow> 'f HNSWIndex option" where
  "insert_levels F ix new cur 0 = Some ix"
| "insert_levels F ix new cur (Suc l) = do {
     ix \<leftarrow> insert_level F ix new cur l;
     insert_levels F ix new cur l }"

definition insert_hnsw :: "'f float_ops \<Rightarrow> 'f HNSWIndex \<Rightarrow> 'f HNSWNode \<Rightarrow> (int \<times> 'f HNSWIndex) option" where
  "insert_hnsw F ix new_node =
     (if isize ix \<ge> imax_size ix then Some (-1, ix)
      else do {
        let new = isize ix;
        let ix = ix\<lparr>nodes := (nodes ix)(new \<mapsto> new_node\<lparr>nid := new\<rparr>), isize := isize ix + 1\<rparr>;
        if isize ix = 1 then Some (0, ix\<lparr>enterpoint_id := 0, imax_level := nlevel new_node\<rparr>)
        else do {
          let ix = (if nlevel new_node > imax_level ix then ix\<lparr>imax_level := nlevel new_node\<rparr> else ix);
          ix \<leftarrow> insert_levels F ix new (enterpoint_id ix) (imax_level ix + 1);
          Some (0, ix) } })"

section \<open>The interface\<close>

text \<open>\<open>vec->index\<close>, which faults when it was freed.\<close>

definition the_index :: "'f kvs_vector_t \<Rightarrow> 'f HNSWIndex option option" where
  "the_index vec = (case index vec of VNull \<Rightarrow> Some None | VFreed \<Rightarrow> None | VPtr ix \<Rightarrow> Some (Some ix))"

definition kvs_vector_create :: "'f float_ops \<Rightarrow> env \<Rightarrow> int \<times> 'f kvs_vector_t" where
  "kvs_vector_create F e =
     (let vec = \<lparr>index = VNull, vdim = MAX_DIM, vcount = 0, vmax_size = MAX_ELEMENTS\<rparr> in
      if \<not> kvs_malloc e 0 then (-1, vec)
      else if \<not> kvs_malloc e 1 then (-1, vec\<lparr>index := VFreed\<rparr>)
      else (0, vec\<lparr>index := VPtr \<lparr>idim = MAX_DIM, isize = 0, deleted_count = 0, imax_size = MAX_ELEMENTS,
        imax_level = 0, enterpoint_id = 0, ml = f_lit F LAYER_DECAY, nodes = Map.empty,
        level_counts = (if kvs_calloc e 2 then Some (replicate MAX_LAYERS 0) else None)\<rparr>\<rparr>))"

definition kvs_vector_destroy :: "'f kvs_vector_t \<Rightarrow> 'f kvs_vector_t option" where
  "kvs_vector_destroy vec = do {
     ix \<leftarrow> the_index vec;
     Some (case ix of None \<Rightarrow> vec | Some _ \<Rightarrow> vec\<lparr>index := VNull, vcount := 0\<rparr>) }"

text \<open>A dimension out of range is replaced by the global one.\<close>

definition effective_dim :: "nat \<Rightarrow> int \<Rightarrow> nat" where
  "effective_dim global d = (if d \<le> 0 \<or> d > int MAX_DIM then global else nat d)"

text \<open>The floats of a command: none when a token is missing.\<close>

fun parse_floats :: "'f float_ops \<Rightarrow> nat \<Rightarrow> string \<Rightarrow> 'f list option" where
  "parse_floats F 0 s = Some []"
| "parse_floats F (Suc n) s = do {
     (token, s) \<leftarrow> strtok s;
     xs \<leftarrow> parse_floats F n s;
     Some (f_atof F token # xs) }"

text \<open>The first of the slots \<open>i, ..., n - 1\<close> that holds a live node of that key; the test of
  the loops of \<open>set\<close>, \<open>get\<close>, \<open>del\<close> and \<open>exist\<close>.\<close>

definition live_key :: "'f HNSWIndex \<Rightarrow> string \<Rightarrow> nat \<Rightarrow> bool" where
  "live_key ix key i = (case nodes ix i of None \<Rightarrow> False
     | Some n \<Rightarrow> \<not> is_deleted n \<and> (case nkey n of None \<Rightarrow> False | Some t \<Rightarrow> strcmp t key = 0))"

definition find_live :: "'f HNSWIndex \<Rightarrow> string \<Rightarrow> nat \<Rightarrow> nat option" where
  "find_live ix key n = find (live_key ix key) [0..<n]"

text \<open>The deletion mark, with its counters.\<close>

definition mark_deleted :: "env \<Rightarrow> 'f HNSWIndex \<Rightarrow> nat \<Rightarrow> 'f HNSWIndex" where
  "mark_deleted e ix i = ix\<lparr>nodes := (nodes ix)(i := map_option
       (\<lambda>n. n\<lparr>is_deleted := True, delete_time := wall_time e\<rparr>) (nodes ix i)),
     deleted_count := deleted_count ix + 1\<rparr>"

definition kvs_vector_set :: "'f float_ops \<Rightarrow> env \<Rightarrow> 'f kvs_vector_t \<Rightarrow> cstr \<Rightarrow> cstr \<Rightarrow> (int \<times> 'f kvs_vector_t) option" where
  "kvs_vector_set F e vec key value = do {
     ixo \<leftarrow> the_index vec;
     case (ixo, key, value) of (Some ix, Some k, Some val) \<Rightarrow>
       (case strtok val of None \<Rightarrow> Some (-1, vec)
        | Some (token, rest) \<Rightarrow>
            let dm = effective_dim (vdim vec) (atoi token) in
            if \<not> kvs_malloc e 0 then Some (-1, vec)
            else case parse_floats F dm rest of None \<Rightarrow> Some (-1, vec)
            | Some v \<Rightarrow>
                (case hnsw_create_node e (isize ix) v dm (random_level F e (ml ix)) (Some k) of
                   None \<Rightarrow> Some (-1, vec)
                 | Some node \<Rightarrow> do {
                     (r, ix) \<leftarrow> insert_hnsw F ix node;
                     if r < 0 then Some (-1, vec\<lparr>index := VPtr ix\<rparr>)
                     else Some (0, case find_live ix k (isize ix - 1) of
                         None \<Rightarrow> vec\<lparr>index := VPtr ix, vcount := vcount vec + 1\<rparr>
                       | Some i \<Rightarrow> vec\<lparr>index := VPtr (mark_deleted e ix i), vcount := vcount vec - 1 + 1\<rparr>) }))
     | _ \<Rightarrow> Some (-1, vec) }"

text \<open>The text of \<open>kvs_vector_get\<close>, in its buffer of 8192 bytes: \<open>offset\<close> counts the bytes asked
  for, the buffer keeps those that fit.\<close>

function vec_text :: "'f float_ops \<Rightarrow> 'f HNSWNode \<Rightarrow> nat \<Rightarrow> nat \<Rightarrow> string \<Rightarrow> string option" where
  "vec_text F n j offset buf =
     (if j < ndim n \<and> offset < 8192 - 50 then do {
        x \<leftarrow> arr_get (nvec n) (int j);
        let piece = f_show F 4 x @ (if int j < int (ndim n) - 1 then '','' else '']'');
        vec_text F n (Suc j) (offset + length piece) (buf @ fst (snprintf (8192 - offset) piece)) }
      else Some buf)"
  by pat_completeness auto
termination
  by (relation "measure (\<lambda>(F, n, j, offset, buf). ndim n - j)") auto

declare vec_text.simps [simp del]

definition kvs_vector_get :: "'f float_ops \<Rightarrow> 'f kvs_vector_t \<Rightarrow> cstr \<Rightarrow> cstr option" where
  "kvs_vector_get F vec key = do {
     ixo \<leftarrow> the_index vec;
     case (ixo, key) of (Some ix, Some k) \<Rightarrow>
       (case find_live ix k (isize ix) of None \<Rightarrow> Some None
        | Some i \<Rightarrow> do {
            n \<leftarrow> nodes ix i;
            t \<leftarrow> nkey n;
            let head = concat [''key='', t, '',id='', show_nat (nid n), '',dim='', show_nat (ndim n),
              '',level='', show_nat (nlevel n), '',vec=[''];
            let (buf, len) = snprintf 8192 head;
            text \<leftarrow> vec_text F n 0 (nat len) buf;
            Some (Some text) })
     | _ \<Rightarrow> Some None }"

text \<open>The query: the dimension of the first live node, padded with zeros.\<close>

fun parse_query :: "'f float_ops \<Rightarrow> nat \<Rightarrow> string \<Rightarrow> 'f list" where
  "parse_query F 0 s = []"
| "parse_query F (Suc n) s =
     (case strtok s of None \<Rightarrow> replicate (Suc n) (f_lit F 0)
      | Some (token, s) \<Rightarrow> f_atof F token # parse_query F n s)"

definition first_live_dim :: "'f HNSWIndex \<Rightarrow> nat" where
  "first_live_dim ix =
     (case find (\<lambda>i. case nodes ix i of None \<Rightarrow> False | Some n \<Rightarrow> \<not> is_deleted n) [0..<isize ix] of
        None \<Rightarrow> 0
      | Some i \<Rightarrow> (case nodes ix i of None \<Rightarrow> 0 | Some n \<Rightarrow> ndim n))"

definition kvs_vector_search :: "'f float_ops \<Rightarrow> env \<Rightarrow> 'f kvs_vector_t \<Rightarrow> cstr \<Rightarrow> int \<Rightarrow> cstr \<Rightarrow>
    (int \<times> (nat \<times> 'f) list) option" where
  "kvs_vector_search F e vec key k query_str = do {
     ixo \<leftarrow> the_index vec;
     case (ixo, key, query_str) of (Some ix, Some _, Some q) \<Rightarrow>
       if isize ix = 0 then Some (0, [])
       else if first_live_dim ix = 0 then Some (0, [])
       else if \<not> kvs_malloc e 0 then Some (-1, [])
       else search_hnsw F ix (parse_query F (first_live_dim ix) q) k
     | _ \<Rightarrow> Some (-1, []) }"

definition kvs_vector_del :: "env \<Rightarrow> 'f kvs_vector_t \<Rightarrow> cstr \<Rightarrow> (int \<times> 'f kvs_vector_t) option" where
  "kvs_vector_del e vec key = do {
     ixo \<leftarrow> the_index vec;
     case (ixo, key) of (Some ix, Some k) \<Rightarrow>
       Some (case find_live ix k (isize ix) of None \<Rightarrow> (-2, vec)
         | Some i \<Rightarrow> (0, vec\<lparr>index := VPtr (mark_deleted e ix i), vcount := vcount vec - 1\<rparr>))
     | _ \<Rightarrow> Some (-1, vec) }"

definition kvs_vector_exist :: "'f kvs_vector_t \<Rightarrow> cstr \<Rightarrow> int option" where
  "kvs_vector_exist vec key = do {
     ixo \<leftarrow> the_index vec;
     case (ixo, key) of (Some ix, Some k) \<Rightarrow> Some (if find_live ix k (isize ix) \<noteq> None then 0 else 1)
     | _ \<Rightarrow> Some (-1) }"

definition kvs_vector_count :: "'f kvs_vector_t \<Rightarrow> int option" where
  "kvs_vector_count vec = do {
     ixo \<leftarrow> the_index vec;
     Some (case ixo of None \<Rightarrow> 0 | Some ix \<Rightarrow> int (isize ix) - deleted_count ix) }"

definition kvs_vector_dim :: "'f kvs_vector_t \<Rightarrow> nat option" where
  "kvs_vector_dim vec = do {
     ixo \<leftarrow> the_index vec;
     Some (case ixo of None \<Rightarrow> 0 | Some ix \<Rightarrow> idim ix) }"

definition kvs_vector_get_key_by_id :: "'f kvs_vector_t \<Rightarrow> int \<Rightarrow> cstr option" where
  "kvs_vector_get_key_by_id vec i = do {
     ixo \<leftarrow> the_index vec;
     Some (case ixo of None \<Rightarrow> None
       | Some ix \<Rightarrow> if i < 0 \<or> i \<ge> int (isize ix) then None
           else (case nodes ix (nat i) of None \<Rightarrow> None
             | Some n \<Rightarrow> if is_deleted n then None else nkey n)) }"

declare greedy_walk.simps [code] layer_walk.simps [code] search_walk.simps [code] insert_walk.simps [code]

end
