(* ===== verification/Kvs_Protocol.thy ===== *)
theory Kvs_Protocol
  imports Kvs_Rdb Cache_Stats Kvs_Vector
begin

text \<open>
  The command protocol (\<open>src/common/kvstore.c\<close>): tokenising a request, dispatching it to an
  engine, the cache, the namespace or the persistence, and formatting the reply.

  \<open>server\<close> holds the static state of the program: the engines, the cache, the disk, and the
  snapshots that forked children are still saving. \<open>request\<close> is what one command gets from
  outside: the environments of its engine call, its cache lookup and its cache insertion, and
  the outcomes of the system calls. A handler returns the length it reports together with the
  text in the response buffer. Every caller passes a buffer of \<open>RESPONSE_MAX_LEN\<close> bytes;
  \<open>sprintf\<close> of a longer text is a fault (\<^const>\<open>None\<close>), and so is passing NULL for \<open>%s\<close>,
  which the C standard leaves undefined.
\<close>

section \<open>State and tables\<close>

record 'f server =
  engs :: engines
  vecs :: "'f kvs_vector_t"
  cch :: "'f full_cache"
  dsk :: disk
  saving :: "engines list"

record request =
  rq_engine :: env
  rq_lookup :: env
  rq_fill :: env
  rq_os :: os
  rq_fork :: int
  rq_mtime :: int

definition RESPONSE_MAX_LEN :: nat where "RESPONSE_MAX_LEN = 1024"
definition KVS_MAX_TOKENS :: nat where "KVS_MAX_TOKENS = 128"

datatype kvs_cmd =
    KVS_CMD_SET | KVS_CMD_GET | KVS_CMD_DEL | KVS_CMD_MOD | KVS_CMD_EXIST
  | KVS_CMD_RSET | KVS_CMD_RGET | KVS_CMD_RDEL | KVS_CMD_RMOD | KVS_CMD_REXIST
  | KVS_CMD_HSET | KVS_CMD_HGET | KVS_CMD_HDEL | KVS_CMD_HMOD | KVS_CMD_HEXIST
  | KVS_CMD_SSET | KVS_CMD_SGET | KVS_CMD_SDEL | KVS_CMD_SMOD | KVS_CMD_SEXIST
  | KVS_CMD_VSET | KVS_CMD_VGET | KVS_CMD_VSEARCH | KVS_CMD_VDEL | KVS_CMD_VCOUNT
  | KVS_CMD_POLICY | KVS_CMD_STATS | KVS_CMD_RECOMMEND
  | KVS_CMD_NAMESPACE | KVS_CMD_NS
  | KVS_CMD_SAVE | KVS_CMD_BGSAVE | KVS_CMD_LASTSAVE
  | KVS_CMD_COUNT

text \<open>The table \<open>command[]\<close>, each entry with its number in the enumeration.\<close>

definition command :: "(string \<times> kvs_cmd) list" where
  "command = [
     (''SET'', KVS_CMD_SET), (''GET'', KVS_CMD_GET), (''DEL'', KVS_CMD_DEL), (''MOD'', KVS_CMD_MOD),
     (''EXIST'', KVS_CMD_EXIST), (''RSET'', KVS_CMD_RSET), (''RGET'', KVS_CMD_RGET), (''RDEL'', KVS_CMD_RDEL),
     (''RMOD'', KVS_CMD_RMOD), (''REXIST'', KVS_CMD_REXIST), (''HSET'', KVS_CMD_HSET), (''HGET'', KVS_CMD_HGET),
     (''HDEL'', KVS_CMD_HDEL), (''HMOD'', KVS_CMD_HMOD), (''HEXIST'', KVS_CMD_HEXIST), (''SSET'', KVS_CMD_SSET),
     (''SGET'', KVS_CMD_SGET), (''SDEL'', KVS_CMD_SDEL), (''SMOD'', KVS_CMD_SMOD), (''SEXIST'', KVS_CMD_SEXIST),
     (''VSET'', KVS_CMD_VSET), (''VGET'', KVS_CMD_VGET), (''VSEARCH'', KVS_CMD_VSEARCH), (''VDEL'', KVS_CMD_VDEL),
     (''VCOUNT'', KVS_CMD_VCOUNT), (''POLICY'', KVS_CMD_POLICY), (''STATS'', KVS_CMD_STATS),
     (''RECOMMEND'', KVS_CMD_RECOMMEND), (''NAMESPACE'', KVS_CMD_NAMESPACE), (''NS'', KVS_CMD_NS),
     (''SAVE'', KVS_CMD_SAVE), (''BGSAVE'', KVS_CMD_BGSAVE), (''LASTSAVE'', KVS_CMD_LASTSAVE)]"

definition find_command :: "string \<Rightarrow> kvs_cmd" where
  "find_command t = (case find (\<lambda>(name, c). strcmp t name = 0) command of
     None \<Rightarrow> KVS_CMD_COUNT | Some (name, c) \<Rightarrow> c)"

section \<open>Tokens\<close>

text \<open>The loop of \<open>join_tokens\<close>; \<open>dst\<close> is the text written so far.\<close>

function join_loop :: "string list \<Rightarrow> nat \<Rightarrow> nat \<Rightarrow> nat \<Rightarrow> string \<Rightarrow> string" where
  "join_loop tokens i start dst_size dst =
     (if i < length tokens \<and> int (length dst) < int dst_size - 1 then
        let dst = (if i > start \<and> int (length dst) < int dst_size - 1 then dst @ '' '' else dst);
            t = tokens ! i;
            tlen = (if length dst + length t \<ge> dst_size then dst_size - length dst - 1 else length t) in
        join_loop tokens (Suc i) start dst_size (dst @ take tlen t)
      else dst)"
  by pat_completeness auto
termination
  by (relation "measure (\<lambda>(tokens, i, start, dst_size, dst). length tokens - i)") auto

declare join_loop.simps [simp del]

definition join_tokens :: "string list \<Rightarrow> nat \<Rightarrow> nat \<Rightarrow> string" where
  "join_tokens tokens start dst_size = join_loop tokens start start dst_size []"

text \<open>The loop of \<open>kvs_split_token\<close> on the rest \<open>p\<close> of the message, with \<open>n\<close> tokens found: a
  token is the text up to the byte that the code overwrites with NUL.\<close>

function split_from :: "nat \<Rightarrow> string \<Rightarrow> string list" where
  "split_from n p =
     (case dropWhile (\<lambda>c. c = CHR '' '') p of
        [] \<Rightarrow> []
      | c # q \<Rightarrow>
          let stop = (if c = CHR 0x22 then CHR 0x22 else CHR '' '');
              body = (if c = CHR 0x22 then q else c # q);
              t = takeWhile (\<lambda>c. c \<noteq> stop) body;
              rest = drop 1 (dropWhile (\<lambda>c. c \<noteq> stop) body) in
          t # (if n + 1 \<ge> KVS_MAX_TOKENS then [] else split_from (n + 1) rest))"
  by pat_completeness auto

termination
proof (relation "measure (\<lambda>(n, p). length p)", simp)
  fix n p c q stop body t rest
  assume a: "dropWhile (\<lambda>c. c = CHR '' '') p = c # q" "stop = (if c = CHR 0x22 then CHR 0x22 else CHR '' '')"
    "body = (if c = CHR 0x22 then q else c # q)" "rest = drop 1 (dropWhile (\<lambda>c. c \<noteq> stop) body)"
  have "length (c # q) \<le> length p" using a(1) length_dropWhile_le [of "\<lambda>c. c = CHR '' ''" p] by simp
  moreover have "c \<noteq> CHR '' ''" using a(1) by (auto simp: dropWhile_eq_Cons_conv)
  moreover have "length (dropWhile (\<lambda>c. c \<noteq> stop) q) \<le> length q" by (rule length_dropWhile_le)
  ultimately show "((n + 1, rest), n, p) \<in> measure (\<lambda>(n, p). length p)" using a by (auto split: if_splits)
qed

declare split_from.simps [simp del]

definition kvs_split_token :: "string \<Rightarrow> string list" where
  "kvs_split_token msg = split_from 0 msg"

text \<open>\<open>tokens[i]\<close>: the array of pointers starts as NULLs.\<close>

definition tok :: "string list \<Rightarrow> nat \<Rightarrow> cstr" where
  "tok tokens i = (if i < length tokens then Some (tokens ! i) else None)"

definition make_namespaced_key :: "cstr \<Rightarrow> cstr \<Rightarrow> cstr option" where
  "make_namespaced_key ns key =
     (case ns of None \<Rightarrow> Some key
      | Some n \<Rightarrow> if n = [] \<or> strcmp n ''default'' = 0 then Some key
          else do { k \<leftarrow> key; Some (Some (fst (snprintf 256 (n @ '':'' @ k)))) })"

section \<open>Replies\<close>

type_synonym reply = "int \<times> string"

text \<open>\<open>length = sprintf(response, ...)\<close> and \<open>length = snprintf(response, RESPONSE_MAX_LEN, ...)\<close>.\<close>

definition reply :: "string \<Rightarrow> reply option" where
  "reply s = (if length s < RESPONSE_MAX_LEN then Some (int (length s), s) else None)"

definition reply_n :: "string \<Rightarrow> reply" where
  "reply_n s = (case snprintf RESPONSE_MAX_LEN s of (t, n) \<Rightarrow> (n, t))"

definition say :: "string \<Rightarrow> reply" where
  "say s = (int (length (s @ crlf)), s @ crlf)"

definition set_reply :: "int \<Rightarrow> reply" where
  "set_reply ret = (if ret < 0 then say ''ERROR'' else if ret = 0 then say ''OK'' else say ''EXIST'')"

definition del_reply :: "int \<Rightarrow> reply" where
  "del_reply ret = (if ret < 0 then say ''ERROR'' else if ret = 0 then say ''OK'' else say ''NO EXIST'')"

definition exist_reply :: "int \<Rightarrow> reply" where
  "exist_reply ret = (if ret = 0 then say ''EXIST'' else say ''NO EXIST'')"

section \<open>The cache in front of the engines\<close>

text \<open>The body of a \<open>GET\<close>, given what the engine would answer.\<close>

definition cached_get :: "request \<Rightarrow> 'f server \<Rightarrow> cstr \<Rightarrow> cstr option \<Rightarrow> (reply \<times> 'f server) option" where
  "cached_get rq s actual_key engine_get = do {
     (cached, c) \<leftarrow> kvs_cache_get (rq_lookup rq) (base (cch s)) actual_key;
     let s = s\<lparr>cch := (cch s)\<lparr>base := c\<rparr>\<rparr>;
     case cached of Some v \<Rightarrow> Some (reply_n (v @ crlf), s)
     | None \<Rightarrow> do {
         result \<leftarrow> engine_get;
         case result of None \<Rightarrow> Some (say ''NO EXIST'', s)
         | Some v \<Rightarrow> do {
             k \<leftarrow> actual_key;
             c \<leftarrow> kvs_cache_lru_add (rq_fill rq) (base (cch s)) k v (int (length v) + 1);
             Some (reply_n (v @ crlf), s\<lparr>cch := (cch s)\<lparr>base := c\<rparr>\<rparr>) } } }"

text \<open>After a successful deletion or modification.\<close>

definition invalidate :: "'f server \<Rightarrow> cstr \<Rightarrow> int \<Rightarrow> 'f server option" where
  "invalidate s actual_key ret =
     (if ret = 0 then do {
        (r, c) \<leftarrow> kvs_cache_del (base (cch s)) actual_key;
        Some (s\<lparr>cch := (cch s)\<lparr>base := c\<rparr>\<rparr>) }
      else Some s)"

section \<open>Array commands\<close>

definition cmd_set :: "request \<Rightarrow> 'f server \<Rightarrow> cstr \<Rightarrow> cstr \<Rightarrow> (reply \<times> 'f server) option" where
  "cmd_set rq s key value = do {
     (ret, x) \<leftarrow> kvs_array_set (rq_engine rq) (global_array (engs s)) key value;
     Some (set_reply ret, s\<lparr>engs := (engs s)\<lparr>global_array := x\<rparr>\<rparr>) }"

definition cmd_get :: "request \<Rightarrow> 'f server \<Rightarrow> cstr \<Rightarrow> (reply \<times> 'f server) option" where
  "cmd_get rq s key = cached_get rq s key (kvs_array_get (global_array (engs s)) key)"

definition cmd_del :: "request \<Rightarrow> 'f server \<Rightarrow> cstr \<Rightarrow> (reply \<times> 'f server) option" where
  "cmd_del rq s key = do {
     (ret, x) \<leftarrow> kvs_array_del (global_array (engs s)) key;
     s \<leftarrow> invalidate (s\<lparr>engs := (engs s)\<lparr>global_array := x\<rparr>\<rparr>) key ret;
     Some (del_reply ret, s) }"

definition cmd_mod :: "request \<Rightarrow> 'f server \<Rightarrow> cstr \<Rightarrow> cstr \<Rightarrow> (reply \<times> 'f server) option" where
  "cmd_mod rq s key value = do {
     (ret, x) \<leftarrow> kvs_array_mod (rq_engine rq) (global_array (engs s)) key value;
     s \<leftarrow> invalidate (s\<lparr>engs := (engs s)\<lparr>global_array := x\<rparr>\<rparr>) key ret;
     Some (del_reply ret, s) }"

definition cmd_exist :: "request \<Rightarrow> 'f server \<Rightarrow> cstr \<Rightarrow> (reply \<times> 'f server) option" where
  "cmd_exist rq s key = do {
     ret \<leftarrow> kvs_array_exist (global_array (engs s)) key;
     Some (exist_reply ret, s) }"

section \<open>Red-black tree commands\<close>

definition cmd_rset :: "request \<Rightarrow> 'f server \<Rightarrow> cstr \<Rightarrow> cstr \<Rightarrow> (reply \<times> 'f server) option" where
  "cmd_rset rq s key value = do {
     (ret, x) \<leftarrow> kvs_rbtree_set (rq_engine rq) (global_rbtree (engs s)) key value;
     Some (set_reply ret, s\<lparr>engs := (engs s)\<lparr>global_rbtree := x\<rparr>\<rparr>) }"

definition cmd_rget :: "request \<Rightarrow> 'f server \<Rightarrow> cstr \<Rightarrow> (reply \<times> 'f server) option" where
  "cmd_rget rq s key = cached_get rq s key (kvs_rbtree_get (global_rbtree (engs s)) key)"

definition cmd_rdel :: "request \<Rightarrow> 'f server \<Rightarrow> cstr \<Rightarrow> (reply \<times> 'f server) option" where
  "cmd_rdel rq s key = do {
     (ret, x) \<leftarrow> kvs_rbtree_del (global_rbtree (engs s)) key;
     s \<leftarrow> invalidate (s\<lparr>engs := (engs s)\<lparr>global_rbtree := x\<rparr>\<rparr>) key ret;
     Some (del_reply ret, s) }"

definition cmd_rmod :: "request \<Rightarrow> 'f server \<Rightarrow> cstr \<Rightarrow> cstr \<Rightarrow> (reply \<times> 'f server) option" where
  "cmd_rmod rq s key value = do {
     (ret, x) \<leftarrow> kvs_rbtree_mod (rq_engine rq) (global_rbtree (engs s)) key value;
     s \<leftarrow> invalidate (s\<lparr>engs := (engs s)\<lparr>global_rbtree := x\<rparr>\<rparr>) key ret;
     Some (del_reply ret, s) }"

definition cmd_rexist :: "request \<Rightarrow> 'f server \<Rightarrow> cstr \<Rightarrow> (reply \<times> 'f server) option" where
  "cmd_rexist rq s key = do {
     ret \<leftarrow> kvs_rbtree_exist (global_rbtree (engs s)) key;
     Some (exist_reply ret, s) }"

section \<open>Hash commands\<close>

definition cmd_hset :: "request \<Rightarrow> 'f server \<Rightarrow> cstr \<Rightarrow> cstr \<Rightarrow> (reply \<times> 'f server) option" where
  "cmd_hset rq s key value = do {
     (ret, x) \<leftarrow> kvs_hash_set (rq_engine rq) (global_hash (engs s)) key value;
     Some (set_reply ret, s\<lparr>engs := (engs s)\<lparr>global_hash := x\<rparr>\<rparr>) }"

definition cmd_hget :: "request \<Rightarrow> 'f server \<Rightarrow> cstr \<Rightarrow> (reply \<times> 'f server) option" where
  "cmd_hget rq s key = cached_get rq s key (kvs_hash_get (global_hash (engs s)) key)"

definition cmd_hdel :: "request \<Rightarrow> 'f server \<Rightarrow> cstr \<Rightarrow> (reply \<times> 'f server) option" where
  "cmd_hdel rq s key = do {
     (ret, x) \<leftarrow> kvs_hash_del (global_hash (engs s)) key;
     s \<leftarrow> invalidate (s\<lparr>engs := (engs s)\<lparr>global_hash := x\<rparr>\<rparr>) key ret;
     Some (del_reply ret, s) }"

definition cmd_hmod :: "request \<Rightarrow> 'f server \<Rightarrow> cstr \<Rightarrow> cstr \<Rightarrow> (reply \<times> 'f server) option" where
  "cmd_hmod rq s key value = do {
     (ret, x) \<leftarrow> kvs_hash_mod (rq_engine rq) (global_hash (engs s)) key value;
     s \<leftarrow> invalidate (s\<lparr>engs := (engs s)\<lparr>global_hash := x\<rparr>\<rparr>) key ret;
     Some (del_reply ret, s) }"

definition cmd_hexist :: "request \<Rightarrow> 'f server \<Rightarrow> cstr \<Rightarrow> (reply \<times> 'f server) option" where
  "cmd_hexist rq s key = do {
     ret \<leftarrow> kvs_hash_exist (global_hash (engs s)) key;
     Some (exist_reply ret, s) }"

section \<open>Skip-list commands\<close>

definition cmd_sset :: "request \<Rightarrow> 'f server \<Rightarrow> cstr \<Rightarrow> cstr \<Rightarrow> (reply \<times> 'f server) option" where
  "cmd_sset rq s key value = do {
     (ret, x) \<leftarrow> kvs_skip_set (rq_engine rq) (global_skip (engs s)) key value;
     Some (set_reply ret, s\<lparr>engs := (engs s)\<lparr>global_skip := x\<rparr>\<rparr>) }"

definition cmd_sget :: "request \<Rightarrow> 'f server \<Rightarrow> cstr \<Rightarrow> (reply \<times> 'f server) option" where
  "cmd_sget rq s key = cached_get rq s key (kvs_skip_get (global_skip (engs s)) key)"

definition cmd_sdel :: "request \<Rightarrow> 'f server \<Rightarrow> cstr \<Rightarrow> (reply \<times> 'f server) option" where
  "cmd_sdel rq s key = do {
     (ret, x) \<leftarrow> kvs_skip_del (global_skip (engs s)) key;
     s \<leftarrow> invalidate (s\<lparr>engs := (engs s)\<lparr>global_skip := x\<rparr>\<rparr>) key ret;
     Some (del_reply ret, s) }"

definition cmd_smod :: "request \<Rightarrow> 'f server \<Rightarrow> cstr \<Rightarrow> cstr \<Rightarrow> (reply \<times> 'f server) option" where
  "cmd_smod rq s key value = do {
     (ret, x) \<leftarrow> kvs_skip_mod (rq_engine rq) (global_skip (engs s)) key value;
     s \<leftarrow> invalidate (s\<lparr>engs := (engs s)\<lparr>global_skip := x\<rparr>\<rparr>) key ret;
     Some (del_reply ret, s) }"

definition cmd_sexist :: "request \<Rightarrow> 'f server \<Rightarrow> cstr \<Rightarrow> (reply \<times> 'f server) option" where
  "cmd_sexist rq s key = do {
     ret \<leftarrow> kvs_skip_exist (global_skip (engs s)) key;
     Some (exist_reply ret, s) }"

section \<open>Vector commands\<close>

text \<open>The loop of \<open>strcat\<close> calls into a buffer of 8192 bytes, from token \<open>start\<close> on.\<close>

definition strcat_tokens :: "string list \<Rightarrow> nat \<Rightarrow> string option" where
  "strcat_tokens tokens start =
     (let s = concat (map (\<lambda>i. (if i > start then '' '' else []) @ tokens ! i) [start..<length tokens]) in
      if length s < 8192 then Some s else None)"

definition cmd_vset :: "'f float_ops \<Rightarrow> request \<Rightarrow> 'f server \<Rightarrow> cstr \<Rightarrow> string list \<Rightarrow> (reply \<times> 'f server) option" where
  "cmd_vset F rq s key tokens = do {
     (ret, v) \<leftarrow> (if length tokens \<ge> 4 then do {
          value \<leftarrow> strcat_tokens tokens 2;
          kvs_vector_set F (rq_engine rq) (vecs s) key (Some value) }
        else Some (-1, vecs s));
     Some (if ret < 0 then say ''ERROR'' else say ''OK'', s\<lparr>vecs := v\<rparr>) }"

definition cmd_vget :: "'f float_ops \<Rightarrow> 'f server \<Rightarrow> cstr \<Rightarrow> (reply \<times> 'f server) option" where
  "cmd_vget F s key = do {
     result \<leftarrow> kvs_vector_get F (vecs s) key;
     Some (case result of None \<Rightarrow> say ''NO EXIST'' | Some t \<Rightarrow> reply_n (t @ crlf), s) }"

text \<open>The reply of a search: \<open>len\<close> is the C variable \<open>length\<close>; once it exceeds the buffer, the
  size passed to \<open>snprintf\<close> wraps around and the write is out of bounds.\<close>

fun vsearch_text :: "'f float_ops \<Rightarrow> 'f kvs_vector_t \<Rightarrow> (nat \<times> 'f) list \<Rightarrow> nat \<Rightarrow> string \<Rightarrow> reply option" where
  "vsearch_text F vec [] len text = Some (int len, text)"
| "vsearch_text F vec ((i, d) # rs) len text = do {
     rkey \<leftarrow> kvs_vector_get_key_by_id vec (int i);
     let piece = (case rkey of Some t \<Rightarrow> t | None \<Rightarrow> ''(unknown)'') @ '' '' @ f_show F 4 d @ crlf;
     if len > RESPONSE_MAX_LEN then None
     else vsearch_text F vec rs (len + length piece) (text @ fst (snprintf (RESPONSE_MAX_LEN - len) piece)) }"

definition cmd_vsearch :: "'f float_ops \<Rightarrow> request \<Rightarrow> 'f server \<Rightarrow> cstr \<Rightarrow> string list \<Rightarrow> (reply \<times> 'f server) option" where
  "cmd_vsearch F rq s key tokens =
     (if length tokens \<ge> 5 then do {
        let k = atoi (tokens ! 2);
        let k = (if k \<le> 0 \<or> k > 100 then 10 else k);
        query_str \<leftarrow> strcat_tokens tokens 4;
        (n, rs) \<leftarrow> kvs_vector_search F (rq_engine rq) (vecs s) key k (Some query_str);
        if n \<le> 0 then Some (say ''EMPTY'', s)
        else do {
          r \<leftarrow> vsearch_text F (vecs s) (take (nat n) rs) 8 (''RESULT'' @ crlf);
          Some (r, s) } }
      else Some (say ''ERROR'', s))"

definition cmd_vdel :: "request \<Rightarrow> 'f server \<Rightarrow> cstr \<Rightarrow> (reply \<times> 'f server) option" where
  "cmd_vdel rq s key = do {
     (ret, v) \<leftarrow> kvs_vector_del (rq_engine rq) (vecs s) key;
     Some (if ret = 0 then say ''OK'' else say ''NO EXIST'', s\<lparr>vecs := v\<rparr>) }"

definition cmd_vcount :: "'f server \<Rightarrow> (reply \<times> 'f server) option" where
  "cmd_vcount s = do {
     vcount \<leftarrow> kvs_vector_count (vecs s);
     Some (say (show_int vcount), s) }"

section \<open>Cache commands\<close>

definition set_policy :: "'f server \<Rightarrow> int \<Rightarrow> 'f server" where
  "set_policy s p = s\<lparr>cch := (cch s)\<lparr>base := kvs_cache_set_policy (base (cch s)) p\<rparr>\<rparr>"

definition cmd_policy :: "'f server \<Rightarrow> string list \<Rightarrow> (reply \<times> 'f server) option" where
  "cmd_policy s tokens =
     (if length tokens \<ge> 3 \<and> strcmp (tokens ! 1) ''SET'' = 0 then
        if strcmp (tokens ! 2) ''lru'' = 0 then Some (say ''Policy set to LRU'', set_policy s EVICT_LRU)
        else if strcmp (tokens ! 2) ''lfu'' = 0 then Some (say ''Policy set to LFU'', set_policy s EVICT_LFU)
        else if strcmp (tokens ! 2) ''arc'' = 0 then Some (say ''Policy set to ARC'', set_policy s EVICT_ARC)
        else do {
          r \<leftarrow> reply (''Unknown policy: '' @ tokens ! 2 @ '' (use lru|lfu|arc)'' @ crlf);
          Some (r, s) }
      else Some (say (''Current policy: '' @ kvs_cache_policy_name (kvs_cache_get_policy (base (cch s)))), s))"

definition cmd_stats :: "'f float_ops \<Rightarrow> 'f server \<Rightarrow> (reply \<times> 'f server) option" where
  "cmd_stats F s = do { r \<leftarrow> reply (kvs_cache_get_stats F (cch s) 1024); Some (r, s) }"

definition cmd_recommend :: "'f float_ops \<Rightarrow> 'f server \<Rightarrow> (reply \<times> 'f server) option" where
  "cmd_recommend F s = do {
     (text, c) \<leftarrow> kvs_cache_ai_recommend F (cch s) 1024;
     r \<leftarrow> reply text;
     Some (r, s\<lparr>cch := c\<rparr>) }"

section \<open>Namespace and persistence commands\<close>

text \<open>The namespace buffer of 64 bytes is the caller's; writing through NULL is a fault.\<close>

definition set_namespace :: "cstr \<Rightarrow> string \<Rightarrow> (reply \<times> cstr) option" where
  "set_namespace ns t = do {
     _ \<leftarrow> ns;
     Some (say (''Namespace set to: '' @ take 63 t), Some (take 63 t)) }"

definition cmd_namespace :: "string list \<Rightarrow> cstr \<Rightarrow> (reply \<times> cstr) option" where
  "cmd_namespace tokens ns =
     (if length tokens \<ge> 2 \<and> strcmp (tokens ! 1) ''SET'' = 0 \<and> length tokens \<ge> 3 then set_namespace ns (tokens ! 2)
      else if length tokens \<ge> 2 \<and> strcmp (tokens ! 1) ''RESET'' = 0 then do {
        _ \<leftarrow> ns;
        Some (say ''Namespace reset to: default'', Some ''default'') }
      else if length tokens = 2 then set_namespace ns (tokens ! 1)
      else Some (say (''Current namespace: '' @ (case ns of Some n \<Rightarrow> n | None \<Rightarrow> ''default'')), ns))"

definition cmd_save :: "request \<Rightarrow> 'f server \<Rightarrow> (reply \<times> 'f server) option" where
  "cmd_save rq s = do {
     (ret, d) \<leftarrow> rdb_save_default (rq_os rq) (dsk s) (engs s);
     Some (if ret \<ge> 0 then say (''OK: Saved '' @ show_int ret @ '' keys to dump.rdb'')
           else say ''ERROR: Failed to save'', s\<lparr>dsk := d\<rparr>) }"

text \<open>\<open>fork\<close> gives the child a copy of the engines; \<open>child_save\<close> is what it does with it, at some later time
  and on the same disk, as one step at the time of its \<open>rename\<close>. That is what happens when nobody else
  writes the dump and its temporary file in the meantime: the requests of the parent do not, except
  for \<open>SAVE\<close>, and other children do. The code does not keep two saves apart, which write the same
  temporary file; runs in which they overlap are outside this definition.\<close>

definition cmd_bgsave :: "request \<Rightarrow> 'f server \<Rightarrow> (reply \<times> 'f server) option" where
  "cmd_bgsave rq s =
     (if rq_fork rq > 0
      then Some (say (''Background saving started (pid: '' @ show_int (rq_fork rq) @ '')''), s\<lparr>saving := engs s # saving s\<rparr>)
      else Some (say ''ERROR: Fork failed'', s))"

definition child_save :: "os \<Rightarrow> 'f server \<Rightarrow> nat \<Rightarrow> 'f server option" where
  "child_save os s i =
     (if i < length (saving s) then do {
        (ret, d) \<leftarrow> rdb_save_default os (dsk s) (saving s ! i);
        Some (s\<lparr>dsk := d, saving := take i (saving s) @ drop (Suc i) (saving s)\<rparr>) }
      else Some s)"

definition cmd_lastsave :: "request \<Rightarrow> 'f server \<Rightarrow> (reply \<times> 'f server) option" where
  "cmd_lastsave rq s =
     Some (case dsk s ''dump.rdb'' of
         Some _ \<Rightarrow> say (''Last save: '' @ show_int (rq_mtime rq) @ '' (timestamp)'')
       | None \<Rightarrow> say ''No dump file found'', s)"

section \<open>Dispatch\<close>

definition takes_value :: "kvs_cmd \<Rightarrow> bool" where
  "takes_value cmd \<longleftrightarrow> cmd \<in> {KVS_CMD_SET, KVS_CMD_MOD, KVS_CMD_HSET, KVS_CMD_HMOD,
     KVS_CMD_RSET, KVS_CMD_RMOD, KVS_CMD_SSET, KVS_CMD_SMOD}"

definition value_of :: "kvs_cmd \<Rightarrow> string list \<Rightarrow> cstr" where
  "value_of cmd tokens =
     (if length tokens > 3 \<and> takes_value cmd then Some (join_tokens tokens 2 8192) else tok tokens 2)"

text \<open>The commands that start with \<open>make_namespaced_key\<close>.\<close>

definition with_key :: "cstr \<Rightarrow> string list \<Rightarrow> (cstr \<Rightarrow> (reply \<times> 'f server) option) \<Rightarrow> (reply \<times> cstr \<times> 'f server) option" where
  "with_key ns tokens f = do {
     actual_key \<leftarrow> make_namespaced_key ns (tok tokens 1);
     (r, s) \<leftarrow> f actual_key;
     Some (r, ns, s) }"

definition keep_ns :: "cstr \<Rightarrow> (reply \<times> 'f server) option \<Rightarrow> (reply \<times> cstr \<times> 'f server) option" where
  "keep_ns ns x = do { (r, s) \<leftarrow> x; Some (r, ns, s) }"

definition kvs_filter_protocol :: "'f float_ops \<Rightarrow> request \<Rightarrow> string list \<Rightarrow> cstr \<Rightarrow> 'f server \<Rightarrow>
    (reply \<times> cstr \<times> 'f server) option" where
  "kvs_filter_protocol F rq tokens ns s =
     (if tokens = [] then Some ((-1, []), ns, s)
      else let cmd = find_command (tokens ! 0); value = value_of cmd tokens in
      if takes_value cmd \<and> (length tokens < 3 \<or> value = None)
      then Some (say ''ERROR: command requires key and value'', ns, s)
      else case cmd of
        KVS_CMD_SET \<Rightarrow> with_key ns tokens (\<lambda>key. cmd_set rq s key value)
      | KVS_CMD_GET \<Rightarrow> with_key ns tokens (cmd_get rq s)
      | KVS_CMD_DEL \<Rightarrow> with_key ns tokens (cmd_del rq s)
      | KVS_CMD_MOD \<Rightarrow> with_key ns tokens (\<lambda>key. cmd_mod rq s key value)
      | KVS_CMD_EXIST \<Rightarrow> with_key ns tokens (cmd_exist rq s)
      | KVS_CMD_RSET \<Rightarrow> with_key ns tokens (\<lambda>key. cmd_rset rq s key value)
      | KVS_CMD_RGET \<Rightarrow> with_key ns tokens (cmd_rget rq s)
      | KVS_CMD_RDEL \<Rightarrow> with_key ns tokens (cmd_rdel rq s)
      | KVS_CMD_RMOD \<Rightarrow> with_key ns tokens (\<lambda>key. cmd_rmod rq s key value)
      | KVS_CMD_REXIST \<Rightarrow> with_key ns tokens (cmd_rexist rq s)
      | KVS_CMD_HSET \<Rightarrow> with_key ns tokens (\<lambda>key. cmd_hset rq s key value)
      | KVS_CMD_HGET \<Rightarrow> with_key ns tokens (cmd_hget rq s)
      | KVS_CMD_HDEL \<Rightarrow> with_key ns tokens (cmd_hdel rq s)
      | KVS_CMD_HMOD \<Rightarrow> with_key ns tokens (\<lambda>key. cmd_hmod rq s key value)
      | KVS_CMD_HEXIST \<Rightarrow> with_key ns tokens (cmd_hexist rq s)
      | KVS_CMD_SSET \<Rightarrow> with_key ns tokens (\<lambda>key. cmd_sset rq s key value)
      | KVS_CMD_SGET \<Rightarrow> with_key ns tokens (cmd_sget rq s)
      | KVS_CMD_SDEL \<Rightarrow> with_key ns tokens (cmd_sdel rq s)
      | KVS_CMD_SMOD \<Rightarrow> with_key ns tokens (\<lambda>key. cmd_smod rq s key value)
      | KVS_CMD_SEXIST \<Rightarrow> with_key ns tokens (cmd_sexist rq s)
      | KVS_CMD_VSET \<Rightarrow> with_key ns tokens (\<lambda>key. cmd_vset F rq s key tokens)
      | KVS_CMD_VGET \<Rightarrow> with_key ns tokens (cmd_vget F s)
      | KVS_CMD_VSEARCH \<Rightarrow> with_key ns tokens (\<lambda>key. cmd_vsearch F rq s key tokens)
      | KVS_CMD_VDEL \<Rightarrow> with_key ns tokens (cmd_vdel rq s)
      | KVS_CMD_VCOUNT \<Rightarrow> keep_ns ns (cmd_vcount s)
      | KVS_CMD_POLICY \<Rightarrow> keep_ns ns (cmd_policy s tokens)
      | KVS_CMD_STATS \<Rightarrow> keep_ns ns (cmd_stats F s)
      | KVS_CMD_RECOMMEND \<Rightarrow> keep_ns ns (cmd_recommend F s)
      | KVS_CMD_NAMESPACE \<Rightarrow> do { (r, ns) \<leftarrow> cmd_namespace tokens ns; Some (r, ns, s) }
      | KVS_CMD_NS \<Rightarrow> do { (r, ns) \<leftarrow> cmd_namespace tokens ns; Some (r, ns, s) }
      | KVS_CMD_SAVE \<Rightarrow> keep_ns ns (cmd_save rq s)
      | KVS_CMD_BGSAVE \<Rightarrow> keep_ns ns (cmd_bgsave rq s)
      | KVS_CMD_LASTSAVE \<Rightarrow> keep_ns ns (cmd_lastsave rq s)
      | KVS_CMD_COUNT \<Rightarrow> Some (say ''Unknown command'', ns, s))"

text \<open>\<open>kvs_protocol\<close> on the caller's buffer of bytes, of which \<open>len\<close> were received: line ends
  become spaces, and the text up to the first NUL is split; a buffer without a NUL is read past
  its end.\<close>

definition blank_line_ends :: "nat \<Rightarrow> string \<Rightarrow> string" where
  "blank_line_ends len buf =
     map (\<lambda>c. if c = CHR 0x0D \<or> c = CHR 0x0A then CHR '' '' else c) (take len buf) @ drop len buf"

definition c_string :: "string \<Rightarrow> string option" where
  "c_string buf = (if CHR 0x00 \<in> set buf then Some (takeWhile (\<lambda>c. c \<noteq> CHR 0x00) buf) else None)"

definition kvs_protocol :: "'f float_ops \<Rightarrow> request \<Rightarrow> string \<Rightarrow> int \<Rightarrow> cstr \<Rightarrow> 'f server \<Rightarrow>
    (reply \<times> cstr \<times> 'f server) option" where
  "kvs_protocol F rq buf len ns s =
     (if len \<le> 0 then Some ((-1, []), ns, s)
      else if len > int (length buf) then None
      else do {
        msg \<leftarrow> c_string (blank_line_ends (nat len) buf);
        let tokens = kvs_split_token msg;
        if tokens = [] then Some (say ''Unknown command'', ns, s)
        else do {
          ((result, text), ns, s) \<leftarrow> kvs_filter_protocol F rq tokens ns s;
          if result < 0 then Some (say ''ERROR'', ns, s)
          else Some ((result, text), ns, s) } })"

section \<open>Start and stop\<close>

text \<open>\<open>init_kvengine\<close>, with an environment per call, and \<open>dest_kvengine\<close>.\<close>

definition init_kvengine :: "'f float_ops \<Rightarrow> (nat \<Rightarrow> env) \<Rightarrow> (nat \<Rightarrow> env) \<Rightarrow> disk \<Rightarrow> (int \<times> 'f server) option" where
  "init_kvengine F es load_es d = do {
     let (_, a) = kvs_array_create (es 0) array_zero;
     (_, r) \<leftarrow> kvs_rbtree_create (es 1) rbtree_zero;
     let (_, h) = kvs_hash_create (es 2) hash_zero;
     let (_, k) = kvs_skip_create (es 3) skip_zero;
     let (_, v) = kvs_vector_create F (es 4);
     c \<leftarrow> kvs_cache_init (es 5) 1000;
     (_, E) \<leftarrow> rdb_load_default load_es d \<lparr>global_array = a, global_rbtree = r, global_hash = h, global_skip = k\<rparr>;
     Some (0, \<lparr>engs = E, vecs = v, cch = stats_init F c, dsk = d, saving = []\<rparr>) }"

definition dest_kvengine :: "'f server \<Rightarrow> 'f server option" where
  "dest_kvengine s = do {
     let E = engs s;
     let E = E\<lparr>global_array := kvs_array_destroy (global_array E)\<rparr>;
     r \<leftarrow> kvs_rbtree_destroy (global_rbtree E);
     let E = E\<lparr>global_rbtree := r, global_hash := kvs_hash_destroy (global_hash E)\<rparr>;
     k \<leftarrow> kvs_skip_destroy (global_skip E);
     let E = E\<lparr>global_skip := k\<rparr>;
     c \<leftarrow> kvs_cache_destroy (base (cch s));
     v \<leftarrow> kvs_vector_destroy (vecs s);
     Some (s\<lparr>engs := E, vecs := v, cch := (cch s)\<lparr>base := c\<rparr>\<rparr>) }"

end
