(* ===== verification/Kvs_Reactor.thy ===== *)
theory Kvs_Reactor
  imports Kvs_Protocol
begin

text \<open>
  The event loop (\<open>src/network/reactor.c\<close>, \<open>struct conn\<close> of \<open>include/server.h\<close>), the
  default network layer of the server.

  The state holds the connection table, the interest set of the epoll instance and the state
  \<open>'s\<close> of the application behind the message handler; \<open>sent\<close> is the kernel's side of each
  connection, the bytes accepted for sending since it was opened. What the kernel answers to
  \<open>accept\<close>, \<open>recv\<close>, \<open>send\<close> and \<open>gettimeofday\<close> comes with the event. The table is indexed by
  file descriptors without a check: an index outside it is a fault (\<^const>\<open>None\<close>), and so is
  sending more bytes than the write buffer has. The fields \<open>status\<close>, \<open>payload\<close> and \<open>mask\<close>
  of a connection are never used.
\<close>

section \<open>Message handlers\<close>

text \<open>\<open>msg_handler\<close>: besides its result the handler leaves a text in the response, and changes
  the namespace and the message in place.\<close>

type_synonym 's msg_handler = "request \<Rightarrow> string \<Rightarrow> int \<Rightarrow> cstr \<Rightarrow> 's \<Rightarrow> (reply \<times> cstr \<times> string \<times> 's) option"

text \<open>The message after \<open>kvs_split_token\<close>: a NUL behind every token.\<close>

function mark_from :: "nat \<Rightarrow> string \<Rightarrow> string" where
  "mark_from n p =
     (let gap = takeWhile (\<lambda>c. c = CHR '' '') p in
      case dropWhile (\<lambda>c. c = CHR '' '') p of
        [] \<Rightarrow> gap
      | c # q \<Rightarrow>
          let stop = (if c = CHR 0x22 then CHR 0x22 else CHR '' '');
              body = (if c = CHR 0x22 then q else c # q);
              t = takeWhile (\<lambda>c. c \<noteq> stop) body in
          gap @ (if c = CHR 0x22 then [c] else []) @ t @
          (case dropWhile (\<lambda>c. c \<noteq> stop) body of
             [] \<Rightarrow> []
           | d # rest \<Rightarrow> CHR 0x00 # (if n + 1 \<ge> KVS_MAX_TOKENS then rest else mark_from (n + 1) rest)))"
  by pat_completeness auto

termination
proof (relation "measure (\<lambda>(n, p). length p)", simp)
  fix n p gap c q stop body t d rest
  assume a: "dropWhile (\<lambda>c. c = CHR '' '') p = c # q"
    "body = (if c = CHR 0x22 then q else c # q)" "dropWhile (\<lambda>c. c \<noteq> stop) body = d # rest"
  have "length (c # q) \<le> length p" using a(1) length_dropWhile_le [of "\<lambda>c. c = CHR '' ''" p] by simp
  moreover have "length (d # rest) \<le> length body" using a(3) length_dropWhile_le [of "\<lambda>c. c \<noteq> stop" body] by simp
  ultimately show "((n + 1, rest), n, p) \<in> measure (\<lambda>(n, p). length p)" using a(2) by (auto split: if_splits)
qed

declare mark_from.simps [simp del]

definition mark_tokens :: "string \<Rightarrow> string" where
  "mark_tokens buf = mark_from 0 (takeWhile (\<lambda>c. c \<noteq> CHR 0x00) buf) @ dropWhile (\<lambda>c. c \<noteq> CHR 0x00) buf"

text \<open>\<open>kvs_protocol\<close> as a handler.\<close>

definition kvs_handler :: "'f float_ops \<Rightarrow> 'f server msg_handler" where
  "kvs_handler F rq msg len ns s = do {
     (r, ns, s) \<leftarrow> kvs_protocol F rq msg len ns s;
     Some (r, ns, if len \<le> 0 then msg else mark_tokens (blank_line_ends (nat len) msg), s) }"

section \<open>State\<close>

definition BUFFER_LENGTH :: nat where "BUFFER_LENGTH = 1024"
definition CONNECTION_SIZE :: nat where "CONNECTION_SIZE = 1024"
definition MAX_PORTS :: nat where "MAX_PORTS = 20"
definition EPOLLIN :: int where "EPOLLIN = 1"
definition EPOLLOUT :: int where "EPOLLOUT = 4"

datatype callback = Accept_cb | Recv_cb | Send_cb

record conn =
  conn_fd :: int
  rbuffer :: string
  rlength :: int
  wbuffer :: string
  wlength :: int
  send_callback :: "callback option"
  recv_callback :: "callback option"
  namespace :: string

record 's reactor =
  conn_list :: "conn list"
  epoll :: "int \<rightharpoonup> int"
  begin_tv :: "int \<times> int"
  listening :: "(int \<times> int option) list"
  app :: 's
  sent :: "int \<Rightarrow> string"

definition zeros :: "nat \<Rightarrow> string" where
  "zeros n = replicate n (CHR 0x00)"

definition conn_zero :: conn where
  "conn_zero = \<lparr>conn_fd = 0, rbuffer = zeros BUFFER_LENGTH, rlength = 0, wbuffer = zeros BUFFER_LENGTH, wlength = 0,
     send_callback = None, recv_callback = None, namespace = []\<rparr>"

definition reactor_zero :: "'s \<Rightarrow> 's reactor" where
  "reactor_zero a = \<lparr>conn_list = replicate CONNECTION_SIZE conn_zero, epoll = Map.empty, begin_tv = (0, 0),
     listening = [], app = a, sent = (\<lambda>_. [])\<rparr>"

definition conn_at :: "'s reactor \<Rightarrow> int \<Rightarrow> conn option" where
  "conn_at r fd = arr_get (conn_list r) fd"

definition put_conn :: "'s reactor \<Rightarrow> int \<Rightarrow> conn \<Rightarrow> 's reactor option" where
  "put_conn r fd c = do { cs \<leftarrow> arr_put (conn_list r) fd c; Some (r\<lparr>conn_list := cs\<rparr>) }"

text \<open>One element of the array of ready events: the bits of \<open>events\<close> that the loop tests, and
  the answers of the kernel to the calls of the callbacks. \<open>recv\<close> gives the bytes, none of them
  at the end of the stream, or an error.\<close>

record net_event =
  ev_fd :: int
  ev_in :: bool
  ev_out :: bool
  ans_accept :: int
  ans_recv :: "string option"
  ans_send :: int
  ans_now :: "int \<times> int"
  ans_rq :: request

section \<open>Registration\<close>

text \<open>\<open>epoll_ctl\<close> fails when a descriptor is added twice or is not there to be modified; the
  result is not looked at.\<close>

definition set_event :: "'s reactor \<Rightarrow> int \<Rightarrow> int \<Rightarrow> bool \<Rightarrow> 's reactor" where
  "set_event r fd event flag =
     (if flag then (if epoll r fd = None then r\<lparr>epoll := (epoll r)(fd \<mapsto> event)\<rparr> else r)
      else (if epoll r fd \<noteq> None then r\<lparr>epoll := (epoll r)(fd \<mapsto> event)\<rparr> else r))"

definition event_register :: "'s reactor \<Rightarrow> int \<Rightarrow> int \<Rightarrow> (int \<times> 's reactor) option" where
  "event_register r fd event =
     (if fd < 0 then Some (-1, r)
      else do {
        c \<leftarrow> conn_at r fd;
        r \<leftarrow> put_conn r fd (c\<lparr>conn_fd := fd, recv_callback := Some Recv_cb, send_callback := Some Send_cb,
          rbuffer := zeros BUFFER_LENGTH, rlength := 0, wbuffer := zeros BUFFER_LENGTH, wlength := 0,
          namespace := ''default''\<rparr>);
        Some (0, set_event r fd event True) })"

section \<open>Callbacks\<close>

definition accept_cb :: "net_event \<Rightarrow> 's reactor \<Rightarrow> (int \<times> 's reactor) option" where
  "accept_cb ev r =
     (let clientfd = ans_accept ev in
      if clientfd < 0 then Some (-1, r)
      else do {
        (_, r) \<leftarrow> event_register (r\<lparr>sent := (sent r)(clientfd := [])\<rparr>) clientfd EPOLLIN;
        Some (0, if clientfd mod 1000 = 0 then r\<lparr>begin_tv := ans_now ev\<rparr> else r) })"

text \<open>What the handler wrote into the write buffer: nothing when it refuses the message.\<close>

definition put_reply :: "string \<Rightarrow> reply \<Rightarrow> string option" where
  "put_reply buf rep = (case rep of (n, text) \<Rightarrow>
     if n < 0 then Some buf
     else if length text < length buf then Some (text @ CHR 0x00 # drop (Suc (length text)) buf)
     else None)"

definition kvs_request :: "'s msg_handler \<Rightarrow> request \<Rightarrow> 's \<Rightarrow> conn \<Rightarrow> (conn \<times> 's) option" where
  "kvs_request h rq s c = do {
     (rep, ns, msg, s) \<leftarrow> h rq (rbuffer c) (rlength c) (Some (namespace c)) s;
     ns \<leftarrow> ns;
     w \<leftarrow> put_reply (wbuffer c) rep;
     Some (c\<lparr>wlength := fst rep, wbuffer := w, rbuffer := msg, namespace := ns\<rparr>, s) }"

definition kvs_response :: "conn \<Rightarrow> int \<times> conn" where
  "kvs_response c = (0, c)"

definition recv_cb :: "'s msg_handler \<Rightarrow> net_event \<Rightarrow> 's reactor \<Rightarrow> (int \<times> 's reactor) option" where
  "recv_cb h ev r = do {
     let fd = ev_fd ev;
     c \<leftarrow> conn_at r fd;
     let c = c\<lparr>rbuffer := zeros BUFFER_LENGTH\<rparr>;
     case ans_recv ev of
       None \<Rightarrow> do { r \<leftarrow> put_conn r fd c; Some (0, r\<lparr>epoll := (epoll r)(fd := None)\<rparr>) }
     | Some bs \<Rightarrow>
         if bs = [] then do { r \<leftarrow> put_conn r fd c; Some (0, r\<lparr>epoll := (epoll r)(fd := None)\<rparr>) }
         else do {
           let got = take BUFFER_LENGTH bs;
           let c = c\<lparr>rbuffer := got @ zeros (BUFFER_LENGTH - length got), rlength := int (length got)\<rparr>;
           (c, s) \<leftarrow> kvs_request h (ans_rq ev) (app r) c;
           r \<leftarrow> put_conn (r\<lparr>app := s\<rparr>) fd c;
           Some (int (length got), set_event r fd EPOLLOUT False) } }"

definition send_cb :: "net_event \<Rightarrow> 's reactor \<Rightarrow> (int \<times> 's reactor) option" where
  "send_cb ev r = do {
     let fd = ev_fd ev;
     c \<leftarrow> conn_at r fd;
     let (_, c) = kvs_response c;
     (count, r) \<leftarrow> (if wlength c \<noteq> 0 then
          if wlength c < 0 \<or> wlength c > int (length (wbuffer c)) then None
          else let n = min (ans_send ev) (wlength c) in
            Some (n, r\<lparr>sent := (sent r)(fd := sent r fd @ take (nat n) (wbuffer c))\<rparr>)
        else Some (0, r));
     Some (count, set_event r fd EPOLLIN False) }"

section \<open>The loop\<close>

definition run_callback :: "'s msg_handler \<Rightarrow> callback \<Rightarrow> net_event \<Rightarrow> 's reactor \<Rightarrow> (int \<times> 's reactor) option" where
  "run_callback h cb ev r = (case cb of Accept_cb \<Rightarrow> accept_cb ev r | Recv_cb \<Rightarrow> recv_cb h ev r | Send_cb \<Rightarrow> send_cb ev r)"

text \<open>The body of the loop over the ready events; calling a NULL callback is a fault.\<close>

definition handle_event :: "'s msg_handler \<Rightarrow> net_event \<Rightarrow> 's reactor \<Rightarrow> 's reactor option" where
  "handle_event h ev r = do {
     r \<leftarrow> (if ev_in ev then do {
         c \<leftarrow> conn_at r (ev_fd ev);
         cb \<leftarrow> recv_callback c;
         (_, r) \<leftarrow> run_callback h cb ev r;
         Some r }
       else Some r);
     if ev_out ev then do {
         c \<leftarrow> conn_at r (ev_fd ev);
         cb \<leftarrow> send_callback c;
         (_, r) \<leftarrow> run_callback h cb ev r;
         Some r }
     else Some r }"

text \<open>\<open>r_init_server\<close>: the descriptor that \<open>socket\<close> gave and the port the socket is bound to. A
  failed \<open>bind\<close> is reported, and the socket listens nevertheless. The port is an unsigned short.\<close>

definition r_init_server :: "int \<Rightarrow> bool \<Rightarrow> int \<Rightarrow> 's reactor \<Rightarrow> int \<times> 's reactor" where
  "r_init_server sock bind_ok port r =
     (sock, r\<lparr>listening := (sock, if bind_ok then Some (port mod 65536) else None) # listening r\<rparr>)"

fun start_ports :: "(int \<times> bool) list \<Rightarrow> int \<Rightarrow> 's reactor \<Rightarrow> 's reactor option" where
  "start_ports [] port r = Some r"
| "start_ports ((sock, bind_ok) # socks) port r = do {
     let (sockfd, r) = r_init_server sock bind_ok port r;
     c \<leftarrow> conn_at r sockfd;
     r \<leftarrow> put_conn r sockfd (c\<lparr>conn_fd := sockfd, recv_callback := Some Accept_cb\<rparr>);
     start_ports socks (port + 1) (set_event r sockfd EPOLLIN True) }"

text \<open>\<open>reactor_start\<close> up to its loop, with what the \<open>socket\<close> and \<open>bind\<close> calls for the
  \<open>MAX_PORTS\<close> ports answer.\<close>

definition reactor_start :: "(nat \<Rightarrow> int \<times> bool) \<Rightarrow> int \<Rightarrow> int \<times> int \<Rightarrow> 's \<Rightarrow> 's reactor option" where
  "reactor_start socks port now a = do {
     r \<leftarrow> start_ports (map socks [0..<MAX_PORTS]) port (reactor_zero a);
     Some (r\<lparr>begin_tv := now\<rparr>) }"

text \<open>The endless loop, for the events of a finite time.\<close>

fun main_loop :: "'s msg_handler \<Rightarrow> net_event list \<Rightarrow> 's reactor \<Rightarrow> 's reactor option" where
  "main_loop h [] r = Some r"
| "main_loop h (ev # evs) r = do { r \<leftarrow> handle_event h ev r; main_loop h evs r }"

end
