(* ===== verification/Network_Spec.thy ===== *)
theory Network_Spec
  imports Kvs_Reactor
begin

text \<open>
  The contract of the network layers. \<open>net_do\<close> is what a server does for its clients when
  requests are taken one at a time: every open connection has a namespace of its own and the
  text of the replies it was sent. The locale \<open>msg_service\<close> is what a network layer relies on
  of its message handler: on good requests it returns, its reply is as long as it says and fits
  the buffer. Inside the locale the event loop is shown to be a simulation of \<open>net_do\<close>.
\<close>

section \<open>Requests one at a time\<close>

datatype net_op = Opened int | Request int request string | Closed int

record 's net_state =
  users :: "int \<rightharpoonup> string"
  out :: "int \<Rightarrow> string"
  core :: 's

definition padded :: "string \<Rightarrow> string" where
  "padded bs = bs @ zeros (BUFFER_LENGTH - length bs)"

fun net_do :: "'s msg_handler \<Rightarrow> net_op \<Rightarrow> 's net_state \<Rightarrow> 's net_state option" where
  "net_do h (Opened fd) S = Some (S\<lparr>users := (users S)(fd \<mapsto> ''default''), out := (out S)(fd := [])\<rparr>)"
| "net_do h (Closed fd) S = Some (S\<lparr>users := (users S)(fd := None)\<rparr>)"
| "net_do h (Request fd rq bs) S = do {
     ns \<leftarrow> users S fd;
     ((n, text), ns, _, s) \<leftarrow> h rq (padded bs) (int (length bs)) (Some ns) (core S);
     ns \<leftarrow> ns;
     Some (S\<lparr>users := (users S)(fd \<mapsto> ns), out := (out S)(fd := out S fd @ take (nat n) text), core := s\<rparr>) }"

fun net_run :: "'s msg_handler \<Rightarrow> net_op list \<Rightarrow> 's net_state \<Rightarrow> 's net_state option" where
  "net_run h [] S = Some S"
| "net_run h (x # xs) S = do { S \<leftarrow> net_do h x S; net_run h xs S }"

lemma net_run_append: "net_run h (xs @ ys) S = do { S \<leftarrow> net_run h xs S; net_run h ys S }"
  by (induction xs arbitrary: S) (auto split: bind_splits)

definition net_start :: "'s \<Rightarrow> 's net_state" where
  "net_start a = \<lparr>users = Map.empty, out = (\<lambda>_. []), core = a\<rparr>"

section \<open>Runs of the event loop\<close>

text \<open>What \<open>epoll_wait\<close> and \<open>accept\<close> promise: a ready descriptor is registered, for the kind of
  event that is reported, and an accepted connection gets a descriptor that is not in use.\<close>

definition enabled :: "'s reactor \<Rightarrow> net_event \<Rightarrow> bool" where
  "enabled r ev \<longleftrightarrow> (\<exists>e. epoll r (ev_fd ev) = Some e \<and> (ev_in ev \<longrightarrow> e = EPOLLIN) \<and> (ev_out ev \<longrightarrow> e = EPOLLOUT)) \<and>
     epoll r (ans_accept ev) = None"

text \<open>A blocking \<open>send\<close> that succeeds takes the whole reply.\<close>

definition sends_all :: "'s reactor \<Rightarrow> net_event \<Rightarrow> bool" where
  "sends_all r ev \<longleftrightarrow> (ev_out ev \<longrightarrow> (\<forall>c. conn_at r (ev_fd ev) = Some c \<longrightarrow> wlength c \<le> ans_send ev))"

inductive reactor_runs :: "'s msg_handler \<Rightarrow> ('s reactor \<Rightarrow> net_event \<Rightarrow> bool) \<Rightarrow> 's reactor \<Rightarrow> net_event list \<Rightarrow>
    's reactor \<Rightarrow> bool" for h P where
  runs_nil: "reactor_runs h P r [] r"
| runs_snoc: "reactor_runs h P r evs r1 \<Longrightarrow> enabled r1 ev \<Longrightarrow> P r1 ev \<Longrightarrow> handle_event h ev r1 = Some r2 \<Longrightarrow>
    reactor_runs h P r (evs @ [ev]) r2"

lemma reactor_runs_mono:
  "reactor_runs h P r evs r' \<Longrightarrow> (\<And>r ev. P r ev \<Longrightarrow> Q r ev) \<Longrightarrow> reactor_runs h Q r evs r'"
  by (induction rule: reactor_runs.induct) (auto intro: reactor_runs.intros)

inductive_simps runs_nil_iff [simp]: "reactor_runs h P r [] r'"

inductive_cases runs_snocE: "reactor_runs h P r (evs @ [ev]) r'"

text \<open>A run is an execution of the loop of the source, and the events determine its end.\<close>

lemma main_loop_snoc: "main_loop h (evs @ [ev]) r = do { r \<leftarrow> main_loop h evs r; handle_event h ev r }"
  by (induction evs arbitrary: r) (auto split: bind_splits)

lemma runs_main_loop: "reactor_runs h P r evs r' \<Longrightarrow> main_loop h evs r = Some r'"
  by (induction rule: reactor_runs.induct) (auto simp: main_loop_snoc)

text \<open>What holds of every reached state holds on the way there.\<close>

lemma runs_prefix: "reactor_runs h P r (evs @ evs') r' \<Longrightarrow> \<exists>a. reactor_runs h P r evs a \<and> main_loop h evs' a = Some r'"
proof (induction evs' arbitrary: r' rule: rev_induct)
  case (snoc ev evs')
  then have "reactor_runs h P r ((evs @ evs') @ [ev]) r'" by simp
  then obtain a where a: "reactor_runs h P r (evs @ evs') a" "handle_event h ev a = Some r'" by (rule runs_snocE) auto
  then show ?case using snoc.IH [OF a(1)] by (auto simp: main_loop_snoc)
qed auto

text \<open>The operations behind the events, given the listening sockets.\<close>

definition op_of :: "int set \<Rightarrow> net_event \<Rightarrow> net_op list" where
  "op_of L ev =
     (if \<not> ev_in ev then []
      else if ev_fd ev \<in> L then (if ans_accept ev < 0 then [] else [Opened (ans_accept ev)])
      else case ans_recv ev of
        None \<Rightarrow> [Closed (ev_fd ev)]
      | Some bs \<Rightarrow> if bs = [] then [Closed (ev_fd ev)] else [Request (ev_fd ev) (ans_rq ev) (take BUFFER_LENGTH bs)])"

text \<open>The interest of the loop in a descriptor, event by event.\<close>

definition next_epoll :: "int set \<Rightarrow> net_event \<Rightarrow> (int \<rightharpoonup> int) \<Rightarrow> (int \<rightharpoonup> int)" where
  "next_epoll L ev ep =
     (if ev_in ev then
        if ev_fd ev \<in> L then if ans_accept ev < 0 then ep else ep(ans_accept ev \<mapsto> EPOLLIN)
        else case ans_recv ev of Some (b # bs) \<Rightarrow> ep(ev_fd ev \<mapsto> EPOLLOUT) | _ \<Rightarrow> ep(ev_fd ev := None)
      else if ev_out ev then ep(ev_fd ev \<mapsto> EPOLLIN) else ep)"

text \<open>A connection that waits for \<open>EPOLLOUT\<close> has a reply to send.\<close>

definition pending :: "'s reactor \<Rightarrow> int \<Rightarrow> string" where
  "pending r fd = (if epoll r fd = Some EPOLLOUT
     then case conn_at r fd of Some c \<Rightarrow> take (nat (wlength c)) (wbuffer c) | None \<Rightarrow> [] else [])"

definition abs_net :: "int set \<Rightarrow> 's reactor \<Rightarrow> 's net_state" where
  "abs_net L r = \<lparr>
     users = (\<lambda>fd. if fd \<in> L \<or> epoll r fd = None then None else map_option namespace (conn_at r fd)),
     out = (\<lambda>fd. sent r fd @ pending r fd),
     core = app r\<rparr>"

section \<open>The table of connections\<close>

lemma conn_at_put:
  assumes "put_conn r fd c = Some r'"
  shows "conn_at r' x = (if x = fd then Some c else conn_at r x)" "epoll r' = epoll r" "app r' = app r" "sent r' = sent r"
    "listening r' = listening r" "length (conn_list r') = length (conn_list r)"
  using assms by (auto simp: put_conn_def conn_at_def arr_get_def arr_put_def nth_list_update split: if_splits bind_splits)

lemma put_conn_total: "conn_at r fd = Some c \<Longrightarrow> \<exists>r'. put_conn r fd c' = Some r'"
  by (auto simp: put_conn_def conn_at_def arr_get_def arr_put_def split: if_splits)

lemma conn_at_range: "(\<exists>c. conn_at r fd = Some c) \<longleftrightarrow> 0 \<le> fd \<and> fd < int (length (conn_list r))"
  by (auto simp: conn_at_def arr_get_def)

lemma conn_at_cong: "conn_list r = conn_list r' \<Longrightarrow> conn_at r = conn_at r'"
  by (auto simp: conn_at_def)

lemma conn_at_update [simp]:
  "conn_at (r\<lparr>epoll := e\<rparr>) = conn_at r" "conn_at (r\<lparr>app := s\<rparr>) = conn_at r" "conn_at (r\<lparr>sent := b\<rparr>) = conn_at r"
  "conn_at (r\<lparr>begin_tv := t\<rparr>) = conn_at r" "conn_at (r\<lparr>listening := l\<rparr>) = conn_at r"
  by (auto simp: conn_at_def)

lemma set_event_fields [simp]:
  "conn_at (set_event r fd e fl) = conn_at r" "app (set_event r fd e fl) = app r" "sent (set_event r fd e fl) = sent r"
  "conn_list (set_event r fd e fl) = conn_list r" "listening (set_event r fd e fl) = listening r"
  by (auto simp: set_event_def)

lemma set_event_epoll:
  "epoll (set_event r fd e True) = (if epoll r fd = None then (epoll r)(fd \<mapsto> e) else epoll r)"
  "epoll (set_event r fd e False) = (if epoll r fd \<noteq> None then (epoll r)(fd \<mapsto> e) else epoll r)"
  by (auto simp: set_event_def)

section \<open>The contract of a message handler\<close>

definition fits :: "reply \<Rightarrow> bool" where
  "fits rep \<longleftrightarrow> fst rep = int (length (snd rep)) \<and> length (snd rep) < BUFFER_LENGTH"

text \<open>A connection in use: its buffers have their size, its callbacks are set and its reply fits.\<close>

definition conn_ok :: "(string \<Rightarrow> bool) \<Rightarrow> conn \<Rightarrow> bool" where
  "conn_ok ok_ns c \<longleftrightarrow> length (wbuffer c) = BUFFER_LENGTH \<and> recv_callback c = Some Recv_cb \<and> send_callback c = Some Send_cb \<and>
     ok_ns (namespace c) \<and> 0 \<le> wlength c \<and> wlength c < int BUFFER_LENGTH"

definition reactor_inv :: "(string \<Rightarrow> bool) \<Rightarrow> ('s \<Rightarrow> bool) \<Rightarrow> int set \<Rightarrow> 's reactor \<Rightarrow> bool" where
  "reactor_inv ok_ns good L r \<longleftrightarrow> length (conn_list r) = CONNECTION_SIZE \<and> good (app r) \<and>
     (\<forall>fd \<in> L. epoll r fd = Some EPOLLIN \<and> (\<exists>c. conn_at r fd = Some c \<and> recv_callback c = Some Accept_cb)) \<and>
     (\<forall>fd e. fd \<notin> L \<and> epoll r fd = Some e \<longrightarrow> e \<in> {EPOLLIN, EPOLLOUT} \<and> (\<exists>c. conn_at r fd = Some c \<and> conn_ok ok_ns c))"

text \<open>The workload: at most as many connections as the table has room for, and good requests.\<close>

definition tame :: "(request \<Rightarrow> string \<Rightarrow> bool) \<Rightarrow> net_event \<Rightarrow> bool" where
  "tame ok_req ev \<longleftrightarrow> ans_accept ev < int CONNECTION_SIZE \<and>
     (case ans_recv ev of None \<Rightarrow> True | Some bs \<Rightarrow> bs \<noteq> [] \<longrightarrow> ok_req (ans_rq ev) (take BUFFER_LENGTH bs))"

locale msg_service =
  fixes h :: "'s msg_handler"
    and good :: "'s \<Rightarrow> bool"
    and ok_ns :: "string \<Rightarrow> bool"
    and ok_req :: "request \<Rightarrow> string \<Rightarrow> bool"
  assumes default_ns: "ok_ns ''default''"
    and handles: "good s \<Longrightarrow> ok_ns ns \<Longrightarrow> ok_req rq bs \<Longrightarrow> bs \<noteq> [] \<Longrightarrow> length bs \<le> BUFFER_LENGTH \<Longrightarrow>
      \<exists>rep ns' msg s'. h rq (padded bs) (int (length bs)) (Some ns) s = Some (rep, Some ns', msg, s') \<and>
        fits rep \<and> ok_ns ns' \<and> good s'"
begin

abbreviation rinv :: "int set \<Rightarrow> 's reactor \<Rightarrow> bool" where
  "rinv \<equiv> reactor_inv ok_ns good"

lemma used_conn:
  assumes "rinv L r" "epoll r fd = Some e" "fd \<notin> L"
  obtains c where "conn_at r fd = Some c" "conn_ok ok_ns c" "e \<in> {EPOLLIN, EPOLLOUT}"
  using assms unfolding reactor_inv_def by blast

lemma listen_conn:
  assumes "rinv L r" "fd \<in> L"
  obtains c where "conn_at r fd = Some c" "recv_callback c = Some Accept_cb" "epoll r fd = Some EPOLLIN"
  using assms unfolding reactor_inv_def by blast

text \<open>A new connection.\<close>

lemma accept_step:
  assumes "rinv L r" "enabled r ev" "tame ok_req ev"
  shows "\<exists>n r'. accept_cb ev r = Some (n, r') \<and> rinv L r' \<and>
    net_run h (if ans_accept ev < 0 then [] else [Opened (ans_accept ev)]) (abs_net L r) = Some (abs_net L r')"
proof (cases "ans_accept ev < 0")
  case True
  then show ?thesis using assms(1) by (simp add: accept_cb_def)
next
  case False
  let ?fd = "ans_accept ev" and ?r = "r\<lparr>sent := (sent r)(ans_accept ev := [])\<rparr>"
  have new: "epoll r ?fd = None" "?fd \<notin> L" using assms(1, 2) by (auto simp: enabled_def reactor_inv_def)
  obtain c where c: "conn_at r ?fd = Some c"
    using False assms(1, 3) conn_at_range [of r ?fd] by (auto simp: tame_def reactor_inv_def)
  let ?c = "c\<lparr>conn_fd := ?fd, recv_callback := Some Recv_cb, send_callback := Some Send_cb, rbuffer := zeros BUFFER_LENGTH,
    rlength := 0, wbuffer := zeros BUFFER_LENGTH, wlength := 0, namespace := ''default''\<rparr>"
  obtain r1 where r1: "put_conn ?r ?fd ?c = Some r1" using put_conn_total [of ?r ?fd c ?c] c by auto
  note p = conn_at_put [OF r1]
  let ?r2 = "set_event r1 ?fd EPOLLIN True"
  let ?r' = "if ?fd mod 1000 = 0 then ?r2\<lparr>begin_tv := ans_now ev\<rparr> else ?r2"
  have acc: "accept_cb ev r = Some (0, ?r')"
    using False c r1 by (simp add: accept_cb_def event_register_def)
  have ep: "epoll ?r' = (epoll r)(?fd \<mapsto> EPOLLIN)" using new(1) p(2) by (simp add: set_event_epoll)
  have ca: "conn_at ?r' x = (if x = ?fd then Some ?c else conn_at r x)" for x using p(1) by simp
  have fields: "app ?r' = app r" "sent ?r' = (sent r)(?fd := [])" "length (conn_list ?r') = length (conn_list r)"
    using p(3, 4, 6) by simp_all
  have "conn_ok ok_ns ?c" using default_ns by (simp add: conn_ok_def zeros_def BUFFER_LENGTH_def)
  then have "rinv L ?r'" using assms(1) new
    unfolding reactor_inv_def ep ca fields by auto
  moreover have "net_do h (Opened ?fd) (abs_net L r) = Some (abs_net L ?r')"
    using new p by (auto simp: abs_net_def pending_def ep ca fields fun_eq_iff EPOLLIN_def EPOLLOUT_def)
  ultimately show ?thesis using False acc by auto
qed

text \<open>The end of a connection.\<close>

lemma close_step:
  assumes "rinv L r" "epoll r (ev_fd ev) = Some EPOLLIN" "ev_fd ev \<notin> L" "ans_recv ev = None \<or> ans_recv ev = Some []"
  shows "\<exists>n r'. recv_cb h ev r = Some (n, r') \<and> rinv L r' \<and>
    net_run h [Closed (ev_fd ev)] (abs_net L r) = Some (abs_net L r')"
proof -
  let ?fd = "ev_fd ev"
  obtain c where c: "conn_at r ?fd = Some c" using used_conn [OF assms(1-3)] by blast
  obtain r1 where r1: "put_conn r ?fd (c\<lparr>rbuffer := zeros BUFFER_LENGTH\<rparr>) = Some r1"
    using put_conn_total [OF c] by blast
  note p = conn_at_put [OF r1]
  let ?r' = "r1\<lparr>epoll := (epoll r)(?fd := None)\<rparr>"
  have "recv_cb h ev r = Some (0, ?r')" using c r1 assms(4) p(2) by (auto simp: recv_cb_def)
  moreover have "rinv L ?r'" using assms(1, 3) p unfolding reactor_inv_def by auto
  moreover have "net_do h (Closed ?fd) (abs_net L r) = Some (abs_net L ?r')"
    using assms(2, 3) p by (auto simp: abs_net_def pending_def fun_eq_iff EPOLLIN_def EPOLLOUT_def)
  ultimately show ?thesis by auto
qed

text \<open>A request: the handler answers into the write buffer, and the connection waits to send.\<close>

lemma request_step:
  assumes "rinv L r" "epoll r (ev_fd ev) = Some EPOLLIN" "ev_fd ev \<notin> L" "ans_recv ev = Some bs" "bs \<noteq> []"
    "ok_req (ans_rq ev) (take BUFFER_LENGTH bs)"
  shows "\<exists>n r'. recv_cb h ev r = Some (n, r') \<and> rinv L r' \<and>
    net_run h [Request (ev_fd ev) (ans_rq ev) (take BUFFER_LENGTH bs)] (abs_net L r) = Some (abs_net L r')"
proof -
  let ?fd = "ev_fd ev" and ?got = "take BUFFER_LENGTH bs"
  obtain c where c: "conn_at r ?fd = Some c" "conn_ok ok_ns c" using used_conn [OF assms(1-3)] by blast
  have good: "good (app r)" using assms(1) by (simp add: reactor_inv_def)
  obtain rep ns msg s where hd: "h (ans_rq ev) (padded ?got) (int (length ?got)) (Some (namespace c)) (app r) = Some (rep, Some ns, msg, s)"
      "fits rep" "ok_ns ns" "good s"
    using handles [OF good _ assms(6), of "namespace c"] c(2) assms(5) by (auto simp: conn_ok_def BUFFER_LENGTH_def)
  obtain reply_text where rep: "rep = (int (length reply_text), reply_text)" "length reply_text < BUFFER_LENGTH"
    using hd(2) by (cases rep) (auto simp: fits_def)
  let ?w = "reply_text @ CHR 0x00 # drop (Suc (length reply_text)) (wbuffer c)"
  let ?c = "c\<lparr>rbuffer := msg, rlength := int (length ?got), wlength := int (length reply_text), wbuffer := ?w, namespace := ns\<rparr>"
  have rq: "kvs_request h (ans_rq ev) (app r) (c\<lparr>rbuffer := padded ?got, rlength := int (length ?got)\<rparr>) = Some (?c, s)"
    using hd(1) rep c(2) by (simp add: kvs_request_def put_reply_def conn_ok_def)
  obtain r1 where r1: "put_conn (r\<lparr>app := s\<rparr>) ?fd ?c = Some r1" using put_conn_total [of "r\<lparr>app := s\<rparr>" ?fd c] c(1) by auto
  note p = conn_at_put [OF r1]
  let ?r' = "set_event r1 ?fd EPOLLOUT False"
  have cb: "recv_cb h ev r = Some (int (length ?got), ?r')"
    using c(1) assms(4, 5) rq r1 by (simp add: recv_cb_def padded_def)
  have ep: "epoll ?r' = (epoll r)(?fd \<mapsto> EPOLLOUT)" using assms(2) p(2) by (simp add: set_event_epoll)
  have ok: "conn_ok ok_ns ?c" using c(2) rep(2) hd(3) by (simp add: conn_ok_def)
  have "rinv L ?r'"
    using assms(1, 3) p ok hd(4) unfolding reactor_inv_def ep by auto
  moreover have "net_do h (Request ?fd (ans_rq ev) ?got) (abs_net L r) = Some (abs_net L ?r')"
    using c(1) hd(1) rep(1) assms(2, 3) p unfolding net_do.simps
    by (auto simp: abs_net_def pending_def set_event_epoll fun_eq_iff EPOLLIN_def EPOLLOUT_def)
  ultimately show ?thesis using cb by auto
qed

text \<open>Sending: what was pending has been sent.\<close>

lemma send_step:
  assumes "rinv L r" "epoll r (ev_fd ev) = Some EPOLLOUT" "ev_out ev"
  shows "\<exists>n r'. send_cb ev r = Some (n, r') \<and> rinv L r' \<and> (sends_all r ev \<longrightarrow> abs_net L r = abs_net L r')"
proof -
  let ?fd = "ev_fd ev"
  have L: "?fd \<notin> L" using assms(1, 2) by (auto simp: reactor_inv_def EPOLLIN_def EPOLLOUT_def)
  obtain c where c: "conn_at r ?fd = Some c" "conn_ok ok_ns c" using used_conn [OF assms(1, 2) L] by blast
  have w: "0 \<le> wlength c" "wlength c \<le> int (length (wbuffer c))" using c(2) by (auto simp: conn_ok_def)
  let ?n = "min (ans_send ev) (wlength c)"
  let ?r1 = "if wlength c \<noteq> 0 then r\<lparr>sent := (sent r)(?fd := sent r ?fd @ take (nat ?n) (wbuffer c))\<rparr> else r"
  let ?r' = "set_event ?r1 ?fd EPOLLIN False"
  have cb: "\<exists>n. send_cb ev r = Some (n, ?r')"
    using c(1) w by (auto simp: send_cb_def kvs_response_def Let_def)
  have ep: "epoll ?r' = (epoll r)(?fd \<mapsto> EPOLLIN)" using assms(2) by (simp add: set_event_epoll)
  have fields: "conn_at ?r' = conn_at r" "app ?r' = app r" "length (conn_list ?r') = length (conn_list r)" by simp_all
  have "rinv L ?r'" using assms(1) L c unfolding reactor_inv_def ep fields by auto
  moreover have "abs_net L r = abs_net L ?r'" if "sends_all r ev"
  proof -
    have "wlength c \<le> ans_send ev" using that c(1) assms(3) by (auto simp: sends_all_def)
    then have n: "?n = wlength c" by simp
    show ?thesis using assms(2) c(1) L unfolding n abs_net_def pending_def fields by (auto simp: set_event_epoll fun_eq_iff EPOLLIN_def EPOLLOUT_def)
  qed
  ultimately show ?thesis using cb by blast
qed

text \<open>One callback per event.\<close>

lemma handle_in:
  assumes "ev_in ev" "\<not> ev_out ev" "conn_at r (ev_fd ev) = Some c" "recv_callback c = Some cb"
    "run_callback h cb ev r = Some (n, r')"
  shows "handle_event h ev r = Some r'"
  using assms by (simp add: handle_event_def)

lemma handle_out:
  assumes "\<not> ev_in ev" "ev_out ev" "conn_at r (ev_fd ev) = Some c" "send_callback c = Some cb"
    "run_callback h cb ev r = Some (n, r')"
  shows "handle_event h ev r = Some r'"
  using assms by (simp add: handle_event_def)

lemma recv_step:
  assumes "rinv L r" "epoll r (ev_fd ev) = Some EPOLLIN" "ev_fd ev \<notin> L" "tame ok_req ev" "ev_in ev"
  shows "\<exists>n r'. recv_cb h ev r = Some (n, r') \<and> rinv L r' \<and>
    net_run h (op_of L ev) (abs_net L r) = Some (abs_net L r')"
proof (cases "ans_recv ev = None \<or> ans_recv ev = Some []")
  case True
  then have "op_of L ev = [Closed (ev_fd ev)]" using assms(3, 5) by (auto simp: op_of_def)
  then show ?thesis using close_step [OF assms(1-3) True] by simp
next
  case False
  then obtain bs where bs: "ans_recv ev = Some bs" "bs \<noteq> []" by auto
  then have "op_of L ev = [Request (ev_fd ev) (ans_rq ev) (take BUFFER_LENGTH bs)]" "ok_req (ans_rq ev) (take BUFFER_LENGTH bs)"
    using assms(3-5) by (auto simp: op_of_def tame_def)
  then show ?thesis using request_step [OF assms(1-3) bs] by simp
qed

lemma event_step:
  assumes "rinv L r" "enabled r ev" "tame ok_req ev"
  shows "\<exists>r'. handle_event h ev r = Some r' \<and> rinv L r' \<and>
    (sends_all r ev \<longrightarrow> net_run h (op_of L ev) (abs_net L r) = Some (abs_net L r'))"
proof -
  let ?fd = "ev_fd ev"
  obtain e where e: "epoll r ?fd = Some e" "ev_in ev \<Longrightarrow> e = EPOLLIN" "ev_out ev \<Longrightarrow> e = EPOLLOUT"
    using assms(2) by (auto simp: enabled_def)
  have io: "EPOLLIN \<noteq> EPOLLOUT" by (simp add: EPOLLIN_def EPOLLOUT_def)
  have "e = EPOLLIN" if "?fd \<in> L" by (rule listen_conn [OF assms(1) that]) (use e(1) in simp)
  then have x: "\<not> (ev_in ev \<and> ev_out ev)" "ev_out ev \<Longrightarrow> ?fd \<notin> L" using e io by auto
  consider "ev_in ev" "\<not> ev_out ev" "?fd \<in> L" | "ev_in ev" "\<not> ev_out ev" "?fd \<notin> L" | "\<not> ev_in ev" "ev_out ev" "?fd \<notin> L"
    | "\<not> ev_in ev" "\<not> ev_out ev"
    using x by blast
  then show ?thesis
  proof cases
    case 1
    obtain c where c: "conn_at r ?fd = Some c" "recv_callback c = Some Accept_cb" using listen_conn [OF assms(1) 1(3)] .
    obtain n r' where r': "accept_cb ev r = Some (n, r')" "rinv L r'"
        "net_run h (if ans_accept ev < 0 then [] else [Opened (ans_accept ev)]) (abs_net L r) = Some (abs_net L r')"
      using accept_step [OF assms] by blast
    have "handle_event h ev r = Some r'" using r'(1) by (intro handle_in [OF 1(1, 2) c]) (simp add: run_callback_def)
    moreover have "op_of L ev = (if ans_accept ev < 0 then [] else [Opened (ans_accept ev)])" using 1 by (simp add: op_of_def)
    ultimately show ?thesis using r'(2, 3) by metis
  next
    case 2
    obtain c where c: "conn_at r ?fd = Some c" "recv_callback c = Some Recv_cb"
      by (rule used_conn [OF assms(1) e(1) 2(3)]) (simp add: conn_ok_def)
    have "epoll r ?fd = Some EPOLLIN" using e 2 by simp
    then obtain n r' where r': "recv_cb h ev r = Some (n, r')" "rinv L r'"
        "net_run h (op_of L ev) (abs_net L r) = Some (abs_net L r')"
      using recv_step [OF assms(1) _ 2(3) assms(3) 2(1)] by blast
    have "handle_event h ev r = Some r'" using r'(1) by (intro handle_in [OF 2(1, 2) c]) (simp add: run_callback_def)
    then show ?thesis using r'(2, 3) by blast
  next
    case 3
    obtain c where c: "conn_at r ?fd = Some c" "send_callback c = Some Send_cb"
      by (rule used_conn [OF assms(1) e(1) 3(3)]) (simp add: conn_ok_def)
    have "epoll r ?fd = Some EPOLLOUT" using e 3 by simp
    then obtain n r' where r': "send_cb ev r = Some (n, r')" "rinv L r'" "sends_all r ev \<longrightarrow> abs_net L r = abs_net L r'"
      using send_step [OF assms(1) _ 3(2)] by blast
    have "handle_event h ev r = Some r'" using r'(1) by (intro handle_out [OF 3(1, 2) c]) (simp add: run_callback_def)
    moreover have "op_of L ev = []" using 3 by (simp add: op_of_def)
    ultimately show ?thesis using r'(2, 3) by simp
  next
    case 4
    then show ?thesis using assms(1) by (simp add: handle_event_def op_of_def)
  qed
qed

lemma callback_epoll:
  "accept_cb ev r = Some (n, r') \<Longrightarrow> epoll r (ans_accept ev) = None \<Longrightarrow>
     epoll r' = (if ans_accept ev < 0 then epoll r else (epoll r)(ans_accept ev \<mapsto> EPOLLIN))"
  "recv_cb h ev r = Some (n, r') \<Longrightarrow> epoll r (ev_fd ev) \<noteq> None \<Longrightarrow>
     epoll r' = (case ans_recv ev of Some (b # bs) \<Rightarrow> (epoll r)(ev_fd ev \<mapsto> EPOLLOUT) | _ \<Rightarrow> (epoll r)(ev_fd ev := None))"
  "send_cb ev r = Some (n, r') \<Longrightarrow> epoll r (ev_fd ev) \<noteq> None \<Longrightarrow> epoll r' = (epoll r)(ev_fd ev \<mapsto> EPOLLIN)"
  by (auto simp: accept_cb_def event_register_def recv_cb_def send_cb_def kvs_response_def set_event_epoll Let_def
      split: if_splits bind_splits option.splits list.splits dest!: conn_at_put(2))

lemma event_epoll:
  assumes "rinv L r" "enabled r ev" "handle_event h ev r = Some r'"
  shows "epoll r' = next_epoll L ev (epoll r)"
proof -
  let ?fd = "ev_fd ev"
  obtain e where e: "epoll r ?fd = Some e" "ev_in ev \<Longrightarrow> e = EPOLLIN" "ev_out ev \<Longrightarrow> e = EPOLLOUT" "epoll r (ans_accept ev) = None"
    using assms(2) by (auto simp: enabled_def)
  have x: "\<not> (ev_in ev \<and> ev_out ev)" using e(2, 3) by (auto simp: EPOLLIN_def EPOLLOUT_def)
  have out: "?fd \<notin> L" if "ev_out ev"
  proof
    assume "?fd \<in> L"
    from listen_conn [OF assms(1) this] show False using e(1) e(3) [OF that] by (auto simp: EPOLLIN_def EPOLLOUT_def)
  qed
  show ?thesis
  proof (cases "ev_in ev")
    case True
    show ?thesis
    proof (cases "?fd \<in> L")
      case L: True
      obtain c where "conn_at r ?fd = Some c" "recv_callback c = Some Accept_cb" using listen_conn [OF assms(1) L] .
      then obtain n where "accept_cb ev r = Some (n, r')"
        using assms(3) True x by (auto simp: handle_event_def run_callback_def split: bind_splits)
      then show ?thesis using callback_epoll(1) e(4) True L by (simp add: next_epoll_def)
    next
      case L: False
      obtain c where "conn_at r ?fd = Some c" "recv_callback c = Some Recv_cb"
        by (rule used_conn [OF assms(1) e(1) L]) (simp add: conn_ok_def)
      then obtain n where "recv_cb h ev r = Some (n, r')"
        using assms(3) True x by (auto simp: handle_event_def run_callback_def split: bind_splits)
      then show ?thesis using callback_epoll(2) e(1) True L by (simp add: next_epoll_def)
    qed
  next
    case False
    show ?thesis
    proof (cases "ev_out ev")
      case True
      obtain c where "conn_at r ?fd = Some c" "send_callback c = Some Send_cb"
        by (rule used_conn [OF assms(1) e(1) out [OF True]]) (simp add: conn_ok_def)
      then obtain n where "send_cb ev r = Some (n, r')"
        using assms(3) True x by (auto simp: handle_event_def run_callback_def split: bind_splits)
      then show ?thesis using callback_epoll(3) e(1) True False by (simp add: next_epoll_def)
    qed (use assms(3) False in \<open>simp add: handle_event_def next_epoll_def\<close>)
  qed
qed

lemma runs_inv:
  assumes "reactor_runs h P r evs r'" "rinv L r" "\<And>r ev. P r ev \<Longrightarrow> tame ok_req ev"
  shows "rinv L r'"
  using assms(1, 2)
proof (induction rule: reactor_runs.induct)
  case (runs_snoc r evs r1 ev r2)
  then show ?case using event_step [of L r1 ev] assms(3) by fastforce
qed

lemma runs_simulate:
  assumes "reactor_runs h P r evs r'" "rinv L r" "\<And>r ev. P r ev \<Longrightarrow> tame ok_req ev \<and> sends_all r ev"
  shows "net_run h (concat (map (op_of L) evs)) (abs_net L r) = Some (abs_net L r')"
  using assms(1, 2)
proof (induction rule: reactor_runs.induct)
  case (runs_snoc r evs r1 ev r2)
  have "rinv L r1" using runs_inv [OF runs_snoc.hyps(1) runs_snoc.prems] assms(3) by blast
  then show ?case
    using event_step [of L r1 ev] runs_snoc assms(3) [OF runs_snoc.hyps(3)] by (simp add: net_run_append)
qed simp

end

end
