(* ===== verification/Protocol_Tokens.thy ===== *)
theory Protocol_Tokens
  imports Kvs_Protocol
begin

text \<open>
  The tokeniser of the command protocol. \<open>quote\<close> writes an argument so that the tokeniser reads
  it back, \<open>request_bytes\<close> a whole command line; the round trip holds for every list of at most
  128 arguments without a quotation mark, empty ones and ones with spaces included. The tokens
  of a message together are never longer than the message, which bounds every buffer they are
  copied to.
\<close>

section \<open>Round trip\<close>

definition quote :: "string \<Rightarrow> string" where
  "quote t = (if t = [] \<or> CHR '' '' \<in> set t \<or> hd t = CHR 0x22 then CHR 0x22 # t @ [CHR 0x22] else t)"

fun command_line :: "string list \<Rightarrow> string" where
  "command_line [] = []"
| "command_line [t] = quote t"
| "command_line (t # ts) = quote t @ CHR '' '' # command_line ts"

definition plain :: "string \<Rightarrow> bool" where
  "plain t \<longleftrightarrow> CHR 0x22 \<notin> set t"

lemma takeWhile_stop: "x \<notin> set t \<Longrightarrow> takeWhile (\<lambda>c. c \<noteq> x) (t @ x # r) = t"
  by (induction t) auto

lemma dropWhile_stop: "x \<notin> set t \<Longrightarrow> dropWhile (\<lambda>c. c \<noteq> x) (t @ x # r) = x # r"
  by (induction t) auto

text \<open>Blanks alone hold no token.\<close>

lemma split_from_blank: "\<forall>c \<in> set p. c = CHR '' '' \<Longrightarrow> split_from n p = []"
proof -
  assume "\<forall>c \<in> set p. c = CHR '' ''"
  then have "dropWhile (\<lambda>c. c = CHR '' '') p = []" by simp
  then show ?thesis by (subst split_from.simps) (simp del: dropWhile_eq_Nil_conv)
qed

text \<open>The tokeniser reads one quoted argument; \<open>blanks\<close> is what is left of the line.\<close>

lemma split_from_last:
  assumes "plain t" "\<forall>c \<in> set b. c = CHR '' ''" "b \<noteq> []"
  shows "split_from n (quote t @ b) = [t]"
proof -
  obtain b' where b: "b = CHR '' '' # b'" "\<forall>c \<in> set b'. c = CHR '' ''" using assms(2, 3) by (cases b) auto
  show ?thesis
  proof (cases "t = [] \<or> CHR '' '' \<in> set t \<or> hd t = CHR 0x22")
    case True
    then show ?thesis using assms(1, 2)
      by (subst split_from.simps)
        (simp add: quote_def Let_def plain_def takeWhile_stop dropWhile_stop split_from_blank)
  next
    case False
    then obtain c q where t: "t = c # q" "c \<noteq> CHR '' ''" "c \<noteq> CHR 0x22" "CHR '' '' \<notin> set q" by (cases t) auto
    then show ?thesis using b
      by (subst split_from.simps)
        (simp add: quote_def Let_def takeWhile_stop dropWhile_stop split_from_blank)
  qed
qed

text \<open>After a closing quotation mark the blank that separates the arguments is still there.\<close>

lemma split_from_skip: "split_from n (CHR '' '' # p) = split_from n p"
  by (simp add: split_from.simps [of n p] split_from.simps [of n "CHR '' '' # p"])

lemma split_from_quote:
  assumes "plain t" "n + 1 < KVS_MAX_TOKENS"
  shows "split_from n (quote t @ CHR '' '' # r) = t # split_from (n + 1) r"
proof (cases "t = [] \<or> CHR '' '' \<in> set t \<or> hd t = CHR 0x22")
  case True
  then show ?thesis using assms
    by (subst split_from.simps)
      (simp add: quote_def Let_def plain_def takeWhile_stop dropWhile_stop split_from_skip)
next
  case False
  then obtain c q where t: "t = c # q" "c \<noteq> CHR '' ''" "c \<noteq> CHR 0x22" "CHR '' '' \<notin> set q" by (cases t) auto
  then show ?thesis using assms(2)
    by (subst split_from.simps) (simp add: quote_def Let_def takeWhile_stop dropWhile_stop)
qed

lemma split_from_line:
  assumes "\<forall>t \<in> set ts. plain t" "n + length ts \<le> KVS_MAX_TOKENS" "\<forall>c \<in> set b. c = CHR '' ''" "b \<noteq> []"
  shows "split_from n (command_line ts @ b) = ts"
  using assms(1, 2)
proof (induction ts arbitrary: n rule: command_line.induct)
  case 1
  then show ?case using assms(3) by (simp add: split_from_blank)
next
  case (2 t)
  then show ?case using assms(3, 4) by (simp add: split_from_last)
next
  case (3 t u ts)
  then show ?case using split_from_quote [of t n "command_line (u # ts) @ b"] by simp
qed

text \<open>C30: every list of at most 128 arguments, empty ones and ones that contain blanks
  included, is read back by the tokeniser from its command line, when no argument contains a
  quotation mark.\<close>

theorem tokens_roundtrip:
  assumes "\<forall>t \<in> set ts. plain t" "length ts \<le> KVS_MAX_TOKENS"
  shows "kvs_split_token (command_line ts @ ''  '') = ts"
  using split_from_line [of ts 0 "''  ''"] assms by (simp add: kvs_split_token_def)

theorem tokens_roundtrip_witness:
  "kvs_split_token (command_line [''SET'', ''my key'', []] @ ''  '') = [''SET'', ''my key'', []]"
  using tokens_roundtrip [of "[''SET'', ''my key'', []]"] by (simp add: plain_def KVS_MAX_TOKENS_def)

section \<open>Bounds\<close>

text \<open>The room tokens take, each with its terminating NUL.\<close>

definition room :: "string list \<Rightarrow> nat" where
  "room ts = sum_list (map (\<lambda>t. length t + 1) ts)"

lemma split_from_bounds: "length (split_from n p) + n \<le> max KVS_MAX_TOKENS (n + 1) \<and> room (split_from n p) \<le> length p + 1"
proof (induction n p rule: split_from.induct)
  case (1 n p)
  show ?case
  proof (cases "dropWhile (\<lambda>c. c = CHR '' '') p")
    case Nil
    then show ?thesis using split_from_blank [of p n] by (simp add: room_def)
  next
    case (Cons c q)
    define stop where "stop = (if c = CHR 0x22 then CHR 0x22 else CHR '' '')"
    define body where "body = (if c = CHR 0x22 then q else c # q)"
    define t where "t = takeWhile (\<lambda>c. c \<noteq> stop) body"
    define rest where "rest = drop 1 (dropWhile (\<lambda>c. c \<noteq> stop) body)"
    have s: "split_from n p = t # (if n + 1 \<ge> KVS_MAX_TOKENS then [] else split_from (n + 1) rest)"
      using Cons by (simp add: split_from.simps [of n p] Let_def t_def rest_def stop_def body_def)
    have IH: "n + 1 < KVS_MAX_TOKENS \<Longrightarrow> length (split_from (n + 1) rest) + (n + 1) \<le> KVS_MAX_TOKENS \<and>
        room (split_from (n + 1) rest) \<le> length rest + 1"
      using "1.IH" [OF Cons stop_def body_def t_def rest_def] by simp
    have "length (c # q) \<le> length p" using Cons length_dropWhile_le [of "\<lambda>c. c = CHR '' ''" p] by simp
    then have "length body \<le> length p" by (simp add: body_def split: if_splits)
    moreover have "length t + length (dropWhile (\<lambda>c. c \<noteq> stop) body) = length body"
      unfolding t_def by (metis length_append takeWhile_dropWhile_id)
    moreover have "length rest = length (dropWhile (\<lambda>c. c \<noteq> stop) body) - 1" by (simp add: rest_def)
    moreover have "rest \<noteq> [] \<longleftrightarrow> 0 < length rest" by simp
    ultimately have len: "length t + 1 + length rest \<le> length p + 1 \<and> (rest \<noteq> [] \<longrightarrow> length t + 1 + length rest \<le> length p)"
      by linarith
    show ?thesis
    proof (cases "n + 1 < KVS_MAX_TOKENS \<and> rest \<noteq> []")
      case True
      then show ?thesis using s IH len by (simp add: room_def)
    next
      case False
      then have "split_from n p = [t]" using s by (auto simp: split_from_blank)
      then show ?thesis using len by (simp add: room_def)
    qed
  qed
qed

lemma map_nth_drop: "map ((!) ts) [k..<length ts] = drop k ts"
  by (metis drop_map drop_upt map_nth add_0)

lemma room_drop: "room (drop k ts) \<le> room ts"
  by (metis append_take_drop_id le_add2 map_append room_def sum_list_append)

lemma strcat_length:
  "length (concat (map (\<lambda>i. (if i > start then '' '' else []) @ ts ! i) [start..<length ts])) \<le> room ts - 1"
proof (cases "start < length ts")
  case True
  let ?f = "\<lambda>i. (if i > start then '' '' else []) @ ts ! i"
  have "concat (map ?f [start..<length ts]) = ts ! start @ concat (map ?f [Suc start..<length ts])"
    using True by (simp add: upt_conv_Cons)
  also have "map ?f [Suc start..<length ts] = map (\<lambda>t. CHR '' '' # t) (drop (Suc start) ts)"
    unfolding map_nth_drop [symmetric] by auto
  finally have "concat (map ?f [start..<length ts]) = ts ! start @ concat (map (\<lambda>t. CHR '' '' # t) (drop (Suc start) ts))" .
  moreover have "length (concat (map (\<lambda>t. CHR '' '' # t) us)) = room us" for us
    by (induction us) (auto simp: room_def)
  moreover have "room (drop start ts) = length (ts ! start) + 1 + room (drop (Suc start) ts)"
    using True by (simp add: room_def Cons_nth_drop_Suc [symmetric])
  ultimately show ?thesis using room_drop [of start ts] by simp
qed simp

text \<open>The tokens from \<open>start\<close> on with a blank between any two, which \<open>join_tokens\<close> cuts off at the size of its
  buffer.\<close>

definition spaced :: "string list \<Rightarrow> nat \<Rightarrow> string" where
  "spaced ts start = concat (map (\<lambda>i. (if i > start then '' '' else []) @ ts ! i) [start..<length ts])"

lemma join_loop_take:
  assumes "length dst < dst_size"
  shows "join_loop ts i start dst_size dst =
    dst @ take (dst_size - 1 - length dst) (concat (map (\<lambda>i. (if i > start then '' '' else []) @ ts ! i) [i..<length ts]))"
  using assms
proof (induction ts i start dst_size dst rule: join_loop.induct)
  case (1 ts i start dst_size dst)
  let ?sep = "if i > start then '' '' else []" and ?rest = "concat (map (\<lambda>i. (if i > start then '' '' else []) @ ts ! i) [Suc i..<length ts])"
  show ?case
  proof (cases "i < length ts \<and> int (length dst) < int dst_size - 1")
    case True
    define dst' where "dst' = (if i > start \<and> int (length dst) < int dst_size - 1 then dst @ '' '' else dst)"
    define tlen where "tlen = (if length dst' + length (ts ! i) \<ge> dst_size then dst_size - length dst' - 1 else length (ts ! i))"
    have d: "dst' = dst @ ?sep" "length dst' < dst_size" using True by (auto simp: dst'_def)
    have t: "take tlen (ts ! i) = take (dst_size - 1 - length dst') (ts ! i)" using d(2) by (simp add: tlen_def)
    have l: "length (dst' @ take tlen (ts ! i)) < dst_size" unfolding t using d(2) by simp
    have "join_loop ts i start dst_size dst = join_loop ts (Suc i) start dst_size (dst' @ take tlen (ts ! i))"
      using True by (simp add: join_loop.simps [of ts i] dst'_def tlen_def Let_def)
    also have "\<dots> = (dst' @ take tlen (ts ! i)) @ take (dst_size - 1 - length (dst' @ take tlen (ts ! i))) ?rest"
      by (rule "1.IH" [OF True dst'_def refl tlen_def l])
    also have "\<dots> = dst' @ take (dst_size - 1 - length dst') (ts ! i @ ?rest)"
      unfolding t using d(2) by (cases "length (ts ! i) \<le> dst_size - 1 - length dst'") simp_all
    also have "\<dots> = dst @ take (dst_size - 1 - length dst) (?sep @ ts ! i @ ?rest)"
      using d by simp
    finally show ?thesis using True by (simp add: upt_conv_Cons)
  next
    case False
    then show ?thesis using "1.prems" by (auto simp: join_loop.simps [of ts i])
  qed
qed

lemma join_tokens_take: "0 < dst_size \<Longrightarrow> join_tokens ts start dst_size = take (dst_size - 1) (spaced ts start)"
  by (simp add: join_tokens_def spaced_def join_loop_take)

text \<open>C31: a message never has more than 128 tokens, so the array of token pointers is not
  overrun, and its tokens with their terminating NULs fit in the message's own bytes. Joining the
  tokens of a value gives them with a blank between any two, cut off so that the text and its NUL fit
  the buffer of 8192 bytes, whatever the message. The buffers of 8192 bytes that \<open>VSET\<close> and \<open>VSEARCH\<close>
  fill with \<open>strcat\<close>, which does not look at the size, get the same text without a cut and are not
  overrun when the message has fewer than 8192 bytes.\<close>

theorem token_buffers_safe:
  "length (kvs_split_token msg) \<le> KVS_MAX_TOKENS \<and> room (kvs_split_token msg) \<le> length msg + 1 \<and>
   join_tokens (kvs_split_token msg) start 8192 = take 8191 (spaced (kvs_split_token msg) start) \<and>
   (length msg < 8192 \<longrightarrow> strcat_tokens (kvs_split_token msg) start = Some (spaced (kvs_split_token msg) start))"
proof -
  let ?ts = "kvs_split_token msg"
  have b: "length ?ts \<le> KVS_MAX_TOKENS" "room ?ts \<le> length msg + 1"
    using split_from_bounds [of 0 msg] by (auto simp: kvs_split_token_def KVS_MAX_TOKENS_def)
  have "strcat_tokens ?ts start = Some (spaced ?ts start)" if "length msg < 8192"
    using that b(2) strcat_length [of start ?ts] by (simp add: strcat_tokens_def spaced_def Let_def)
  then show ?thesis using b join_tokens_take [of 8192 ?ts start] by simp
qed

theorem token_buffers_safe_witness:
  "join_tokens (kvs_split_token ''SET a b c'') 2 8192 = take 8191 (spaced (kvs_split_token ''SET a b c'') 2) \<and>
   strcat_tokens (kvs_split_token ''VSET a 2 1 1'') 2 = Some (spaced (kvs_split_token ''VSET a 2 1 1'') 2)"
  using token_buffers_safe [of "''SET a b c''" 2] token_buffers_safe [of "''VSET a 2 1 1''" 2] by simp

end
