(* ===== verification/Rbtree_Correct.thy ===== *)
theory Rbtree_Correct
  imports Kvs_Rbtree
begin

text \<open>
  Correctness of the red-black tree engine. \<open>rep T t\<close> says that the store of \<open>T\<close> holds the
  functional tree \<open>t\<close>: every node of \<open>t\<close> sits at its address with the right colour, key,
  value and links. The rotations, recolourings and the splice of a deletion are shown to be
  local rewritings of \<open>t\<close> (\<open>left_rotate_rep\<close>, \<open>color_rep\<close>, ...). On the functional tree, \<open>rb\<close>
  is the red-black invariant and \<open>ents\<close> the in-order list of records; the two fix-up loops
  restore \<open>rb\<close> and keep \<open>ents\<close>. The engine is then an interpretation of \<open>kv_engine\<close>.
\<close>

section \<open>Trees, contexts and their cells\<close>

datatype rt = E | N rbcolor rt ref string string rt

datatype frame = LF rbcolor ref string string rt | RF rbcolor rt ref string string

fun plug :: "frame list \<Rightarrow> rt \<Rightarrow> rt" where
  "plug [] t = t"
| "plug (LF c a k v s # C) t = plug C (N c t a k v s)"
| "plug (RF c s a k v # C) t = plug C (N c s a k v t)"

fun ptr :: "ref \<Rightarrow> rt \<Rightarrow> ref" where
  "ptr nl E = nl"
| "ptr nl (N c l a k v r) = a"

fun par :: "ref \<Rightarrow> frame list \<Rightarrow> ref" where
  "par nl [] = nl"
| "par nl (LF c a k v s # C) = a"
| "par nl (RF c s a k v # C) = a"

abbreviation mk :: "rbcolor \<Rightarrow> ref \<Rightarrow> ref \<Rightarrow> ref \<Rightarrow> string \<Rightarrow> string \<Rightarrow> rbtree_node" where
  "mk c l r p k v \<equiv> \<lparr>rcolor = Some c, rright = Some r, rleft = Some l, rparent = Some p,
     rkey = Some k, rvalue = Some v\<rparr>"

fun cells :: "ref \<Rightarrow> ref \<Rightarrow> rt \<Rightarrow> (ref \<times> rbtree_node) list" where
  "cells nl p E = []"
| "cells nl p (N c l a k v r) = (a, mk c (ptr nl l) (ptr nl r) p k v) # cells nl a l @ cells nl a r"

fun ccells :: "ref \<Rightarrow> ref \<Rightarrow> frame list \<Rightarrow> (ref \<times> rbtree_node) list" where
  "ccells nl q [] = []"
| "ccells nl q (LF c a k v s # C) =
     (a, mk c q (ptr nl s) (par nl C) k v) # cells nl a s @ ccells nl a C"
| "ccells nl q (RF c s a k v # C) =
     (a, mk c (ptr nl s) q (par nl C) k v) # cells nl a s @ ccells nl a C"

fun addrs :: "rt \<Rightarrow> ref list" where
  "addrs E = []"
| "addrs (N c l a k v r) = a # addrs l @ addrs r"

fun caddrs :: "frame list \<Rightarrow> ref list" where
  "caddrs [] = []"
| "caddrs (LF c a k v s # C) = a # addrs s @ caddrs C"
| "caddrs (RF c s a k v # C) = a # addrs s @ caddrs C"

definition holds :: "(ref \<rightharpoonup> rbtree_node) \<Rightarrow> (ref \<times> rbtree_node) list \<Rightarrow> bool" where
  "holds h cs \<longleftrightarrow> (\<forall>(a, n) \<in> set cs. h a = Some n)"

lemma holds_simps [simp]:
  "holds h []"
  "holds h ((a, n) # cs) \<longleftrightarrow> h a = Some n \<and> holds h cs"
  "holds h (cs @ ds) \<longleftrightarrow> holds h cs \<and> holds h ds"
  by (auto simp: holds_def)

lemma addrs_cells: "map fst (cells nl p t) = addrs t"
  by (induction t arbitrary: p) auto

lemma caddrs_ccells: "map fst (ccells nl q C) = caddrs C"
  by (induction C arbitrary: q rule: caddrs.induct) (auto simp: addrs_cells)

lemma holds_upd: "a \<notin> fst ` set cs \<Longrightarrow> holds (h(a := x)) cs = holds h cs"
  unfolding holds_def by (auto simp: image_iff split: prod.splits)

lemma holds_cong: "(\<And>a. a \<in> fst ` set cs \<Longrightarrow> h' a = h a) \<Longrightarrow> holds h' cs = holds h cs"
  unfolding holds_def by (rule ball_cong) force+

lemma fst_cells: "fst ` set (cells nl p t) = set (addrs t)"
  using arg_cong [OF addrs_cells, of set] by simp

lemma fst_ccells: "fst ` set (ccells nl q C) = set (caddrs C)"
  using arg_cong [OF caddrs_ccells, of set] by simp

lemma cells_upd [simp]: "a \<notin> set (addrs t) \<Longrightarrow> holds (h(a := x)) (cells nl p t) = holds h (cells nl p t)"
  using holds_upd [of a "cells nl p t"] addrs_cells [of nl p t] by (metis list.set_map)

lemma ccells_upd [simp]:
  "a \<notin> set (caddrs C) \<Longrightarrow> holds (h(a := x)) (ccells nl q C) = holds h (ccells nl q C)"
  using holds_upd [of a "ccells nl q C"] caddrs_ccells [of nl q C] by (metis list.set_map)

lemma holds_plug:
  "holds h (cells nl nl (plug C t)) \<longleftrightarrow> holds h (cells nl (par nl C) t) \<and> holds h (ccells nl (ptr nl t) C)"
  by (induction C t rule: plug.induct) auto

lemma addrs_plug: "set (addrs (plug C t)) = set (addrs t) \<union> set (caddrs C)"
  by (induction C t rule: plug.induct) auto

lemma distinct_plug: "distinct (addrs (plug C t)) \<longleftrightarrow> distinct (addrs t @ caddrs C)"
  by (induction C t rule: plug.induct) auto

lemma ptr_plug: "C \<noteq> [] \<Longrightarrow> ptr nl (plug C t) = par nl [last C]"
proof (induction C t rule: plug.induct)
  case (2 c a k v s C t)
  then show ?case by (cases C) auto
next
  case (3 c s a k v C t)
  then show ?case by (cases C) auto
qed simp

lemma ptr_in: "ptr nl t = a \<longleftrightarrow> (t = E \<and> a = nl) \<or> (\<exists>c l k v r. t = N c l a k v r)"
  by (cases t) auto

lemma ptr_neq [simp]: "a \<noteq> nl \<Longrightarrow> a \<notin> set (addrs t) \<Longrightarrow> ptr nl t \<noteq> a" "a \<noteq> nl \<Longrightarrow> a \<notin> set (addrs t) \<Longrightarrow> a \<noteq> ptr nl t"
  by (cases t; auto)+

lemma ptr_nl [simp]: "nl \<notin> set (addrs t) \<Longrightarrow> ptr nl t = nl \<longleftrightarrow> t = E"
  by (cases t) auto

definition rep :: "rbtree \<Rightarrow> rt \<Rightarrow> bool" where
  "rep T t \<longleftrightarrow> holds (rheap T) (cells (nil T) (nil T) t) \<and> distinct (addrs t) \<and>
     nil T \<notin> set (addrs t) \<and> root T = ptr (nil T) t \<and> rheap T NULL = None \<and>
     (\<exists>n. rheap T (nil T) = Some n \<and> rcolor n = Some BLACK)"

text \<open>What the surgery leaves alone: the sentinel and the set of allocated nodes.\<close>

definition keeps :: "rbtree \<Rightarrow> rbtree \<Rightarrow> bool" where
  "keeps T T' \<longleftrightarrow> nil T' = nil T \<and> rnext T' = rnext T \<and> dom (rheap T') = dom (rheap T) \<and>
     rheap T' (nil T) = rheap T (nil T)"

lemma keeps_refl [simp]: "keeps T T"
  by (simp add: keeps_def)

lemma keeps_trans [trans]: "keeps T T' \<Longrightarrow> keeps T' T'' \<Longrightarrow> keeps T T''"
  by (simp add: keeps_def)

lemma keeps_nil: "keeps T T' \<Longrightarrow> nil T' = nil T"
  by (simp add: keeps_def)

lemmas field_defs = get_color_def get_left_def get_right_def get_parent_def get_key_def
  get_value_def set_color_def set_left_def set_right_def set_parent_def write_node_def

lemma rep_plug:
  "rep T (plug C t) \<longleftrightarrow> holds (rheap T) (cells (nil T) (par (nil T) C) t) \<and>
     holds (rheap T) (ccells (nil T) (ptr (nil T) t) C) \<and> distinct (addrs t @ caddrs C) \<and>
     nil T \<notin> set (addrs t) \<and> nil T \<notin> set (caddrs C) \<and>
     root T = (if C = [] then ptr (nil T) t else par (nil T) [last C]) \<and> rheap T NULL = None \<and>
     (\<exists>n. rheap T (nil T) = Some n \<and> rcolor n = Some BLACK)"
  unfolding rep_def by (auto simp: holds_plug distinct_plug addrs_plug ptr_plug)

lemma rep_cells: "rep T (plug C t) \<Longrightarrow> holds (rheap T) (cells (nil T) (par (nil T) C) t)"
  by (simp add: rep_plug)

lemma color_rep:
  assumes "rep T (plug C (N c l a k v r))"
  shows "\<exists>T'. set_color T a c' = Some T' \<and> rep T' (plug C (N c' l a k v r)) \<and> keeps T T'"
  using assms by (auto simp: rep_plug keeps_def field_defs)

text \<open>An operation that writes only cells of \<open>S\<close>.\<close>

definition touches :: "ref set \<Rightarrow> rbtree \<Rightarrow> rbtree \<Rightarrow> bool" where
  "touches S T T' \<longleftrightarrow> nil T' = nil T \<and> rnext T' = rnext T \<and> dom (rheap T') = dom (rheap T) \<and>
     (\<forall>a. a \<notin> S \<longrightarrow> rheap T' a = rheap T a)"

lemma touches_cells: "touches S T T' \<Longrightarrow> S \<inter> set (addrs t) = {} \<Longrightarrow>
    holds (rheap T') (cells nl p t) = holds (rheap T) (cells nl p t)"
  by (rule holds_cong) (auto simp: touches_def fst_cells)

lemma touches_ccells: "touches S T T' \<Longrightarrow> S \<inter> set (caddrs C) = {} \<Longrightarrow>
    holds (rheap T') (ccells nl q C) = holds (rheap T) (ccells nl q C)"
  by (rule holds_cong) (auto simp: touches_def fst_ccells)

lemma reparent_ok:
  assumes "holds (rheap T) (cells (nil T) p b)" "nil T \<notin> set (addrs b)" "distinct (addrs b)"
  shows "\<exists>T'. reparent T (ptr (nil T) b) q = Some T' \<and> holds (rheap T') (cells (nil T) q b) \<and>
     touches (set (addrs b)) T T' \<and> root T' = root T"
  using assms by (cases b) (auto simp: reparent_def field_defs touches_def)

lemma relink_left_ok:
  assumes "holds (rheap T) (ccells (nil T) x C)" "nil T \<notin> set (caddrs C)" "distinct (caddrs C)"
    "x \<noteq> nil T" "x \<notin> set (caddrs C)"
  shows "\<exists>T'. relink_left_first T (par (nil T) C) x y = Some T' \<and> holds (rheap T') (ccells (nil T) y C) \<and>
     touches (set (caddrs C)) T T' \<and> root T' = (if C = [] then y else root T)"
  using assms
  by (cases C rule: caddrs.cases) (auto simp: relink_left_first_def field_defs touches_def)

lemma relink_right_ok:
  assumes "holds (rheap T) (ccells (nil T) x C)" "nil T \<notin> set (caddrs C)" "distinct (caddrs C)"
    "x \<noteq> nil T" "x \<notin> set (caddrs C)"
  shows "\<exists>T'. relink_right_first T (par (nil T) C) x y = Some T' \<and> holds (rheap T') (ccells (nil T) y C) \<and>
     touches (set (caddrs C)) T T' \<and> root T' = (if C = [] then y else root T)"
  using assms
  by (cases C rule: caddrs.cases) (auto simp: relink_right_first_def field_defs touches_def)

lemma left_rotate_rep:
  assumes "rep T (plug C (N cx a x kx vx (N cy b y ky vy c)))"
  shows "\<exists>T'. rbtree_left_rotate T x = Some T' \<and>
     rep T' (plug C (N cy (N cx a x kx vx b) y ky vy c)) \<and> keeps T T'"
proof -
  note f = assms [unfolded rep_plug, simplified]
  let ?nl = "nil T"
  have nn: "x \<noteq> NULL" "y \<noteq> NULL" using f by force+
  define T1 where "T1 = T\<lparr>rheap := (rheap T)(x \<mapsto> mk cx (ptr ?nl a) (ptr ?nl b) (par ?nl C) kx vx)\<rparr>"
  obtain T2 where T2: "reparent T1 (ptr ?nl b) x = Some T2" "holds (rheap T2) (cells ?nl x b)"
    "touches (set (addrs b)) T1 T2" "root T2 = root T"
    using reparent_ok [of T1 y b x] f by (auto simp: T1_def)
  define T3 where "T3 = T2\<lparr>rheap := (rheap T2)(y \<mapsto> mk cy (ptr ?nl b) (ptr ?nl c) (par ?nl C) ky vy)\<rparr>"
  have h2: "rheap T2 q = rheap T1 q" if "q \<notin> set (addrs b)" for q
    using T2(3) that by (simp add: touches_def)
  have x2: "rheap T2 x = Some (mk cx (ptr ?nl a) (ptr ?nl b) (par ?nl C) kx vx)"
    "rheap T2 y = Some (mk cy (ptr ?nl b) (ptr ?nl c) x ky vy)"
    using f h2 by (auto simp: T1_def)
  have n2: "nil T2 = ?nl" "rnext T2 = rnext T" "dom (rheap T2) = dom (rheap T1)"
    using T2(3) by (simp_all add: touches_def T1_def)
  have "holds (rheap T3) (ccells ?nl x C)"
    using touches_ccells [OF T2(3), of C ?nl x] f by (auto simp: T3_def T1_def)
  then obtain T4 where T4: "relink_left_first T3 (par ?nl C) x y = Some T4" "holds (rheap T4) (ccells ?nl y C)"
    "touches (set (caddrs C)) T3 T4" "root T4 = (if C = [] then y else root T)"
    using relink_left_ok [of T3 x C y] f n2 T2(4) by (auto simp: T3_def)
  have h4: "rheap T4 q = rheap T3 q" if "q \<notin> set (caddrs C)" for q
    using T4(3) that by (simp add: touches_def)
  have n4: "nil T4 = ?nl" "rnext T4 = rnext T" "dom (rheap T4) = dom (rheap T3)"
    using T4(3) n2 by (simp_all add: touches_def T3_def)
  define T5 where "T5 = T4\<lparr>rheap := (rheap T4)(y \<mapsto> mk cy x (ptr ?nl c) (par ?nl C) ky vy,
     x \<mapsto> mk cx (ptr ?nl a) (ptr ?nl b) y kx vx)\<rparr>"
  have x4: "rheap T4 x = Some (mk cx (ptr ?nl a) (ptr ?nl b) (par ?nl C) kx vx)"
    "rheap T4 y = Some (mk cy (ptr ?nl b) (ptr ?nl c) (par ?nl C) ky vy)"
    using f h2 h4 by (auto simp: T3_def T1_def)
  have "rbtree_left_rotate T x = Some T5"
    using f T2(1) T4(1) x4 x2 n2
    by (simp add: rbtree_left_rotate_def field_defs T1_def [symmetric] T3_def [symmetric] T5_def)
  moreover have "rep T5 (plug C (N cy (N cx a x kx vx b) y ky vy c))"
  proof -
    have ha: "holds (rheap T4) (cells ?nl x a)" "holds (rheap T4) (cells ?nl y c)"
      "holds (rheap T4) (cells ?nl x b)"
      using f T2(2) touches_cells [OF T4(3), of _ ?nl] touches_cells [OF T2(3), of _ ?nl]
      by (auto simp: T3_def T1_def Int_commute Int_Un_distrib)
    have hn: "rheap T4 ?nl = rheap T ?nl"
      using f h4 [of ?nl] h2 [of ?nl] by (auto simp: T3_def T1_def)
    have "NULL \<notin> dom (rheap T4)"
      using n4(3) n2(3) f nn by (simp add: T3_def T1_def domIff)
    then have "rheap T4 NULL = None" by (simp add: domIff)
    note hn = hn this
    show ?thesis
      unfolding rep_plug using f ha hn T4(2,4) n4 nn
      by (simp add: T5_def Int_commute Int_Un_distrib not_sym [of x y])
  qed
  moreover have "keeps T T5"
    using f n2 n4 h2 [of ?nl] h4 [of ?nl] by (auto simp: keeps_def T5_def T3_def T1_def)
  ultimately show ?thesis by blast
qed

lemma right_rotate_rep:
  assumes "rep T (plug C (N cy (N cx a x kx vx b) y ky vy c))"
  shows "\<exists>T'. rbtree_right_rotate T y = Some T' \<and>
     rep T' (plug C (N cx a x kx vx (N cy b y ky vy c))) \<and> keeps T T'"
proof -
  note f = assms [unfolded rep_plug, simplified]
  let ?nl = "nil T"
  have nn: "x \<noteq> NULL" "y \<noteq> NULL" using f by force+
  define T1 where "T1 = T\<lparr>rheap := (rheap T)(y \<mapsto> mk cy (ptr ?nl b) (ptr ?nl c) (par ?nl C) ky vy)\<rparr>"
  obtain T2 where T2: "reparent T1 (ptr ?nl b) y = Some T2" "holds (rheap T2) (cells ?nl y b)"
    "touches (set (addrs b)) T1 T2" "root T2 = root T"
    using reparent_ok [of T1 x b y] f by (auto simp: T1_def)
  define T3 where "T3 = T2\<lparr>rheap := (rheap T2)(x \<mapsto> mk cx (ptr ?nl a) (ptr ?nl b) (par ?nl C) kx vx)\<rparr>"
  have h2: "rheap T2 q = rheap T1 q" if "q \<notin> set (addrs b)" for q
    using T2(3) that by (simp add: touches_def)
  have x2: "rheap T2 y = Some (mk cy (ptr ?nl b) (ptr ?nl c) (par ?nl C) ky vy)"
    "rheap T2 x = Some (mk cx (ptr ?nl a) (ptr ?nl b) y kx vx)"
    using f h2 by (auto simp: T1_def)
  have n2: "nil T2 = ?nl" "rnext T2 = rnext T" "dom (rheap T2) = dom (rheap T1)"
    using T2(3) by (simp_all add: touches_def T1_def)
  have "holds (rheap T3) (ccells ?nl y C)"
    using touches_ccells [OF T2(3), of C ?nl y] f by (auto simp: T3_def T1_def)
  then obtain T4 where T4: "relink_right_first T3 (par ?nl C) y x = Some T4" "holds (rheap T4) (ccells ?nl x C)"
    "touches (set (caddrs C)) T3 T4" "root T4 = (if C = [] then x else root T)"
    using relink_right_ok [of T3 y C x] f n2 T2(4) by (auto simp: T3_def)
  have h4: "rheap T4 q = rheap T3 q" if "q \<notin> set (caddrs C)" for q
    using T4(3) that by (simp add: touches_def)
  have n4: "nil T4 = ?nl" "rnext T4 = rnext T" "dom (rheap T4) = dom (rheap T3)"
    using T4(3) n2 by (simp_all add: touches_def T3_def)
  define T5 where "T5 = T4\<lparr>rheap := (rheap T4)(x \<mapsto> mk cx (ptr ?nl a) y (par ?nl C) kx vx,
     y \<mapsto> mk cy (ptr ?nl b) (ptr ?nl c) x ky vy)\<rparr>"
  have x4: "rheap T4 x = Some (mk cx (ptr ?nl a) (ptr ?nl b) (par ?nl C) kx vx)"
    "rheap T4 y = Some (mk cy (ptr ?nl b) (ptr ?nl c) (par ?nl C) ky vy)"
    using f h2 h4 by (auto simp: T3_def T1_def)
  have "rbtree_right_rotate T y = Some T5"
    using f T2(1) T4(1) x4 x2 n2
    by (simp add: rbtree_right_rotate_def field_defs T1_def [symmetric] T3_def [symmetric] T5_def)
  moreover have "rep T5 (plug C (N cx a x kx vx (N cy b y ky vy c)))"
  proof -
    have ha: "holds (rheap T4) (cells ?nl x a)" "holds (rheap T4) (cells ?nl y c)"
      "holds (rheap T4) (cells ?nl y b)"
      using f T2(2) touches_cells [OF T4(3), of _ ?nl] touches_cells [OF T2(3), of _ ?nl]
      by (auto simp: T3_def T1_def Int_commute Int_Un_distrib)
    have hn: "rheap T4 ?nl = rheap T ?nl"
      using f h4 [of ?nl] h2 [of ?nl] by (auto simp: T3_def T1_def)
    have "NULL \<notin> dom (rheap T4)"
      using n4(3) n2(3) f nn by (simp add: T3_def T1_def domIff)
    then have "rheap T4 NULL = None" by (simp add: domIff)
    note hn = hn this
    show ?thesis
      unfolding rep_plug using f ha hn T4(2,4) n4 nn
      by (simp add: T5_def Int_commute Int_Un_distrib not_sym [of x y] not_sym [of y x])
  qed
  moreover have "keeps T T5"
    using f n2 n4 h2 [of ?nl] h4 [of ?nl] by (auto simp: keeps_def T5_def T3_def T1_def)
  ultimately show ?thesis by blast
qed

section \<open>The red-black invariant and the records of a tree\<close>

fun rcol :: "rt \<Rightarrow> rbcolor" where
  "rcol E = BLACK"
| "rcol (N c l a k v r) = c"

fun bh :: "rt \<Rightarrow> nat" where
  "bh E = 0"
| "bh (N c l a k v r) = bh l + (if c = BLACK then 1 else 0)"

fun invh :: "rt \<Rightarrow> bool" where
  "invh E = True"
| "invh (N c l a k v r) = (bh l = bh r \<and> invh l \<and> invh r)"

fun invc :: "rt \<Rightarrow> bool" where
  "invc E = True"
| "invc (N c l a k v r) = ((c = RED \<longrightarrow> rcol l = BLACK \<and> rcol r = BLACK) \<and> invc l \<and> invc r)"

definition rb :: "rt \<Rightarrow> bool" where
  "rb t \<longleftrightarrow> invh t \<and> invc t \<and> rcol t = BLACK"

text \<open>A context that completes a subtree of black height \<open>h\<close>; \<open>ccol\<close> is the colour of the
  hole's parent (the sentinel is black).\<close>

fun ccol :: "frame list \<Rightarrow> rbcolor" where
  "ccol [] = BLACK"
| "ccol (LF c a k v s # C) = c"
| "ccol (RF c s a k v # C) = c"

definition sib_ok :: "rbcolor \<Rightarrow> rt \<Rightarrow> frame list \<Rightarrow> nat \<Rightarrow> bool" where
  "sib_ok c s C h \<longleftrightarrow> (c = RED \<longrightarrow> rcol s = BLACK \<and> C \<noteq> [] \<and> ccol C = BLACK) \<and>
     bh s = h \<and> invh s \<and> invc s"

fun cinv :: "frame list \<Rightarrow> nat \<Rightarrow> bool" where
  "cinv [] h = True"
| "cinv (LF c a k v s # C) h = (sib_ok c s C h \<and> cinv C (h + (if c = BLACK then 1 else 0)))"
| "cinv (RF c s a k v # C) h = (sib_ok c s C h \<and> cinv C (h + (if c = BLACK then 1 else 0)))"

lemma rb_plug:
  "rb (plug C t) \<longleftrightarrow> cinv C (bh t) \<and> invh t \<and> invc t \<and> (rcol t = RED \<longrightarrow> C \<noteq> [] \<and> ccol C = BLACK)"
proof (induction C t rule: plug.induct)
  case (1 t)
  show ?case by (cases "rcol t") (auto simp: rb_def)
next
  case (2 c a k v s C t)
  then show ?case by (cases c; cases "rcol t") (auto simp: sib_ok_def)
next
  case (3 c s a k v C t)
  then show ?case by (cases c; cases "rcol t") (auto simp: sib_ok_def)
qed

fun ents :: "rt \<Rightarrow> (string \<times> string) list" where
  "ents E = []"
| "ents (N c l a k v r) = ents l @ (k, v) # ents r"

fun lents :: "frame list \<Rightarrow> (string \<times> string) list" where
  "lents [] = []"
| "lents (LF c a k v s # C) = lents C"
| "lents (RF c s a k v # C) = lents C @ ents s @ [(k, v)]"

fun rents :: "frame list \<Rightarrow> (string \<times> string) list" where
  "rents [] = []"
| "rents (LF c a k v s # C) = (k, v) # ents s @ rents C"
| "rents (RF c s a k v # C) = rents C"

lemma ents_plug: "ents (plug C t) = lents C @ ents t @ rents C"
  by (induction C t rule: plug.induct) auto

text \<open>Two trees with the same records in the same order, on the same nodes.\<close>

definition same_recs :: "rt \<Rightarrow> rt \<Rightarrow> bool" where
  "same_recs t t' \<longleftrightarrow> ents t' = ents t \<and> set (addrs t') = set (addrs t)"

lemma same_recs_trans: "same_recs t t' \<Longrightarrow> same_recs t' t'' \<Longrightarrow> same_recs t t''"
  by (simp add: same_recs_def)

lemma same_recs_plug:
  "same_recs (plug C t) (plug C' t') \<longleftrightarrow> lents C' @ ents t' @ rents C' = lents C @ ents t @ rents C \<and>
     set (addrs t') \<union> set (caddrs C') = set (addrs t) \<union> set (caddrs C)"
  by (simp add: same_recs_def ents_plug addrs_plug)

section \<open>Insertion\<close>

text \<open>Reading the node at the focus, and its parent.\<close>

lemma focus_read:
  assumes "rep T (plug C (N c l a k v r))"
  shows "rheap T a = Some (mk c (ptr (nil T) l) (ptr (nil T) r) (par (nil T) C) k v)"
  using rep_cells [OF assms] by simp

lemma nil_color: "rep T t \<Longrightarrow> get_color T (nil T) = Some BLACK"
  by (auto simp: rep_def get_color_def)

lemma parent_color:
  assumes "rep T (plug C t)"
  shows "get_color T (par (nil T) C) = Some (ccol C)"
  using assms nil_color [OF assms] by (cases C rule: caddrs.cases) (auto simp: rep_plug get_color_def)

lemma get_focus:
  assumes "rep T (plug C (N c l a k v r))"
  shows "get_color T a = Some c" "get_left T a = Some (ptr (nil T) l)"
    "get_right T a = Some (ptr (nil T) r)" "get_parent T a = Some (par (nil T) C)"
    "get_key T a = Some k" "get_value T a = Some v" "a \<noteq> nil T" "a \<noteq> NULL"
  using focus_read [OF assms] assms by (auto simp: field_defs rep_plug)

lemma get_color_ptr: "rep T (plug C t) \<Longrightarrow> get_color T (ptr (nil T) t) = Some (rcol t)"
  by (cases t) (auto simp: rep_plug get_color_def)

fun blacken :: "rt \<Rightarrow> rt" where
  "blacken E = E"
| "blacken (N c l a k v r) = N BLACK l a k v r"

lemma blacken_rep:
  assumes "rep T (plug C t)"
  shows "\<exists>T'. set_color T (ptr (nil T) t) BLACK = Some T' \<and> rep T' (plug C (blacken t)) \<and> keeps T T'"
proof (cases t)
  case E
  then obtain n where n: "rheap T (nil T) = Some n" "rcolor n = Some BLACK"
    using assms by (auto simp: rep_plug)
  then have "n\<lparr>rcolor := Some BLACK\<rparr> = n" by (cases n) simp
  with n have "set_color T (nil T) BLACK = Some T"
    by (simp add: field_defs fun_upd_idem)
  with E assms show ?thesis by simp
next
  case (N c l a k v r)
  with color_rep assms show ?thesis by simp
qed

lemma same_blacken [simp]: "same_recs t (blacken t)"
  by (cases t) (auto simp: same_recs_def)

lemma blacken_id: "rcol t = BLACK \<Longrightarrow> blacken t = t"
  by (cases t) auto

text \<open>One iteration of the insertion loop: \<open>z\<close> and its parent \<open>p\<close> are red, the grandparent is
  \<open>g\<close>. A red uncle is recoloured; a black uncle leads to one or two rotations.\<close>

lemma insert_red_uncle_left:
  assumes rep: "rep T (plug C (N cg (N RED pl p kp vp pr) g kg vg (N RED ul u ku vu ur)))"
  shows "\<exists>T'. insert_fixup_step T z p = Some (T', g) \<and> keeps T T' \<and>
     rep T' (plug C (N RED (N BLACK pl p kp vp pr) g kg vg (N BLACK ul u ku vu ur)))"
proof -
  let ?u = "N RED ul u ku vu ur" and ?p = "N BLACK pl p kp vp pr"
  have 1: "rep T (plug (LF cg g kg vg ?u # C) (N RED pl p kp vp pr))" using rep by simp
  have 2: "rep T (plug (RF cg (N RED pl p kp vp pr) g kg vg # C) ?u)" using rep by simp
  note g = get_focus [OF rep] get_focus [OF 1] get_focus [OF 2]
  obtain T1 where T1: "set_color T p BLACK = Some T1" "keeps T T1"
    "rep T1 (plug (RF cg ?p g kg vg # C) ?u)"
    using color_rep [OF 1, of BLACK] by auto
  obtain T2 where T2: "set_color T1 u BLACK = Some T2" "keeps T1 T2"
    "rep T2 (plug C (N cg ?p g kg vg (N BLACK ul u ku vu ur)))"
    using color_rep [OF T1(3), of BLACK] by auto
  obtain T3 where T3: "set_color T2 g RED = Some T3" "keeps T2 T3"
    "rep T3 (plug C (N RED ?p g kg vg (N BLACK ul u ku vu ur)))"
    using color_rep [OF T2(3), of RED] by auto
  have "keeps T T3" using T1(2) T2(2) T3(2) by (blast intro: keeps_trans)
  with T1(1) T2(1) T3(1,3) g show ?thesis by (simp add: insert_fixup_step_def)
qed

lemma insert_red_uncle_right:
  assumes rep: "rep T (plug C (N cg (N RED ul u ku vu ur) g kg vg (N RED pl p kp vp pr)))"
  shows "\<exists>T'. insert_fixup_step T z p = Some (T', g) \<and> keeps T T' \<and>
     rep T' (plug C (N RED (N BLACK ul u ku vu ur) g kg vg (N BLACK pl p kp vp pr)))"
proof -
  let ?u = "N RED ul u ku vu ur" and ?p = "N BLACK pl p kp vp pr"
  have 1: "rep T (plug (RF cg ?u g kg vg # C) (N RED pl p kp vp pr))" using rep by simp
  have 2: "rep T (plug (LF cg g kg vg (N RED pl p kp vp pr) # C) ?u)" using rep by simp
  note g = get_focus [OF rep] get_focus [OF 1] get_focus [OF 2]
  have "u \<noteq> p" using rep by (simp add: rep_plug)
  obtain T1 where T1: "set_color T p BLACK = Some T1" "keeps T T1"
    "rep T1 (plug (LF cg g kg vg ?p # C) ?u)"
    using color_rep [OF 1, of BLACK] by auto
  obtain T2 where T2: "set_color T1 u BLACK = Some T2" "keeps T1 T2"
    "rep T2 (plug C (N cg (N BLACK ul u ku vu ur) g kg vg ?p))"
    using color_rep [OF T1(3), of BLACK] by auto
  obtain T3 where T3: "set_color T2 g RED = Some T3" "keeps T2 T3"
    "rep T3 (plug C (N RED (N BLACK ul u ku vu ur) g kg vg ?p))"
    using color_rep [OF T2(3), of RED] by auto
  have "keeps T T3" using T1(2) T2(2) T3(2) by (blast intro: keeps_trans)
  with T1(1) T2(1) T3(1,3) g \<open>u \<noteq> p\<close> show ?thesis by (simp add: insert_fixup_step_def)
qed

lemma insert_tail_left:
  assumes rep: "rep T (plug C (N cg (N cp (N cz a z kz vz b) p kp vp c) g kg vg u))"
  shows "\<exists>T1 T2 T'. get_parent T z = Some p \<and> set_color T p BLACK = Some T1 \<and>
     get_parent T1 p = Some g \<and> set_color T1 g RED = Some T2 \<and> rbtree_right_rotate T2 g = Some T' \<and>
     keeps T T' \<and> rep T' (plug C (N BLACK (N cz a z kz vz b) p kp vp (N RED c g kg vg u)))"
proof -
  let ?z = "N cz a z kz vz b"
  have 0: "rep T (plug (LF cp p kp vp c # LF cg g kg vg u # C) ?z)" using rep by simp
  have 1: "rep T (plug (LF cg g kg vg u # C) (N cp ?z p kp vp c))" using rep by simp
  obtain T1 where T1: "set_color T p BLACK = Some T1" "keeps T T1"
    "rep T1 (plug (LF cg g kg vg u # C) (N BLACK ?z p kp vp c))"
    using color_rep [OF 1, of BLACK] by auto
  have 2: "rep T1 (plug C (N cg (N BLACK ?z p kp vp c) g kg vg u))" using T1(3) by simp
  obtain T2 where T2: "set_color T1 g RED = Some T2" "keeps T1 T2"
    "rep T2 (plug C (N RED (N BLACK ?z p kp vp c) g kg vg u))"
    using color_rep [OF 2, of RED] by auto
  obtain T3 where T3: "rbtree_right_rotate T2 g = Some T3" "keeps T2 T3"
    "rep T3 (plug C (N BLACK ?z p kp vp (N RED c g kg vg u)))"
    using right_rotate_rep [OF T2(3)] by auto
  have "keeps T T3" using T1(2) T2(2) T3(2) by (blast intro: keeps_trans)
  then show ?thesis using get_focus(4) [OF 0] get_focus(4) [OF T1(3)] T1(1) T2(1) T3(1,3) by auto
qed

lemma insert_tail_right:
  assumes rep: "rep T (plug C (N cg u g kg vg (N cp c p kp vp (N cz a z kz vz b))))"
  shows "\<exists>T1 T2 T'. get_parent T z = Some p \<and> set_color T p BLACK = Some T1 \<and>
     get_parent T1 p = Some g \<and> set_color T1 g RED = Some T2 \<and> rbtree_left_rotate T2 g = Some T' \<and>
     keeps T T' \<and> rep T' (plug C (N BLACK (N RED u g kg vg c) p kp vp (N cz a z kz vz b)))"
proof -
  let ?z = "N cz a z kz vz b"
  have 0: "rep T (plug (RF cp c p kp vp # RF cg u g kg vg # C) ?z)" using rep by simp
  have 1: "rep T (plug (RF cg u g kg vg # C) (N cp c p kp vp ?z))" using rep by simp
  obtain T1 where T1: "set_color T p BLACK = Some T1" "keeps T T1"
    "rep T1 (plug (RF cg u g kg vg # C) (N BLACK c p kp vp ?z))"
    using color_rep [OF 1, of BLACK] by auto
  have 2: "rep T1 (plug C (N cg u g kg vg (N BLACK c p kp vp ?z)))" using T1(3) by simp
  obtain T2 where T2: "set_color T1 g RED = Some T2" "keeps T1 T2"
    "rep T2 (plug C (N RED u g kg vg (N BLACK c p kp vp ?z)))"
    using color_rep [OF 2, of RED] by auto
  obtain T3 where T3: "rbtree_left_rotate T2 g = Some T3" "keeps T2 T3"
    "rep T3 (plug C (N BLACK (N RED u g kg vg c) p kp vp ?z))"
    using left_rotate_rep [OF T2(3)] by auto
  have "keeps T T3" using T1(2) T2(2) T3(2) by (blast intro: keeps_trans)
  then show ?thesis using get_focus(4) [OF 0] get_focus(4) [OF T1(3)] T1(1) T2(1) T3(1,3) by auto
qed

lemma insert_black_uncle_left:
  assumes rep: "rep T (plug C (N cg (N RED (N RED a z kz vz b) p kp vp c) g kg vg u))" and u: "rcol u = BLACK"
  shows "\<exists>T'. insert_fixup_step T z p = Some (T', z) \<and> keeps T T' \<and>
     rep T' (plug C (N BLACK (N RED a z kz vz b) p kp vp (N RED c g kg vg u)))"
proof -
  have 1: "rep T (plug (LF cg g kg vg u # C) (N RED (N RED a z kz vz b) p kp vp c))" using rep by simp
  have 2: "rep T (plug (RF cg (N RED (N RED a z kz vz b) p kp vp c) g kg vg # C) u)" using rep by simp
  have "z \<noteq> ptr (nil T) c" by (rule ptr_neq(2)) (use rep in \<open>auto simp: rep_plug\<close>)
  then show ?thesis
    using insert_tail_left [OF rep] get_focus [OF rep] get_focus [OF 1] get_color_ptr [OF 2] u
    by (auto simp: insert_fixup_step_def)
qed

lemma insert_black_uncle_left_inner:
  assumes rep: "rep T (plug C (N cg (N RED a p kp vp (N RED b z kz vz c)) g kg vg u))" and u: "rcol u = BLACK"
  shows "\<exists>T'. insert_fixup_step T z p = Some (T', p) \<and> keeps T T' \<and>
     rep T' (plug C (N BLACK (N RED a p kp vp b) z kz vz (N RED c g kg vg u)))"
proof -
  have 1: "rep T (plug (LF cg g kg vg u # C) (N RED a p kp vp (N RED b z kz vz c)))" using rep by simp
  have 2: "rep T (plug (RF cg (N RED a p kp vp (N RED b z kz vz c)) g kg vg # C) u)" using rep by simp
  obtain T1 where T1: "rbtree_left_rotate T p = Some T1" "keeps T T1"
    "rep T1 (plug C (N cg (N RED (N RED a p kp vp b) z kz vz c) g kg vg u))"
    using left_rotate_rep [OF 1] by auto
  show ?thesis
    using insert_tail_left [OF T1(3)] T1(1,2) get_focus [OF rep] get_focus [OF 1] get_color_ptr [OF 2] u
    by (auto simp: insert_fixup_step_def intro: keeps_trans)
qed

lemma insert_black_uncle_right:
  assumes rep: "rep T (plug C (N cg u g kg vg (N RED c p kp vp (N RED a z kz vz b))))" and u: "rcol u = BLACK"
  shows "\<exists>T'. insert_fixup_step T z p = Some (T', z) \<and> keeps T T' \<and>
     rep T' (plug C (N BLACK (N RED u g kg vg c) p kp vp (N RED a z kz vz b)))"
proof -
  have 1: "rep T (plug (RF cg u g kg vg # C) (N RED c p kp vp (N RED a z kz vz b)))" using rep by simp
  have 2: "rep T (plug (LF cg g kg vg (N RED c p kp vp (N RED a z kz vz b)) # C) u)" using rep by simp
  have "z \<noteq> ptr (nil T) c" "p \<noteq> ptr (nil T) u"
    by (rule ptr_neq(2); use rep in \<open>auto simp: rep_plug\<close>)+
  then show ?thesis
    using insert_tail_right [OF rep] get_focus [OF rep] get_focus [OF 1] get_color_ptr [OF 2] u
    by (auto simp: insert_fixup_step_def)
qed

lemma insert_black_uncle_right_inner:
  assumes rep: "rep T (plug C (N cg u g kg vg (N RED (N RED a z kz vz b) p kp vp c)))" and u: "rcol u = BLACK"
  shows "\<exists>T'. insert_fixup_step T z p = Some (T', p) \<and> keeps T T' \<and>
     rep T' (plug C (N BLACK (N RED u g kg vg a) z kz vz (N RED b p kp vp c)))"
proof -
  have 1: "rep T (plug (RF cg u g kg vg # C) (N RED (N RED a z kz vz b) p kp vp c))" using rep by simp
  have 2: "rep T (plug (LF cg g kg vg (N RED (N RED a z kz vz b) p kp vp c) # C) u)" using rep by simp
  have "p \<noteq> ptr (nil T) u" by (rule ptr_neq(2)) (use rep in \<open>auto simp: rep_plug\<close>)
  obtain T1 where T1: "rbtree_right_rotate T p = Some T1" "keeps T T1"
    "rep T1 (plug C (N cg u g kg vg (N RED a z kz vz (N RED b p kp vp c))))"
    using right_rotate_rep [OF 1] by auto
  show ?thesis
    using insert_tail_right [OF T1(3)] T1(1,2) get_focus [OF rep] get_focus [OF 1] get_color_ptr [OF 2] u
      \<open>p \<noteq> ptr (nil T) u\<close>
    by (auto simp: insert_fixup_step_def intro: keeps_trans)
qed

text \<open>The loop: each iteration shortens the path to the root, and restores the invariant when it
  stops.\<close>

text \<open>A step of the fixup at the red node \<open>t\<close> with a red parent \<open>p\<close>: it returns a position closer to
  the root at which the invariants hold again, with the same records in the tree.\<close>

definition insert_moves :: "rbtree \<Rightarrow> frame list \<Rightarrow> ref \<Rightarrow> ref \<Rightarrow> rt \<Rightarrow> bool" where
  "insert_moves T C z p t \<longleftrightarrow> (\<exists>T' z' C' t'. insert_fixup_step T z p = Some (T', z') \<and> keeps T T' \<and>
     rep T' (plug C' t') \<and> length C' < length C \<and> rcol t' = RED \<and> ptr (nil T) t' = z' \<and>
     cinv C' (bh t') \<and> invh t' \<and> invc t' \<and> same_recs (plug C t) (plug C' t'))"

lemma insert_movesI:
  "insert_fixup_step T z p = Some (T', z') \<Longrightarrow> keeps T T' \<and> rep T' (plug C' t') \<and> length C' < length C \<and> rcol t' = RED \<and>
     ptr (nil T) t' = z' \<and> cinv C' (bh t') \<and> invh t' \<and> invc t' \<and> same_recs (plug C t) (plug C' t') \<Longrightarrow> insert_moves T C z p t"
  unfolding insert_moves_def by blast

lemma insert_step_left_left:
  assumes rep: "rep T (plug C (N RED l z k v r))"
    and inv: "cinv C (bh l)" "invh (N RED l z k v r)" "invc (N RED l z k v r)"
    and C: "C = LF RED p kp vp s # LF cg g kg vg u # B"
  shows "insert_moves T C z p (N RED l z k v r)"
proof -
  let ?z = "N RED l z k v r"
  have rep': "rep T (plug B (N cg (N RED ?z p kp vp s) g kg vg u))" using rep C by simp
  show ?thesis
  proof (cases "rcol u")
    case RED
    then obtain ul ua ku vu ur where u: "u = N RED ul ua ku vu ur" by (cases u) auto
    from insert_red_uncle_left [OF rep' [unfolded u], of z] obtain T' where
      T': "insert_fixup_step T z p = Some (T', g)" "keeps T T'" "rep T' (plug B (N RED (N BLACK ?z p kp vp s) g kg vg (N BLACK ul ua ku vu ur)))" by blast
    then show ?thesis using inv C u
      by (intro insert_movesI [OF T'(1), of B "(N RED (N BLACK ?z p kp vp s) g kg vg (N BLACK ul ua ku vu ur))"]) (auto simp: sib_ok_def same_recs_plug)
  next
    case BLACK
    from insert_black_uncle_left [OF rep' BLACK] obtain T' where
      T': "insert_fixup_step T z p = Some (T', z)" "keeps T T'" "rep T' (plug B (N BLACK ?z p kp vp (N RED s g kg vg u)))" by blast
    then show ?thesis using inv C BLACK
      by (intro insert_movesI [OF T'(1), of "LF BLACK p kp vp (N RED s g kg vg u) # B" "?z"]) (auto simp: sib_ok_def same_recs_plug)
  qed
qed

lemma insert_step_left_right:
  assumes rep: "rep T (plug C (N RED l z k v r))"
    and inv: "cinv C (bh l)" "invh (N RED l z k v r)" "invc (N RED l z k v r)"
    and C: "C = LF RED p kp vp s # RF cg u g kg vg # B"
  shows "insert_moves T C z p (N RED l z k v r)"
proof -
  let ?z = "N RED l z k v r"
  have rep': "rep T (plug B (N cg u g kg vg (N RED ?z p kp vp s)))" using rep C by simp
  show ?thesis
  proof (cases "rcol u")
    case RED
    then obtain ul ua ku vu ur where u: "u = N RED ul ua ku vu ur" by (cases u) auto
    from insert_red_uncle_right [OF rep' [unfolded u], of z] obtain T' where
      T': "insert_fixup_step T z p = Some (T', g)" "keeps T T'" "rep T' (plug B (N RED (N BLACK ul ua ku vu ur) g kg vg (N BLACK ?z p kp vp s)))" by blast
    then show ?thesis using inv C u
      by (intro insert_movesI [OF T'(1), of B "(N RED (N BLACK ul ua ku vu ur) g kg vg (N BLACK ?z p kp vp s))"]) (auto simp: sib_ok_def same_recs_plug)
  next
    case BLACK
    from insert_black_uncle_right_inner [OF rep' BLACK] obtain T' where
      T': "insert_fixup_step T z p = Some (T', p)" "keeps T T'" "rep T' (plug B (N BLACK (N RED u g kg vg l) z k v (N RED r p kp vp s)))" by blast
    then show ?thesis using inv C BLACK
      by (intro insert_movesI [OF T'(1), of "RF BLACK (N RED u g kg vg l) z k v # B" "N RED r p kp vp s"]) (auto simp: sib_ok_def same_recs_plug)
  qed
qed

lemma insert_step_right_left:
  assumes rep: "rep T (plug C (N RED l z k v r))"
    and inv: "cinv C (bh l)" "invh (N RED l z k v r)" "invc (N RED l z k v r)"
    and C: "C = RF RED s p kp vp # LF cg g kg vg u # B"
  shows "insert_moves T C z p (N RED l z k v r)"
proof -
  let ?z = "N RED l z k v r"
  have rep': "rep T (plug B (N cg (N RED s p kp vp ?z) g kg vg u))" using rep C by simp
  show ?thesis
  proof (cases "rcol u")
    case RED
    then obtain ul ua ku vu ur where u: "u = N RED ul ua ku vu ur" by (cases u) auto
    from insert_red_uncle_left [OF rep' [unfolded u], of z] obtain T' where
      T': "insert_fixup_step T z p = Some (T', g)" "keeps T T'" "rep T' (plug B (N RED (N BLACK s p kp vp ?z) g kg vg (N BLACK ul ua ku vu ur)))" by blast
    then show ?thesis using inv C u
      by (intro insert_movesI [OF T'(1), of B "(N RED (N BLACK s p kp vp ?z) g kg vg (N BLACK ul ua ku vu ur))"]) (auto simp: sib_ok_def same_recs_plug)
  next
    case BLACK
    from insert_black_uncle_left_inner [OF rep' BLACK] obtain T' where
      T': "insert_fixup_step T z p = Some (T', p)" "keeps T T'" "rep T' (plug B (N BLACK (N RED s p kp vp l) z k v (N RED r g kg vg u)))" by blast
    then show ?thesis using inv C BLACK
      by (intro insert_movesI [OF T'(1), of "LF BLACK z k v (N RED r g kg vg u) # B" "N RED s p kp vp l"]) (auto simp: sib_ok_def same_recs_plug)
  qed
qed

lemma insert_step_right_right:
  assumes rep: "rep T (plug C (N RED l z k v r))"
    and inv: "cinv C (bh l)" "invh (N RED l z k v r)" "invc (N RED l z k v r)"
    and C: "C = RF RED s p kp vp # RF cg u g kg vg # B"
  shows "insert_moves T C z p (N RED l z k v r)"
proof -
  let ?z = "N RED l z k v r"
  have rep': "rep T (plug B (N cg u g kg vg (N RED s p kp vp ?z)))" using rep C by simp
  show ?thesis
  proof (cases "rcol u")
    case RED
    then obtain ul ua ku vu ur where u: "u = N RED ul ua ku vu ur" by (cases u) auto
    from insert_red_uncle_right [OF rep' [unfolded u], of z] obtain T' where
      T': "insert_fixup_step T z p = Some (T', g)" "keeps T T'" "rep T' (plug B (N RED (N BLACK ul ua ku vu ur) g kg vg (N BLACK s p kp vp ?z)))" by blast
    then show ?thesis using inv C u
      by (intro insert_movesI [OF T'(1), of B "(N RED (N BLACK ul ua ku vu ur) g kg vg (N BLACK s p kp vp ?z))"]) (auto simp: sib_ok_def same_recs_plug)
  next
    case BLACK
    from insert_black_uncle_right [OF rep' BLACK] obtain T' where
      T': "insert_fixup_step T z p = Some (T', z)" "keeps T T'" "rep T' (plug B (N BLACK (N RED u g kg vg s) p kp vp ?z))" by blast
    then show ?thesis using inv C BLACK
      by (intro insert_movesI [OF T'(1), of "RF BLACK (N RED u g kg vg s) p kp vp # B" "?z"]) (auto simp: sib_ok_def same_recs_plug)
  qed
qed

lemma insert_step_correct:
  assumes rep: "rep T (plug C (N RED l z k v r))" and red: "ccol C = RED"
    and inv: "cinv C (bh l)" "invh (N RED l z k v r)" "invc (N RED l z k v r)"
  shows "\<exists>T' C' l' z' k' v' r'. insert_fixup_step T z (par (nil T) C) = Some (T', z') \<and> keeps T T' \<and>
     rep T' (plug C' (N RED l' z' k' v' r')) \<and> length C' < length C \<and>
     cinv C' (bh l') \<and> invh (N RED l' z' k' v' r') \<and> invc (N RED l' z' k' v' r') \<and>
     same_recs (plug C (N RED l z k v r)) (plug C' (N RED l' z' k' v' r'))"
proof -
  have "insert_moves T C z (par (nil T) C) (N RED l z k v r)"
  proof (cases C rule: caddrs.cases)
    case (2 c p kp vp s D)
    then show ?thesis using red inv insert_step_left_left [OF rep inv] insert_step_left_right [OF rep inv]
      by (cases D rule: caddrs.cases) (auto simp: sib_ok_def)
  next
    case (3 c s p kp vp D)
    then show ?thesis using red inv insert_step_right_left [OF rep inv] insert_step_right_right [OF rep inv]
      by (cases D rule: caddrs.cases) (auto simp: sib_ok_def)
  qed (use red in simp)
  then obtain T' z' C' t' where 1: "insert_fixup_step T z (par (nil T) C) = Some (T', z')" "keeps T T'" "rep T' (plug C' t')"
      "length C' < length C" "rcol t' = RED" "ptr (nil T) t' = z'" "cinv C' (bh t')" "invh t'" "invc t'"
      "same_recs (plug C (N RED l z k v r)) (plug C' t')"
    unfolding insert_moves_def by blast
  then obtain l' k' v' r' where "t' = N RED l' z' k' v' r'" by (cases t') auto
  note t' = this
  show ?thesis
    by (rule exI [of _ T'], rule exI [of _ C'], rule exI [of _ l'], rule exI [of _ z'], rule exI [of _ k'],
        rule exI [of _ v'], rule exI [of _ r']) (use 1 t' in simp)
qed

lemma insert_fixup_correct:
  assumes "rep T (plug C (N RED l z k v r))" "cinv C (bh l)" "invh (N RED l z k v r)"
    "invc (N RED l z k v r)"
  shows "\<exists>T' t'. rbtree_insert_fixup T z = Some T' \<and> rep T' t' \<and> rb t' \<and> keeps T T' \<and>
     same_recs (plug C (N RED l z k v r)) t'"
  using assms
proof (induction "length C" arbitrary: T C l z k v r rule: less_induct)
  case less
  note g = get_focus [OF less.prems(1)] and pc = parent_color [OF less.prems(1)]
  show ?case
  proof (cases "ccol C")
    case RED
    from insert_step_correct [OF less.prems(1) RED less.prems(2-4)] obtain T1 C1 l1 z1 k1 v1 r1 where
      1: "insert_fixup_step T z (par (nil T) C) = Some (T1, z1)" "keeps T T1"
      "rep T1 (plug C1 (N RED l1 z1 k1 v1 r1))" "length C1 < length C" "cinv C1 (bh l1)"
      "invh (N RED l1 z1 k1 v1 r1)" "invc (N RED l1 z1 k1 v1 r1)"
      "same_recs (plug C (N RED l z k v r)) (plug C1 (N RED l1 z1 k1 v1 r1))" by blast
    from less.hyps [OF 1(4,3,5,6,7)] obtain T' t' where
      "rbtree_insert_fixup T1 z1 = Some T'" "rep T' t'" "rb t'" "keeps T1 T'"
      "same_recs (plug C1 (N RED l1 z1 k1 v1 r1)) t'" by blast
    then show ?thesis
      using 1 g pc RED by (auto simp: rbtree_insert_fixup.simps [of T z] intro: keeps_trans same_recs_trans)
  next
    case BLACK
    have root: "root T = ptr (nil T) (plug C (N RED l z k v r))" using less.prems(1) by (simp add: rep_def)
    obtain T' where T': "set_color T (root T) BLACK = Some T'"
      "rep T' (blacken (plug C (N RED l z k v r)))" "keeps T T'"
      using blacken_rep [of T "[]" "plug C (N RED l z k v r)"] less.prems(1) root by auto
    have "rb (blacken (plug C (N RED l z k v r)))"
    proof (cases "C = []")
      case True
      then show ?thesis using less.prems by (simp add: rb_def)
    next
      case False
      then have "rb (plug C (N RED l z k v r))" using less.prems BLACK by (simp add: rb_plug)
      then show ?thesis by (simp add: blacken_id rb_def)
    qed
    with T' show ?thesis
      using g pc BLACK by (auto simp: rbtree_insert_fixup.simps [of T z])
  qed
qed

text \<open>Search trees: the records are sorted by key.\<close>

definition bst :: "rt \<Rightarrow> bool" where
  "bst t \<longleftrightarrow> sorted_wrt (\<lambda>x y. fst x < fst y) (ents t)"

lemma plug_append: "plug (D @ C) t = plug C (plug D t)"
  by (induction D t rule: plug.induct) auto

lemma bst_N: "bst (N c l a k v r) \<longleftrightarrow>
    bst l \<and> bst r \<and> (\<forall>x \<in> set (ents l). fst x < k) \<and> (\<forall>x \<in> set (ents r). k < fst x)"
  unfolding bst_def by (auto simp: sorted_wrt_append) (metis fst_conv order.strict_trans)

lemma map_of_left: "\<forall>x \<in> set xs. fst x < (k :: string) \<Longrightarrow> \<not> q < k \<Longrightarrow> map_of xs q = None"
  by (auto simp: map_of_eq_None_iff)

lemma map_of_right: "\<forall>x \<in> set xs. (k :: string) < fst x \<Longrightarrow> \<not> k < q \<Longrightarrow> map_of xs q = None"
  by (auto simp: map_of_eq_None_iff)

lemma map_of_mid:
  assumes "\<forall>x \<in> set xs. fst x < (k :: string)" "\<forall>x \<in> set ys. k < fst x"
  shows "map_of (xs @ (k, v) # ys) q =
     (if q = k then Some v else if q < k then map_of xs q else map_of ys q)"
proof -
  have "map_of xs q = None" if "\<not> q < k" using map_of_left [OF assms(1) that] .
  moreover have "map_of ys q = None" if "\<not> k < q" using map_of_right [OF assms(2) that] .
  ultimately show ?thesis
    by (cases "q < k"; cases "q = k") (auto simp: map_add_def split: option.splits)
qed

lemma search_correct:
  assumes "rep T (plug C t)" "bst t"
  shows "(map_of (ents t) key = None \<and> search_from T key (ptr (nil T) t) = Some (nil T)) \<or>
     (\<exists>D c l a v r. t = plug D (N c l a key v r) \<and> search_from T key (ptr (nil T) t) = Some a \<and>
        map_of (ents t) key = Some v)"
  using assms
proof (induction t arbitrary: C)
  case E
  then show ?case by (simp add: search_from.simps [of T key "nil T"])
next
  case (N c l a k v r)
  note g = get_focus [OF N.prems(1)]
  have b: "bst l" "bst r" "\<forall>x \<in> set (ents l). fst x < k" "\<forall>x \<in> set (ents r). k < fst x"
    using N.prems(2) by (auto simp: bst_N)
  have m: "map_of (ents (N c l a k v r)) key =
     (if key = k then Some v else if key < k then map_of (ents l) key else map_of (ents r) key)"
    using map_of_mid [OF b(3,4)] by simp
  have s: "search_from T key (ptr (nil T) (N c l a k v r)) =
     (if key < k then search_from T key (ptr (nil T) l)
      else if k < key then search_from T key (ptr (nil T) r) else Some a)"
    using g by (simp add: search_from.simps [of T key a])
  consider "key < k" | "k < key" | "key = k" by (meson linorder_cases)
  then show ?case
  proof cases
    case 1
    then have k: "key \<noteq> k" by blast
    have s1: "search_from T key (ptr (nil T) (N c l a k v r)) = search_from T key (ptr (nil T) l)"
      and m1: "map_of (ents (N c l a k v r)) key = map_of (ents l) key"
      unfolding s m using 1 k by presburger+
    have "rep T (plug (LF c a k v r # C) l)" using N.prems(1) by simp
    note IH = N.IH(1) [OF this b(1)]
    have "N c l a k v r = plug (D @ [LF c a k v r]) t" if "l = plug D t" for D t
      using that by (simp add: plug_append)
    with IH show ?thesis unfolding s1 m1 by metis
  next
    case 2
    then have k: "key \<noteq> k" "\<not> key < k" by (blast, meson order.asym)
    have s1: "search_from T key (ptr (nil T) (N c l a k v r)) = search_from T key (ptr (nil T) r)"
      and m1: "map_of (ents (N c l a k v r)) key = map_of (ents r) key"
      unfolding s m using 2 k by presburger+
    have "rep T (plug (RF c l a k v # C) r)" using N.prems(1) by simp
    note IH = N.IH(2) [OF this b(2)]
    have "N c l a k v r = plug (D @ [RF c l a k v]) t" if "r = plug D t" for D t
      using that by (simp add: plug_append)
    with IH show ?thesis unfolding s1 m1 by metis
  next
    case 3
    then have s1: "search_from T key (ptr (nil T) (N c l a k v r)) = Some a"
      and m1: "map_of (ents (N c l a k v r)) key = Some v"
      unfolding s m by auto
    have "N c l a k v r = plug [] (N c l a key v r)" using 3 by simp
    with s1 m1 show ?thesis by metis
  qed
qed

lemma insert_descend_correct:
  assumes "rep T (plug C t)" "bst t" "map_of (ents t) key = None"
    and "\<forall>x \<in> set (lents C). fst x < key" "\<forall>x \<in> set (rents C). key < fst x"
  shows "\<exists>D. plug C t = plug D E \<and> insert_descend T key (par (nil T) C) (ptr (nil T) t) = Some (Inr (par (nil T) D)) \<and>
     (\<forall>x \<in> set (lents D). fst x < key) \<and> (\<forall>x \<in> set (rents D). key < fst x)"
  using assms
proof (induction t arbitrary: C)
  case E
  then show ?case by (intro exI [of _ C]) (simp add: insert_descend.simps [of T key _ "nil T"])
next
  case (N c l a k v r)
  note g = get_focus [OF N.prems(1)]
  have b: "bst l" "bst r" "\<forall>x \<in> set (ents l). fst x < k" "\<forall>x \<in> set (ents r). k < fst x"
    using N.prems(2) by (auto simp: bst_N)
  have m: "map_of (ents (N c l a k v r)) key =
     (if key = k then Some v else if key < k then map_of (ents l) key else map_of (ents r) key)"
    using map_of_mid [OF b(3,4)] by simp
  have s: "insert_descend T key (par (nil T) C) (ptr (nil T) (N c l a k v r)) =
     (if key < k then insert_descend T key a (ptr (nil T) l)
      else if k < key then insert_descend T key a (ptr (nil T) r) else Some (Inl ()))"
    using g by (simp add: insert_descend.simps [of T key _ a])
  have "key \<noteq> k" using m N.prems(3) by (auto split: if_splits)
  then consider "key < k" | "k < key" by (meson linorder_cases)
  then show ?case
  proof cases
    case 1
    have "rep T (plug (LF c a k v r # C) l)" using N.prems(1) by simp
    moreover have "\<forall>x \<in> set (rents (LF c a k v r # C)). key < fst x"
      using 1 b(4) N.prems(5) by (auto intro: order.strict_trans)
    ultimately obtain D where "plug (LF c a k v r # C) l = plug D E"
      "insert_descend T key a (ptr (nil T) l) = Some (Inr (par (nil T) D))"
      "\<forall>x \<in> set (lents D). fst x < key" "\<forall>x \<in> set (rents D). key < fst x"
      using N.IH(1) [of "LF c a k v r # C"] b(1) 1 m N.prems(3,4) by auto
    with 1 s show ?thesis by (intro exI [of _ D]) simp
  next
    case 2
    then have n2: "\<not> key < k" by (meson order.asym)
    have "rep T (plug (RF c l a k v # C) r)" using N.prems(1) by simp
    moreover have "\<forall>x \<in> set (lents (RF c l a k v # C)). fst x < key"
      using 2 b(3) N.prems(4) by (auto intro: order.strict_trans)
    ultimately obtain D where "plug (RF c l a k v # C) r = plug D E"
      "insert_descend T key a (ptr (nil T) r) = Some (Inr (par (nil T) D))"
      "\<forall>x \<in> set (lents D). fst x < key" "\<forall>x \<in> set (rents D). key < fst x"
      using N.IH(2) [of "RF c l a k v # C"] b(2) 2 n2 m N.prems(3,5) \<open>key \<noteq> k\<close> by auto
    with 2 n2 s show ?thesis by (intro exI [of _ D]) simp
  qed
qed

text \<open>Linking the new node below the node the descent found.\<close>

lemma insert_link:
  assumes rep: "rep T (plug D E)" and z: "rheap T z = Some (fresh_node\<lparr>rkey := Some k, rvalue := Some v\<rparr>)"
    "z \<notin> set (caddrs D)" "z \<noteq> nil T"
    and k: "\<forall>x \<in> set (lents D). fst x < k" "\<forall>x \<in> set (rents D). k < fst x"
  shows "\<exists>T'. attach T z k (par (nil T) D) = Some T' \<and> rep T' (plug D (N RED E z k v E)) \<and> keeps T T'"
proof -
  note f = rep [unfolded rep_plug, simplified]
  have "z \<noteq> NULL" using f z(1) by auto
  show ?thesis
  proof (cases D rule: caddrs.cases)
    case 1
    then show ?thesis using f z \<open>z \<noteq> NULL\<close>
      by (auto simp: rep_def field_defs attach_def fresh_node_def keeps_def)
  next
    case (2 c a ky vy s C)
    have "k < ky" using k 2 by simp
    moreover have "a \<noteq> NULL" using f 2 by auto
    ultimately show ?thesis using f z 2 \<open>z \<noteq> NULL\<close>
      by (auto simp: rep_plug field_defs attach_def fresh_node_def keeps_def)
  next
    case (3 c s a ky vy C)
    have "\<not> k < ky" using k 3 by (auto dest: order.asym)
    moreover have "a \<noteq> NULL" using f 3 by auto
    ultimately show ?thesis using f z 3 \<open>z \<noteq> NULL\<close>
      by (auto simp: rep_plug field_defs attach_def fresh_node_def keeps_def)
  qed
qed

text \<open>The data invariant of the engine, and the map it denotes.\<close>

definition rb_inv_of :: "rbtree \<Rightarrow> rt \<Rightarrow> bool" where
  "rb_inv_of T t \<longleftrightarrow> rep T t \<and> rb t \<and> bst t \<and> dom (rheap T) = insert (nil T) (set (addrs t)) \<and>
     (\<forall>n. rnext T \<le> n \<longrightarrow> rheap T (Ref n) = None)"

definition rbtree_inv :: "rbtree \<Rightarrow> bool" where
  "rbtree_inv T \<longleftrightarrow> (\<exists>t. rb_inv_of T t)"

definition rbtree_map :: "rbtree \<Rightarrow> kv_map" where
  "rbtree_map T = (case rbtree_traversal T (root T) of None \<Rightarrow> Map.empty | Some xs \<Rightarrow> map_of xs)"

lemma traversal_correct: "rep T (plug C t) \<Longrightarrow> rbtree_traversal T (ptr (nil T) t) = Some (ents t)"
proof (induction t arbitrary: C)
  case E
  then show ?case by (simp add: rbtree_traversal.simps [of T "nil T"])
next
  case (N c l a k v r)
  note g = get_focus [OF N.prems]
  have "rbtree_traversal T (ptr (nil T) l) = Some (ents l)"
    using N.IH(1) [of "LF c a k v r # C"] N.prems by simp
  moreover have "rbtree_traversal T (ptr (nil T) r) = Some (ents r)"
    using N.IH(2) [of "RF c l a k v # C"] N.prems by simp
  ultimately show ?case using g by (simp add: rbtree_traversal.simps [of T a])
qed

lemma rbtree_map_rep: "rep T t \<Longrightarrow> rbtree_map T = map_of (ents t)"
  using traversal_correct [of T "[]" t] by (simp add: rbtree_map_def rep_def)

lemma keeps_dom: "keeps T T' \<Longrightarrow> dom (rheap T') = dom (rheap T)" "keeps T T' \<Longrightarrow> rnext T' = rnext T"
  by (simp_all add: keeps_def)

lemma insert_correct:
  assumes inv: "rep T t" "rb t" "bst t" and key: "map_of (ents t) k = None"
    and z: "rheap T z = Some (fresh_node\<lparr>rkey := Some k, rvalue := Some v\<rparr>)"
      "z \<notin> set (addrs t)" "z \<noteq> nil T"
  shows "\<exists>T' t'. rbtree_insert T z = Some T' \<and> rep T' t' \<and> rb t' \<and> bst t' \<and> keeps T T' \<and>
     map_of (ents t') = (map_of (ents t))(k \<mapsto> v) \<and> set (addrs t') = insert z (set (addrs t))"
proof -
  obtain D where D: "t = plug D E" "insert_descend T k (nil T) (root T) = Some (Inr (par (nil T) D))"
    "\<forall>x \<in> set (lents D). fst x < k" "\<forall>x \<in> set (rents D). k < fst x"
    using insert_descend_correct [of T "[]" t k] inv key by (auto simp: rep_def)
  have zD: "z \<notin> set (caddrs D)" using z(2) D(1) by (simp add: addrs_plug)
  note rep = inv(1) [unfolded D(1)]
  obtain T1 where T1: "attach T z k (par (nil T) D) = Some T1" "rep T1 (plug D (N RED E z k v E))" "keeps T T1"
    using insert_link [OF rep z(1) zD z(3) D(3,4)] by blast
  have "cinv D 0" using inv(2) D(1) by (simp add: rb_plug)
  from insert_fixup_correct [OF T1(2)] this obtain T2 t2 where T2:
    "rbtree_insert_fixup T1 z = Some T2" "rep T2 t2" "rb t2" "keeps T1 T2"
    "same_recs (plug D (N RED E z k v E)) t2" by auto
  have e: "ents t2 = lents D @ (k, v) # rents D" "ents t = lents D @ rents D"
    using T2(5) D(1) by (simp_all add: same_recs_def ents_plug)
  have "bst t2" using inv(3) D(3,4) e by (auto simp: bst_def sorted_wrt_append)
  moreover have "k \<notin> fst ` set (lents D)" using D(3) by auto
  then have "map_of (ents t2) = (map_of (ents t))(k \<mapsto> v)"
    unfolding e by (rule map_of_insert_mid)
  moreover have "set (addrs t2) = insert z (set (addrs t))"
    using T2(5) D(1) by (simp add: same_recs_def addrs_plug)
  moreover have "rbtree_insert T z = Some T2"
  proof -
    have "get_key T z = Some k" using z(1) by (simp add: get_key_def fresh_node_def)
    then show ?thesis
      using D(2) T1(1) T2(1) by (simp add: rbtree_insert_def)
  qed
  ultimately show ?thesis using T2(2-4) T1(3) by (blast intro: keeps_trans)
qed

section \<open>Deletion\<close>

text \<open>The fix-up loop of a deletion: the focus \<open>t\<close> lacks one black node. When \<open>t\<close> is the
  sentinel, the sentinel's parent link is the focus' parent, which \<open>rbtree_delete\<close> arranged.\<close>

definition nil_parent :: "rbtree \<Rightarrow> frame list \<Rightarrow> rt \<Rightarrow> bool" where
  "nil_parent T C t \<longleftrightarrow> (t = E \<longrightarrow> get_parent T (nil T) = Some (par (nil T) C))"

lemma get_parent_ptr:
  "rep T (plug C t) \<Longrightarrow> nil_parent T C t \<Longrightarrow> get_parent T (ptr (nil T) t) = Some (par (nil T) C)"
  by (cases t) (auto simp: nil_parent_def get_focus)

lemma nil_parent_keeps:
  "nil_parent T C t \<Longrightarrow> keeps T T' \<Longrightarrow> par (nil T) C' = par (nil T) C \<Longrightarrow> nil_parent T' C' t"
  by (auto simp: nil_parent_def keeps_def get_parent_def)

text \<open>What one iteration achieves on the tree \<open>whole\<close>: a new focus \<open>t'\<close> in a context \<open>C'\<close>, whose
  relation to the old one is \<open>Q\<close>; the focus may be red below a red node, which the final
  assignment to its colour repairs.\<close>

definition delete_result ::
    "rbtree \<Rightarrow> rt \<Rightarrow> (rbtree \<times> ref) option \<Rightarrow> (frame list \<Rightarrow> rt \<Rightarrow> bool) \<Rightarrow> bool" where
  "delete_result T whole res Q \<longleftrightarrow> (\<exists>T' C' t'. res = Some (T', ptr (nil T) t') \<and> keeps T T' \<and>
     rep T' (plug C' t') \<and> t' \<noteq> E \<and> cinv C' (bh t' + 1) \<and> invh t' \<and> invc (blacken t') \<and>
     same_recs whole (plug C' t') \<and> Q C' t')"

lemma delete_result_mono:
  "delete_result T whole res Q \<Longrightarrow> (\<And>C' t'. Q C' t' \<Longrightarrow> Q' C' t') \<Longrightarrow> delete_result T whole res Q'"
  unfolding delete_result_def by blast

lemma delete_result_trans:
  assumes "keeps T T1" "same_recs whole whole1" "delete_result T1 whole1 res Q"
  shows "delete_result T whole res Q"
  using assms(3) keeps_trans [OF assms(1)] same_recs_trans [OF assms(2)] keeps_nil [OF assms(1)]
  unfolding delete_result_def by auto blast

lemma plug_not_E: "t \<noteq> E \<Longrightarrow> plug C t \<noteq> E"
  by (induction C t rule: plug.induct) auto

lemma delete_result_whole:
  assumes "\<exists>T'. res = Some (T', root T') \<and> keeps T T' \<and> rep T' (plug C u)"
    and "rb (plug C u)" "u \<noteq> E" "same_recs whole (plug C u)" "\<And>t'. Q [] t'"
  shows "delete_result T whole res Q"
proof -
  obtain T' where T': "res = Some (T', root T')" "keeps T T'" "rep T' (plug C u)" using assms(1) by blast
  have "root T' = ptr (nil T) (plug C u)" using T'(2,3) by (simp add: rep_def keeps_nil)
  moreover have "blacken (plug C u) = plug C u" using assms(2) by (simp add: blacken_id rb_def)
  ultimately show ?thesis
    unfolding delete_result_def using T' assms plug_not_E [OF assms(3)]
    by (intro exI [of _ T'] exI [of _ "[]"] exI [of _ "plug C u"]) (auto simp: rb_def)
qed

lemma delete_left_last_rep:
  assumes rep: "rep T (plug C (N cp t p kp vp (N cw wl w kw vw (N cr rl r kr vr rr))))"
    and np: "get_parent T (ptr (nil T) t) = Some p"
  shows "\<exists>T'. delete_left_last T (ptr (nil T) t) w = Some (T', root T') \<and> keeps T T' \<and>
     rep T' (plug C (N cp (N BLACK t p kp vp wl) w kw vw (N BLACK rl r kr vr rr)))"
proof -
  let ?r = "N cr rl r kr vr rr"
  have w: "rep T (plug (RF cp t p kp vp # C) (N cw wl w kw vw ?r))" using rep by simp
  obtain T1 where T1: "set_color T w cp = Some T1" "keeps T T1"
    "rep T1 (plug C (N cp t p kp vp (N cp wl w kw vw ?r)))"
    using color_rep [OF w, of cp] by auto
  obtain T2 where T2: "set_color T1 p BLACK = Some T2" "keeps T1 T2"
    "rep T2 (plug (RF BLACK t p kp vp # C) (N cp wl w kw vw ?r))"
    using color_rep [OF T1(3), of BLACK] by auto
  have r: "rep T2 (plug (RF cp wl w kw vw # RF BLACK t p kp vp # C) ?r)" using T2(3) by simp
  obtain T3 where T3: "set_color T2 r BLACK = Some T3" "keeps T2 T3"
    "rep T3 (plug C (N BLACK t p kp vp (N cp wl w kw vw (N BLACK rl r kr vr rr))))"
    using color_rep [OF r, of BLACK] by auto
  obtain T4 where T4: "rbtree_left_rotate T3 p = Some T4" "keeps T3 T4"
    "rep T4 (plug C (N cp (N BLACK t p kp vp wl) w kw vw (N BLACK rl r kr vr rr)))"
    using left_rotate_rep [OF T3(3)] by auto
  have "keeps T T4" using T1(2) T2(2) T3(2) T4(2) by (blast intro: keeps_trans)
  then show ?thesis
    using T1(1) T2(1) T3(1) T4(1,3) np get_focus [OF rep] get_focus [OF T2(3)]
    by (simp add: delete_left_last_def)
qed

lemma delete_left_both_black:
  assumes rep: "rep T (plug C (N cp t p kp vp (N cw wl w kw vw wr)))"
    and np: "nil_parent T (LF cp p kp vp (N cw wl w kw vw wr) # C) t"
    and c: "rcol wl = BLACK" "rcol wr = BLACK"
  shows "\<exists>T'. delete_left_tail T (ptr (nil T) t) w = Some (T', p) \<and> keeps T T' \<and>
     rep T' (plug C (N cp t p kp vp (N RED wl w kw vw wr)))"
proof -
  let ?w = "N cw wl w kw vw wr"
  have w: "rep T (plug (RF cp t p kp vp # C) ?w)" using rep by simp
  have wl: "rep T (plug (LF cw w kw vw wr # RF cp t p kp vp # C) wl)" using rep by simp
  have wr: "rep T (plug (RF cw wl w kw vw # RF cp t p kp vp # C) wr)" using rep by simp
  obtain T1 where T1: "set_color T w RED = Some T1" "keeps T T1"
    "rep T1 (plug (LF cp p kp vp (N RED wl w kw vw wr) # C) t)"
    using color_rep [OF w, of RED] by auto
  have "nil_parent T1 (LF cp p kp vp (N RED wl w kw vw wr) # C) t"
    by (rule nil_parent_keeps [OF np T1(2)]) simp
  then have "get_parent T1 (ptr (nil T) t) = Some p"
    using get_parent_ptr [OF T1(3)] keeps_nil [OF T1(2)] by simp
  then show ?thesis
    using T1 get_focus [OF w] get_color_ptr [OF wl] get_color_ptr [OF wr] c
    by (simp add: delete_left_tail_def)
qed

lemma delete_left_far_red:
  assumes rep: "rep T (plug C (N cp t p kp vp (N cw wl w kw vw (N RED rl r kr vr rr))))"
    and np: "nil_parent T (LF cp p kp vp (N cw wl w kw vw (N RED rl r kr vr rr)) # C) t"
  shows "\<exists>T'. delete_left_tail T (ptr (nil T) t) w = Some (T', root T') \<and> keeps T T' \<and>
     rep T' (plug C (N cp (N BLACK t p kp vp wl) w kw vw (N BLACK rl r kr vr rr)))"
proof -
  let ?r = "N RED rl r kr vr rr"
  have t: "rep T (plug (LF cp p kp vp (N cw wl w kw vw ?r) # C) t)" using rep by simp
  have w: "rep T (plug (RF cp t p kp vp # C) (N cw wl w kw vw ?r))" using rep by simp
  have wl: "rep T (plug (LF cw w kw vw ?r # RF cp t p kp vp # C) wl)" using rep by simp
  have wr: "rep T (plug (RF cw wl w kw vw # RF cp t p kp vp # C) ?r)" using rep by simp
  have "get_parent T (ptr (nil T) t) = Some p" using get_parent_ptr [OF t np] by simp
  then show ?thesis
    using delete_left_last_rep [OF rep] get_focus [OF w] get_color_ptr [OF wl] get_focus [OF wr]
    by (simp add: delete_left_tail_def)
qed

lemma delete_left_near_red:
  assumes rep: "rep T (plug C (N cp t p kp vp (N cw (N RED ll l kl vl lr) w kw vw wr)))"
    and np: "nil_parent T (LF cp p kp vp (N cw (N RED ll l kl vl lr) w kw vw wr) # C) t"
    and c: "rcol wr = BLACK"
  shows "\<exists>T'. delete_left_tail T (ptr (nil T) t) w = Some (T', root T') \<and> keeps T T' \<and>
     rep T' (plug C (N cp (N BLACK t p kp vp ll) l kl vl (N BLACK lr w kw vw wr)))"
proof -
  let ?l = "N RED ll l kl vl lr" and ?l' = "N BLACK ll l kl vl lr"
  have w: "rep T (plug (RF cp t p kp vp # C) (N cw ?l w kw vw wr))" using rep by simp
  have wl: "rep T (plug (LF cw w kw vw wr # RF cp t p kp vp # C) ?l)" using rep by simp
  have wr: "rep T (plug (RF cw ?l w kw vw # RF cp t p kp vp # C) wr)" using rep by simp
  obtain T1 where T1: "set_color T l BLACK = Some T1" "keeps T T1"
    "rep T1 (plug (RF cp t p kp vp # C) (N cw ?l' w kw vw wr))"
    using color_rep [OF wl, of BLACK] by auto
  obtain T2 where T2: "set_color T1 w RED = Some T2" "keeps T1 T2"
    "rep T2 (plug (RF cp t p kp vp # C) (N RED ?l' w kw vw wr))"
    using color_rep [OF T1(3), of RED] by auto
  obtain T3 where T3: "rbtree_right_rotate T2 w = Some T3" "keeps T2 T3"
    "rep T3 (plug (RF cp t p kp vp # C) (N BLACK ll l kl vl (N RED lr w kw vw wr)))"
    using right_rotate_rep [OF T2(3)] by auto
  have k: "keeps T T3" using T1(2) T2(2) T3(2) by (blast intro: keeps_trans)
  have t3: "rep T3 (plug (LF cp p kp vp (N BLACK ll l kl vl (N RED lr w kw vw wr)) # C) t)"
    and r3: "rep T3 (plug C (N cp t p kp vp (N BLACK ll l kl vl (N RED lr w kw vw wr))))"
    using T3(3) by simp_all
  have "nil_parent T3 (LF cp p kp vp (N BLACK ll l kl vl (N RED lr w kw vw wr)) # C) t"
    by (rule nil_parent_keeps [OF np k]) simp
  then have p3: "get_parent T3 (ptr (nil T3) t) = Some p" using get_parent_ptr [OF t3] by simp
  then obtain T4 where T4: "delete_left_last T3 (ptr (nil T3) t) l = Some (T4, root T4)" "keeps T3 T4"
     "rep T4 (plug C (N cp (N BLACK t p kp vp ll) l kl vl (N BLACK lr w kw vw wr)))"
    using delete_left_last_rep [OF r3] by blast
  have "keeps T T4" using k T4(2) by (rule keeps_trans)
  then show ?thesis
    using T1(1) T2(1) T3(1) T4(1,3) p3 get_focus [OF w] get_focus [OF wl] get_color_ptr [OF wr] c
      get_focus [OF r3] keeps_nil [OF k]
    by (simp add: delete_left_tail_def)
qed

lemma delete_left_tail_result:
  assumes rep: "rep T (plug (LF cp p kp vp (N BLACK wl w kw vw wr) # C) t)"
    and np: "nil_parent T (LF cp p kp vp (N BLACK wl w kw vw wr) # C) t"
    and inv: "cinv (LF cp p kp vp (N BLACK wl w kw vw wr) # C) (bh t + 1)" "invh t" "invc t" "rcol t = BLACK"
  shows "delete_result T (plug (LF cp p kp vp (N BLACK wl w kw vw wr) # C) t)
     (delete_left_tail T (ptr (nil T) t) w) (\<lambda>C' t'. C' = [] \<or> C' = C \<and> rcol t' = cp)"
proof -
  have rep': "rep T (plug C (N cp t p kp vp (N BLACK wl w kw vw wr)))" using rep by simp
  show ?thesis
  proof (cases "rcol wr")
    case RED
    then obtain rl r kr vr rr where r: "wr = N RED rl r kr vr rr" by (cases wr) auto
    from delete_left_far_red [OF rep' [unfolded r] np [unfolded r]]
    show ?thesis unfolding r
      by (rule delete_result_whole) (use inv r in \<open>auto simp: rb_plug sib_ok_def same_recs_plug\<close>)
  next
    case BLACK
    note wr = this
    show ?thesis
    proof (cases "rcol wl")
      case RED
      then obtain ll l kl vl lr where l: "wl = N RED ll l kl vl lr" by (cases wl) auto
      from delete_left_near_red [OF rep' [unfolded l] np [unfolded l] wr]
      show ?thesis unfolding l
        by (rule delete_result_whole) (use inv l wr in \<open>auto simp: rb_plug sib_ok_def same_recs_plug\<close>)
    next
      case BLACK
      from delete_left_both_black [OF rep' np BLACK wr] obtain T' where
        T': "delete_left_tail T (ptr (nil T) t) w = Some (T', p)" "keeps T T'"
        "rep T' (plug C (N cp t p kp vp (N RED wl w kw vw wr)))" by blast
      then show ?thesis
        unfolding delete_result_def using inv wr BLACK
        by (intro exI [of _ T'] exI [of _ C] exI [of _ "N cp t p kp vp (N RED wl w kw vw wr)"])
          (auto simp: sib_ok_def same_recs_plug)
    qed
  qed
qed

lemma delete_left_step_result:
  assumes rep: "rep T (plug (LF cp p kp vp s # C) t)" and np: "nil_parent T (LF cp p kp vp s # C) t"
    and inv: "cinv (LF cp p kp vp s # C) (bh t + 1)" "invh t" "invc t" "rcol t = BLACK"
  shows "delete_result T (plug (LF cp p kp vp s # C) t) (delete_left_step T (ptr (nil T) t))
     (\<lambda>C' t'. C' = [] \<or> length C' \<le> length C \<or> rcol t' = RED \<and> length C' \<le> Suc (length C))"
proof -
  from inv(1) obtain cw wl w kw vw wr where s: "s = N cw wl w kw vw wr"
    by (cases s) (auto simp: sib_ok_def)
  have w: "rep T (plug (RF cp t p kp vp # C) (N cw wl w kw vw wr))" using rep s by simp
  have p: "rep T (plug C (N cp t p kp vp (N cw wl w kw vw wr)))" using rep s by simp
  note g = get_parent_ptr [OF rep np] get_focus [OF w] get_focus [OF p]
  show ?thesis
  proof (cases cw)
    case BLACK
    then have "delete_left_step T (ptr (nil T) t) = delete_left_tail T (ptr (nil T) t) w"
      using g s by (simp add: delete_left_step_def)
    then show ?thesis
      using delete_left_tail_result [OF rep [unfolded s BLACK] np [unfolded s BLACK] inv [unfolded s BLACK]]
      unfolding s BLACK by (auto elim!: delete_result_mono)
  next
    case RED
    then have cp: "cp = BLACK" using inv(1) s by (cases cp) (auto simp: sib_ok_def)
    obtain xl x kx vx xr where wl: "wl = N BLACK xl x kx vx xr"
      using inv(1) s RED by (cases wl) (auto simp: sib_ok_def)
    obtain T1 where T1: "set_color T w BLACK = Some T1" "keeps T T1"
      "rep T1 (plug C (N cp t p kp vp (N BLACK wl w kw vw wr)))"
      using color_rep [OF w, of BLACK] by auto
    obtain T2 where T2: "set_color T1 p RED = Some T2" "keeps T1 T2"
      "rep T2 (plug C (N RED t p kp vp (N BLACK wl w kw vw wr)))"
      using color_rep [OF T1(3), of RED] by auto
    obtain T3 where T3: "rbtree_left_rotate T2 p = Some T3" "keeps T2 T3"
      "rep T3 (plug (LF RED p kp vp wl # LF BLACK w kw vw wr # C) t)"
      using left_rotate_rep [OF T2(3)] by auto
    have k: "keeps T T3" using T1(2) T2(2) T3(2) by (blast intro: keeps_trans)
    have np3: "nil_parent T3 (LF RED p kp vp wl # LF BLACK w kw vw wr # C) t"
      by (rule nil_parent_keeps [OF np k]) simp
    have p3: "rep T3 (plug (LF BLACK w kw vw wr # C) (N RED t p kp vp wl))" using T3(3) by simp
    have "delete_left_step T (ptr (nil T) t) = delete_left_tail T3 (ptr (nil T3) t) x"
      using g s RED T1(1) T2(1) T3(1) get_parent_ptr [OF T3(3) np3] get_focus [OF p3] wl keeps_nil [OF k]
      by (simp add: delete_left_step_def)
    moreover have "delete_result T3 (plug (LF RED p kp vp wl # LF BLACK w kw vw wr # C) t)
       (delete_left_tail T3 (ptr (nil T3) t) x)
       (\<lambda>C' t'. C' = [] \<or> C' = LF BLACK w kw vw wr # C \<and> rcol t' = RED)"
      unfolding wl by (rule delete_left_tail_result)
        (use T3(3) np3 wl inv s RED cp in \<open>auto simp: sib_ok_def\<close>)
    moreover have "same_recs (plug (LF cp p kp vp s # C) t) (plug (LF RED p kp vp wl # LF BLACK w kw vw wr # C) t)"
      using s by (auto simp: same_recs_plug simp flip: plug.simps)
    ultimately show ?thesis
      using k by (auto intro: delete_result_trans elim!: delete_result_mono)
  qed
qed

text \<open>The mirror image: \<open>x\<close> is a right child.\<close>

lemma delete_right_last_rep:
  assumes rep: "rep T (plug C (N cp (N cw (N cr rr r kr vr rl) w kw vw wl) p kp vp t))"
    and np: "get_parent T (ptr (nil T) t) = Some p"
  shows "\<exists>T'. delete_right_last T (ptr (nil T) t) w = Some (T', root T') \<and> keeps T T' \<and>
     rep T' (plug C (N cp (N BLACK rr r kr vr rl) w kw vw (N BLACK wl p kp vp t)))"
proof -
  let ?r = "N cr rr r kr vr rl"
  have w: "rep T (plug (LF cp p kp vp t # C) (N cw ?r w kw vw wl))" using rep by simp
  obtain T1 where T1: "set_color T w cp = Some T1" "keeps T T1"
    "rep T1 (plug C (N cp (N cp ?r w kw vw wl) p kp vp t))"
    using color_rep [OF w, of cp] by auto
  obtain T2 where T2: "set_color T1 p BLACK = Some T2" "keeps T1 T2"
    "rep T2 (plug (LF BLACK p kp vp t # C) (N cp ?r w kw vw wl))"
    using color_rep [OF T1(3), of BLACK] by auto
  have r: "rep T2 (plug (LF cp w kw vw wl # LF BLACK p kp vp t # C) ?r)" using T2(3) by simp
  obtain T3 where T3: "set_color T2 r BLACK = Some T3" "keeps T2 T3"
    "rep T3 (plug C (N BLACK (N cp (N BLACK rr r kr vr rl) w kw vw wl) p kp vp t))"
    using color_rep [OF r, of BLACK] by auto
  obtain T4 where T4: "rbtree_right_rotate T3 p = Some T4" "keeps T3 T4"
    "rep T4 (plug C (N cp (N BLACK rr r kr vr rl) w kw vw (N BLACK wl p kp vp t)))"
    using right_rotate_rep [OF T3(3)] by auto
  have "keeps T T4" using T1(2) T2(2) T3(2) T4(2) by (blast intro: keeps_trans)
  then show ?thesis
    using T1(1) T2(1) T3(1) T4(1,3) np get_focus [OF rep] get_focus [OF T2(3)]
    by (simp add: delete_right_last_def)
qed

lemma delete_right_both_black:
  assumes rep: "rep T (plug C (N cp (N cw wr w kw vw wl) p kp vp t))"
    and np: "nil_parent T (RF cp (N cw wr w kw vw wl) p kp vp # C) t"
    and c: "rcol wl = BLACK" "rcol wr = BLACK"
  shows "\<exists>T'. delete_right_tail T (ptr (nil T) t) w = Some (T', p) \<and> keeps T T' \<and>
     rep T' (plug C (N cp (N RED wr w kw vw wl) p kp vp t))"
proof -
  let ?w = "N cw wr w kw vw wl"
  have w: "rep T (plug (LF cp p kp vp t # C) ?w)" using rep by simp
  have wl: "rep T (plug (RF cw wr w kw vw # LF cp p kp vp t # C) wl)" using rep by simp
  have wr: "rep T (plug (LF cw w kw vw wl # LF cp p kp vp t # C) wr)" using rep by simp
  obtain T1 where T1: "set_color T w RED = Some T1" "keeps T T1"
    "rep T1 (plug (RF cp (N RED wr w kw vw wl) p kp vp # C) t)"
    using color_rep [OF w, of RED] by auto
  have "nil_parent T1 (RF cp (N RED wr w kw vw wl) p kp vp # C) t"
    by (rule nil_parent_keeps [OF np T1(2)]) simp
  then have "get_parent T1 (ptr (nil T) t) = Some p"
    using get_parent_ptr [OF T1(3)] keeps_nil [OF T1(2)] by simp
  then show ?thesis
    using T1 get_focus [OF w] get_color_ptr [OF wl] get_color_ptr [OF wr] c
    by (simp add: delete_right_tail_def)
qed

lemma delete_right_far_red:
  assumes rep: "rep T (plug C (N cp (N cw (N RED rr r kr vr rl) w kw vw wl) p kp vp t))"
    and np: "nil_parent T (RF cp (N cw (N RED rr r kr vr rl) w kw vw wl) p kp vp # C) t"
  shows "\<exists>T'. delete_right_tail T (ptr (nil T) t) w = Some (T', root T') \<and> keeps T T' \<and>
     rep T' (plug C (N cp (N BLACK rr r kr vr rl) w kw vw (N BLACK wl p kp vp t)))"
proof -
  let ?r = "N RED rr r kr vr rl"
  have t: "rep T (plug (RF cp (N cw ?r w kw vw wl) p kp vp # C) t)" using rep by simp
  have w: "rep T (plug (LF cp p kp vp t # C) (N cw ?r w kw vw wl))" using rep by simp
  have wl: "rep T (plug (RF cw ?r w kw vw # LF cp p kp vp t # C) wl)" using rep by simp
  have wr: "rep T (plug (LF cw w kw vw wl # LF cp p kp vp t # C) ?r)" using rep by simp
  have "get_parent T (ptr (nil T) t) = Some p" using get_parent_ptr [OF t np] by simp
  then show ?thesis
    using delete_right_last_rep [OF rep] get_focus [OF w] get_color_ptr [OF wl] get_focus [OF wr]
    by (simp add: delete_right_tail_def)
qed

lemma delete_right_near_red:
  assumes rep: "rep T (plug C (N cp (N cw wr w kw vw (N RED lr l kl vl ll)) p kp vp t))"
    and np: "nil_parent T (RF cp (N cw wr w kw vw (N RED lr l kl vl ll)) p kp vp # C) t"
    and c: "rcol wr = BLACK"
  shows "\<exists>T'. delete_right_tail T (ptr (nil T) t) w = Some (T', root T') \<and> keeps T T' \<and>
     rep T' (plug C (N cp (N BLACK wr w kw vw lr) l kl vl (N BLACK ll p kp vp t)))"
proof -
  let ?l = "N RED lr l kl vl ll" and ?l' = "N BLACK lr l kl vl ll"
  have w: "rep T (plug (LF cp p kp vp t # C) (N cw wr w kw vw ?l))" using rep by simp
  have wl: "rep T (plug (RF cw wr w kw vw # LF cp p kp vp t # C) ?l)" using rep by simp
  have wr: "rep T (plug (LF cw w kw vw ?l # LF cp p kp vp t # C) wr)" using rep by simp
  obtain T1 where T1: "set_color T l BLACK = Some T1" "keeps T T1"
    "rep T1 (plug (LF cp p kp vp t # C) (N cw wr w kw vw ?l'))"
    using color_rep [OF wl, of BLACK] by auto
  obtain T2 where T2: "set_color T1 w RED = Some T2" "keeps T1 T2"
    "rep T2 (plug (LF cp p kp vp t # C) (N RED wr w kw vw ?l'))"
    using color_rep [OF T1(3), of RED] by auto
  obtain T3 where T3: "rbtree_left_rotate T2 w = Some T3" "keeps T2 T3"
    "rep T3 (plug (LF cp p kp vp t # C) (N BLACK (N RED wr w kw vw lr) l kl vl ll))"
    using left_rotate_rep [OF T2(3)] by auto
  have k: "keeps T T3" using T1(2) T2(2) T3(2) by (blast intro: keeps_trans)
  have t3: "rep T3 (plug (RF cp (N BLACK (N RED wr w kw vw lr) l kl vl ll) p kp vp # C) t)"
    and r3: "rep T3 (plug C (N cp (N BLACK (N RED wr w kw vw lr) l kl vl ll) p kp vp t))"
    using T3(3) by simp_all
  have "nil_parent T3 (RF cp (N BLACK (N RED wr w kw vw lr) l kl vl ll) p kp vp # C) t"
    by (rule nil_parent_keeps [OF np k]) simp
  then have p3: "get_parent T3 (ptr (nil T3) t) = Some p" using get_parent_ptr [OF t3] by simp
  then obtain T4 where T4: "delete_right_last T3 (ptr (nil T3) t) l = Some (T4, root T4)" "keeps T3 T4"
     "rep T4 (plug C (N cp (N BLACK wr w kw vw lr) l kl vl (N BLACK ll p kp vp t)))"
    using delete_right_last_rep [OF r3] by blast
  have "keeps T T4" using k T4(2) by (rule keeps_trans)
  then show ?thesis
    using T1(1) T2(1) T3(1) T4(1,3) p3 get_focus [OF w] get_focus [OF wl] get_color_ptr [OF wr] c
      get_focus [OF r3] keeps_nil [OF k]
    by (simp add: delete_right_tail_def)
qed

lemma delete_right_tail_result:
  assumes rep: "rep T (plug (RF cp (N BLACK wr w kw vw wl) p kp vp # C) t)"
    and np: "nil_parent T (RF cp (N BLACK wr w kw vw wl) p kp vp # C) t"
    and inv: "cinv (RF cp (N BLACK wr w kw vw wl) p kp vp # C) (bh t + 1)" "invh t" "invc t" "rcol t = BLACK"
  shows "delete_result T (plug (RF cp (N BLACK wr w kw vw wl) p kp vp # C) t)
     (delete_right_tail T (ptr (nil T) t) w) (\<lambda>C' t'. C' = [] \<or> C' = C \<and> rcol t' = cp)"
proof -
  have rep': "rep T (plug C (N cp (N BLACK wr w kw vw wl) p kp vp t))" using rep by simp
  show ?thesis
  proof (cases "rcol wr")
    case RED
    then obtain rl r kr vr rr where r: "wr = N RED rr r kr vr rl" by (cases wr) auto
    from delete_right_far_red [OF rep' [unfolded r] np [unfolded r]]
    show ?thesis unfolding r
      by (rule delete_result_whole) (use inv r in \<open>auto simp: rb_plug sib_ok_def same_recs_plug\<close>)
  next
    case BLACK
    note wr = this
    show ?thesis
    proof (cases "rcol wl")
      case RED
      then obtain ll l kl vl lr where l: "wl = N RED lr l kl vl ll" by (cases wl) auto
      from delete_right_near_red [OF rep' [unfolded l] np [unfolded l] wr]
      show ?thesis unfolding l
        by (rule delete_result_whole) (use inv l wr in \<open>auto simp: rb_plug sib_ok_def same_recs_plug\<close>)
    next
      case BLACK
      from delete_right_both_black [OF rep' np BLACK wr] obtain T' where
        T': "delete_right_tail T (ptr (nil T) t) w = Some (T', p)" "keeps T T'"
        "rep T' (plug C (N cp (N RED wr w kw vw wl) p kp vp t))" by blast
      then show ?thesis
        unfolding delete_result_def using inv wr BLACK
        by (intro exI [of _ T'] exI [of _ C] exI [of _ "N cp (N RED wr w kw vw wl) p kp vp t"])
          (auto simp: sib_ok_def same_recs_plug)
    qed
  qed
qed

lemma delete_right_step_result:
  assumes rep: "rep T (plug (RF cp s p kp vp # C) t)" and np: "nil_parent T (RF cp s p kp vp # C) t"
    and inv: "cinv (RF cp s p kp vp # C) (bh t + 1)" "invh t" "invc t" "rcol t = BLACK"
  shows "delete_result T (plug (RF cp s p kp vp # C) t) (delete_right_step T (ptr (nil T) t))
     (\<lambda>C' t'. C' = [] \<or> length C' \<le> length C \<or> rcol t' = RED \<and> length C' \<le> Suc (length C))"
proof -
  from inv(1) obtain cw wl w kw vw wr where s: "s = N cw wr w kw vw wl"
    by (cases s) (auto simp: sib_ok_def)
  have w: "rep T (plug (LF cp p kp vp t # C) (N cw wr w kw vw wl))" using rep s by simp
  have p: "rep T (plug C (N cp (N cw wr w kw vw wl) p kp vp t))" using rep s by simp
  note g = get_parent_ptr [OF rep np] get_focus [OF w] get_focus [OF p]
  show ?thesis
  proof (cases cw)
    case BLACK
    then have "delete_right_step T (ptr (nil T) t) = delete_right_tail T (ptr (nil T) t) w"
      using g s by (simp add: delete_right_step_def)
    then show ?thesis
      using delete_right_tail_result [OF rep [unfolded s BLACK] np [unfolded s BLACK] inv [unfolded s BLACK]]
      unfolding s BLACK by (auto elim!: delete_result_mono)
  next
    case RED
    then have cp: "cp = BLACK" using inv(1) s by (cases cp) (auto simp: sib_ok_def)
    obtain xl x kx vx xr where wl: "wl = N BLACK xr x kx vx xl"
      using inv(1) s RED by (cases wl) (auto simp: sib_ok_def)
    obtain T1 where T1: "set_color T w BLACK = Some T1" "keeps T T1"
      "rep T1 (plug C (N cp (N BLACK wr w kw vw wl) p kp vp t))"
      using color_rep [OF w, of BLACK] by auto
    obtain T2 where T2: "set_color T1 p RED = Some T2" "keeps T1 T2"
      "rep T2 (plug C (N RED (N BLACK wr w kw vw wl) p kp vp t))"
      using color_rep [OF T1(3), of RED] by auto
    obtain T3 where T3: "rbtree_right_rotate T2 p = Some T3" "keeps T2 T3"
      "rep T3 (plug (RF RED wl p kp vp # RF BLACK wr w kw vw # C) t)"
      using right_rotate_rep [OF T2(3)] by auto
    have k: "keeps T T3" using T1(2) T2(2) T3(2) by (blast intro: keeps_trans)
    have np3: "nil_parent T3 (RF RED wl p kp vp # RF BLACK wr w kw vw # C) t"
      by (rule nil_parent_keeps [OF np k]) simp
    have p3: "rep T3 (plug (RF BLACK wr w kw vw # C) (N RED wl p kp vp t))" using T3(3) by simp
    have "delete_right_step T (ptr (nil T) t) = delete_right_tail T3 (ptr (nil T3) t) x"
      using g s RED T1(1) T2(1) T3(1) get_parent_ptr [OF T3(3) np3] get_focus [OF p3] wl keeps_nil [OF k]
      by (simp add: delete_right_step_def)
    moreover have "delete_result T3 (plug (RF RED wl p kp vp # RF BLACK wr w kw vw # C) t)
       (delete_right_tail T3 (ptr (nil T3) t) x)
       (\<lambda>C' t'. C' = [] \<or> C' = RF BLACK wr w kw vw # C \<and> rcol t' = RED)"
      unfolding wl by (rule delete_right_tail_result)
        (use T3(3) np3 wl inv s RED cp in \<open>auto simp: sib_ok_def\<close>)
    moreover have "same_recs (plug (RF cp s p kp vp # C) t) (plug (RF RED wl p kp vp # RF BLACK wr w kw vw # C) t)"
      using s by (auto simp: same_recs_plug simp flip: plug.simps)
    ultimately show ?thesis
      using k by (auto intro: delete_result_trans elim!: delete_result_mono)
  qed
qed

lemma root_focus: "rep T (plug C t) \<Longrightarrow> ptr (nil T) t = root T \<longleftrightarrow> C = []"
proof (cases "C = []")
  case False
  assume r: "rep T (plug C t)"
  have "par (nil T) [last C] \<in> set (caddrs C)"
    using False by (induction C rule: caddrs.induct) auto
  then have "ptr (nil T) t \<noteq> par (nil T) [last C]"
    using r by (cases t) (auto simp: rep_plug)
  then show ?thesis using r False by (simp add: rep_plug)
qed (simp add: rep_def)

lemma delete_fixup_step:
  assumes rep: "rep T (plug C t)" and np: "nil_parent T C t"
    and inv: "cinv C (bh t + 1)" "invh t" "invc t" "rcol t = BLACK" "C \<noteq> []"
  shows "\<exists>p l. get_parent T (ptr (nil T) t) = Some p \<and> get_left T p = Some l \<and>
     delete_result T (plug C t)
       (if ptr (nil T) t = l then delete_left_step T (ptr (nil T) t) else delete_right_step T (ptr (nil T) t))
       (\<lambda>C' t'. C' = [] \<or> length C' < length C \<or> rcol t' = RED \<and> length C' \<le> length C)"
proof (cases C rule: caddrs.cases)
  case (2 cp p kp vp s B)
  have "rep T (plug B (N cp t p kp vp s))" using rep 2 by simp
  then have "get_left T p = Some (ptr (nil T) t)" using get_focus by blast
  moreover have "get_parent T (ptr (nil T) t) = Some p" using get_parent_ptr [OF rep np] 2 by simp
  ultimately show ?thesis
    using delete_left_step_result [of T cp p kp vp s B t] rep np inv 2
    by (auto elim!: delete_result_mono)
next
  case (3 cp s p kp vp B)
  have b: "rep T (plug B (N cp s p kp vp t))" using rep 3 by simp
  then have l: "get_left T p = Some (ptr (nil T) s)" using get_focus by blast
  have "get_parent T (ptr (nil T) t) = Some p" using get_parent_ptr [OF rep np] 3 by simp
  moreover obtain cs sl sa ks vs sr where "s = N cs sl sa ks vs sr"
    using inv(1) 3 by (cases s) (auto simp: sib_ok_def)
  then have "ptr (nil T) t \<noteq> ptr (nil T) s"
    using b by (cases t) (auto simp: rep_plug)
  ultimately show ?thesis
    using l delete_right_step_result [of T cp s p kp vp B t] rep np inv 3
    by (auto elim!: delete_result_mono)
qed (use inv in simp)

lemma bh_blacken: "rcol t = RED \<Longrightarrow> bh (blacken t) = bh t + 1" "invh (blacken t) = invh t"
  by (cases t; simp)+

lemma delete_fixup_correct:
  assumes "rep T (plug C t)" "nil_parent T C t" "cinv C (bh t + 1)" "invh t" "invc (blacken t)"
  shows "\<exists>T' t'. rbtree_delete_fixup T (ptr (nil T) t) = Some T' \<and> rep T' t' \<and> rb t' \<and> keeps T T' \<and>
     same_recs (plug C t) t'"
  using assms
proof (induction "2 * length C + (if rcol t = RED then 0 else 1)" arbitrary: T C t rule: less_induct)
  case less
  note rep = less.prems(1)
  obtain T1 where T1: "set_color T (ptr (nil T) t) BLACK = Some T1"
    "rep T1 (plug C (blacken t))" "keeps T T1" using blacken_rep [OF rep] by blast
  have same: "same_recs (plug C t) (plug C (blacken t))" by (cases t) (auto simp: same_recs_plug)
  note u = rbtree_delete_fixup.simps [of T "ptr (nil T) t"] root_focus [OF rep] get_color_ptr [OF rep]
  show ?case
  proof (cases "C = []")
    case True
    then have "rb (plug C (blacken t))"
      using less.prems by (cases t) (auto simp: rb_def bh_blacken)
    then show ?thesis using T1 same True by (auto simp: u)
  next
    case C: False
    show ?thesis
    proof (cases "rcol t")
      case RED
      then have "rcol (blacken t) = BLACK" by (cases t) auto
      then have "rb (plug C (blacken t))"
        using less.prems RED by (simp add: rb_plug bh_blacken)
      then show ?thesis using T1 same C RED by (auto simp: u)
    next
      case BLACK
      then have "invc t" using less.prems(5) by (simp add: blacken_id)
      from delete_fixup_step [OF rep less.prems(2-4) this BLACK C] obtain p l T2 C2 t2 where
        2: "get_parent T (ptr (nil T) t) = Some p" "get_left T p = Some l"
        "(if ptr (nil T) t = l then delete_left_step T (ptr (nil T) t)
          else delete_right_step T (ptr (nil T) t)) = Some (T2, ptr (nil T) t2)"
        "keeps T T2" "rep T2 (plug C2 t2)" "t2 \<noteq> E" "cinv C2 (bh t2 + 1)" "invh t2"
        "invc (blacken t2)" "same_recs (plug C t) (plug C2 t2)"
        "C2 = [] \<or> length C2 < length C \<or> rcol t2 = RED \<and> length C2 \<le> length C"
        unfolding delete_result_def by blast
      have lt: "2 * length C2 + (if rcol t2 = RED then 0 else 1) < 2 * length C + (if rcol t = RED then 0 else 1)"
        using 2(11) C BLACK by auto
      have "nil_parent T2 C2 t2" using 2(6) by (simp add: nil_parent_def)
      from less.hyps [OF lt 2(5) this 2(7-9)] obtain T' t' where
        "rbtree_delete_fixup T2 (ptr (nil T2) t2) = Some T'" "rep T' t'" "rb t'" "keeps T2 T'"
        "same_recs (plug C2 t2) t'" by blast
      moreover have "rbtree_delete_fixup T (ptr (nil T) t) = rbtree_delete_fixup T2 (ptr (nil T2) t2)"
        using 2(1-3) C BLACK keeps_nil [OF 2(4)] by (simp add: u)
      ultimately show ?thesis using 2(4,10) by (metis keeps_trans same_recs_trans)
    qed
  qed
qed

text \<open>The smallest node of a subtree.\<close>

lemma mini_correct:
  assumes "rep T (plug C t)" "t \<noteq> E"
  shows "\<exists>D c a k v r. t = plug D (N c E a k v r) \<and> rbtree_mini T (ptr (nil T) t) = Some a \<and> lents D = []"
  using assms
proof (induction t arbitrary: C)
  case (N c l a k v r)
  note g = get_focus [OF N.prems(1)]
  have rl: "rep T (plug (LF c a k v r # C) l)" using N.prems(1) by simp
  show ?case
  proof (cases "l = E")
    case True
    then show ?thesis
      using g by (intro exI [of _ "[]"] exI [of _ c] exI [of _ a] exI [of _ k] exI [of _ v] exI [of _ r])
        (simp add: rbtree_mini.simps [of T a])
  next
    case False
    from N.IH(1) [OF rl False] obtain D c' a' k' v' r' where
      D: "l = plug D (N c' E a' k' v' r')" "rbtree_mini T (ptr (nil T) l) = Some a'" "lents D = []"
      by blast
    have "ptr (nil T) l \<noteq> nil T" using rl False by (simp add: rep_plug)
    then have "rbtree_mini T (ptr (nil T) (N c l a k v r)) = Some a'"
      using g D(2) by (simp add: rbtree_mini.simps [of T a])
    moreover have "lents (D @ [LF c a k v r]) = []"
    proof -
      have "lents (D @ C') = lents C' @ lents D" for C' by (induction D rule: lents.induct) auto
      then show ?thesis using D(3) by simp
    qed
    ultimately show ?thesis
      using D(1) by (intro exI [of _ "D @ [LF c a k v r]"] exI [of _ c'] exI [of _ a'] exI [of _ k']
          exI [of _ v'] exI [of _ r']) (simp add: plug_append)
  qed
qed simp

text \<open>Taking a node with at most one child out of the tree.\<close>

definition same_dom :: "rbtree \<Rightarrow> rbtree \<Rightarrow> bool" where
  "same_dom T T' \<longleftrightarrow> nil T' = nil T \<and> rnext T' = rnext T \<and> dom (rheap T') = dom (rheap T)"

lemma set_parent_ptr:
  assumes "holds (rheap T) (cells (nil T) p x)" "distinct (addrs x)" "nil T \<notin> set (addrs x)"
    "rheap T (nil T) = Some n"
  shows "\<exists>T'. set_parent T (ptr (nil T) x) q = Some T' \<and> holds (rheap T') (cells (nil T) q x) \<and>
     touches (insert (nil T) (set (addrs x))) T T' \<and> root T' = root T \<and>
     rheap T' (nil T) = Some (if x = E then n\<lparr>rparent := Some q\<rparr> else n)"
  using assms by (cases x) (auto simp: field_defs touches_def)

lemma splice_rep:
  assumes rep: "rep T (plug C (N c l y k v r))" and x: "x = l \<and> r = E \<or> x = r \<and> l = E"
  shows "\<exists>T1 T2. set_parent T (ptr (nil T) x) (par (nil T) C) = Some T1 \<and>
     relink_left_first T1 (par (nil T) C) y (ptr (nil T) x) = Some T2 \<and> same_dom T T2 \<and>
     rep T2 (plug C x) \<and> nil_parent T2 C x \<and> rheap T2 y = rheap T y"
proof -
  let ?nl = "nil T"
  note f = rep [unfolded rep_plug, simplified]
  obtain n where n: "rheap T ?nl = Some n" "rcolor n = Some BLACK" using f by blast
  have x': "holds (rheap T) (cells ?nl y x)" "distinct (addrs x)" "?nl \<notin> set (addrs x)"
    "y \<notin> set (addrs x)" "set (addrs x) \<inter> set (caddrs C) = {}"
    using f x by auto
  obtain T1 where T1: "set_parent T (ptr ?nl x) (par ?nl C) = Some T1" "holds (rheap T1) (cells ?nl (par ?nl C) x)"
    "touches (insert ?nl (set (addrs x))) T T1" "root T1 = root T"
    "rheap T1 ?nl = Some (if x = E then n\<lparr>rparent := Some (par ?nl C)\<rparr> else n)"
    using set_parent_ptr [OF x'(1-3) n(1), of "par ?nl C"] by blast
  have "holds (rheap T1) (ccells ?nl y C)"
    using touches_ccells [OF T1(3), of C ?nl y] f x' by auto
  then obtain T2 where T2: "relink_left_first T1 (par ?nl C) y (ptr ?nl x) = Some T2"
    "holds (rheap T2) (ccells ?nl (ptr ?nl x) C)" "touches (set (caddrs C)) T1 T2"
    "root T2 = (if C = [] then ptr ?nl x else root T)"
    using relink_left_ok [of T1 y C "ptr ?nl x"] f T1(3,4) by (auto simp: touches_def)
  have n2: "nil T2 = ?nl" "rheap T2 ?nl = rheap T1 ?nl" "same_dom T T2"
    using T1(3) T2(3) f by (auto simp: touches_def same_dom_def)
  have "holds (rheap T2) (cells ?nl (par ?nl C) x)"
    using touches_cells [OF T2(3), of x] T1(2) x' by auto
  moreover have "NULL \<notin> dom (rheap T2)" using n2(3) f by (auto simp: same_dom_def)
  then have "rheap T2 NULL = None" by (simp add: domIff)
  ultimately have "rep T2 (plug C x)"
    unfolding rep_plug using T2(2,4) n2 T1(5) f x' n(2) by auto
  moreover have "nil_parent T2 C x" using n2 T1(5) by (simp add: nil_parent_def get_parent_def)
  moreover have "rheap T2 y = rheap T y" using T1(3) T2(3) x'(4) f
    by (metis insert_iff touches_def)
  ultimately show ?thesis using T1(1) T2(1) n2(3) by blast
qed

text \<open>Exchanging the data of a node of the tree with those of a node outside it.\<close>

lemma swap_rep:
  assumes rep: "rep T (plug C (N c l z k v r))" and y: "rheap T y = Some ny" "y \<noteq> nil T"
      "y \<notin> set (addrs (plug C (N c l z k v r)))" "rkey ny = Some ky" "rvalue ny = Some vy"
  shows "\<exists>T'. swap_data T z y = Some T' \<and> rep T' (plug C (N c l z ky vy r)) \<and> same_dom T T' \<and>
     rheap T' (nil T) = rheap T (nil T) \<and> get_color T' y = rcolor ny"
proof -
  note f = rep [unfolded rep_plug, simplified]
  have "y \<noteq> NULL" using f y(1) by auto
  moreover have "y \<noteq> z" "y \<notin> set (addrs l)" "y \<notin> set (addrs r)" "y \<notin> set (caddrs C)"
    using y(3) by (auto simp: addrs_plug)
  moreover have "z \<noteq> NULL" using f by auto
  ultimately show ?thesis
    using f y by (auto simp: swap_data_def rep_plug same_dom_def get_color_def)
qed

lemma nil_parent_same:
  "nil_parent T C t \<Longrightarrow> nil T' = nil T \<Longrightarrow> rheap T' (nil T) = rheap T (nil T) \<Longrightarrow>
   par (nil T) C' = par (nil T) C \<Longrightarrow> nil_parent T' C' t"
  by (auto simp: nil_parent_def get_parent_def)

lemma rb_relabel: "rb (plug C (N c l a k v r)) = rb (plug C (N c l a k' v' r))"
  by (simp add: rb_plug)

text \<open>After the splice: the loop runs when a black node went, and otherwise nothing is to do.\<close>

lemma delete_finish:
  assumes rep: "rep T (plug C x)" and np: "nil_parent T C x" and rb: "rb (plug C (N c l y k v r))"
    and x: "x = l \<and> r = E \<or> x = r \<and> l = E"
  shows "\<exists>T' t'. (if c = BLACK then rbtree_delete_fixup T (ptr (nil T) x) else Some T) = Some T' \<and>
     rep T' t' \<and> rb t' \<and> same_dom T T' \<and> same_recs (plug C x) t'"
proof -
  have inv: "cinv C (bh l + (if c = BLACK then 1 else 0))" "bh l = bh r" "invh l" "invh r" "invc l" "invc r"
    "c = RED \<longrightarrow> rcol l = BLACK \<and> rcol r = BLACK"
    using rb by (auto simp: rb_plug)
  have b: "bh x = 0" "bh l = 0" "invh x" "invc x" using x inv by auto
  then have bl: "invc (blacken x)" by (cases x) auto
  show ?thesis
  proof (cases c)
    case BLACK
    from delete_fixup_correct [OF rep np] obtain T' t' where
      "rbtree_delete_fixup T (ptr (nil T) x) = Some T'" "rep T' t'" "rb t'" "keeps T T'"
      "same_recs (plug C x) t'" using inv(1) b bl BLACK by auto
    with BLACK show ?thesis by (auto simp: same_dom_def keeps_def)
  next
    case RED
    then have "rb (plug C x)" using inv b x by (auto simp: rb_plug)
    with RED rep show ?thesis by (auto simp: same_dom_def same_recs_def)
  qed
qed

lemma same_dom_trans: "same_dom T T' \<Longrightarrow> same_dom T' T'' \<Longrightarrow> same_dom T T''"
  by (simp add: same_dom_def)

text \<open>The node that is freed has left the tree, and its record, and nothing else.\<close>

definition delete_ok :: "rbtree \<Rightarrow> rt \<Rightarrow> string \<Rightarrow> string \<Rightarrow> (ref \<times> rbtree) option \<Rightarrow> bool" where
  "delete_ok T t k v res \<longleftrightarrow> (\<exists>y T' t'. res = Some (y, T') \<and> rep T' t' \<and> rb t' \<and> same_dom T T' \<and>
     y \<in> set (addrs t) \<and> set (addrs t') = set (addrs t) - {y} \<and>
     (\<exists>xs ys. ents t = xs @ (k, v) # ys \<and> ents t' = xs @ ys))"

lemma delete_one_child:
  assumes rep: "rep T (plug C (N c l z k v r))" and rb: "rb (plug C (N c l z k v r))" and e: "l = E \<or> r = E"
  shows "delete_ok T (plug C (N c l z k v r)) k v (rbtree_delete T z)"
proof -
  note f = rep [unfolded rep_plug, simplified]
  define x where "x = (if l \<noteq> E then l else r)"
  have x: "x = l \<and> r = E \<or> x = r \<and> l = E" using e by (auto simp: x_def)
  note g = get_focus [OF rep]
  have px: "(if ptr (nil T) l \<noteq> nil T then ptr (nil T) l else if ptr (nil T) r \<noteq> nil T then ptr (nil T) r else nil T) = ptr (nil T) x"
    using f by (auto simp: x_def)
  obtain T1 T2 where T2: "set_parent T (ptr (nil T) x) (par (nil T) C) = Some T1"
     "relink_left_first T1 (par (nil T) C) z (ptr (nil T) x) = Some T2" "same_dom T T2"
     "rep T2 (plug C x)" "nil_parent T2 C x" "rheap T2 z = rheap T z"
    using splice_rep [OF rep x] by blast
  obtain T3 t3 where T3: "(if c = BLACK then rbtree_delete_fixup T2 (ptr (nil T2) x) else Some T2) = Some T3"
     "rep T3 t3" "rb t3" "same_dom T2 T3" "same_recs (plug C x) t3"
    using delete_finish [OF T2(4,5) rb x] by blast
  have "get_color T2 z = Some c" using T2(6) g(1) by (simp add: get_color_def)
  then have "rbtree_delete T z = Some (z, T3)"
    using g e px T2(1-3) T3(1) f by (auto simp: rbtree_delete_def Let_def same_dom_def)
  moreover have "set (addrs t3) = set (addrs (plug C (N c l z k v r))) - {z}"
    using T3(5) f x by (auto simp: same_recs_def addrs_plug)
  moreover have "ents (plug C (N c l z k v r)) = (lents C @ ents l) @ (k, v) # (ents r @ rents C)"
    "ents t3 = (lents C @ ents l) @ (ents r @ rents C)"
    using T3(5) x by (auto simp: same_recs_def ents_plug)
  moreover have "z \<in> set (addrs (plug C (N c l z k v r)))" by (simp add: addrs_plug)
  ultimately show ?thesis
    unfolding delete_ok_def using T3(2,3) same_dom_trans [OF T2(3) T3(4)] by blast
qed

lemma delete_two_children:
  assumes rep: "rep T (plug C (N c l z k v r))" and rb: "rb (plug C (N c l z k v r))" and e: "l \<noteq> E" "r \<noteq> E"
  shows "delete_ok T (plug C (N c l z k v r)) k v (rbtree_delete T z)"
proof -
  have rr: "rep T (plug (RF c l z k v # C) r)" using rep by simp
  obtain D cy y ky vy ry where D: "r = plug D (N cy E y ky vy ry)" "rbtree_mini T (ptr (nil T) r) = Some y"
    "lents D = []" using mini_correct [OF rr e(2)] by blast
  let ?yt = "N cy E y ky vy ry" and ?Z = "\<lambda>k v. RF c l z k v # C"
  have ry: "rep T (plug (D @ ?Z k v) ?yt)" using rr D(1) by (simp add: plug_append)
  note f = ry [unfolded rep_plug, simplified]
  note g = get_focus [OF rep] get_focus [OF ry]
  have lr: "ptr (nil T) l \<noteq> nil T" "ptr (nil T) r \<noteq> nil T"
    using rep e by (auto simp: rep_plug)
  have y_in: "y \<in> set (addrs r)" using D(1) by (simp add: addrs_plug)
  have zy: "y \<noteq> z" "z \<notin> set (addrs r)" using rep y_in by (auto simp: rep_plug)
  have succ: "rbtree_successor T z = Some y"
    using g lr D(2) by (simp add: rbtree_successor_def)
  obtain T1 T2 where T2: "set_parent T (ptr (nil T) ry) (par (nil T) (D @ ?Z k v)) = Some T1"
     "relink_left_first T1 (par (nil T) (D @ ?Z k v)) y (ptr (nil T) ry) = Some T2" "same_dom T T2"
     "rep T2 (plug (D @ ?Z k v) ry)" "nil_parent T2 (D @ ?Z k v) ry" "rheap T2 y = rheap T y"
    using splice_rep [OF ry, of ry] by blast
  have n2: "nil T2 = nil T" using T2(3) by (simp add: same_dom_def)
  have z2: "rep T2 (plug C (N c l z k v (plug D ry)))" using T2(4) by (simp add: plug_append)
  have y2: "y \<notin> set (addrs (plug C (N c l z k v (plug D ry))))"
    using rep D(1) by (auto simp: rep_plug addrs_plug distinct_plug)
  obtain T3 where T3: "swap_data T2 z y = Some T3" "rep T3 (plug C (N c l z ky vy (plug D ry)))"
    "same_dom T2 T3" "rheap T3 (nil T2) = rheap T2 (nil T2)" "get_color T3 y = Some cy"
    using swap_rep [OF z2 T2(6) [unfolded focus_read [OF ry]] _ y2] n2 g by auto
  have n3: "nil T3 = nil T" using T3(3) n2 by (simp add: same_dom_def)
  have r3: "rep T3 (plug (D @ ?Z ky vy) ry)" using T3(2) by (simp add: plug_append)
  have "par (nil T2) (D @ ?Z ky vy) = par (nil T2) (D @ ?Z k v)" by (cases D rule: caddrs.cases) auto
  then have np3: "nil_parent T3 (D @ ?Z ky vy) ry"
    using nil_parent_same [OF T2(5)] T3(3,4) by (simp add: same_dom_def)
  have "rb (plug C (N c l z ky vy (plug D ?yt)))" using rb D(1) rb_relabel by metis
  then have rb3: "rb (plug (D @ ?Z ky vy) ?yt)" by (simp add: plug_append)
  obtain T4 t4 where T4: "(if cy = BLACK then rbtree_delete_fixup T3 (ptr (nil T3) ry) else Some T3) = Some T4"
     "rep T4 t4" "rb t4" "same_dom T3 T4" "same_recs (plug (D @ ?Z ky vy) ry) t4"
    using delete_finish [OF r3 np3 rb3] by blast
  have "ptr (nil T) ry = (if ptr (nil T) ry \<noteq> nil T then ptr (nil T) ry else nil T)" by simp
  then have "rbtree_delete T z = Some (y, T4)"
    using g lr succ T2(1,2) T3(1,5) T4(1) zy n3 by (cases cy) (simp_all add: rbtree_delete_def Let_def)
  moreover have "set (addrs t4) = set (addrs (plug C (N c l z k v r))) - {y}"
    "y \<in> set (addrs (plug C (N c l z k v r)))"
    using T4(5) y2 D(1) by (auto simp: same_recs_def addrs_plug plug_append)
  moreover have "ents (plug C (N c l z k v r)) = (lents C @ ents l) @ (k, v) # ((ky, vy) # ents ry @ rents D @ rents C)"
    "ents t4 = (lents C @ ents l) @ ((ky, vy) # ents ry @ rents D @ rents C)"
    using T4(5) D(1,3) by (auto simp: same_recs_def ents_plug plug_append)
  ultimately show ?thesis
    unfolding delete_ok_def
    using T4(2,3) same_dom_trans [OF same_dom_trans [OF T2(3) T3(3)] T4(4)] by blast
qed

lemma delete_correct:
  "rep T (plug C (N c l z k v r)) \<Longrightarrow> rb (plug C (N c l z k v r)) \<Longrightarrow>
   delete_ok T (plug C (N c l z k v r)) k v (rbtree_delete T z)"
  using delete_one_child delete_two_children by blast

section \<open>The engine's operations\<close>

lemma search_root:
  assumes "rb_inv_of T t"
  shows "(rbtree_map T key = None \<and> rbtree_search T key = Some (nil T)) \<or>
     (\<exists>D c l a v r. t = plug D (N c l a key v r) \<and> rbtree_search T key = Some a \<and>
        rbtree_map T key = Some v)"
  using search_correct [of T "[]" t key] assms rbtree_map_rep [of T t]
  by (auto simp: rb_inv_of_def rep_def rbtree_search_def)

lemma nil_not_null: "rep T t \<Longrightarrow> nil T \<noteq> NULL"
  by (auto simp: rep_def)

lemma rbtree_get_correct:
  assumes "rbtree_inv T"
  shows "kvs_rbtree_get T (Some k) = Some (rbtree_map T k)"
proof -
  from assms obtain t where t: "rb_inv_of T t" by (auto simp: rbtree_inv_def)
  then have rep: "rep T t" by (simp add: rb_inv_of_def)
  from search_root [OF t, of k] show ?thesis
  proof (elim disjE exE conjE)
    fix D c l a v r
    assume *: "t = plug D (N c l a k v r)" "rbtree_search T k = Some a" "rbtree_map T k = Some v"
    then have "rep T (plug D (N c l a k v r))" using rep by simp
    from get_focus(7,8) [OF this] focus_read [OF this] * show ?thesis
      by (simp add: kvs_rbtree_get_def)
  qed (use nil_not_null [OF rep] in \<open>simp add: kvs_rbtree_get_def\<close>)
qed

lemma rbtree_exist_correct:
  assumes "rbtree_inv T"
  shows "kvs_rbtree_exist T (Some k) = Some (if rbtree_map T k = None then 1 else 0)"
proof -
  from assms obtain t where t: "rb_inv_of T t" by (auto simp: rbtree_inv_def)
  then have rep: "rep T t" by (simp add: rb_inv_of_def)
  from search_root [OF t, of k] show ?thesis
  proof (elim disjE exE conjE)
    fix D c l a v r
    assume *: "t = plug D (N c l a k v r)" "rbtree_search T k = Some a" "rbtree_map T k = Some v"
    then have "rep T (plug D (N c l a k v r))" using rep by simp
    from get_focus(7,8) [OF this] * show ?thesis by (simp add: kvs_rbtree_exist_def)
  qed (use nil_not_null [OF rep] in \<open>simp add: kvs_rbtree_exist_def\<close>)
qed

lemma rbtree_miss:
  assumes "rbtree_inv T" "rbtree_map T k = None"
  shows "kvs_rbtree_del T (Some k) = Some (1, T)" "kvs_rbtree_mod e T (Some k) (Some v) = Some (1, T)"
proof -
  from assms obtain t where t: "rb_inv_of T t" by (auto simp: rbtree_inv_def)
  then have "nil T \<noteq> NULL" using nil_not_null by (auto simp: rb_inv_of_def)
  with search_root [OF t, of k] assms(2)
  show "kvs_rbtree_del T (Some k) = Some (1, T)" "kvs_rbtree_mod e T (Some k) (Some v) = Some (1, T)"
    by (auto simp: kvs_rbtree_del_def kvs_rbtree_mod_def)
qed

lemma rbtree_set_dup:
  assumes "rbtree_inv T" "rbtree_map T k \<noteq> None"
  shows "kvs_rbtree_set e T (Some k) (Some v) = Some (1, T)"
proof -
  from assms obtain t where t: "rb_inv_of T t" by (auto simp: rbtree_inv_def)
  from search_root [OF t, of k] assms(2) obtain D c l a w r where
    *: "t = plug D (N c l a k w r)" "rbtree_search T k = Some a" by auto
  then have "rep T (plug D (N c l a k w r))" using t by (simp add: rb_inv_of_def)
  from get_focus(7,8) [OF this] * show ?thesis by (simp add: kvs_rbtree_set_def)
qed

lemma rbtree_set_new:
  assumes "rbtree_inv T" "env_ok e" "rbtree_map T k = None"
  shows "\<exists>T'. kvs_rbtree_set e T (Some k) (Some v) = Some (0, T') \<and> rbtree_inv T' \<and>
           rbtree_map T' = (rbtree_map T)(k \<mapsto> v)"
proof -
  from assms obtain t where t: "rb_inv_of T t" by (auto simp: rbtree_inv_def)
  then have rep: "rep T t" "rb t" "bst t" and d: "dom (rheap T) = insert (nil T) (set (addrs t))"
    and fr: "\<forall>n. rnext T \<le> n \<longrightarrow> rheap T (Ref n) = None"
    by (auto simp: rb_inv_of_def)
  define z where "z = Ref (rnext T)"
  define Tz where "Tz = T\<lparr>rnext := rnext T + 1,
     rheap := (rheap T)(z \<mapsto> fresh_node\<lparr>rkey := Some k, rvalue := Some v\<rparr>)\<rparr>"
  have "z \<notin> dom (rheap T)" using fr by (auto simp: z_def)
  then have zn: "z \<notin> set (addrs t)" "z \<noteq> nil T" using d by auto
  then have repz: "rep Tz t" using rep(1) by (auto simp: rep_def Tz_def z_def)
  have m: "map_of (ents t) k = None" using assms(3) rbtree_map_rep [OF rep(1)] by simp
  have zk: "rheap Tz z = Some (fresh_node\<lparr>rkey := Some k, rvalue := Some v\<rparr>)" by (simp add: Tz_def)
  have "z \<noteq> nil Tz" using zn by (simp add: Tz_def)
  from insert_correct [OF repz rep(2,3) m zk zn(1) this] obtain T' t' where
    T': "rbtree_insert Tz z = Some T'" "rep T' t'" "rb t'" "bst t'" "keeps Tz T'"
     "map_of (ents t') = (map_of (ents t))(k \<mapsto> v)" "set (addrs t') = insert z (set (addrs t))"
    by blast
  have dT: "dom (rheap T') = insert z (dom (rheap T))" "rnext T' = rnext T + 1" "nil T' = nil T"
    using T'(5) by (auto simp: keeps_def Tz_def)
  have "rheap T' (Ref n) = None" if "rnext T' \<le> n" for n
  proof -
    have "Ref n \<notin> dom (rheap T')" using that fr dT by (auto simp: z_def)
    then show ?thesis by (simp add: domIff)
  qed
  then have "rb_inv_of T' t'" using T' dT d by (auto simp: rb_inv_of_def)
  moreover have "rbtree_map T' = (rbtree_map T)(k \<mapsto> v)"
    using rbtree_map_rep [OF rep(1)] rbtree_map_rep [OF T'(2)] T'(6) by simp
  moreover have "kvs_rbtree_set e T (Some k) (Some v) = Some (0, T')"
    using search_root [OF t, of k] assms(2,3) T'(1)
    by (auto simp: kvs_rbtree_set_def Tz_def z_def)
  ultimately show ?thesis unfolding rbtree_inv_def by blast
qed

text \<open>Removing a node and freeing it, as \<open>kvs_rbtree_del\<close> and \<open>kvs_rbtree_destroy\<close> do.\<close>

lemma delete_and_free:
  assumes t: "rb_inv_of T (plug D (N c l a k v r))"
  shows "\<exists>y T1 T' t'. rbtree_delete T a = Some (y, T1) \<and> kvs_free_node T1 y = Some T' \<and> rb_inv_of T' t' \<and>
     rbtree_map T' = (rbtree_map T)(k := None) \<and> nil T' = nil T \<and>
     length (addrs t') < length (addrs (plug D (N c l a k v r)))"
proof -
  let ?t = "plug D (N c l a k v r)"
  from t have rep: "rep T ?t" "rb ?t" "bst ?t" and d: "dom (rheap T) = insert (nil T) (set (addrs ?t))"
    and fr: "\<forall>n. rnext T \<le> n \<longrightarrow> rheap T (Ref n) = None"
    by (auto simp: rb_inv_of_def)
  obtain y T1 t' xs ys where 1: "rbtree_delete T a = Some (y, T1)" "rep T1 t'" "rb t'" "same_dom T T1"
    "y \<in> set (addrs ?t)" "set (addrs t') = set (addrs ?t) - {y}"
    "ents ?t = xs @ (k, v) # ys" "ents t' = xs @ ys"
    using delete_correct [OF rep(1,2)] unfolding delete_ok_def by blast
  define T' where "T' = T1\<lparr>rheap := (rheap T1)(y := None)\<rparr>"
  have y: "y \<noteq> nil T" "y \<notin> set (addrs t')" using 1(5,6) rep(1) by (auto simp: rep_def)
  have n1: "nil T1 = nil T" "rnext T1 = rnext T" "dom (rheap T1) = dom (rheap T)"
    using 1(4) by (auto simp: same_dom_def)
  have "y \<in> dom (rheap T1)" using n1 d 1(5) by simp
  then have free: "kvs_free_node T1 y = Some T'" by (auto simp: kvs_free_node_def T'_def)
  have "rep T' t'" using 1(2) y n1 by (auto simp: rep_def T'_def)
  moreover have "bst t'" using rep(3) 1(7,8) by (auto simp: bst_def sorted_wrt_append)
  moreover have "dom (rheap T') = insert (nil T') (set (addrs t'))"
    using n1 d 1(6) y by (auto simp: T'_def)
  moreover have "\<forall>n. rnext T' \<le> n \<longrightarrow> rheap T' (Ref n) = None"
    using fr n1 by (auto simp: T'_def dom_def fun_eq_iff) (metis (mono_tags) domIff n1(3) option.distinct(1))
  ultimately have inv: "rb_inv_of T' t'" using 1(3) by (simp add: rb_inv_of_def)
  have "k \<notin> fst ` set (xs @ ys)" using rep(3) 1(7) by (auto simp: bst_def sorted_wrt_append)
  then have "map_of (ents t') = (map_of (ents ?t))(k := None)"
    unfolding 1(7,8) by (rule map_of_remove_mid)
  then have m: "rbtree_map T' = (rbtree_map T)(k := None)"
    using rbtree_map_rep [OF rep(1)] rbtree_map_rep \<open>rep T' t'\<close> by metis
  have "distinct (addrs ?t)" "distinct (addrs t')" using rep(1) 1(2) by (auto simp: rep_def)
  then have "length (addrs t') < length (addrs ?t)"
    using 1(5,6) by (metis List.finite_set card_Diff1_less distinct_card)
  with 1(1) free inv m n1 show ?thesis by (auto simp: T'_def)
qed

lemma rbtree_del_hit:
  assumes "rbtree_inv T" "rbtree_map T k \<noteq> None"
  shows "\<exists>T'. kvs_rbtree_del T (Some k) = Some (0, T') \<and> rbtree_inv T' \<and>
           rbtree_map T' = (rbtree_map T)(k := None)"
proof -
  from assms obtain t where t: "rb_inv_of T t" by (auto simp: rbtree_inv_def)
  from search_root [OF t, of k] assms(2) obtain D c l a w r where
    *: "t = plug D (N c l a k w r)" "rbtree_search T k = Some a" by auto
  have "rep T (plug D (N c l a k w r))" using t * by (simp add: rb_inv_of_def)
  then have "a \<noteq> NULL" "a \<noteq> nil T" using get_focus(7,8) by blast+
  with delete_and_free [OF t [unfolded *(1)]] *(2) show ?thesis
    unfolding rbtree_inv_def by (auto simp: kvs_rbtree_del_def)
qed

lemma rbtree_mod_hit:
  assumes "rbtree_inv T" "env_ok e" "rbtree_map T k \<noteq> None"
  shows "\<exists>T'. kvs_rbtree_mod e T (Some k) (Some v) = Some (0, T') \<and> rbtree_inv T' \<and>
           rbtree_map T' = (rbtree_map T)(k \<mapsto> v)"
proof -
  from assms obtain t where t: "rb_inv_of T t" by (auto simp: rbtree_inv_def)
  from search_root [OF t, of k] assms(3) obtain D c l a w r where
    *: "t = plug D (N c l a k w r)" "rbtree_search T k = Some a" by auto
  have rep: "rep T (plug D (N c l a k w r))" using t * by (simp add: rb_inv_of_def)
  let ?t' = "plug D (N c l a k v r)"
  define T' where "T' = T\<lparr>rheap := (rheap T)(a \<mapsto> mk c (ptr (nil T) l) (ptr (nil T) r) (par (nil T) D) k v)\<rparr>"
  have m: "kvs_rbtree_mod e T (Some k) (Some v) = Some (0, T')"
    using get_focus(7,8) [OF rep] focus_read [OF rep] *(2) assms(2)
    by (simp add: kvs_rbtree_mod_def write_node_def T'_def)
  have rep': "rep T' ?t'" using rep get_focus(8) [OF rep] by (auto simp: rep_plug T'_def)
  have e: "ents t = lents D @ ents l @ (k, w) # ents r @ rents D"
    "ents ?t' = lents D @ ents l @ (k, v) # ents r @ rents D"
    using *(1) by (simp_all add: ents_plug)
  have "bst ?t'" using t e by (auto simp: rb_inv_of_def bst_def sorted_wrt_append)
  moreover have "rb (plug D (N c l a k w r))" using t * by (simp add: rb_inv_of_def)
  then have "rb ?t'" by (subst rb_relabel)
  moreover have "dom (rheap T') = dom (rheap T)" using focus_read [OF rep] by (auto simp: T'_def)
  moreover have "set (addrs ?t') = set (addrs t)" using *(1) by (simp add: addrs_plug)
  moreover have "\<forall>n. rnext T \<le> n \<longrightarrow> rheap T' (Ref n) = None"
    using t focus_read [OF rep] by (auto simp: rb_inv_of_def T'_def)
  ultimately have "rb_inv_of T' ?t'"
    using t rep' by (simp add: rb_inv_of_def T'_def)
  moreover have "k \<notin> fst ` set (lents D @ ents l)"
    using t e(1) by (auto simp: rb_inv_of_def bst_def sorted_wrt_append)
  then have "map_of (ents ?t') = (map_of (ents t))(k \<mapsto> v)"
    using map_of_insert_mid [of k "lents D @ ents l" v "ents r @ rents D"]
      map_of_insert_mid [of k "lents D @ ents l" w "ents r @ rents D"] e by simp
  then have "rbtree_map T' = (rbtree_map T)(k \<mapsto> v)"
    using rbtree_map_rep [OF rep'] rbtree_map_rep [OF rep] *(1) by simp
  ultimately show ?thesis using m unfolding rbtree_inv_def by blast
qed

lemma rbtree_start_inv: "rb_inv_of rbtree_start E"
  by (auto simp: rb_inv_of_def rep_def rbtree_start_def rb_def bst_def)

lemma rbtree_start_map: "rbtree_map rbtree_start = Map.empty"
  using rbtree_map_rep [of rbtree_start E] rbtree_start_inv by (simp add: rb_inv_of_def)

lemma rbtree_create_start: "env_ok e \<Longrightarrow> kvs_rbtree_create e rbtree_zero = Some (0, rbtree_start)"
  by (simp add: kvs_rbtree_create_def rbtree_zero_def rbtree_start_def field_defs Let_def)

interpretation rbt: kv_engine rbtree_ops rbtree_start rbtree_inv rbtree_map "\<lambda>_. True" \<infinity>
proof
  show "rbtree_inv rbtree_start" using rbtree_start_inv by (auto simp: rbtree_inv_def)
  show "finite (dom (rbtree_map T))" if "rbtree_inv T" for T
    using that rbtree_map_rep by (auto simp: rbtree_inv_def rb_inv_of_def finite_dom_map_of)
qed (auto simp: rbtree_ops_def rbtree_start_map rbtree_get_correct rbtree_exist_correct rbtree_miss
      rbtree_set_dup rbtree_set_new rbtree_del_hit rbtree_mod_hit has_room_def)

text \<open>Destruction empties the tree.\<close>

lemma destroy_loop_correct:
  "rb_inv_of T t \<Longrightarrow> \<exists>T'. destroy_loop T = Some T' \<and> rb_inv_of T' E \<and> nil T' = nil T"
proof (induction "length (addrs t)" arbitrary: T t rule: less_induct)
  case less
  have rep: "rep T t" using less.prems by (simp add: rb_inv_of_def)
  then have root: "root T = ptr (nil T) t" "nil T \<notin> set (addrs t)" by (simp_all add: rep_def)
  show ?case
  proof (cases "t = E")
    case True
    then show ?thesis using less.prems root by (auto simp: destroy_loop.simps [of T])
  next
    case False
    from mini_correct [of T "[]" t] rep False obtain D c a k v r where
      D: "t = plug D (N c E a k v r)" "rbtree_mini T (root T) = Some a" by (auto simp: root)
    from delete_and_free [OF less.prems [unfolded D(1)]] obtain y T1 T' t' where
      1: "rbtree_delete T a = Some (y, T1)" "kvs_free_node T1 y = Some T'" "rb_inv_of T' t'"
      "nil T' = nil T" "length (addrs t') < length (addrs t)" unfolding D(1) by blast
    have "destroy_loop T = destroy_loop T'"
      using root False D(2) 1(1,2) by (simp add: destroy_loop.simps [of T])
    with less.hyps [OF 1(5,3)] 1(4) show ?thesis by simp
  qed
qed

lemma rbtree_destroy_correct:
  assumes "rbtree_inv T"
  shows "\<exists>T'. kvs_rbtree_destroy T = Some T' \<and> rheap T' = Map.empty \<and> root T' = NULL \<and> nil T' = NULL"
proof -
  from assms obtain t where "rb_inv_of T t" by (auto simp: rbtree_inv_def)
  from destroy_loop_correct [OF this] obtain T' where
    T': "destroy_loop T = Some T'" "rb_inv_of T' E" by blast
  then have d: "dom (rheap T') = {nil T'}" by (simp add: rb_inv_of_def)
  then obtain n where n: "rheap T' (nil T') = Some n" by (metis domD insertI1)
  have "(rheap T')(nil T' := None) = Map.empty" using d by (auto simp: fun_eq_iff domIff)
  with T'(1) n show ?thesis by (simp add: kvs_rbtree_destroy_def kvs_free_node_def)
qed

text \<open>The height of a red-black tree is at most twice the logarithm of its size.\<close>

fun height_of :: "rt \<Rightarrow> nat" where
  "height_of E = 0"
| "height_of (N c l a k v r) = Suc (max (height_of l) (height_of r))"

lemma height_bh: "invh t \<Longrightarrow> invc t \<Longrightarrow> height_of t \<le> 2 * bh t + (if rcol t = RED then 1 else 0)"
proof (induction t)
  case (N c l a k v r)
  then show ?case by (cases c; cases "rcol l"; cases "rcol r") auto
qed simp

lemma bst_distinct: "bst t \<Longrightarrow> distinct (map fst (ents t))"
proof -
  have "sorted_wrt (\<lambda>x y. fst x < fst y) xs \<Longrightarrow> distinct (map fst xs)" for xs :: "(string \<times> string) list"
    by (induction xs) auto
  then show "bst t \<Longrightarrow> distinct (map fst (ents t))" by (simp add: bst_def)
qed

lemma bst_card:
  assumes "rep T t" "bst t"
  shows "card (dom (rbtree_map T)) = length (ents t)"
  using distinct_card [OF bst_distinct [OF assms(2)]] rbtree_map_rep [OF assms(1)]
  by (simp add: dom_map_of_conv_image_fst)

lemma bh_size: "invh t \<Longrightarrow> 2 ^ bh t \<le> length (ents t) + 1"
  by (induction t) auto

lemma rb_height:
  assumes "rb t"
  shows "2 ^ (height_of t div 2) \<le> length (ents t) + 1"
proof -
  have "height_of t div 2 \<le> bh t" using height_bh [of t] assms by (simp add: rb_def)
  then have "(2 :: nat) ^ (height_of t div 2) \<le> 2 ^ bh t" by (simp add: power_increasing)
  also have "\<dots> \<le> length (ents t) + 1" using bh_size assms by (simp add: rb_def)
  finally show ?thesis .
qed

section \<open>Properties of the red-black tree engine\<close>

text \<open>C8: Any sequence of set, get, del, mod and exist calls on a freshly created red-black tree,
  with enough memory, follows only valid and initialised pointers, terminates, and returns
  exactly the replies of an unbounded map.\<close>

theorem rbtree_refines_map:
  assumes "\<forall>(e, c) \<in> set ecs. env_ok e"
  shows "\<exists>T'. eng_run rbtree_ops rbtree_start ecs =
        Some (fst (spec_run \<infinity> Map.empty (map snd ecs)), T') \<and>
      rbtree_inv T' \<and> rbtree_map T' = snd (spec_run \<infinity> Map.empty (map snd ecs))"
  by (rule rbt.run_from_start) (use assms in auto)

theorem rbtree_refines_map_witness:
  "\<exists>T'. eng_run rbtree_ops rbtree_start
      [(env0, KSet ''b'' ''1''), (env0, KSet ''a'' ''2''), (env0, KSet ''c'' ''3''), (env0, KDel ''b''),
       (env0, KMod ''c'' ''4''), (env0, KGet ''c''), (env0, KExist ''b'')] =
     Some ([Code 0, Code 0, Code 0, Code 0, Code 0, Val (Some ''4''), Code 1], T')"
  using rbtree_refines_map [of "[(env0, KSet ''b'' ''1''), (env0, KSet ''a'' ''2''), (env0, KSet ''c'' ''3''),
      (env0, KDel ''b''), (env0, KMod ''c'' ''4''), (env0, KGet ''c''), (env0, KExist ''b'')]"]
  by (auto simp: has_room_def)

text \<open>C9: Every tree reached by such calls is a red-black tree: its store holds a search tree with
  a black root, no red node below a red one and equal black heights, so that its height is at
  most twice the logarithm of the number of records plus one; no node is leaked.\<close>

theorem rbtree_stays_balanced:
  assumes "\<forall>(e, c) \<in> set ecs. env_ok e" and "eng_run rbtree_ops rbtree_start ecs = Some (rs, T)"
  shows "\<exists>t. rep T t \<and> bst t \<and> invc t \<and> invh t \<and> rcol t = BLACK \<and>
     2 ^ (height_of t div 2) \<le> card (dom (rbtree_map T)) + 1 \<and>
     dom (rheap T) = insert (nil T) (set (addrs t))"
proof -
  have "rbtree_inv T" using rbt.run_from_start [of ecs] assms by auto
  then obtain t where t: "rb_inv_of T t" by (auto simp: rbtree_inv_def)
  then have "rep T t" "rb t" "bst t" by (simp_all add: rb_inv_of_def)
  then have "2 ^ (height_of t div 2) \<le> card (dom (rbtree_map T)) + 1"
    using rb_height [of t] bst_card [of T t] by simp
  with t show ?thesis by (intro exI [of _ t]) (simp add: rb_inv_of_def rb_def)
qed

theorem rbtree_stays_balanced_witness:
  "\<exists>T t. eng_run rbtree_ops rbtree_start [(env0, KSet ''a'' ''1''), (env0, KSet ''b'' ''2'')] =
     Some ([Code 0, Code 0], T) \<and> rep T t \<and> bst t \<and> rcol t = BLACK"
proof -
  obtain T where T: "eng_run rbtree_ops rbtree_start [(env0, KSet ''a'' ''1''), (env0, KSet ''b'' ''2'')] =
      Some ([Code 0, Code 0], T)"
    using rbt.run_from_start [of "[(env0, KSet ''a'' ''1''), (env0, KSet ''b'' ''2'')]"]
    by (auto simp: has_room_def)
  from rbtree_stays_balanced [OF _ T] T show ?thesis by auto
qed

text \<open>C14: Destroying such a tree terminates and frees every node once, the sentinel included.\<close>

theorem rbtree_destroy_frees_all:
  assumes "\<forall>(e, c) \<in> set ecs. env_ok e" and "eng_run rbtree_ops rbtree_start ecs = Some (rs, T)"
  shows "\<exists>T'. kvs_rbtree_destroy T = Some T' \<and> rheap T' = Map.empty \<and> root T' = NULL \<and> nil T' = NULL"
proof -
  have "rbtree_inv T" using rbt.run_from_start [of ecs] assms by auto
  then show ?thesis by (rule rbtree_destroy_correct)
qed

theorem rbtree_destroy_frees_all_witness:
  "\<exists>T T'. eng_run rbtree_ops rbtree_start [(env0, KSet ''a'' ''1''), (env0, KSet ''b'' ''2'')] =
     Some ([Code 0, Code 0], T) \<and> kvs_rbtree_destroy T = Some T' \<and> rheap T' = Map.empty"
proof -
  obtain T where T: "eng_run rbtree_ops rbtree_start [(env0, KSet ''a'' ''1''), (env0, KSet ''b'' ''2'')] =
      Some ([Code 0, Code 0], T)"
    using rbt.run_from_start [of "[(env0, KSet ''a'' ''1''), (env0, KSet ''b'' ''2'')]"]
    by (auto simp: has_room_def)
  from rbtree_destroy_frees_all [OF _ T] T show ?thesis by auto
qed

text \<open>C10: The in-order traversal of such a tree lists its records in strictly increasing key order,
  and they are exactly the records of the map.\<close>

theorem rbtree_traversal_sorted:
  assumes "\<forall>(e, c) \<in> set ecs. env_ok e" and "eng_run rbtree_ops rbtree_start ecs = Some (rs, T)"
  shows "\<exists>xs. rbtree_traversal T (root T) = Some xs \<and> sorted_wrt (\<lambda>x y. fst x < fst y) xs \<and>
     map_of xs = snd (spec_run \<infinity> Map.empty (map snd ecs))"
proof -
  obtain t where t: "rb_inv_of T t" and m: "rbtree_map T = snd (spec_run \<infinity> Map.empty (map snd ecs))"
    using rbt.run_from_start [of ecs] assms by (auto simp: rbtree_inv_def)
  have "rbtree_traversal T (root T) = Some (ents t)"
    using traversal_correct [of T "[]" t] t by (simp add: rb_inv_of_def rep_def)
  moreover have "map_of (ents t) = snd (spec_run \<infinity> Map.empty (map snd ecs))"
    using m rbtree_map_rep t by (auto simp: rb_inv_of_def)
  ultimately show ?thesis using t by (auto simp: rb_inv_of_def bst_def)
qed

theorem rbtree_traversal_sorted_witness:
  "\<exists>T xs. eng_run rbtree_ops rbtree_start [(env0, KSet ''b'' ''1''), (env0, KSet ''a'' ''2'')] =
     Some ([Code 0, Code 0], T) \<and> rbtree_traversal T (root T) = Some xs \<and>
     sorted_wrt (\<lambda>x y. fst x < fst y) xs \<and> map_of xs ''a'' = Some ''2''"
proof -
  obtain T where T: "eng_run rbtree_ops rbtree_start [(env0, KSet ''b'' ''1''), (env0, KSet ''a'' ''2'')] =
      Some ([Code 0, Code 0], T)"
    using rbt.run_from_start [of "[(env0, KSet ''b'' ''1''), (env0, KSet ''a'' ''2'')]"]
    by (auto simp: has_room_def)
  from rbtree_traversal_sorted [OF _ T] T show ?thesis by (auto simp: has_room_def)
qed

end
