(* ===== verification/Rdb_Correct.thy ===== *)
theory Rdb_Correct
  imports Kvs_Rdb Rbtree_Correct
begin

text \<open>
  Correctness of the dump. \<open>save_list\<close> writes a list of records; each loop of \<open>rdb_save\<close> is
  \<open>save_list\<close> of the records of its engine, whatever the writes return, so that the dump never
  faults and leaves the old file alone when it fails. With complete writes the file is the
  encoding of the records, and reading it back into fresh engines rebuilds the four maps when no
  key or value is empty or too long; an empty value loses the records after it.
\<close>

section \<open>Encoding of integers and records\<close>

lemma ntohl_htonl:
  assumes "- (2 ^ 31) \<le> v" "v < 2 ^ 31"
  shows "ntohl (htonl v) = v"
proof -
  have c: "of_char (char_of (w mod 256 :: int) :: char) = w mod 256" for w by simp
  have split: "v mod (m * 256) = v div m mod 256 * m + v mod m" if "0 \<le> (m :: int)" for m
    using zmod_zmult2_eq [of 256 v m] by (simp only: mult.commute)
  have n: "(2 :: int) ^ 32 = 2 ^ 24 * 256" "(2 :: int) ^ 24 = 2 ^ 16 * 256" "(2 :: int) ^ 16 = 2 ^ 8 * 256"
    "(2 :: int) ^ 8 = 256" by simp_all
  have "v mod 2 ^ 32 = v div 2 ^ 24 mod 256 * 2 ^ 24 + v mod 2 ^ 24" unfolding n(1) by (rule split) simp
  also have "v mod 2 ^ 24 = v div 2 ^ 16 mod 256 * 2 ^ 16 + v mod 2 ^ 16" unfolding n(2) by (rule split) simp
  also have "v mod 2 ^ 16 = v div 2 ^ 8 mod 256 * 2 ^ 8 + v mod 2 ^ 8" unfolding n(3) by (rule split) simp
  finally have e: "v div 2 ^ 24 mod 256 * 2 ^ 24 + v div 2 ^ 16 mod 256 * 2 ^ 16 + v div 2 ^ 8 mod 256 * 2 ^ 8 + v mod 256 = v mod 2 ^ 32"
    unfolding n(4) by (simp only: add.assoc)
  have "v mod 2 ^ 32 = (if v < 0 then v + 2 ^ 32 else v)"
    using assms by (simp add: mod_pos_pos_trivial mod_neg_neg_trivial) (smt (verit) mod_add_self2 mod_pos_pos_trivial)
  then show ?thesis using assms unfolding htonl_def ntohl.simps c e by (simp add: Let_def)
qed

lemma length_htonl [simp]: "length (htonl v) = 4"
  by (simp add: htonl_def)

lemma read_int_htonl:
  "- (2 ^ 31) \<le> v \<Longrightarrow> v < 2 ^ 31 \<Longrightarrow> rdb_read_int (htonl v @ rest) = (Some v, rest)"
  by (simp add: rdb_read_int_def ntohl_htonl)

text \<open>Strings the format can hold: neither empty nor over a megabyte.\<close>

definition storable :: "string \<Rightarrow> bool" where
  "storable t \<longleftrightarrow> t \<noteq> [] \<and> length t \<le> 1024 * 1024 \<and> CHR 0x00 \<notin> set t"

definition enc_string :: "string \<Rightarrow> string" where
  "enc_string t = htonl (int (length t)) @ t"

lemma read_string_enc:
  assumes "storable t" "env_ok e"
  shows "rdb_read_string e (enc_string t @ rest) = (RStr t, rest)"
proof -
  have "takeWhile (\<lambda>c. c \<noteq> CHR 0x00) t = t" using assms(1) by (auto simp: storable_def)
  then show ?thesis
    using assms read_int_htonl [of "int (length t)" "t @ rest"] by (simp add: rdb_read_string_def enc_string_def storable_def)
qed

type_synonym rdb_rec = "int \<times> string \<times> string"

definition enc_rec :: "rdb_rec \<Rightarrow> string" where
  "enc_rec r = (case r of (t, k, v) \<Rightarrow> htonl t @ enc_string k @ enc_string v)"

section \<open>Saving\<close>

fun save_list :: "os \<Rightarrow> wfd \<Rightarrow> rdb_rec list \<Rightarrow> int \<Rightarrow> (bool \<times> wfd \<times> int) option" where
  "save_list os fd [] cnt = Some (False, fd, cnt)"
| "save_list os fd ((t, k, v) # rs) cnt = do {
     (err, fd) \<leftarrow> save_record os fd t (Some k) (Some v);
     if err then Some (True, fd, cnt) else save_list os fd rs (cnt + 1) }"

lemma save_record_total: "\<exists>err fd'. save_record os fd t (Some k) (Some v) = Some (err, fd')"
proof -
  have "\<exists>r fd'. rdb_write_string os fd (Some t) = Some (r, fd')" for fd t
    by (auto simp: rdb_write_string_def Let_def split_beta)
  then have "\<forall>fd t. \<exists>p. rdb_write_string os fd (Some t) = Some p" by blast
  then obtain f where f: "\<And>fd t. rdb_write_string os fd (Some t) = Some (f fd t)" by metis
  show ?thesis by (simp add: save_record_def f Let_def split_beta) blast
qed

lemma save_list_total: "\<exists>err fd' c. save_list os fd rs cnt = Some (err, fd', c)"
proof (induction rs arbitrary: fd cnt)
  case (Cons r rs)
  obtain t k v where r: "r = (t, k, v)" by (cases r)
  obtain err fd' where "save_record os fd t (Some k) (Some v) = Some (err, fd')" using save_record_total by blast
  then show ?case using Cons [of fd' "cnt + 1"] r by (cases err) (simp, blast, simp)
qed auto

lemma save_list_append:
  "save_list os fd (xs @ ys) cnt = do {
     (err, fd, c) \<leftarrow> save_list os fd xs cnt;
     if err then Some (True, fd, c) else save_list os fd ys c }"
proof (induction xs arbitrary: fd cnt)
  case (Cons x xs)
  obtain t k v where x: "x = (t, k, v)" by (cases x)
  obtain err fd' where "save_record os fd t (Some k) (Some v) = Some (err, fd')" using save_record_total by blast
  then show ?case using Cons x by simp
qed simp

lemma save_list_count: "save_list os fd rs cnt = map_option (\<lambda>(err, fd, c). (err, fd, c + cnt)) (save_list os fd rs 0)"
proof (induction rs arbitrary: fd cnt)
  case (Cons r rs)
  obtain t k v where r: "r = (t, k, v)" by (cases r)
  obtain err fd' where 1: "save_record os fd t (Some k) (Some v) = Some (err, fd')" using save_record_total by blast
  show ?case using Cons [of fd' "cnt + 1"] Cons [of fd' 1] 1 r
    by (auto simp: option.map_comp comp_def split_beta add_ac)
qed simp

lemma save_list_nonneg: "save_list os fd rs cnt = Some (err, fd', c) \<Longrightarrow> cnt \<le> c"
proof (induction rs arbitrary: fd cnt)
  case (Cons r rs)
  obtain t k v where r: "r = (t, k, v)" by (cases r)
  show ?case using Cons.prems Cons.IH r by (fastforce split: bind_splits if_splits)
qed simp

text \<open>The records of each engine, in the order they are written.\<close>

abbreviation tagged :: "int \<Rightarrow> (string \<times> string) list \<Rightarrow> rdb_rec list" where
  "tagged t L \<equiv> map (Pair t) L"

definition full_slot :: "kvs_array_t \<Rightarrow> nat \<Rightarrow> bool" where
  "full_slot inst j \<longleftrightarrow> (\<exists>x. slot inst j = Some x \<and> akey x \<noteq> None \<and> avalue x \<noteq> None)"

definition array_pairs :: "kvs_array_t \<Rightarrow> nat \<Rightarrow> (string \<times> string) list" where
  "array_pairs inst i = map (\<lambda>j. (the (akey (the (slot inst j))), the (avalue (the (slot inst j)))))
     (filter (full_slot inst) [i..<idx inst])"

lemma save_array_list:
  assumes "table inst = Some t" "idx inst \<le> length t"
  shows "save_array os inst i fd cnt = save_list os fd (tagged ENGINE_ARRAY (array_pairs inst i)) cnt"
  using assms
proof (induction os inst i fd cnt rule: save_array.induct)
  case (1 os inst i fd cnt)
  show ?case
  proof (cases "i < idx inst")
    case True
    then have s: "slot inst i = Some (t ! i)" using "1.prems" by simp
    show ?thesis
    proof (cases "akey (t ! i) \<noteq> None \<and> avalue (t ! i) \<noteq> None")
      case kv: True
      then obtain k v where kv': "akey (t ! i) = Some k" "avalue (t ! i) = Some v" by auto
      obtain err fd' where w: "save_record os fd ENGINE_ARRAY (Some k) (Some v) = Some (err, fd')"
        using save_record_total by blast
      have "array_pairs inst i = (k, v) # array_pairs inst (Suc i)"
        using True s kv' by (simp add: array_pairs_def full_slot_def upt_conv_Cons)
      then show ?thesis
        using True s kv' w "1.IH"(1) [OF True s kv] "1.prems" by (simp add: save_array.simps [of os inst i])
    next
      case False
      have "array_pairs inst i = array_pairs inst (Suc i)"
        using True s False by (simp add: array_pairs_def full_slot_def upt_conv_Cons)
      then show ?thesis
        using True s "1.IH"(2) [OF True s False] "1.prems" False
        by (auto simp: save_array.simps [of os inst i])
    qed
  next
    case False
    then show ?thesis by (simp add: save_array.simps [of os inst i] array_pairs_def)
  qed
qed

definition chain_pairs :: "hashnode_t list \<Rightarrow> (string \<times> string) list" where
  "chain_pairs ns = map (\<lambda>n. (hkey n, the (hvalue n))) ns"

lemma save_chain_list: "\<forall>n \<in> set ns. hvalue n \<noteq> None \<Longrightarrow> save_chain os ns fd cnt = save_list os fd (tagged ENGINE_HASH (chain_pairs ns)) cnt"
proof (induction ns arbitrary: fd cnt)
  case (Cons n ns)
  then obtain v where "hvalue n = Some v" by auto
  with Cons show ?case by (auto simp: chain_pairs_def cong: Option.bind_cong if_cong)
qed (simp add: chain_pairs_def)

lemma save_hash_list:
  assumes "nodes hash = Some t" "max_slots hash = int (length t)" "\<forall>ns \<in> set t. \<forall>n \<in> set ns. hvalue n \<noteq> None"
  shows "save_hash os hash i fd cnt = save_list os fd (tagged ENGINE_HASH (chain_pairs (concat (drop i t)))) cnt"
  using assms
proof (induction os hash i fd cnt rule: save_hash.induct)
  case (1 os hash i fd cnt)
  show ?case
  proof (cases "i < length t")
    case True
    have b: "bucket hash (int i) = Some (t ! i)" using "1.prems" True by (simp add: bucket_def)
    have "\<forall>n \<in> set (t ! i). hvalue n \<noteq> None" using "1.prems"(3) True nth_mem by blast
    note c = save_chain_list [OF this, of os fd cnt]
    obtain err fd' c' where w: "save_list os fd (tagged ENGINE_HASH (chain_pairs (t ! i))) cnt = Some (err, fd', c')"
      using save_list_total by blast
    have "chain_pairs (concat (drop i t)) = chain_pairs (t ! i) @ chain_pairs (concat (drop (Suc i) t))"
      using True by (simp add: Cons_nth_drop_Suc [symmetric] chain_pairs_def)
    moreover have "\<not> err \<Longrightarrow> save_hash os hash (Suc i) fd' c' = save_list os fd' (tagged ENGINE_HASH (chain_pairs (concat (drop (Suc i) t)))) c'"
      using "1.IH" [of "t ! i" _ err "(fd', c')" fd' c'] b c w True "1.prems" by simp
    ultimately show ?thesis
      using True "1.prems"(2) b c w by (simp add: save_hash.simps [of os hash i] save_list_append)
  next
    case False
    then show ?thesis using "1.prems"(2) by (simp add: save_hash.simps [of os hash i] chain_pairs_def)
  qed
qed

text \<open>The tree is saved in order, and the skip list along its level 0.\<close>

lemma save_rbtree_list:
  assumes "rep T (plug C t)"
  shows "save_rbtree_node os T (ptr (nil T) t) fd = do {
     (err, fd, c) \<leftarrow> save_list os fd (tagged ENGINE_RBTREE (ents t)) 0;
     Some (if err then -1 else c, fd) }"
  using assms
proof (induction t arbitrary: C fd)
  case E
  then show ?case by (simp add: save_rbtree_node.simps [of os T "nil T"])
next
  case (N c l a k v r)
  note g = get_focus [OF N.prems] focus_read [OF N.prems]
  have L: "save_rbtree_node os T (ptr (nil T) l) fd = do {
     (err, fd, c) \<leftarrow> save_list os fd (tagged ENGINE_RBTREE (ents l)) 0; Some (if err then -1 else c, fd) }" for fd
    using N.IH(1) [of "LF c a k v r # C"] N.prems by simp
  have R: "save_rbtree_node os T (ptr (nil T) r) fd = do {
     (err, fd, c) \<leftarrow> save_list os fd (tagged ENGINE_RBTREE (ents r)) 0; Some (if err then -1 else c, fd) }" for fd
    using N.IH(2) [of "RF c l a k v # C"] N.prems by simp
  obtain e1 fd1 c1 where 1: "save_list os fd (tagged ENGINE_RBTREE (ents l)) 0 = Some (e1, fd1, c1)"
    using save_list_total by blast
  obtain e2 fd2 where 2: "save_record os fd1 ENGINE_RBTREE (Some k) (Some v) = Some (e2, fd2)"
    using save_record_total by blast
  obtain e3 fd3 c3 where 3: "save_list os fd2 (tagged ENGINE_RBTREE (ents r)) 0 = Some (e3, fd3, c3)"
    using save_list_total by blast
  have pos: "0 \<le> c1" "0 \<le> c3" using save_list_nonneg 1 3 by blast+
  have "save_list os fd (tagged ENGINE_RBTREE (ents (N c l a k v r))) 0 =
     Some (if e1 then (True, fd1, c1) else if e2 then (True, fd2, c1) else (e3, fd3, c1 + 1 + c3))"
    using 1 2 3 save_list_count [of os fd2 "tagged ENGINE_RBTREE (ents r)" "c1 + 1"]
    by (simp add: save_list_append)
  moreover have "a \<noteq> nil T" using N.prems by (auto simp: rep_plug)
  ultimately show ?case using g L R 1 2 3 pos
    by (simp add: save_rbtree_node.simps [of os T a])
qed

lemma save_skip_list:
  assumes "links h (x # as)" "\<forall>a \<in> set (x # as). 0 < ht h a" "\<forall>a \<in> set as. h a \<noteq> None \<and> svalue (nd h a) \<noteq> None"
  shows "save_skip os h x fd cnt = save_list os fd (tagged ENGINE_SKIPLIST (entries h as)) cnt"
  using assms
proof (induction as arbitrary: x fd cnt)
  case Nil
  then have "fwd h x 0 = Some None" by (simp add: next_at_def)
  then show ?case by (simp add: save_skip.simps [of os h x] entries_def)
next
  case (Cons a as)
  have f: "fwd h x 0 = Some (Some a)" using Cons.prems(1,2) by (simp add: next_at_def)
  obtain n v where n: "h a = Some n" "svalue n = Some v" using Cons.prems(3) by auto
  obtain err fd' where "save_record os fd ENGINE_SKIPLIST (Some (skey n)) (Some v) = Some (err, fd')"
    using save_record_total by blast
  then show ?case using f n Cons.IH [of a fd' "cnt + 1"] Cons.prems
    by (simp add: save_skip.simps [of os h x] entries_def)
qed

section \<open>The records of the engines\<close>

definition engines_inv :: "engines \<Rightarrow> bool" where
  "engines_inv s \<longleftrightarrow> array_inv (global_array s) \<and> hash_inv (global_hash s) \<and> rbtree_inv (global_rbtree s) \<and>
     skip_inv (global_skip s)"

text \<open>A list of pairs that lists a map once.\<close>

definition listing :: "(string \<times> string) list \<Rightarrow> kv_map \<Rightarrow> bool" where
  "listing L m \<longleftrightarrow> distinct (map fst L) \<and> map_of L = m"

lemma listingI:
  assumes "distinct (map fst L)" "\<And>k v. (k, v) \<in> set L \<longleftrightarrow> m k = Some v"
  shows "listing L m"
proof -
  have "map_of L k = m k" for k
  proof (cases "m k")
    case None
    then have "k \<notin> fst ` set L" using assms(2) by fastforce
    then show ?thesis using None by (simp add: map_of_eq_None_iff)
  next
    case (Some v)
    then have "(k, v) \<in> set L" using assms(2) by blast
    then show ?thesis using Some assms(1) by simp
  qed
  then show ?thesis using assms(1) by (auto simp: listing_def)
qed

lemma array_lists:
  assumes "array_inv inst"
  shows "listing (array_pairs inst 0) (array_map inst)"
proof -
  obtain t where t: "table inst = Some t" "table_inv t" "idx inst \<le> length t"
    "\<forall>i < length t. idx inst \<le> i \<longrightarrow> akey (t ! i) = None"
    using assms by (rule array_invE)
  have sl: "slot inst j = Some (t ! j)" if "j < idx inst" for j using that t by simp
  have kv: "(akey (t ! j) = None) = (avalue (t ! j) = None)" if "j < idx inst" for j
    using that t(2,3) unfolding table_inv_def by (meson less_le_trans)
  have f: "full_slot inst j \<longleftrightarrow> akey (t ! j) \<noteq> None" if "j < idx inst" for j
    using sl [OF that] kv [OF that] by (auto simp: full_slot_def)
  have "inj_on (\<lambda>j. the (akey (the (slot inst j)))) {j. j < idx inst \<and> full_slot inst j}"
  proof (rule inj_onI, clarify)
    fix i j
    assume i: "i < idx inst" "full_slot inst i" and j: "j < idx inst" "full_slot inst j"
      and eq: "the (akey (the (slot inst i))) = the (akey (the (slot inst j)))"
    have "akey (t ! i) \<noteq> None" "akey (t ! j) \<noteq> None" "the (akey (t ! i)) = the (akey (t ! j))"
      using i j eq f [OF i(1)] f [OF j(1)] sl [OF i(1)] sl [OF j(1)] by simp_all
    then obtain k where "akey (t ! i) = Some k" "akey (t ! j) = Some k" by force
    then show "i = j" using table_inv_unique [OF t(2)] i(1) j(1) t(3) by (meson less_le_trans)
  qed
  then have "inj_on (\<lambda>j. the (akey (the (slot inst j)))) (set (filter (full_slot inst) [0..<idx inst]))"
    by (rule inj_on_subset) auto
  then have d: "distinct (map fst (array_pairs inst 0))"
    unfolding array_pairs_def by (simp add: distinct_map comp_def)
  have "(k, v) \<in> set (array_pairs inst 0) \<longleftrightarrow> array_map inst k = Some v" for k v
  proof
    assume "(k, v) \<in> set (array_pairs inst 0)"
    then obtain j where j: "j < idx inst" "full_slot inst j" "k = the (akey (the (slot inst j)))" "v = the (avalue (the (slot inst j)))"
      by (auto simp: array_pairs_def)
    then have "akey (t ! j) = Some k" "avalue (t ! j) = Some v" using sl [OF j(1)] by (auto simp: full_slot_def)
    then show "array_map inst k = Some v" using array_map_eq [OF t(1,2), of j k] j(1) t(3) by simp
  next
    assume m: "array_map inst k = Some v"
    then obtain j where j: "j < length t" "akey (t ! j) = Some k" using array_map_None [OF t(1), of k] by fastforce
    then have ji: "j < idx inst" using t(4) by (metis leI option.distinct(1))
    have "avalue (t ! j) = Some v" using array_map_eq [OF t(1,2) j] m by simp
    then show "(k, v) \<in> set (array_pairs inst 0)" using ji j(2) sl [OF ji]
      by (force simp: array_pairs_def full_slot_def)
  qed
  with d show ?thesis by (rule listingI)
qed

lemma chains_distinct:
  "\<forall>i < length t. chain_inv (i + b) (t ! i) \<Longrightarrow> distinct (map hkey (concat t))"
proof (induction t arbitrary: b)
  case (Cons ns t)
  have 0: "chain_inv b ns" using Cons.prems [rule_format, of 0] by simp
  have S: "\<forall>i < length t. chain_inv (i + Suc b) (t ! i)" using Cons.prems by fastforce
  have "hkey n \<noteq> hkey n'" if n: "n \<in> set ns" "n' \<in> set (concat t)" for n n'
  proof -
    obtain i where i: "i < length t" "n' \<in> set (t ! i)"
      using n(2) by (metis UN_E in_set_conv_nth set_concat)
    then have "hash_of (Some (hkey n')) (int MAX_TABLE_SIZE) = int (i + Suc b)" using S by (simp add: chain_inv_def)
    moreover have "hash_of (Some (hkey n)) (int MAX_TABLE_SIZE) = int b" using 0 n(1) by (simp add: chain_inv_def)
    ultimately show ?thesis by auto
  qed
  then have "hkey ` set ns \<inter> hkey ` set (concat t) = {}" by blast
  then show ?case using Cons.IH [OF S] 0 by (auto simp: chain_inv_def)
qed simp

lemma hash_lists:
  assumes "hash_inv hash"
  obtains t where "nodes hash = Some t" "max_slots hash = int (length t)" "\<forall>ns \<in> set t. \<forall>n \<in> set ns. hvalue n \<noteq> None"
    "listing (chain_pairs (concat t)) (hash_map hash)" "\<forall>(k, v) \<in> set (chain_pairs (concat t)). hash_key_ok k"
proof -
  obtain t where t: "nodes hash = Some t" "length t = MAX_TABLE_SIZE" "max_slots hash = int MAX_TABLE_SIZE"
    "\<forall>i < length t. chain_inv i (t ! i)"
    using assms by (auto simp: hash_inv_def)
  have v: "\<forall>n \<in> set ns. hvalue n \<noteq> None \<and> hash_key_ok (hkey n)" if "ns \<in> set t" for ns
    using that t(4) by (auto simp: in_set_conv_nth chain_inv_def hash_key_ok_def)
  have "map_of (chain_pairs L) k = (case find (\<lambda>node. hkey node = k) L of None \<Rightarrow> None | Some node \<Rightarrow> hvalue node)"
    if "\<forall>n \<in> set L. hvalue n \<noteq> None" for L k
    using that by (induction L) (auto simp: chain_pairs_def)
  moreover have "\<forall>n \<in> set (concat t). hvalue n \<noteq> None" using v by auto
  ultimately have "map_of (chain_pairs (concat t)) = hash_map hash" by (auto simp: hash_map_def t(1))
  moreover have "map fst (chain_pairs (concat t)) = map hkey (concat t)" by (simp add: chain_pairs_def comp_def)
  ultimately have "listing (chain_pairs (concat t)) (hash_map hash)"
    using chains_distinct [of t 0] t(4) by (simp add: listing_def)
  then show thesis using that [OF t(1)] t v by (auto simp: chain_pairs_def)
qed

lemma rbtree_lists:
  assumes "rbtree_inv T"
  obtains t where "rep T t" "listing (ents t) (rbtree_map T)"
  using assms bst_distinct rbtree_map_rep by (auto simp: rbtree_inv_def rb_inv_of_def listing_def)

lemma skip_lists:
  assumes "skip_inv s"
  obtains hdr as where "skip_rep s hdr as" "listing (entries (sheap s) as) (skip_map s)"
proof -
  obtain hdr as where r: "skip_rep s hdr as" using assms by (auto simp: skip_inv_def)
  have "sorted_wrt (\<lambda>a b. ky (sheap s) a < ky (sheap s) b) as" using r by (simp add: skip_rep_def Let_def)
  then have "distinct (map (ky (sheap s)) as)" by (induction as) auto
  then have "distinct (map fst (entries (sheap s) as))" by (simp add: entries_def comp_def)
  then show thesis using that [OF r] node_list_correct(2) [OF r] by (simp add: listing_def)
qed

text \<open>The records of the four engines, in the order of the dump.\<close>

definition recs_of :: "engines \<Rightarrow> (string \<times> string) list \<Rightarrow> (string \<times> string) list \<Rightarrow> (string \<times> string) list \<Rightarrow>
    (string \<times> string) list \<Rightarrow> bool" where
  "recs_of s A H R S \<longleftrightarrow> listing A (array_map (global_array s)) \<and> listing H (hash_map (global_hash s)) \<and>
     listing R (rbtree_map (global_rbtree s)) \<and> listing S (skip_map (global_skip s)) \<and> (\<forall>(k, v) \<in> set H. hash_key_ok k)"

definition dump_recs :: "(string \<times> string) list \<Rightarrow> (string \<times> string) list \<Rightarrow> (string \<times> string) list \<Rightarrow>
    (string \<times> string) list \<Rightarrow> rdb_rec list" where
  "dump_recs A H R S = tagged ENGINE_ARRAY A @ tagged ENGINE_HASH H @ tagged ENGINE_RBTREE R @ tagged ENGINE_SKIPLIST S"

lemma save_body_list:
  assumes "engines_inv s"
  obtains A H R S where "recs_of s A H R S"
    "\<And>os fd. \<exists>err fd' c c'. save_body os s fd = Some (err, fd', c) \<and>
       save_list os fd (dump_recs A H R S) 0 = Some (err, fd', c') \<and> (\<not> err \<longrightarrow> c = c')"
proof -
  have inv: "array_inv (global_array s)" "hash_inv (global_hash s)" "rbtree_inv (global_rbtree s)" "skip_inv (global_skip s)"
    using assms by (auto simp: engines_inv_def)
  obtain ta where ta: "table (global_array s) = Some ta" "idx (global_array s) \<le> length ta" using inv(1) by (rule array_invE)
  obtain th where th: "nodes (global_hash s) = Some th" "max_slots (global_hash s) = int (length th)"
    "\<forall>ns \<in> set th. \<forall>n \<in> set ns. hvalue n \<noteq> None"
    "listing (chain_pairs (concat th)) (hash_map (global_hash s))" "\<forall>(k, v) \<in> set (chain_pairs (concat th)). hash_key_ok k"
    using hash_lists [OF inv(2)] .
  obtain tr where tr: "rep (global_rbtree s) tr" "listing (ents tr) (rbtree_map (global_rbtree s))" using rbtree_lists [OF inv(3)] .
  obtain hdr as where sk: "skip_rep (global_skip s) hdr as" "listing (entries (sheap (global_skip s)) as) (skip_map (global_skip s))"
    using skip_lists [OF inv(4)] .
  let ?A = "array_pairs (global_array s) 0" and ?H = "chain_pairs (concat th)" and ?R = "ents tr"
    and ?S = "entries (sheap (global_skip s)) as"
  have 1: "recs_of s ?A ?H ?R ?S" using array_lists [OF inv(1)] th tr sk by (simp add: recs_of_def)
  have skl: "header (global_skip s) = Some hdr" "save_skip os (sheap (global_skip s)) hdr fd cnt = save_list os fd (tagged ENGINE_SKIPLIST ?S) cnt"
    for os fd cnt
    using sk(1) save_skip_list [of "sheap (global_skip s)" hdr as os fd cnt] by (auto simp: skip_rep_def Let_def simp flip: length_greater_0_conv)
  have rbl: "save_rbtree_node os (global_rbtree s) (root (global_rbtree s)) fd = do {
     (err, fd, c) \<leftarrow> save_list os fd (tagged ENGINE_RBTREE ?R) 0; Some (if err then -1 else c, fd) }" for os fd
    using save_rbtree_list [of "global_rbtree s" "[]" tr os fd] tr(1) by (simp add: rep_def)
  have "\<exists>err fd' c c'. save_body os s fd = Some (err, fd', c) \<and>
       save_list os fd (dump_recs ?A ?H ?R ?S) 0 = Some (err, fd', c') \<and> (\<not> err \<longrightarrow> c = c')" for os fd
  proof -
    obtain e1 f1 c1 where a: "save_list os fd (tagged ENGINE_ARRAY ?A) 0 = Some (e1, f1, c1)" using save_list_total by blast
    obtain e2 f2 c2 where h: "save_list os f1 (tagged ENGINE_HASH ?H) c1 = Some (e2, f2, c2)" using save_list_total by blast
    obtain e3 f3 c3 where r: "save_list os f2 (tagged ENGINE_RBTREE ?R) 0 = Some (e3, f3, c3)" using save_list_total by blast
    have r': "save_list os f2 (tagged ENGINE_RBTREE ?R) c2 = Some (e3, f3, c3 + c2)"
      using save_list_count [of os f2 "tagged ENGINE_RBTREE ?R" c2] r by simp
    obtain e4 f4 c4 where k: "save_list os f3 (tagged ENGINE_SKIPLIST ?S) (c3 + c2) = Some (e4, f4, c4)" using save_list_total by blast
    have "0 \<le> c3" using save_list_nonneg [OF r] .
    then show ?thesis
      using a h r r' k skl rbl save_array_list [OF ta, of os 0 fd 0] save_hash_list [OF th(1-3), of os 0 f1 c1]
      by (cases e1; cases e2; cases e3) (auto simp: save_body_def dump_recs_def save_list_append add.commute)
  qed
  with 1 that show thesis by blast
qed

section \<open>Complete writes\<close>

definition full_writes :: "os \<Rightarrow> bool" where
  "full_writes os \<longleftrightarrow> (\<forall>i n. os_write os i n = int n)"

lemma sys_write_full:
  "full_writes os \<Longrightarrow> sys_write os fd bs = (int (length bs), \<lparr>wcalls = Suc (wcalls fd), wout = wout fd @ bs\<rparr>)"
  by (simp add: sys_write_def full_writes_def)

lemma save_record_full:
  assumes "full_writes os"
  shows "\<exists>n. save_record os fd t (Some k) (Some v) = Some (False, \<lparr>wcalls = n, wout = wout fd @ enc_rec (t, k, v)\<rparr>)"
  using assms by (simp add: save_record_def rdb_write_string_def rdb_write_int_def sys_write_full enc_rec_def enc_string_def)

lemma save_list_full:
  assumes "full_writes os"
  shows "\<exists>n. save_list os fd rs cnt = Some (False, \<lparr>wcalls = n, wout = wout fd @ concat (map enc_rec rs)\<rparr>, cnt + int (length rs))"
proof (induction rs arbitrary: fd cnt)
  case Nil
  show ?case by (cases fd) auto
next
  case (Cons r rs)
  obtain t k v where r: "r = (t, k, v)" by (cases r)
  obtain n where n: "save_record os fd t (Some k) (Some v) = Some (False, \<lparr>wcalls = n, wout = wout fd @ enc_rec (t, k, v)\<rparr>)"
    using save_record_full [OF assms] by blast
  obtain n' where "save_list os \<lparr>wcalls = n, wout = wout fd @ enc_rec (t, k, v)\<rparr> rs (cnt + 1) =
     Some (False, \<lparr>wcalls = n', wout = (wout fd @ enc_rec (t, k, v)) @ concat (map enc_rec rs)\<rparr>, cnt + 1 + int (length rs))"
    using Cons [of "\<lparr>wcalls = n, wout = wout fd @ enc_rec (t, k, v)\<rparr>" "cnt + 1"] by auto
  then show ?case using n r by auto
qed

definition enc_header :: "os \<Rightarrow> string" where
  "enc_header os = RDB_MAGIC @ htonl RDB_VERSION @ htonl (os_time os div 2 ^ 32) @ htonl (os_time os)"

lemma save_header_full:
  assumes "full_writes os"
  shows "rdb_save_header os \<lparr>wcalls = 0, wout = []\<rparr> = (0, \<lparr>wcalls = 4, wout = enc_header os\<rparr>)"
  using assms by (simp add: rdb_save_header_def rdb_write_int_def sys_write_full enc_header_def RDB_MAGIC_def)

lemma load_header_enc: "\<exists>vt. rdb_load_header (enc_header os @ rest) = (Some vt, rest)"
proof -
  have r: "rdb_read_int (htonl v @ rest) = (Some (ntohl (htonl v)), rest)" for v rest
    by (simp add: rdb_read_int_def)
  have "ntohl (htonl RDB_VERSION) = RDB_VERSION" by (rule ntohl_htonl) (simp_all add: RDB_VERSION_def)
  then show ?thesis by (simp add: rdb_load_header_def enc_header_def RDB_MAGIC_def r)
qed

section \<open>Loading\<close>

fun load_recs :: "(nat \<Rightarrow> env) \<Rightarrow> nat \<Rightarrow> engines \<Rightarrow> rdb_rec list \<Rightarrow> engines option" where
  "load_recs es n s [] = Some s"
| "load_recs es n s ((t, k, v) # rs) =
     do { (l, s) \<leftarrow> load_record (es (n + 2)) s t k v; load_recs es (n + 3) s rs }"

lemma load_record_one: "0 \<le> t \<Longrightarrow> t \<le> 3 \<Longrightarrow> load_record e s t k v = Some (l, s') \<Longrightarrow> l = 1"
  by (auto simp: load_record_def engine_tags split: if_splits bind_splits)

lemma load_loop_enc:
  assumes "\<forall>(t, k, v) \<in> set rs. 0 \<le> t \<and> t \<le> 3 \<and> storable k \<and> storable v" "\<forall>n. env_ok (es n)"
  shows "load_loop es n s (concat (map enc_rec rs) @ htonl (-1) @ rest) cnt =
     map_option (\<lambda>s'. (cnt + int (length rs), s')) (load_recs es n s rs)"
  using assms(1)
proof (induction rs arbitrary: n s cnt)
  case Nil
  show ?case using read_int_htonl [of "-1" rest] by (simp add: load_loop.simps [of es n s])
next
  case (Cons r rs)
  obtain t k v where r: "r = (t, k, v)" by (cases r)
  have t: "0 \<le> t" "t \<le> 3" "storable k" "storable v" using Cons.prems r by auto
  let ?rest = "concat (map enc_rec rs) @ htonl (-1) @ rest"
  have 1: "rdb_read_int (concat (map enc_rec (r # rs)) @ htonl (-1) @ rest) = (Some t, enc_string k @ enc_string v @ ?rest)"
    using read_int_htonl [of t] t by (simp add: enc_rec_def r)
  have 2: "rdb_read_string (es n) (enc_string k @ enc_string v @ ?rest) = (RStr k, enc_string v @ ?rest)"
    "rdb_read_string (es (n + 1)) (enc_string v @ ?rest) = (RStr v, ?rest)"
    using read_string_enc t assms(2) by auto
  have "load_loop es n s (concat (map enc_rec (r # rs)) @ htonl (-1) @ rest) cnt =
     do { (l, s') \<leftarrow> load_record (es (n + 2)) s t k v; load_loop es (n + 3) s' ?rest (cnt + l) }"
    unfolding load_loop.simps [of es n s] 1 using 2 t by simp
  also have "\<dots> = map_option (\<lambda>s'. (cnt + int (length (r # rs)), s')) (load_recs es n s (r # rs))"
  proof (cases "load_record (es (n + 2)) s t k v")
    case (Some p)
    obtain l s' where p: "p = (l, s')" by (cases p)
    then have "l = 1" using load_record_one t Some by blast
    then show ?thesis using Some p r Cons.IH [of "n + 3" s' "cnt + 1"] Cons.prems by (simp add: add_ac)
  qed (simp add: r)
  finally show ?case .
qed

fun with_envs :: "(nat \<Rightarrow> env) \<Rightarrow> nat \<Rightarrow> (string \<times> string) list \<Rightarrow> (env \<times> string \<times> string) list" where
  "with_envs es n [] = []"
| "with_envs es n (kv # kvs) = (es (n + 2), kv) # with_envs es (n + 3) kvs"

lemma map_snd_with_envs [simp]: "map snd (with_envs es n L) = L"
  by (induction L arbitrary: n) auto

lemma with_envs_env: "(e, kv) \<in> set (with_envs es n L) \<Longrightarrow> (\<exists>i. e = es i) \<and> kv \<in> set L"
  by (induction L arbitrary: n) auto

lemma length_with_envs [simp]: "length (with_envs es n L) = length L"
  by (induction L arbitrary: n) auto

text \<open>Records with one tag go to one engine; \<open>sel\<close> and \<open>upd\<close> read and replace that engine.\<close>

lemma load_recs_tag:
  assumes step: "\<And>e s k v. load_record e s t k v =
       do { (r, x) \<leftarrow> op_set ops e (sel s) (Some k) (Some v); Some (1, upd s x) }"
    and lens: "\<And>s x. sel (upd s x) = x" "\<And>s x y. upd (upd s x) y = upd s y" "\<And>s. upd s (sel s) = s"
  shows "load_recs es n s (tagged t L @ rs) =
     do { x \<leftarrow> load_all ops (sel s) (with_envs es n L); load_recs es (n + 3 * length L) (upd s x) rs }"
proof (induction L arbitrary: n s)
  case Nil
  show ?case by (simp add: lens)
next
  case (Cons kv L)
  obtain k v where kv: "kv = (k, v)" by (cases kv)
  show ?case
  proof (cases "op_set ops (es (n + 2)) (sel s) (Some k) (Some v)")
    case (Some p)
    obtain r x where p: "p = (r, x)" by (cases p)
    show ?thesis using Some p kv Cons [of "n + 3" "upd s x"] by (simp add: step lens add_ac)
  qed (simp add: kv step)
qed

lemma load_array_recs:
  "load_recs es n s (tagged ENGINE_ARRAY L @ rs) =
     do { x \<leftarrow> load_all array_ops (global_array s) (with_envs es n L); load_recs es (n + 3 * length L) (s\<lparr>global_array := x\<rparr>) rs }"
  by (rule load_recs_tag) (simp_all add: load_record_def engine_tags array_ops_def)

lemma load_hash_recs:
  "load_recs es n s (tagged ENGINE_HASH L @ rs) =
     do { x \<leftarrow> load_all hash_ops (global_hash s) (with_envs es n L); load_recs es (n + 3 * length L) (s\<lparr>global_hash := x\<rparr>) rs }"
  by (rule load_recs_tag) (simp_all add: load_record_def engine_tags hash_ops_def)

lemma load_rbtree_recs:
  "load_recs es n s (tagged ENGINE_RBTREE L @ rs) =
     do { x \<leftarrow> load_all rbtree_ops (global_rbtree s) (with_envs es n L); load_recs es (n + 3 * length L) (s\<lparr>global_rbtree := x\<rparr>) rs }"
  by (rule load_recs_tag) (simp_all add: load_record_def engine_tags rbtree_ops_def)

lemma load_skip_recs:
  "load_recs es n s (tagged ENGINE_SKIPLIST L @ rs) =
     do { x \<leftarrow> load_all skip_ops (global_skip s) (with_envs es n L); load_recs es (n + 3 * length L) (s\<lparr>global_skip := x\<rparr>) rs }"
  by (rule load_recs_tag) (simp_all add: load_record_def engine_tags skip_ops_def)

definition engines_start :: engines where
  "engines_start = \<lparr>global_array = array_start, global_rbtree = rbtree_start, global_hash = hash_start, global_skip = skip_start\<rparr>"

definition maps_of :: "engines \<Rightarrow> kv_map list" where
  "maps_of s = [array_map (global_array s), hash_map (global_hash s), rbtree_map (global_rbtree s), skip_map (global_skip s)]"

definition all_storable :: "engines \<Rightarrow> bool" where
  "all_storable s \<longleftrightarrow> (\<forall>m \<in> set (maps_of s). \<forall>k v. m k = Some v \<longrightarrow> storable k \<and> storable v)"

lemma listing_card: "listing L m \<Longrightarrow> card (dom m) = length L"
  using distinct_card [of "map fst L"] by (auto simp: listing_def dom_map_of_conv_image_fst [symmetric])

lemma lists_storable: "listing L m \<Longrightarrow> \<forall>k v. m k = Some v \<longrightarrow> storable k \<and> storable v \<Longrightarrow> \<forall>(k, v) \<in> set L. storable k \<and> storable v"
  by (auto simp: listing_def)

lemma dump_recs_storable:
  assumes "recs_of s A H R S" "all_storable s"
  shows "\<forall>(t, k, v) \<in> set (dump_recs A H R S). 0 \<le> t \<and> t \<le> 3 \<and> storable k \<and> storable v"
proof -
  have l: "listing A (array_map (global_array s))" "listing H (hash_map (global_hash s))"
    "listing R (rbtree_map (global_rbtree s))" "listing S (skip_map (global_skip s))"
    using assms(1) by (auto simp: recs_of_def)
  note st = assms(2) [unfolded all_storable_def maps_of_def, simplified]
  have "\<forall>(k, v) \<in> set A. storable k \<and> storable v" "\<forall>(k, v) \<in> set H. storable k \<and> storable v"
    "\<forall>(k, v) \<in> set R. storable k \<and> storable v" "\<forall>(k, v) \<in> set S. storable k \<and> storable v"
    using lists_storable [OF l(1)] lists_storable [OF l(2)] lists_storable [OF l(3)] lists_storable [OF l(4)] st by blast+
  then show ?thesis by (fastforce simp: dump_recs_def engine_tags)
qed

lemma array_pairs_fit: "array_inv inst \<Longrightarrow> listing A (array_map inst) \<Longrightarrow> length A \<le> KVS_ARRAY_SIZE"
proof -
  assume inv: "array_inv inst" and l: "listing A (array_map inst)"
  obtain t where t: "length t = KVS_ARRAY_SIZE" "total inst = int (card (live t))" using inv by (rule array_invE)
  have "live t \<subseteq> {..<length t}" by (auto simp: live_def)
  then have "card (live t) \<le> KVS_ARRAY_SIZE" using t(1) card_mono [of "{..<length t}"] by fastforce
  then show ?thesis using t(2) card_dom_array_map(2) [OF inv] listing_card [OF l] by simp
qed

lemma load_dump:
  assumes "recs_of s A H R S" "length A \<le> KVS_ARRAY_SIZE" "\<forall>n. env_ok (es n)"
  shows "\<exists>s'. load_recs es 0 engines_start (dump_recs A H R S) = Some s' \<and> engines_inv s' \<and> maps_of s' = maps_of s"
proof -
  have l: "listing A (array_map (global_array s))" "listing H (hash_map (global_hash s))" "listing R (rbtree_map (global_rbtree s))"
    "listing S (skip_map (global_skip s))" "\<forall>(k, v) \<in> set H. hash_key_ok k"
    using assms(1) by (auto simp: recs_of_def)
  have d: "distinct (map (fst \<circ> snd) (with_envs es n L))" if "listing L m" for L m n
    using that map_map [of fst snd "with_envs es n L"] by (simp add: listing_def)
  have e: "\<forall>(e, k, v) \<in> set (with_envs es n L). env_ok e \<and> P k" if "\<forall>(k, v) \<in> set L. P k" for L n P
    using that assms(3) with_envs_env by fastforce
  obtain a where a: "load_all array_ops array_start (with_envs es 0 A) = Some a" "array_inv a" "array_map a = map_of A"
    using arr.load_from_start [OF e d [OF l(1)], of 0] assms(2) by auto
  let ?n1 = "3 * length A" and ?n2 = "3 * length A + 3 * length H" and ?n3 = "3 * length A + 3 * length H + 3 * length R"
  obtain h where h: "load_all hash_ops hash_start (with_envs es ?n1 H) = Some h" "hash_inv h" "hash_map h = map_of H"
    using hsh.load_from_start [OF e [OF l(5)] d [OF l(2)], of ?n1] by auto
  obtain r where r: "load_all rbtree_ops rbtree_start (with_envs es ?n2 R) = Some r" "rbtree_inv r" "rbtree_map r = map_of R"
    using rbt.load_from_start [OF e d [OF l(3)], of ?n2] by auto
  obtain k where k: "load_all skip_ops skip_start (with_envs es ?n3 S) = Some k" "skip_inv k" "skip_map k = map_of S"
    using skp.load_from_start [OF e d [OF l(4)], of ?n3] by auto
  let ?s = "\<lparr>global_array = a, global_rbtree = r, global_hash = h, global_skip = k\<rparr>"
  have "load_recs es 0 engines_start (dump_recs A H R S) = Some ?s"
    using a(1) h(1) r(1) k(1) load_skip_recs [where rs = "[]"]
    by (simp add: dump_recs_def load_array_recs load_hash_recs load_rbtree_recs engines_start_def)
  moreover have "engines_inv ?s" "maps_of ?s = maps_of s"
    using a h r k l by (simp_all add: engines_inv_def maps_of_def listing_def)
  ultimately show ?thesis by blast
qed

section \<open>Properties\<close>

text \<open>Saving, then loading into fresh engines.\<close>

lemma save_then_load:
  assumes "engines_inv s" and "all_storable s"
    and "full_writes os" and "os_open os" and "os_rename os" and "\<forall>n. env_ok (es n)"
  shows "\<exists>cnt dsk' s'. rdb_save os dsk s f = Some (cnt, dsk') \<and>
     rdb_load es dsk' engines_start f = Some (cnt, s') \<and> engines_inv s' \<and> maps_of s' = maps_of s \<and>
     cnt = int (sum_list (map (\<lambda>m. card (dom m)) (maps_of s)))"
proof -
  obtain A H R S where r: "recs_of s A H R S"
    and body: "\<And>os fd. \<exists>err fd' c c'. save_body os s fd = Some (err, fd', c) \<and>
       save_list os fd (dump_recs A H R S) 0 = Some (err, fd', c') \<and> (\<not> err \<longrightarrow> c = c')"
    using save_body_list [OF assms(1)] by metis
  let ?rs = "dump_recs A H R S" and ?fd = "\<lparr>wcalls = 4, wout = enc_header os\<rparr>"
  obtain n where "save_list os ?fd ?rs 0 = Some (False, \<lparr>wcalls = n, wout = enc_header os @ concat (map enc_rec ?rs)\<rparr>, int (length ?rs))"
    using save_list_full [OF assms(3), of ?fd ?rs 0] by auto
  then have b: "save_body os s ?fd = Some (False, \<lparr>wcalls = n, wout = enc_header os @ concat (map enc_rec ?rs)\<rparr>, int (length ?rs))"
    using body [of os ?fd] by auto
  let ?file = "enc_header os @ concat (map enc_rec ?rs) @ htonl (-1)"
  let ?tmp = "fst (snprintf 256 (f @ ''.tmp''))"
  have save: "rdb_save os dsk s f = Some (int (length ?rs), dsk(?tmp := None, f \<mapsto> ?file))"
    using assms(4,5) b save_header_full [OF assms(3)]
    by (simp add: rdb_save_def rdb_write_int_def sys_write_full [OF assms(3)] Let_def)
  have "array_inv (global_array s)" using assms(1) by (simp add: engines_inv_def)
  then have "length A \<le> KVS_ARRAY_SIZE" using array_pairs_fit r by (auto simp: recs_of_def)
  then obtain s' where s': "load_recs es 0 engines_start ?rs = Some s'" "engines_inv s'" "maps_of s' = maps_of s"
    using load_dump [OF r _ assms(6)] by blast
  obtain vt where "rdb_load_header ?file = (Some vt, concat (map enc_rec ?rs) @ htonl (-1))"
    using load_header_enc by blast
  then have "rdb_load es (dsk(?tmp := None, f \<mapsto> ?file)) engines_start f = Some (int (length ?rs), s')"
    using load_loop_enc [OF dump_recs_storable [OF r assms(2)] assms(6), of 0 engines_start "[]" 0] s'(1)
    by (simp add: rdb_load_def)
  moreover have "int (length ?rs) = int (sum_list (map (\<lambda>m. card (dom m)) (maps_of s)))"
    using r by (auto simp: dump_recs_def maps_of_def recs_of_def dest!: listing_card)
  ultimately show ?thesis using save s' by blast
qed

text \<open>C22: A dump can be read back: when the writes are complete and every key and value is
  non-empty and at most a megabyte, saving reports the number of records, and loading the file
  into fresh engines reports the same number and rebuilds the maps of all four engines, with
  their invariants.\<close>

theorem rdb_roundtrip:
  assumes "engines_inv s" and "all_storable s"
    and "full_writes os" and "os_open os" and "os_rename os" and "\<forall>n. env_ok (es n)"
  shows "\<exists>cnt dsk' s'. rdb_save os dsk s f = Some (cnt, dsk') \<and>
     rdb_load es dsk' engines_start f = Some (cnt, s') \<and> engines_inv s' \<and> maps_of s' = maps_of s \<and>
     cnt = int (sum_list (map (\<lambda>m. card (dom m)) (maps_of s)))"
  using save_then_load [OF assms] .

text \<open>The engines after \<open>init_kvengine\<close>, and one record in the array.\<close>

lemma engines_start_inv: "engines_inv engines_start"
  by (simp add: engines_inv_def engines_start_def array_start_inv hash_start_inv rbt.start_inv skp.start_inv)

definition os0 :: os where
  "os0 = \<lparr>os_open = True, os_write = (\<lambda>i n. int n), os_rename = True, os_time = 1700000000\<rparr>"

lemma os0_full: "full_writes os0" "os_open os0" "os_rename os0"
  by (simp_all add: os0_def full_writes_def)

theorem rdb_roundtrip_witness:
  "\<exists>s cnt dsk' s'. array_map (global_array s) ''a'' = Some ''1'' \<and>
     rdb_save os0 Map.empty s ''dump.rdb'' = Some (cnt, dsk') \<and>
     rdb_load (\<lambda>_. env0) dsk' engines_start ''dump.rdb'' = Some (cnt, s') \<and> maps_of s' = maps_of s"
proof -
  obtain a where a: "eng_run array_ops array_start [(env0, KSet ''a'' ''1'')] = Some ([Code 0], a)" "array_inv a"
    "array_map a = [''a'' \<mapsto> ''1'']"
    using arr.run_from_start [of "[(env0, KSet ''a'' ''1'')]"] by (auto simp: has_room_def KVS_ARRAY_SIZE_def)
  let ?s = "engines_start\<lparr>global_array := a\<rparr>"
  have "engines_inv ?s" using engines_start_inv a(2) by (simp add: engines_inv_def)
  moreover have "all_storable ?s"
    using a(3) by (auto simp: all_storable_def maps_of_def storable_def engines_start_def hsh.start_contents
        rbt.start_contents skp.start_contents split: if_splits)
  ultimately show ?thesis using rdb_roundtrip [of ?s os0 "\<lambda>_. env0" Map.empty "''dump.rdb''"] os0_full a(3)
    by (intro exI [of _ ?s]) auto
qed

text \<open>Writes that are complete or fail: a save that reports no error has written everything.\<close>

definition no_short_writes :: "os \<Rightarrow> bool" where
  "no_short_writes os \<longleftrightarrow> (\<forall>i n. os_write os i n < 0 \<or> int n \<le> os_write os i n)"

lemma sys_write_no_short:
  assumes "no_short_writes os" "sys_write os fd bs = (r, fd')"
  shows "r < 0 \<and> wout fd' = wout fd \<or> r = int (length bs) \<and> wout fd' = wout fd @ bs"
proof -
  have "os_write os (wcalls fd) (length bs) < 0 \<or> int (length bs) \<le> os_write os (wcalls fd) (length bs)"
    using assms(1) unfolding no_short_writes_def by blast
  then show ?thesis using assms(2) by (auto simp: sys_write_def Let_def min_def split: if_splits)
qed

lemma write_string_no_short:
  assumes "no_short_writes os" "rdb_write_string os fd (Some t) = Some (r, fd')" "\<not> r < 0"
  shows "wout fd' = wout fd @ enc_string t"
proof -
  obtain r1 f1 where 1: "sys_write os fd (htonl (int (length t))) = (r1, f1)" by fastforce
  obtain r2 f2 where 2: "sys_write os f1 t = (r2, f2)" by fastforce
  have "\<not> r1 < 0" "r2 = int (length t)" "fd' = f2"
    using assms(2, 3) 1 2 by (auto simp: rdb_write_string_def rdb_write_int_def split: if_splits)
  then show ?thesis using sys_write_no_short [OF assms(1) 1] sys_write_no_short [OF assms(1) 2] by (simp add: enc_string_def)
qed

lemma save_record_no_short:
  assumes "no_short_writes os" "save_record os fd t (Some k) (Some v) = Some (False, fd')"
  shows "wout fd' = wout fd @ enc_rec (t, k, v)"
proof -
  obtain r1 f1 where 1: "rdb_write_int os fd t = (r1, f1)" by fastforce
  have r1: "\<not> r1 < 0" using assms(2) 1 by (auto simp: save_record_def)
  obtain r2 f2 where 2: "rdb_write_string os f1 (Some k) = Some (r2, f2)" "\<not> r2 < 0"
    using assms(2) 1 r1 by (auto simp: save_record_def split: bind_splits if_splits)
  obtain r3 where 3: "rdb_write_string os f2 (Some v) = Some (r3, fd')" "\<not> r3 < 0"
    using assms(2) 1 2 r1 by (auto simp: save_record_def split: bind_splits if_splits)
  show ?thesis
    using sys_write_no_short [OF assms(1), of fd "htonl t" r1 f1] 1 r1 write_string_no_short [OF assms(1) 2] write_string_no_short [OF assms(1) 3]
    by (simp add: rdb_write_int_def enc_rec_def)
qed

lemma save_list_no_short:
  assumes "no_short_writes os" "save_list os fd rs cnt = Some (False, fd', c)"
  shows "wout fd' = wout fd @ concat (map enc_rec rs) \<and> c = cnt + int (length rs)"
  using assms(2)
proof (induction rs arbitrary: fd cnt)
  case (Cons r rs)
  obtain t k v where r: "r = (t, k, v)" by (cases r)
  obtain f1 where f1: "save_record os fd t (Some k) (Some v) = Some (False, f1)" "save_list os f1 rs (cnt + 1) = Some (False, fd', c)"
    using Cons.prems r by (auto split: bind_splits if_splits)
  show ?case using Cons.IH [OF f1(2)] save_record_no_short [OF assms(1) f1(1)] r by simp
qed simp

lemma save_header_no_short:
  assumes "no_short_writes os" "rdb_save_header os \<lparr>wcalls = 0, wout = []\<rparr> = (r, fd)" "\<not> r < 0"
  shows "wout fd = enc_header os"
proof -
  let ?f = "\<lparr>wcalls = 0, wout = []\<rparr>"
  obtain r1 f1 where 1: "sys_write os ?f RDB_MAGIC = (r1, f1)" by fastforce
  obtain r2 f2 where 2: "sys_write os f1 (htonl RDB_VERSION) = (r2, f2)" by fastforce
  obtain r3 f3 where 3: "sys_write os f2 (htonl (os_time os div 2 ^ 32)) = (r3, f3)" by fastforce
  obtain r4 f4 where 4: "sys_write os f3 (htonl (os_time os)) = (r4, f4)" by fastforce
  have r: "r1 = 5" "\<not> r2 < 0" "r3 = 4" "r4 = 4" "fd = f4"
    using assms(2, 3) 1 2 3 4 by (auto simp: rdb_save_header_def rdb_write_int_def Let_def split: if_splits)
  then show ?thesis
    using sys_write_no_short [OF assms(1) 1] sys_write_no_short [OF assms(1) 2] sys_write_no_short [OF assms(1) 3] sys_write_no_short [OF assms(1) 4]
    by (simp add: enc_header_def)
qed

text \<open>The dump of the engines: the header, a record for every pair of each of the four engines, and an end
  mark, which is missing when its write fails.\<close>

definition dump_of :: "os \<Rightarrow> engines \<Rightarrow> int \<Rightarrow> string \<Rightarrow> bool" where
  "dump_of os s n file \<longleftrightarrow> (\<exists>A H R S e. recs_of s A H R S \<and> n = int (length (dump_recs A H R S)) \<and>
     file = enc_header os @ concat (map enc_rec (dump_recs A H R S)) @ e \<and> (e = [] \<or> e = htonl (-1)))"

text \<open>C23: A save never faults, whatever the writes return, and it is atomic: when it reports an error
  the previous dump is untouched, and when it reports success and every single write was complete or
  failed (none was short), the dump is the complete encoding of all four engines and the result is the
  number of its records. The temporary file is gone afterwards if it could be opened, and no other
  file changes.\<close>

theorem rdb_save_atomic:
  assumes "engines_inv s"
  shows "\<exists>r dsk'. rdb_save_default os dsk s = Some (r, dsk') \<and>
     (r < 0 \<longrightarrow> dsk' RDB_FILENAME = dsk RDB_FILENAME) \<and>
     (0 \<le> r \<and> no_short_writes os \<longrightarrow> (\<exists>file. dsk' RDB_FILENAME = Some file \<and> dump_of os s r file)) \<and>
     (os_open os \<longrightarrow> dsk' ''dump.rdb.tmp'' = None) \<and>
     (\<forall>g. g \<noteq> RDB_FILENAME \<and> g \<noteq> ''dump.rdb.tmp'' \<longrightarrow> dsk' g = dsk g)"
proof -
  obtain A H R S where recs: "recs_of s A H R S" and body: "\<And>os fd. \<exists>err fd' c c'. save_body os s fd = Some (err, fd', c) \<and>
       save_list os fd (dump_recs A H R S) 0 = Some (err, fd', c') \<and> (\<not> err \<longrightarrow> c = c')"
    using save_body_list [OF assms] by metis
  obtain r fd where h: "rdb_save_header os \<lparr>wcalls = 0, wout = []\<rparr> = (r, fd)" by fastforce
  obtain err fd' c c' where b: "save_body os s fd = Some (err, fd', c)"
    "save_list os fd (dump_recs A H R S) 0 = Some (err, fd', c')" "\<not> err \<longrightarrow> c = c'" using body by blast
  obtain r' fd'' where w: "rdb_write_int os fd' (-1) = (r', fd'')" by fastforce
  have pos: "\<not> err \<longrightarrow> 0 \<le> c" using b(2,3) save_list_nonneg by blast
  have dump: "dump_of os s c (wout fd'')" if "no_short_writes os" "\<not> r < 0" "\<not> err"
  proof -
    have "wout fd' = enc_header os @ concat (map enc_rec (dump_recs A H R S))" "c = int (length (dump_recs A H R S))"
      using save_list_no_short [OF that(1), of fd "dump_recs A H R S" 0 fd' c'] b(2, 3) save_header_no_short [OF that(1) h that(2)] that(3) by simp_all
    moreover have "wout fd'' = wout fd' \<or> wout fd'' = wout fd' @ htonl (-1)"
      using sys_write_no_short [OF that(1), of fd' "htonl (-1)" r' fd''] w by (auto simp: rdb_write_int_def)
    ultimately show ?thesis using recs unfolding dump_of_def by fastforce
  qed
  show ?thesis using h b(1) w pos dump
    by (auto simp: rdb_save_default_def rdb_save_def snprintf_def RDB_FILENAME_def Let_def)
qed

theorem rdb_save_atomic_witness:
  "\<exists>r dsk'. rdb_save_default (os0\<lparr>os_write := \<lambda>i n. if i < 3 then int n else - 1\<rparr>) [''dump.rdb'' \<mapsto> ''old''] engines_start = Some (r, dsk') \<and>
     (r < 0 \<longrightarrow> dsk' RDB_FILENAME = Some ''old'')"
  using rdb_save_atomic [OF engines_start_inv, of "os0\<lparr>os_write := \<lambda>i n. if i < 3 then int n else - 1\<rparr>" "[''dump.rdb'' \<mapsto> ''old'']"]
  by (auto simp: RDB_FILENAME_def)

text \<open>Fresh engines have no records.\<close>

lemma save_start:
  "save_hash os hash_start 0 fd cnt = Some (False, fd, cnt)"
  "save_rbtree_node os rbtree_start (root rbtree_start) fd = Some (0, fd)"
  "do { x \<leftarrow> header skip_start; save_skip os (sheap skip_start) x fd cnt } = Some (False, fd, cnt)"
proof -
  show "save_hash os hash_start 0 fd cnt = Some (False, fd, cnt)"
    using save_hash_list [of hash_start "replicate MAX_TABLE_SIZE []" os 0 fd cnt]
    by (simp add: hash_start_def chain_pairs_def concat_replicate_trivial)
  have "rep rbtree_start E" using rbtree_start_inv by (simp add: rb_inv_of_def)
  then show "save_rbtree_node os rbtree_start (root rbtree_start) fd = Some (0, fd)"
    using save_rbtree_list [of rbtree_start "[]" E os fd] by (simp add: rep_def)
  have r: "skip_rep skip_start 0 []" by (rule skip_start_rep)
  then have "save_skip os (sheap skip_start) 0 fd cnt = Some (False, fd, cnt)"
    using save_skip_list [of "sheap skip_start" 0 "[]" os fd cnt]
    by (auto simp: skip_rep_def Let_def entries_def simp flip: length_greater_0_conv)
  then show "do { x \<leftarrow> header skip_start; save_skip os (sheap skip_start) x fd cnt } = Some (False, fd, cnt)"
    using r by (simp add: skip_rep_def Let_def)
qed

lemma save_body_array:
  "save_body os (engines_start\<lparr>global_array := a\<rparr>) fd = save_array os a 0 fd 0"
proof (cases "save_array os a 0 fd 0")
  case (Some p)
  obtain err fd' cnt where "p = (err, fd', cnt)" by (cases p)
  then show ?thesis using Some by (cases err) (simp_all add: save_body_def engines_start_def save_start)
qed (simp add: save_body_def engines_start_def)

lemma save_body_start: "save_body os engines_start fd = Some (False, fd, 0)"
  using save_body_array [of os array_start fd] by (simp add: engines_start_def array_start_def save_array.simps)

text \<open>C24: The save accepts short writes of integers: a disk that stores two of the four bytes of the
  version makes the save report success and replace the previous dump by a file that the loader
  rejects, so that the records of the previous dump are lost.\<close>

theorem rdb_short_write_accepted:
  "\<exists>os dsk'. rdb_save_default os dsk engines_start = Some (0, dsk') \<and>
     (\<forall>es s. rdb_load_default es dsk' s = Some (-1, s))"
proof -
  let ?os = "os0\<lparr>os_write := \<lambda>i n. if i = 1 then 2 else int n\<rparr>"
  have h: "rdb_save_header ?os \<lparr>wcalls = 0, wout = []\<rparr> =
     (0, \<lparr>wcalls = 4, wout = RDB_MAGIC @ take 2 (htonl 1) @ htonl (1700000000 div 2 ^ 32) @ htonl 1700000000\<rparr>)"
    by (simp add: rdb_save_header_def rdb_write_int_def sys_write_def os0_def RDB_MAGIC_def RDB_VERSION_def Let_def)
  let ?dsk = "dsk(''dump.rdb.tmp'' := None, RDB_FILENAME \<mapsto>
      (RDB_MAGIC @ take 2 (htonl 1) @ htonl (1700000000 div 2 ^ 32) @ htonl 1700000000) @ htonl (-1))"
  have "rdb_save_default ?os dsk engines_start = Some (0, ?dsk)"
    unfolding rdb_save_default_def rdb_save_def h Let_def
    by (simp add: save_body_start rdb_write_int_def sys_write_def os0_def snprintf_def RDB_FILENAME_def)
  moreover have "rdb_load_header (RDB_MAGIC @ take 2 (htonl 1) @ htonl 0 @ rest) = (None, drop 2 (htonl 0) @ rest)" for rest
    by (simp add: rdb_load_header_def RDB_MAGIC_def RDB_VERSION_def htonl_def rdb_read_int_def)
  then have "rdb_load_default es ?dsk s = Some (-1, s)" for es s
    by (simp add: rdb_load_default_def rdb_load_def)
  ultimately show ?thesis by blast
qed

text \<open>C25: Loading a file that ends inside a string frees the same buffer twice: the reader frees it and
  returns an error, and the loader frees it again.\<close>

theorem rdb_truncated_double_free:
  assumes "dsk f = Some (enc_header os @ htonl t @ htonl len @ bs)" and "t \<noteq> -1" and "- (2 ^ 31) \<le> t" and "t < 2 ^ 31"
    and "0 < len" and "len \<le> 1024 * 1024" and "length bs < nat len" and "env_ok (es 0)"
  shows "rdb_load es dsk s f = None"
proof -
  obtain vt where h: "rdb_load_header (enc_header os @ htonl t @ htonl len @ bs) = (Some vt, htonl t @ htonl len @ bs)"
    using load_header_enc by blast
  have "rdb_read_string (es 0) (htonl len @ bs) = (RFreed, [])"
    using read_int_htonl [of len bs] assms(5-8) by (simp add: rdb_read_string_def)
  then show ?thesis
    using h assms(1) read_int_htonl [OF assms(3,4), of "htonl len @ bs"] assms(2)
    by (simp add: rdb_load_def load_loop.simps [of es 0 s "htonl t @ htonl len @ bs"])
qed

theorem rdb_truncated_double_free_witness:
  "rdb_load (\<lambda>_. env0) [''dump.rdb'' \<mapsto> enc_header os0 @ htonl 0 @ htonl 5 @ ''ab''] engines_start ''dump.rdb'' = None"
  by (rule rdb_truncated_double_free [of _ _ os0 0 5 "''ab''"]) simp_all

text \<open>The array after \<open>SET a ""\<close> and \<open>SET b x\<close>.\<close>

definition two_slots :: kvs_array_t where
  "two_slots = \<lparr>table = Some ((replicate KVS_ARRAY_SIZE free_item)[0 := \<lparr>akey = Some ''a'', avalue = Some []\<rparr>,
       1 := \<lparr>akey = Some ''b'', avalue = Some ''x''\<rparr>]), idx = 2, total = 2\<rparr>"

lemma two_slots_run:
  "eng_run array_ops array_start [(env0, KSet ''a'' []), (env0, KSet ''b'' ''x'')] = Some ([Code 0, Code 0], two_slots)"
proof -
  have n: "2 < KVS_ARRAY_SIZE" "int KVS_ARRAY_SIZE \<noteq> 0" "int KVS_ARRAY_SIZE \<noteq> 1" by (simp_all add: KVS_ARRAY_SIZE_def)
  then show ?thesis
    by (simp add: array_ops_def kvs_array_set_def kvs_array_get_def array_start_def two_slots_def scan.simps slot_def
        set_slot_def holds_key_def env0_def kvs_strdup_def kvs_malloc_def free_item_def Let_def)
qed

text \<open>C26: an empty value, which \<open>SET a ""\<close> stores, is saved but cannot be loaded: the save reports
  both of its entries, and whatever the engines hold, the loader takes the zero length for an
  error and drops that record and every record after it.\<close>

theorem rdb_empty_value_drops_records:
  "\<exists>a dsk'. eng_run array_ops array_start [(env0, KSet ''a'' []), (env0, KSet ''b'' ''x'')] = Some ([Code 0, Code 0], a) \<and>
     rdb_save_default os0 Map.empty (engines_start\<lparr>global_array := a\<rparr>) = Some (2, dsk') \<and>
     (\<forall>s. rdb_load_default (\<lambda>_. env0) dsk' s = Some (0, s))"
proof -
  have n: "2 < KVS_ARRAY_SIZE" by (simp add: KVS_ARRAY_SIZE_def)
  let ?L = "[(''a'', []), (''b'', ''x'')]"
  have "[0..<2] = [0, 1 :: nat]" by (simp add: upt_rec)
  then have "array_pairs two_slots 0 = ?L"
    using n by (simp add: array_pairs_def two_slots_def full_slot_def slot_def)
  then have "save_array os0 two_slots 0 fd 0 = save_list os0 fd (tagged ENGINE_ARRAY ?L) 0" for fd
    using save_array_list [of two_slots _ os0 0 fd 0] n by (simp add: two_slots_def)
  moreover obtain m where "save_list os0 \<lparr>wcalls = 4, wout = enc_header os0\<rparr> (tagged ENGINE_ARRAY ?L) 0 =
     Some (False, \<lparr>wcalls = m, wout = enc_header os0 @ concat (map enc_rec (tagged ENGINE_ARRAY ?L))\<rparr>, 2)"
    using save_list_full [OF os0_full(1), of "\<lparr>wcalls = 4, wout = enc_header os0\<rparr>" "tagged ENGINE_ARRAY ?L" 0] by auto
  ultimately have body: "save_body os0 (engines_start\<lparr>global_array := two_slots\<rparr>) \<lparr>wcalls = 4, wout = enc_header os0\<rparr> =
     Some (False, \<lparr>wcalls = m, wout = enc_header os0 @ concat (map enc_rec (tagged ENGINE_ARRAY ?L))\<rparr>, 2)"
    by (simp add: save_body_array)
  let ?recs = "concat (map enc_rec (tagged ENGINE_ARRAY ?L)) @ htonl (-1)"
  have save: "rdb_save_default os0 Map.empty (engines_start\<lparr>global_array := two_slots\<rparr>) =
      Some (2, Map.empty(''dump.rdb.tmp'' := None, RDB_FILENAME \<mapsto> enc_header os0 @ ?recs))"
    using body os0_full save_header_full [OF os0_full(1)]
    by (simp add: rdb_save_default_def rdb_save_def rdb_write_int_def sys_write_full Let_def snprintf_def RDB_FILENAME_def)
  have "load_loop (\<lambda>_. env0) 0 s ?recs 0 = Some (0, s)" for s
  proof -
    let ?r = "enc_string [] @ enc_rec (ENGINE_ARRAY, ''b'', ''x'') @ htonl (-1)"
    have 1: "rdb_read_int ?recs = (Some 0, enc_string ''a'' @ ?r)"
      using read_int_htonl [of 0] by (simp add: enc_rec_def ENGINE_ARRAY_def)
    have 2: "rdb_read_string env0 (enc_string ''a'' @ ?r) = (RStr ''a'', ?r)"
      by (intro read_string_enc) (simp_all add: storable_def)
    have 3: "\<exists>rest. rdb_read_string env0 ?r = (RNull, rest)"
      using read_int_htonl [of 0] by (simp add: rdb_read_string_def enc_string_def)
    show ?thesis unfolding load_loop.simps [of _ 0 s ?recs] 1 using 2 3 by auto
  qed
  moreover obtain vt where "rdb_load_header (enc_header os0 @ ?recs) = (Some vt, ?recs)" using load_header_enc by blast
  ultimately have "\<forall>s. rdb_load_default (\<lambda>_. env0)
      (Map.empty(''dump.rdb.tmp'' := None, RDB_FILENAME \<mapsto> enc_header os0 @ ?recs)) s = Some (0, s)"
    by (simp add: rdb_load_default_def rdb_load_def)
  with save two_slots_run show ?thesis by blast
qed

end
