(* ===== verification/Cache_Spec.thy ===== *)
theory Cache_Spec
  imports LKV_Prelude
begin

text \<open>
  The contract of a cache in front of a store, which the three eviction policies share and on
  which the command handlers rely. \<open>rep g m\<close> says that in state \<open>g\<close> the cache answers the
  lookups of the partial map \<open>m\<close>. A lookup answers from \<open>m\<close> and does not change it; an
  insertion of a key that is not cached may evict, so that it leaves a submap of
  \<open>m(k \<mapsto> v)\<close>; a deletion forgets the key.

  \<open>read_through\<close> and \<open>invalidate\<close> are the two ways a handler uses the cache: a lookup that
  falls back on the store and fills the cache, and the removal after a write. The locale's
  lemmas show that both keep the cache coherent (a submap of the store), so that a reader
  gets what the store holds.
\<close>

definition read_through ::
    "(env \<Rightarrow> 'g \<Rightarrow> cstr \<Rightarrow> (cstr \<times> 'g) option) \<Rightarrow> (env \<Rightarrow> 'g \<Rightarrow> string \<Rightarrow> string \<Rightarrow> 'g option) \<Rightarrow>
     env \<Rightarrow> 'g \<Rightarrow> string \<Rightarrow> cstr \<Rightarrow> (cstr \<times> 'g) option" where
  "read_through get add e g k stored = do {
     (r, g) \<leftarrow> get e g (Some k);
     case r of Some v \<Rightarrow> Some (Some v, g)
     | None \<Rightarrow> (case stored of None \<Rightarrow> Some (None, g)
         | Some v \<Rightarrow> do { g \<leftarrow> add e g k v; Some (Some v, g) }) }"

text \<open>A run of reads and writes of a store behind the cache: a read goes through the cache, a write
  updates the store and removes the key from the cache. Beside it, what the store alone answers.\<close>

datatype store_op = SRead string | SWrite string cstr

fun store_run ::
    "(env \<Rightarrow> 'g \<Rightarrow> cstr \<Rightarrow> (cstr \<times> 'g) option) \<Rightarrow> (env \<Rightarrow> 'g \<Rightarrow> string \<Rightarrow> string \<Rightarrow> 'g option) \<Rightarrow>
     ('g \<Rightarrow> cstr \<Rightarrow> (int \<times> 'g) option) \<Rightarrow> 'g \<Rightarrow> (string \<rightharpoonup> string) \<Rightarrow> (env \<times> store_op) list \<Rightarrow> (cstr list \<times> 'g) option" where
  "store_run get add del g db [] = Some ([], g)"
| "store_run get add del g db ((e, SRead k) # ops) = do {
     (r, g) \<leftarrow> read_through get add e g k (db k);
     (rs, g) \<leftarrow> store_run get add del g db ops;
     Some (r # rs, g) }"
| "store_run get add del g db ((e, SWrite k w) # ops) = do {
     (r, g) \<leftarrow> del g (Some k);
     store_run get add del g (db(k := w)) ops }"

fun store_answers :: "(string \<rightharpoonup> string) \<Rightarrow> (env \<times> store_op) list \<Rightarrow> cstr list" where
  "store_answers db [] = []"
| "store_answers db ((e, SRead k) # ops) = db k # store_answers db ops"
| "store_answers db ((e, SWrite k w) # ops) = store_answers (db(k := w)) ops"

locale lookup_cache =
  fixes rep :: "'g \<Rightarrow> (string \<rightharpoonup> string) \<Rightarrow> bool"
    and get :: "env \<Rightarrow> 'g \<Rightarrow> cstr \<Rightarrow> (cstr \<times> 'g) option"
    and add :: "env \<Rightarrow> 'g \<Rightarrow> string \<Rightarrow> string \<Rightarrow> 'g option"
    and del :: "'g \<Rightarrow> cstr \<Rightarrow> (int \<times> 'g) option"
  assumes get_law: "rep g m \<Longrightarrow> \<exists>g'. get e g (Some k) = Some (m k, g') \<and> rep g' m"
    and add_law: "rep g m \<Longrightarrow> env_ok e \<Longrightarrow> m k = None \<Longrightarrow>
      \<exists>g' m'. add e g k v = Some g' \<and> rep g' m' \<and> m' \<subseteq>\<^sub>m m(k \<mapsto> v)"
    and del_law: "rep g m \<Longrightarrow> \<exists>r g'. del g (Some k) = Some (r, g') \<and> rep g' (m(k := None))"
begin

text \<open>A coherent cache: it answers lookups of a submap of the store.\<close>

definition coherent :: "'g \<Rightarrow> (string \<rightharpoonup> string) \<Rightarrow> bool" where
  "coherent g db \<longleftrightarrow> (\<exists>m. rep g m \<and> m \<subseteq>\<^sub>m db)"

lemma read_through_coherent:
  assumes "coherent g db" "env_ok e"
  shows "\<exists>g'. read_through get add e g k (db k) = Some (db k, g') \<and> coherent g' db"
proof -
  obtain m where m: "rep g m" "m \<subseteq>\<^sub>m db" using assms(1) by (auto simp: coherent_def)
  obtain g1 where g1: "get e g (Some k) = Some (m k, g1)" "rep g1 m" using get_law [OF m(1)] by blast
  show ?thesis
  proof (cases "m k")
    case (Some v)
    then have "db k = Some v" using m(2) by (metis domI map_le_def)
    then show ?thesis using g1 m(2) Some by (auto simp: read_through_def coherent_def)
  next
    case None
    show ?thesis
    proof (cases "db k")
      case (Some v)
      obtain g2 m2 where g2: "add e g1 k v = Some g2" "rep g2 m2" "m2 \<subseteq>\<^sub>m m(k \<mapsto> v)"
        using add_law [OF g1(2) assms(2) None] by blast
      have "m(k \<mapsto> v) \<subseteq>\<^sub>m db" using m(2) Some by (auto simp: map_le_def)
      then have "m2 \<subseteq>\<^sub>m db" using g2(3) map_le_trans by blast
      then show ?thesis using g1 g2 None Some by (auto simp: read_through_def coherent_def)
    qed (use g1 m(2) None in \<open>auto simp: read_through_def coherent_def\<close>)
  qed
qed

text \<open>Deleting a key makes the cache coherent with the store after any write to that key.\<close>

lemma invalidate_coherent:
  assumes "coherent g db"
  shows "\<exists>r g'. del g (Some k) = Some (r, g') \<and> coherent g' (db(k := w))"
proof -
  obtain m where m: "rep g m" "m \<subseteq>\<^sub>m db" using assms(1) by (auto simp: coherent_def)
  have "m(k := None) \<subseteq>\<^sub>m db(k := w)" using m(2) by (auto simp: map_le_def)
  with del_law [OF m(1), of k] show ?thesis unfolding coherent_def by blast
qed

text \<open>A new key in the store leaves the cache coherent.\<close>

lemma insert_coherent: "coherent g db \<Longrightarrow> db k = None \<Longrightarrow> coherent g (db(k \<mapsto> v))"
  unfolding coherent_def map_le_def by (metis domIff fun_upd_other)

text \<open>A reader behind a coherent cache never sees a stale value.\<close>

lemma store_run_transparent:
  assumes "coherent g db" "\<forall>(e, c) \<in> set ops. env_ok e"
  shows "\<exists>g' m. store_run get add del g db ops = Some (store_answers db ops, g') \<and> rep g' m"
  using assms
proof (induction ops arbitrary: g db rule: store_answers.induct)
  case 1
  then show ?case by (auto simp: coherent_def)
next
  case (2 db e k ops)
  obtain g1 where g1: "read_through get add e g k (db k) = Some (db k, g1)" "coherent g1 db"
    using read_through_coherent [OF 2(2), of e k] 2(3) by auto
  then show ?case using 2(1) [OF g1(2)] 2(3) by auto
next
  case (3 db e k w ops)
  obtain r g1 where g1: "del g (Some k) = Some (r, g1)" "coherent g1 (db(k := w))"
    using invalidate_coherent [OF 3(2), of k w] by auto
  then show ?case using 3(1) [OF g1(2)] 3(3) by (simp del: fun_upd_apply)
qed

lemma coherent_empty: "rep g Map.empty \<Longrightarrow> coherent g db"
  by (auto simp: coherent_def)

end

end
