(* ===== verification/Cache_LRU.thy ===== *)
theory Cache_LRU
  imports Kvs_Cache Cache_Spec
begin

text \<open>
  The doubly linked lists of the cache and the LRU policy. \<open>lru_rep h c xs\<close> says that the list
  \<open>c\<close> in store \<open>h\<close> is the sequence \<open>xs\<close> of nodes: \<open>head\<close>, \<open>tail\<close>, every \<open>prev\<close> and \<open>next\<close>,
  and \<open>size\<close> agree with it. Removal, insertion at the front, search and eviction are the list
  operations on \<open>xs\<close>. On top of it the LRU cache refines \<open>lru_spec\<close>, a list of records in
  order of recency.
\<close>

definition first :: "ref list \<Rightarrow> ref \<Rightarrow> ref" where
  "first xs n = (case xs of [] \<Rightarrow> n | x # _ \<Rightarrow> x)"

definition final :: "ref \<Rightarrow> ref list \<Rightarrow> ref" where
  "final p xs = (if xs = [] then p else last xs)"

lemma first_simps [simp]: "first [] n = n" "first (x # xs) n = x"
  by (simp_all add: first_def)

lemma first_nonempty: "xs \<noteq> [] \<Longrightarrow> first xs n = hd xs"
  by (cases xs) simp_all

lemma first_append: "first (xs @ ys) n = first xs (first ys n)"
  by (cases xs) simp_all

lemma final_simps [simp]: "final p [] = p" "final p (x # xs) = final x xs" "final p (xs @ [x]) = x"
  by (simp_all add: final_def)

lemma final_append: "final p (xs @ ys) = final (final p xs) ys"
  by (auto simp: final_def)

text \<open>A segment of the list, between \<open>p\<close> and \<open>n\<close>.\<close>

fun seg :: "eheap \<Rightarrow> ref \<Rightarrow> ref list \<Rightarrow> ref \<Rightarrow> bool" where
  "seg h p [] n = True"
| "seg h p (x # xs) n = (x \<noteq> NULL \<and>
     (\<exists>e. h x = Some e \<and> eprev e = p \<and> enext e = first xs n) \<and> seg h x xs n)"

lemma seg_append: "seg h p (xs @ ys) n \<longleftrightarrow> seg h p xs (first ys n) \<and> seg h (final p xs) ys n"
  by (induction xs arbitrary: p) (auto simp: first_append)

lemma seg_cong: "(\<And>x. x \<in> set xs \<Longrightarrow> h' x = h x) \<Longrightarrow> seg h' p xs n = seg h p xs n"
  by (induction xs arbitrary: p) auto

lemma seg_null: "seg h p xs n \<Longrightarrow> NULL \<notin> set xs"
  by (induction xs arbitrary: p) auto

lemma seg_dom: "seg h p xs n \<Longrightarrow> x \<in> set xs \<Longrightarrow> \<exists>e. h x = Some e"
  by (induction xs arbitrary: p) auto

definition lru_rep :: "eheap \<Rightarrow> LRUCache \<Rightarrow> ref list \<Rightarrow> bool" where
  "lru_rep h c xs \<longleftrightarrow> seg h NULL xs NULL \<and> distinct xs \<and> lhead c = first xs NULL \<and>
     ltail c = final NULL xs \<and> lsize c = int (length xs)"

text \<open>What a node carries besides its links.\<close>

definition payload :: "eheap \<Rightarrow> ref \<Rightarrow> (cstr \<times> cstr) option" where
  "payload h x = map_option (\<lambda>n. (ekey n, evalue n)) (h x)"

text \<open>The store outside \<open>S\<close> is unchanged, and payloads are unchanged everywhere.\<close>

definition relinks :: "ref set \<Rightarrow> eheap \<Rightarrow> eheap \<Rightarrow> bool" where
  "relinks S h h' \<longleftrightarrow> (\<forall>x. x \<notin> S \<longrightarrow> h' x = h x) \<and> payload h' = payload h"

lemma relinks_trans: "relinks S h h' \<Longrightarrow> relinks S' h' h'' \<Longrightarrow> relinks (S \<union> S') h h''"
  by (auto simp: relinks_def)

lemma relinks_mono: "relinks S h h' \<Longrightarrow> S \<subseteq> S' \<Longrightarrow> relinks S' h h'"
  by (auto simp: relinks_def)

lemma relinks_seg: "relinks S h h' \<Longrightarrow> S \<inter> set xs = {} \<Longrightarrow> seg h' p xs n = seg h p xs n"
  by (rule seg_cong) (auto simp: relinks_def)

lemma payload_upd: "h x = Some e \<Longrightarrow> ekey e' = ekey e \<Longrightarrow> evalue e' = evalue e \<Longrightarrow> payload (h(x \<mapsto> e')) = payload h"
  by (auto simp: payload_def fun_eq_iff)

text \<open>Writing the \<open>next\<close> pointer of the last node, or the \<open>prev\<close> pointer of the first.\<close>

lemma seg_set_next:
  assumes "seg h p xs n" "xs \<noteq> []" "distinct xs"
  shows "\<exists>e. h (last xs) = Some e \<and> eprev e = final p (butlast xs) \<and> seg (h(last xs \<mapsto> e\<lparr>enext := n'\<rparr>)) p xs n'"
proof -
  obtain ys x where xs: "xs = ys @ [x]" using assms(2) by (metis append_butlast_last_id)
  obtain e where e: "h x = Some e" "eprev e = final p ys" "x \<noteq> NULL" and s: "seg h p ys x"
    using assms(1) by (auto simp: xs seg_append)
  have "seg (h(x \<mapsto> e\<lparr>enext := n'\<rparr>)) p ys x"
    using s assms(3) xs by (subst seg_cong [of ys _ h]) auto
  then show ?thesis using e by (auto simp: xs seg_append)
qed

lemma seg_set_prev:
  assumes "seg h p xs n" "xs \<noteq> []" "distinct xs"
  shows "\<exists>e. h (first xs NULL) = Some e \<and> seg (h(first xs NULL \<mapsto> e\<lparr>eprev := p'\<rparr>)) p' xs n"
proof -
  obtain x ys where xs: "xs = x # ys" using assms(2) by (cases xs) auto
  obtain e where e: "h x = Some e" "enext e = first ys n" "x \<noteq> NULL" and s: "seg h x ys n"
    using assms(1) by (auto simp: xs)
  have "seg (h(x \<mapsto> e\<lparr>eprev := p'\<rparr>)) x ys n"
    using s assms(3) xs by (subst seg_cong [of ys _ h]) auto
  then show ?thesis using e by (auto simp: xs)
qed

lemma lru_remove_rep:
  assumes rep: "lru_rep h c (xs @ x # ys)"
  shows "\<exists>h' c'. lru_remove h c x = Some (h', c') \<and> lru_rep h' c' (xs @ ys) \<and> h' x = h x \<and>
     relinks (set xs \<union> set ys) h h' \<and> lmax_size c' = lmax_size c"
proof -
  have d: "distinct (xs @ x # ys)" and s: "seg h NULL xs x" "seg h x ys NULL"
    and c: "lhead c = first xs x" "ltail c = final x ys" "lsize c = int (length (xs @ x # ys))"
    using rep by (auto simp: lru_rep_def seg_append first_append final_append)
  obtain e where e: "h x = Some e" "eprev e = final NULL xs" "enext e = first ys NULL" "x \<noteq> NULL"
    using rep by (auto simp: lru_rep_def seg_append)
  have nn: "NULL \<notin> set xs" "NULL \<notin> set ys" using s seg_null by auto
  define h1 where "h1 = (if xs = [] then h else h(last xs \<mapsto> (the (h (last xs)))\<lparr>enext := first ys NULL\<rparr>))"
  define c1 where "c1 = (if xs = [] then c\<lparr>lhead := first ys NULL\<rparr> else c)"
  have 1: "seg h1 NULL xs (first ys NULL)" "relinks (set xs) h h1" "h1 x = h x"
  proof -
    show "seg h1 NULL xs (first ys NULL)" using seg_set_next [OF s(1), of "first ys NULL"] d by (auto simp: h1_def)
    show "relinks (set xs) h h1" using seg_set_next [OF s(1), of NULL] d
      by (auto simp: h1_def relinks_def payload_upd)
    show "h1 x = h x" using d by (auto simp: h1_def)
  qed
  have s1: "seg h1 x ys NULL" using relinks_seg [OF 1(2), of ys] s(2) d by auto
  define h2 where "h2 = (if ys = [] then h1 else h1(first ys NULL \<mapsto> (the (h1 (first ys NULL)))\<lparr>eprev := final NULL xs\<rparr>))"
  define c2 where "c2 = (if ys = [] then c1\<lparr>ltail := final NULL xs\<rparr> else c1)"
  have fy: "ys \<noteq> [] \<Longrightarrow> first ys NULL \<in> set ys" by (cases ys) auto
  have 2: "seg h2 (final NULL xs) ys NULL" "relinks (set ys) h1 h2" "h2 x = h x"
  proof -
    show "seg h2 (final NULL xs) ys NULL" using seg_set_prev [OF s1, of "final NULL xs"] d by (auto simp: h2_def)
    show "relinks (set ys) h1 h2" using seg_set_prev [OF s1, of NULL] d fy
      by (auto simp: h2_def relinks_def payload_upd)
    show "h2 x = h x" using d 1(3) fy by (auto simp: h2_def)
  qed
  have "seg h2 NULL xs (first ys NULL)" using relinks_seg [OF 2(2), of xs] 1(1) d by auto
  then have seg: "seg h2 NULL (xs @ ys) NULL" using 2(1) by (simp add: seg_append)
  let ?c = "c2\<lparr>lsize := lsize c - 1\<rparr>"
  have lx: "xs \<noteq> [] \<Longrightarrow> last xs \<noteq> NULL" using nn by (metis last_in_set)
  have fy': "ys \<noteq> [] \<Longrightarrow> first ys NULL \<noteq> NULL" using nn fy by metis
  have "\<exists>f. h (last xs) = Some f" if "xs \<noteq> []" using seg_dom [OF s(1)] that by simp
  moreover have "\<exists>f. h1 (first ys NULL) = Some f" if "ys \<noteq> []" using seg_dom [OF s1] fy that by simp
  moreover have "h1 x = Some e" using 1(3) e by simp
  moreover have "xs \<noteq> [] \<Longrightarrow> last xs \<noteq> x" using d by (metis disjoint_iff distinct_append last_in_set list.set_intros(1))
  ultimately have "lru_remove h c x = Some (h2, ?c)"
    using e lx fy' unfolding lru_remove_def h1_def h2_def c1_def c2_def
    by (cases "xs = []"; cases "ys = []") (auto simp: final_def)
  moreover have "lru_rep h2 ?c (xs @ ys)"
    using seg d c by (auto simp: lru_rep_def c2_def c1_def first_append first_nonempty final_append final_def split: if_splits)
  moreover have "relinks (set xs \<union> set ys) h h2" using relinks_trans [OF 1(2) 2(2)] .
  moreover have "lmax_size ?c = lmax_size c" by (simp add: c2_def c1_def)
  ultimately show ?thesis using 2(3) by blast
qed

lemma lru_add_front_rep:
  assumes rep: "lru_rep h c xs" and x: "h x = Some e" "x \<noteq> NULL" "x \<notin> set xs"
  shows "\<exists>h' c'. lru_add_front h c x = Some (h', c') \<and> lru_rep h' c' (x # xs) \<and>
     relinks (insert x (set xs)) h h' \<and> lmax_size c' = lmax_size c \<and>
     h' x = Some (e\<lparr>enext := lhead c, eprev := NULL\<rparr>)"
proof -
  have s: "seg h NULL xs NULL" and c: "lhead c = first xs NULL" "ltail c = final NULL xs"
    "lsize c = int (length xs)" "distinct xs"
    using rep by (auto simp: lru_rep_def)
  have nn: "NULL \<notin> set xs" using seg_null [OF s] .
  define h1 where "h1 = h(x \<mapsto> e\<lparr>enext := lhead c, eprev := NULL\<rparr>)"
  have s1: "seg h1 NULL xs NULL" using s x by (subst seg_cong [of xs _ h]) (auto simp: h1_def)
  have r1: "relinks {x} h h1" using x by (auto simp: relinks_def h1_def payload_upd)
  define h2 where "h2 = (if xs = [] then h1 else h1(first xs NULL \<mapsto> (the (h1 (first xs NULL)))\<lparr>eprev := x\<rparr>))"
  have fx: "xs \<noteq> [] \<Longrightarrow> first xs NULL \<in> set xs" by (cases xs) auto
  have s2: "seg h2 x xs NULL" using seg_set_prev [OF s1, of x] c(4) by (auto simp: h2_def)
  have r2: "relinks (set xs) h1 h2" using seg_set_prev [OF s1, of NULL] c(4) fx
    by (auto simp: h2_def relinks_def payload_upd)
  have hx: "h2 x = Some (e\<lparr>enext := lhead c, eprev := NULL\<rparr>)"
    using x fx by (auto simp: h2_def h1_def)
  have lx: "xs \<noteq> [] \<Longrightarrow> last xs \<noteq> NULL" "xs \<noteq> [] \<Longrightarrow> first xs NULL \<noteq> NULL" using nn fx by (metis last_in_set)+
  let ?c = "(if xs = [] then c\<lparr>lhead := x, ltail := x\<rparr> else c\<lparr>lhead := x\<rparr>)\<lparr>lsize := lsize c + 1\<rparr>"
  have "\<exists>f. h1 (first xs NULL) = Some f" if "xs \<noteq> []" using seg_dom [OF s1] fx that by simp
  then have "lru_add_front h c x = Some (h2, ?c)"
    using x c lx unfolding lru_add_front_def h1_def h2_def
    by (cases "xs = []") (auto simp: Let_def final_def)
  moreover have "lru_rep h2 ?c (x # xs)"
    using s2 hx x c by (auto simp: lru_rep_def final_def split: if_splits)
  moreover have "relinks (insert x (set xs)) h h2" using relinks_trans [OF r1 r2] by simp
  ultimately show ?thesis using hx by (intro exI [of _ h2] exI [of _ ?c]) auto
qed

lemma payload_key: "payload h x = Some (Some k, v) \<Longrightarrow> \<exists>n. h x = Some n \<and> ekey n = Some k \<and> evalue n = v"
  by (auto simp: payload_def)

text \<open>Records of a list of nodes.\<close>

definition recs :: "eheap \<Rightarrow> ref list \<Rightarrow> (string \<times> string) list \<Rightarrow> bool" where
  "recs h xs L \<longleftrightarrow> map (payload h) xs = map (\<lambda>(k, v). Some (Some k, Some v)) L"

lemma recs_Nil [simp]: "recs h [] L \<longleftrightarrow> L = []" "recs h xs [] \<longleftrightarrow> xs = []"
  by (auto simp: recs_def)

lemma recs_Cons: "recs h (x # xs) L \<longleftrightarrow> (\<exists>k v L'. L = (k, v) # L' \<and> payload h x = Some (Some k, Some v) \<and> recs h xs L')"
  by (cases L) (auto simp: recs_def)

lemma recs_append: "recs h (xs @ ys) L \<longleftrightarrow> (\<exists>A B. L = A @ B \<and> recs h xs A \<and> recs h ys B)"
  unfolding recs_def by (auto simp: append_eq_map_conv)

lemma recs_cong: "(\<And>x. x \<in> set xs \<Longrightarrow> payload h' x = payload h x) \<Longrightarrow> recs h' xs L = recs h xs L"
  by (simp add: recs_def cong: map_cong)

lemma recs_length: "recs h xs L \<Longrightarrow> length L = length xs"
  by (auto simp: recs_def dest: map_eq_imp_length_eq)

text \<open>The walk finds the first node with the key.\<close>

lemma find_from_correct:
  assumes "seg h p xs NULL" "recs h xs L"
  shows "(map_of L k = None \<and> find_from h k (first xs NULL) = Some NULL) \<or>
     (\<exists>ys x zs A v B. xs = ys @ x # zs \<and> L = A @ (k, v) # B \<and> recs h ys A \<and> recs h zs B \<and>
        payload h x = Some (Some k, Some v) \<and> map_of A k = None \<and> find_from h k (first xs NULL) = Some x)"
  using assms
proof (induction xs arbitrary: p L)
  case Nil
  then show ?case by (simp add: find_from.simps [of h k NULL])
next
  case (Cons x xs)
  then obtain q w L' where L: "L = (q, w) # L'" "payload h x = Some (Some q, Some w)" "recs h xs L'"
    by (auto simp: recs_Cons)
  then obtain n where n: "h x = Some n" "ekey n = Some q" "evalue n = Some w" using payload_key by blast
  have x: "x \<noteq> NULL" "enext n = first xs NULL" "seg h x xs NULL" using Cons.prems(1) n by auto
  then have f: "find_from h k (first (x # xs) NULL) = (if q = k then Some x else find_from h k (first xs NULL))"
    using n by (simp add: find_from.simps [of h k x] has_key_def)
  show ?case
  proof (cases "q = k")
    case True
    then show ?thesis using L f
      by (intro disjI2 exI [of _ "[]"] exI [of _ x] exI [of _ xs] exI [of _ "[]"] exI [of _ w] exI [of _ L']) auto
  next
    case False
    from Cons.IH [OF x(3) L(3)] show ?thesis
    proof (elim disjE exE conjE)
      fix ys y zs A v B
      assume "xs = ys @ y # zs" "L' = A @ (k, v) # B" "recs h ys A" "recs h zs B"
        "payload h y = Some (Some k, Some v)" "map_of A k = None" "find_from h k (first xs NULL) = Some y"
      then show ?thesis using L f False
        by (intro disjI2 exI [of _ "x # ys"] exI [of _ y] exI [of _ zs] exI [of _ "(q, w) # A"]
            exI [of _ v] exI [of _ B]) (auto simp: recs_Cons)
    qed (use L f False in auto)
  qed
qed

section \<open>The LRU cache\<close>

text \<open>The specification: records in order of recency, most recent first.\<close>

datatype cache_cmd = CGet string | CAdd string string | CDel string

fun del1 :: "string \<Rightarrow> (string \<times> string) list \<Rightarrow> (string \<times> string) list" where
  "del1 k [] = []"
| "del1 k ((q, v) # L) = (if q = k then L else (q, v) # del1 k L)"

fun lru_spec :: "nat \<Rightarrow> (string \<times> string) list \<Rightarrow> cache_cmd \<Rightarrow> cstr \<times> (string \<times> string) list" where
  "lru_spec mx L (CGet k) = (case map_of L k of None \<Rightarrow> (None, L) | Some v \<Rightarrow> (Some v, (k, v) # del1 k L))"
| "lru_spec mx L (CAdd k v) = (None, (k, v) # take (mx - 1) L)"
| "lru_spec mx L (CDel k) = (None, del1 k L)"

text \<open>A call on the cache manager; \<open>value_len\<close> is \<open>strlen(value) + 1\<close>.\<close>

fun cache_step :: "env \<Rightarrow> CacheManager \<Rightarrow> cache_cmd \<Rightarrow> (cstr \<times> CacheManager) option" where
  "cache_step e g (CGet k) = kvs_cache_get e g (Some k)"
| "cache_step e g (CAdd k v) = do { g \<leftarrow> kvs_cache_lru_add e g k v (int (length v) + 1); Some (None, g) }"
| "cache_step e g (CDel k) = do { (r, g) \<leftarrow> kvs_cache_del g (Some k); Some (None, g) }"

fun cache_run :: "CacheManager \<Rightarrow> (env \<times> cache_cmd) list \<Rightarrow> (cstr list \<times> CacheManager) option" where
  "cache_run g [] = Some ([], g)"
| "cache_run g ((e, c) # cs) =
     do { (r, g) \<leftarrow> cache_step e g c; (rs, g) \<leftarrow> cache_run g cs; Some (r # rs, g) }"

fun lru_spec_run :: "nat \<Rightarrow> (string \<times> string) list \<Rightarrow> cache_cmd list \<Rightarrow> cstr list \<times> (string \<times> string) list" where
  "lru_spec_run mx L [] = ([], L)"
| "lru_spec_run mx L (c # cs) =
     (let (r, L) = lru_spec mx L c; (rs, L) = lru_spec_run mx L cs in (r # rs, L))"

definition lru_inv :: "CacheManager \<Rightarrow> (string \<times> string) list \<Rightarrow> bool" where
  "lru_inv g L \<longleftrightarrow> (\<exists>xs. lru_rep (cheap g) (lru g) xs \<and> recs (cheap g) xs L) \<and> policy g = EVICT_LRU \<and>
     0 < max_items g \<and> int (length L) \<le> max_items g \<and> (\<forall>n. cnext g \<le> n \<longrightarrow> cheap g (Ref n) = None)"

lemma del1_split: "map_of A k = None \<Longrightarrow> del1 k (A @ (k, v) # B) = A @ B"
  by (induction A) (auto split: if_splits)

lemma map_of_split: "map_of A k = None \<Longrightarrow> map_of (A @ (k, v) # B) k = Some v"
  by (simp add: map_add_def)

lemma relinks_recs: "relinks S h h' \<Longrightarrow> recs h' xs L = recs h xs L"
  by (rule recs_cong) (simp add: relinks_def)

lemma lru_get_refines:
  assumes "lru_inv g L"
  shows "\<exists>g'. kvs_cache_get e g (Some k) = Some (fst (lru_spec mx L (CGet k)), g') \<and>
     lru_inv g' (snd (lru_spec mx L (CGet k))) \<and> max_items g' = max_items g"
proof -
  obtain xs where xs: "lru_rep (cheap g) (lru g) xs" "recs (cheap g) xs L" and p: "policy g = EVICT_LRU"
    "0 < max_items g" "int (length L) \<le> max_items g" "\<forall>n. cnext g \<le> n \<longrightarrow> cheap g (Ref n) = None"
    using assms by (auto simp: lru_inv_def)
  have s: "seg (cheap g) NULL xs NULL" "lhead (lru g) = first xs NULL" "distinct xs"
    using xs(1) by (auto simp: lru_rep_def)
  from find_from_correct [OF s(1) xs(2), of k] show ?thesis
  proof (elim disjE exE conjE)
    assume "map_of L k = None" "find_from (cheap g) k (first xs NULL) = Some NULL"
    then show ?thesis using p s xs by (auto simp: kvs_cache_get_def lru_inv_def count_miss_def)
  next
    fix ys x zs A v B
    assume f: "xs = ys @ x # zs" "L = A @ (k, v) # B" "recs (cheap g) ys A" "recs (cheap g) zs B"
      "payload (cheap g) x = Some (Some k, Some v)" "map_of A k = None"
      "find_from (cheap g) k (first xs NULL) = Some x"
    obtain h1 c1 where 1: "lru_remove (cheap g) (lru g) x = Some (h1, c1)" "lru_rep h1 c1 (ys @ zs)"
      "h1 x = cheap g x" "relinks (set ys \<union> set zs) (cheap g) h1"
      using lru_remove_rep xs(1) f(1) by blast
    obtain n where n: "cheap g x = Some n" "ekey n = Some k" "evalue n = Some v" using payload_key [OF f(5)] by blast
    have x: "x \<noteq> NULL" "x \<notin> set (ys @ zs)" using seg_null [OF s(1)] s(3) f(1) by auto
    obtain h2 c2 where 2: "lru_add_front h1 c1 x = Some (h2, c2)" "lru_rep h2 c2 (x # ys @ zs)"
      "relinks (insert x (set (ys @ zs))) h1 h2" "h2 x = Some (n\<lparr>enext := lhead c1, eprev := NULL\<rparr>)"
      using lru_add_front_rep [OF 1(2), of x n] 1(3) n x by auto
    define h3 where "h3 = h2(x \<mapsto> n\<lparr>enext := lhead c1, eprev := NULL, access_time := current_time_ms e 0\<rparr>)"
    have 3: "relinks {x} h2 h3" using 2(4) by (auto simp: relinks_def h3_def payload_upd)
    have "seg h3 x (ys @ zs) NULL = seg h2 x (ys @ zs) NULL"
      by (rule seg_cong) (use x in \<open>auto simp: h3_def\<close>)
    then have r: "lru_rep h3 c2 (x # ys @ zs)"
      using 2(2,4) x by (auto simp: lru_rep_def h3_def)
    have pl: "payload h3 = payload (cheap g)" using 1(4) 2(3) 3 by (simp add: relinks_def)
    have "recs h3 (x # ys @ zs) ((k, v) # A @ B)"
      using f(3-5) pl recs_cong [of _ h3 "cheap g"] by (auto simp: recs_Cons recs_append)
    moreover have "\<forall>m. cnext g \<le> m \<longrightarrow> h3 (Ref m) = None"
    proof (intro allI impI)
      fix m assume "cnext g \<le> m"
      then have "payload h3 (Ref m) = None" using p(4) pl by (simp add: payload_def)
      then show "h3 (Ref m) = None" by (simp add: payload_def)
    qed
    ultimately have "lru_inv (count_hit (g\<lparr>cheap := h3, lru := c2\<rparr>)) ((k, v) # A @ B)"
      using r p f(2) by (auto simp: lru_inv_def count_hit_def)
    moreover have "kvs_cache_get e g (Some k) = Some (Some v, count_hit (g\<lparr>cheap := h3, lru := c2\<rparr>))"
      using p s(2) f(7) 1(1) 2(1,4) n x by (simp add: kvs_cache_get_def lru_touch_def h3_def)
    ultimately show ?thesis
      using f(2,6) map_of_split [OF f(6), of v B] del1_split [OF f(6), of v B] by (simp add: count_hit_def)
  qed
qed

text \<open>Eviction drops the last record.\<close>

lemma fresh_payload:
  "payload h' = payload h \<Longrightarrow> \<forall>m. k \<le> m \<longrightarrow> h (Ref m) = None \<Longrightarrow> \<forall>m. k \<le> m \<longrightarrow> h' (Ref m) = None"
  by (metis option.map_disc_iff payload_def)

lemma recs_upd_other: "x \<notin> set xs \<Longrightarrow> recs (h(x := y)) xs L = recs h xs L"
  by (rule recs_cong) (auto simp: payload_def)

lemma lru_rep_upd_other: "x \<notin> set xs \<Longrightarrow> lru_rep (h(x := y)) c xs = lru_rep h c xs"
proof -
  assume "x \<notin> set xs"
  then have "seg (h(x := y)) NULL xs NULL = seg h NULL xs NULL" by (intro seg_cong) auto
  then show ?thesis by (simp add: lru_rep_def)
qed

lemma evict_key_rep:
  assumes rep: "lru_rep (cheap g) (lru g) (xs @ [x])" and L: "recs (cheap g) xs L"
  shows "\<exists>key g'. kvs_cache_lru_evict_key g = Some (key, g') \<and> lru_rep (cheap g') (lru g') xs \<and>
     recs (cheap g') xs L \<and> cheap g' x = None \<and> payload (cheap g') = (payload (cheap g))(x := None) \<and>
     policy g' = policy g \<and> max_items g' = max_items g \<and> cnext g' = cnext g \<and>
     lfu g' = lfu g \<and> arc g' = arc g"
proof -
  obtain h c where 1: "lru_remove (cheap g) (lru g) x = Some (h, c)" "lru_rep h c xs" "h x = cheap g x"
    "relinks (set xs) (cheap g) h"
    using lru_remove_rep [of "cheap g" "lru g" xs x "[]"] rep by auto
  have t: "ltail (lru g) = x" and x: "x \<noteq> NULL" "x \<notin> set xs" 
    using rep seg_null by (fastforce simp: lru_rep_def)+
  obtain n where n: "cheap g x = Some n" using rep seg_dom by (fastforce simp: lru_rep_def)
  let ?g = "g\<lparr>cheap := h(x := None), lru := c, eviction_count := eviction_count g + 1\<rparr>"
  have "kvs_cache_lru_evict_key g = Some (ekey n, ?g)"
    using 1(1,3) t x n by (simp add: kvs_cache_lru_evict_key_def lru_evict_def)
  moreover have "lru_rep (cheap ?g) (lru ?g) xs" using 1(2) x by (simp add: lru_rep_upd_other)
  moreover have "recs (cheap ?g) xs L" using L x relinks_recs [OF 1(4), of xs L] by (simp add: recs_upd_other)
  moreover have "payload (cheap ?g) = (payload (cheap g))(x := None)"
    using 1(4) by (auto simp: relinks_def payload_def fun_eq_iff)
  ultimately show ?thesis by (intro exI [of _ "ekey n"] exI [of _ ?g]) auto
qed

lemma evict_loop_rep:
  assumes "lru_rep (cheap g) (lru g) xs" "recs (cheap g) xs L" "0 < max_items g"
  shows "\<exists>g'. evict_loop g = Some g' \<and>
     lru_rep (cheap g') (lru g') (take (nat (max_items g) - 1) xs) \<and>
     recs (cheap g') (take (nat (max_items g) - 1) xs) (take (nat (max_items g) - 1) L) \<and>
     (\<forall>x. x \<notin> set (drop (nat (max_items g) - 1) xs) \<longrightarrow> payload (cheap g') x = payload (cheap g) x) \<and>
     policy g' = policy g \<and> max_items g' = max_items g \<and> cnext g' = cnext g \<and> lfu g' = lfu g \<and> arc g' = arc g"
  using assms
proof (induction "length xs" arbitrary: g xs L rule: less_induct)
  case less
  have len: "lsize (lru g) = int (length xs)" "length L = length xs"
    using less.prems(1,2) recs_length by (auto simp: lru_rep_def)
  show ?case
  proof (cases "lsize (lru g) \<ge> max_items g")
    case False
    then have "length xs \<le> nat (max_items g) - 1" using len by linarith
    then show ?thesis using less.prems len False by (auto simp: evict_loop.simps [of g])
  next
    case True
    then have "xs \<noteq> []" using len less.prems(3) by auto
    then obtain ys x where xs: "xs = ys @ [x]" by (metis append_butlast_last_id)
    then obtain A k v where L: "L = A @ [(k, v)]" "recs (cheap g) ys A"
      using less.prems(2) by (auto simp: recs_append recs_Cons)
    obtain key g1 where 1: "kvs_cache_lru_evict_key g = Some (key, g1)" "lru_rep (cheap g1) (lru g1) ys"
      "recs (cheap g1) ys A" "payload (cheap g1) = (payload (cheap g))(x := None)"
      "policy g1 = policy g" "max_items g1 = max_items g" "cnext g1 = cnext g" "lfu g1 = lfu g" "arc g1 = arc g"
      using evict_key_rep [of g ys x A] less.prems(1) L(2) xs by blast
    let ?m = "nat (max_items g) - 1"
    have m: "?m \<le> length ys" using True len xs by simp
    have "length ys < length xs" using xs by simp
    from less.hyps [OF this 1(2,3)] obtain g2 where 2: "evict_loop g1 = Some g2"
      "lru_rep (cheap g2) (lru g2) (take ?m ys)" "recs (cheap g2) (take ?m ys) (take ?m A)"
      "\<forall>z. z \<notin> set (drop ?m ys) \<longrightarrow> payload (cheap g2) z = payload (cheap g1) z"
      "policy g2 = policy g1" "max_items g2 = max_items g1" "cnext g2 = cnext g1" "lfu g2 = lfu g1" "arc g2 = arc g1"
      using less.prems(3) 1(6) by auto
    have "take ?m xs = take ?m ys" "take ?m L = take ?m A" "drop ?m xs = drop ?m ys @ [x]"
      using m xs L(1) recs_length [OF L(2)] by auto
    with 1 2 True show ?thesis by (intro exI [of _ g2]) (auto simp: evict_loop.simps [of g])
  qed
qed

lemma lru_add_refines:
  assumes inv: "lru_inv g L" and ok: "env_ok e"
  shows "\<exists>g'. kvs_cache_lru_add e g k v len = Some g' \<and>
     lru_inv g' ((k, v) # take (nat (max_items g) - 1) L) \<and> max_items g' = max_items g"
proof -
  obtain xs where xs: "lru_rep (cheap g) (lru g) xs" "recs (cheap g) xs L" and p: "policy g = EVICT_LRU"
    "0 < max_items g" "int (length L) \<le> max_items g" "\<forall>n. cnext g \<le> n \<longrightarrow> cheap g (Ref n) = None"
    using inv by (auto simp: lru_inv_def)
  let ?m = "nat (max_items g) - 1"
  define x where "x = Ref (cnext g)"
  define n where "n = \<lparr>ekey = Some k, evalue = Some v, value_len = len, eprev = NULL, enext = NULL,
      access_time = current_time_ms e 0, access_count = 1, is_frequent = 0\<rparr>"
  define g1 where "g1 = g\<lparr>cnext := Suc (cnext g), cheap := (cheap g)(x \<mapsto> n)\<rparr>"
  have "cheap g x = None" using p(4) by (simp add: x_def)
  then have x: "x \<notin> set xs" using xs(1) seg_dom by (force simp: lru_rep_def)
  then have "lru_rep (cheap g1) (lru g1) xs" "recs (cheap g1) xs L" "0 < max_items g1"
    using xs p by (simp_all add: g1_def lru_rep_upd_other recs_upd_other)
  from evict_loop_rep [OF this] obtain g2 where 2: "evict_loop g1 = Some g2"
     "lru_rep (cheap g2) (lru g2) (take ?m xs)" "recs (cheap g2) (take ?m xs) (take ?m L)"
     "\<forall>z. z \<notin> set (drop ?m xs) \<longrightarrow> payload (cheap g2) z = payload (cheap g1) z"
     "policy g2 = policy g" "max_items g2 = max_items g" "cnext g2 = Suc (cnext g)"
    by (auto simp: g1_def)
  have xd: "x \<notin> set (drop ?m xs)" "x \<notin> set (take ?m xs)" using x by (auto dest: in_set_dropD in_set_takeD)
  then have "payload (cheap g2) x = Some (Some k, Some v)" using 2(4) by (simp add: g1_def payload_def n_def)
  then obtain n' where n': "cheap g2 x = Some n'" "ekey n' = Some k" "evalue n' = Some v" using payload_key by blast
  have "x \<noteq> NULL" by (simp add: x_def)
  with lru_add_front_rep [OF 2(2) n'(1) _ xd(2)] obtain h c where
    3: "lru_add_front (cheap g2) (lru g2) x = Some (h, c)" "lru_rep h c (x # take ?m xs)"
    "relinks (insert x (set (take ?m xs))) (cheap g2) h" by blast
  let ?g = "g2\<lparr>cheap := h, lru := c\<rparr>"
  have pl: "payload h = payload (cheap g2)" using 3(3) by (simp add: relinks_def)
  have "recs h (x # take ?m xs) ((k, v) # take ?m L)"
    using 2(3) \<open>payload (cheap g2) x = _\<close> pl relinks_recs [OF 3(3)] by (auto simp: recs_Cons)
  moreover have "\<forall>i. cnext ?g \<le> i \<longrightarrow> cheap ?g (Ref i) = None"
  proof (intro allI impI)
    fix i assume i: "cnext ?g \<le> i"
    then have "cheap g (Ref i) = None" "Ref i \<noteq> x" using p(4) 2(7) by (auto simp: x_def)
    moreover from this have "Ref i \<notin> set xs" using xs(1) seg_dom by (force simp: lru_rep_def)
    ultimately have "payload h (Ref i) = None"
      using pl 2(4) by (auto simp: g1_def payload_def dest: in_set_dropD)
    then show "cheap ?g (Ref i) = None" by (simp add: payload_def)
  qed
  moreover have "int (length ((k, v) # take ?m L)) \<le> max_items g" using p(2) by simp
  ultimately have "lru_inv ?g ((k, v) # take ?m L)" using 3(2) 2(5,6) p(1,2) by (auto simp: lru_inv_def)
  moreover have "kvs_cache_lru_add e g k v len = Some ?g"
    using p(1) ok 2(1,5) 3(1)
    by (simp add: kvs_cache_lru_add_def Let_def policy_defs x_def [symmetric] n_def [symmetric] g1_def [symmetric])
  ultimately show ?thesis using 2(6) by auto
qed

lemma lru_del_refines:
  assumes "lru_inv g L"
  shows "\<exists>r g'. kvs_cache_del g (Some k) = Some (r, g') \<and> lru_inv g' (del1 k L) \<and> max_items g' = max_items g \<and>
     (r = 0 \<longleftrightarrow> map_of L k \<noteq> None)"
proof -
  obtain xs where xs: "lru_rep (cheap g) (lru g) xs" "recs (cheap g) xs L" and p: "policy g = EVICT_LRU"
    "0 < max_items g" "int (length L) \<le> max_items g" "\<forall>n. cnext g \<le> n \<longrightarrow> cheap g (Ref n) = None"
    using assms by (auto simp: lru_inv_def)
  have s: "seg (cheap g) NULL xs NULL" "lhead (lru g) = first xs NULL" "distinct xs"
    using xs(1) by (auto simp: lru_rep_def)
  have id: "map_of L k = None \<Longrightarrow> del1 k L = L" for L by (induction L) (auto split: if_splits)
  from find_from_correct [OF s(1) xs(2), of k] show ?thesis
  proof (elim disjE exE conjE)
    assume "map_of L k = None" "find_from (cheap g) k (first xs NULL) = Some NULL"
    then show ?thesis using p s id assms by (auto simp: kvs_cache_del_def)
  next
    fix ys x zs A v B
    assume f: "xs = ys @ x # zs" "L = A @ (k, v) # B" "recs (cheap g) ys A" "recs (cheap g) zs B"
      "payload (cheap g) x = Some (Some k, Some v)" "map_of A k = None"
      "find_from (cheap g) k (first xs NULL) = Some x"
    obtain h c where 1: "lru_remove (cheap g) (lru g) x = Some (h, c)" "lru_rep h c (ys @ zs)"
      "h x = cheap g x" "relinks (set ys \<union> set zs) (cheap g) h"
      using lru_remove_rep xs(1) f(1) by blast
    obtain n where n: "cheap g x = Some n" using payload_key [OF f(5)] by blast
    have x: "x \<noteq> NULL" "x \<notin> set (ys @ zs)" using seg_null [OF s(1)] s(3) f(1) by auto
    let ?g = "g\<lparr>cheap := h(x := None), lru := c\<rparr>"
    have "recs h (ys @ zs) (A @ B)" using f(3,4) relinks_recs [OF 1(4)] by (auto simp: recs_append)
    then have "lru_rep (cheap ?g) (lru ?g) (ys @ zs)" "recs (cheap ?g) (ys @ zs) (A @ B)"
      using 1(2) x by (simp_all add: lru_rep_upd_other recs_upd_other)
    moreover have "\<forall>i. cnext g \<le> i \<longrightarrow> h (Ref i) = None"
      using fresh_payload [of h "cheap g" "cnext g"] 1(4) p(4) by (simp add: relinks_def)
    ultimately have "lru_inv ?g (A @ B)" using p f(2) by (auto simp: lru_inv_def)
    moreover have "kvs_cache_del g (Some k) = Some (0, ?g)"
      using p s(2) f(7) 1(1,3) n x by (simp add: kvs_cache_del_def free_evict_node_def)
    ultimately show ?thesis using f(2,6) del1_split [OF f(6), of v B] by auto
  qed
qed

lemma lru_step_refines:
  assumes "lru_inv g L" "env_ok e"
  shows "\<exists>g'. cache_step e g c = Some (fst (lru_spec (nat (max_items g)) L c), g') \<and>
     lru_inv g' (snd (lru_spec (nat (max_items g)) L c)) \<and> max_items g' = max_items g"
proof (cases c)
  case (CGet k)
  then show ?thesis using lru_get_refines [OF assms(1)] by simp
next
  case (CAdd k v)
  then show ?thesis using lru_add_refines [OF assms, of k v "int (length v) + 1"] by auto
next
  case (CDel k)
  then show ?thesis using lru_del_refines [OF assms(1), of k] by auto
qed

lemma lru_run_refines:
  assumes "lru_inv g L" "\<forall>(e, c) \<in> set ecs. env_ok e"
  shows "\<exists>g'. cache_run g ecs = Some (fst (lru_spec_run (nat (max_items g)) L (map snd ecs)), g') \<and>
     lru_inv g' (snd (lru_spec_run (nat (max_items g)) L (map snd ecs))) \<and> max_items g' = max_items g"
  using assms
proof (induction ecs arbitrary: g L)
  case (Cons ec ecs)
  obtain e c where ec: "ec = (e, c)" by (cases ec)
  from lru_step_refines [OF Cons.prems(1), of e c] Cons.prems(2) ec obtain g1 where
    1: "cache_step e g c = Some (fst (lru_spec (nat (max_items g)) L c), g1)"
     "lru_inv g1 (snd (lru_spec (nat (max_items g)) L c))" "max_items g1 = max_items g" by auto
  from Cons.IH [OF 1(2)] Cons.prems(2) 1(3) obtain g2 where
    2: "cache_run g1 ecs = Some (fst (lru_spec_run (nat (max_items g)) (snd (lru_spec (nat (max_items g)) L c)) (map snd ecs)), g2)"
     "lru_inv g2 (snd (lru_spec_run (nat (max_items g)) (snd (lru_spec (nat (max_items g)) L c)) (map snd ecs)))"
     "max_items g2 = max_items g1" by auto
  from 1 2 show ?case by (auto simp: ec Let_def split_beta)
qed simp

lemma lru_init_inv: "env_ok e \<Longrightarrow> \<exists>g. kvs_cache_init e n = Some g \<and> lru_inv g [] \<and>
    max_items g = (if n > 0 then n else DEFAULT_MAX_ITEMS)"
  by (auto simp: kvs_cache_init_def arc_init_def lru_inv_def lru_rep_def lru_init_def DEFAULT_MAX_ITEMS_def Let_def)

text \<open>What the handlers call: an insertion with \<open>value_len = strlen(value) + 1\<close>.\<close>

definition cache_add :: "env \<Rightarrow> CacheManager \<Rightarrow> string \<Rightarrow> string \<Rightarrow> CacheManager option" where
  "cache_add e g k v = kvs_cache_lru_add e g k v (int (length v) + 1)"

definition lru_view :: "CacheManager \<Rightarrow> (string \<rightharpoonup> string) \<Rightarrow> bool" where
  "lru_view g m \<longleftrightarrow> (\<exists>L. lru_inv g L \<and> distinct (map fst L) \<and> m = map_of L)"

lemma del1_map_of: "distinct (map fst L) \<Longrightarrow> map_of (del1 k L) = (map_of L)(k := None)"
proof (induction L)
  case (Cons a L)
  then show ?case by (cases a) (auto simp: fun_upd_twist map_of_eq_None_iff fun_upd_idem)
qed simp

lemma del1_set: "set (del1 k L) \<subseteq> set L"
  by (induction L) (auto split: if_splits)

lemma del1_distinct: "distinct (map fst L) \<Longrightarrow> distinct (map fst (del1 k L)) \<and> k \<notin> fst ` set (del1 k L)"
proof (induction L)
  case (Cons a L)
  have "fst ` set (del1 k L) \<subseteq> fst ` set L" using del1_set by (metis image_mono)
  with Cons show ?case by (cases a) auto
qed simp

lemma map_of_take: "map_of (take n L) \<subseteq>\<^sub>m map_of L"
proof -
  have "map_of (take n L) \<subseteq>\<^sub>m map_of (take n L @ drop n L)"
    by (auto simp: map_le_def map_add_def simp del: append_take_drop_id split: option.splits)
  then show ?thesis by simp
qed

lemma lru_viewI: "lru_inv g L \<Longrightarrow> distinct (map fst L) \<Longrightarrow> map_of L = m \<Longrightarrow> lru_view g m"
  by (auto simp: lru_view_def)

lemma lru_get_view:
  assumes "lru_inv g L" "distinct (map fst L)"
  shows "\<exists>g'. kvs_cache_get e g (Some k) = Some (map_of L k, g') \<and> lru_view g' (map_of L)"
proof (cases "map_of L k")
  case None
  then show ?thesis using lru_get_refines [OF assms(1), of e k 0] assms(2) by (auto intro: lru_viewI)
next
  case (Some v)
  obtain g' where g': "kvs_cache_get e g (Some k) = Some (Some v, g')" "lru_inv g' ((k, v) # del1 k L)"
    using lru_get_refines [OF assms(1), of e k 0] Some by auto
  have "distinct (map fst ((k, v) # del1 k L))" using del1_distinct [OF assms(2)] by simp
  moreover have "map_of ((k, v) # del1 k L) = map_of L" using del1_map_of [OF assms(2)] Some by auto
  ultimately show ?thesis using g' Some by (auto intro: lru_viewI simp del: map_of.simps)
qed

lemma lru_add_view:
  assumes "lru_inv g L" "distinct (map fst L)" "env_ok e" "map_of L k = None"
  shows "\<exists>g' m'. cache_add e g k v = Some g' \<and> lru_view g' m' \<and> m' \<subseteq>\<^sub>m (map_of L)(k \<mapsto> v)"
proof -
  let ?L = "(k, v) # take (nat (max_items g) - 1) L"
  obtain g' where g': "kvs_cache_lru_add e g k v (int (length v) + 1) = Some g'" "lru_inv g' ?L"
    using lru_add_refines [OF assms(1,3), of k v "int (length v) + 1"] by auto
  have "k \<notin> fst ` set L" using assms(4) by (simp add: map_of_eq_None_iff)
  then have "distinct (map fst ?L)"
    using assms(2) by (auto simp: distinct_take take_map [symmetric] dest: in_set_takeD)
  moreover have "map_of ?L \<subseteq>\<^sub>m (map_of L)(k \<mapsto> v)"
    using map_of_take [of _ L] by (auto simp: map_le_def)
  ultimately show ?thesis using g' lru_viewI [OF g'(2) _ refl] unfolding cache_add_def by blast
qed

interpretation lrc: lookup_cache lru_view kvs_cache_get cache_add kvs_cache_del
proof unfold_locales
  fix g m e k v
  assume "lru_view g m"
  then obtain L where L: "lru_inv g L" "distinct (map fst L)" "m = map_of L" by (auto simp: lru_view_def)
  show "\<exists>g'. kvs_cache_get e g (Some k) = Some (m k, g') \<and> lru_view g' m"
    using lru_get_view [OF L(1,2)] L(3) by blast
  obtain r g' where r: "kvs_cache_del g (Some k) = Some (r, g')" "lru_inv g' (del1 k L)"
    using lru_del_refines [OF L(1), of k] by blast
  then show "\<exists>r g'. kvs_cache_del g (Some k) = Some (r, g') \<and> lru_view g' (m(k := None))"
    using lru_viewI [OF r(2)] del1_map_of [OF L(2)] del1_distinct [OF L(2)] L(3) by blast
  assume "env_ok e" "m k = None"
  then show "\<exists>g' m'. cache_add e g k v = Some g' \<and> lru_view g' m' \<and> m' \<subseteq>\<^sub>m m(k \<mapsto> v)"
    using lru_add_view [OF L(1,2)] L(3) by blast
qed

section \<open>Properties\<close>

text \<open>C16: From its initialisation, the cache under the LRU policy answers any sequence of lookups,
  insertions and deletions exactly as a list of at most \<open>max_items\<close> records in order of
  recency: a hit moves its record to the front, an insertion drops the records beyond the
  bound from the back. Every call returns (no dangling pointer, the eviction loop stops).\<close>

theorem lru_cache_refines:
  fixes n :: int
  assumes "env_ok e0" and "\<forall>(e, c) \<in> set ecs. env_ok e"
  defines "mx \<equiv> nat (if n > 0 then n else DEFAULT_MAX_ITEMS)"
  shows "\<exists>g g'. kvs_cache_init e0 n = Some g \<and>
     cache_run g ecs = Some (fst (lru_spec_run mx [] (map snd ecs)), g') \<and>
     lru_inv g' (snd (lru_spec_run mx [] (map snd ecs)))"
proof -
  obtain g where "kvs_cache_init e0 n = Some g" "lru_inv g []" "nat (max_items g) = mx"
    using lru_init_inv [OF assms(1), of n] by (auto simp: mx_def)
  with lru_run_refines [OF this(2) assms(2)] show ?thesis by auto
qed

theorem lru_cache_refines_witness:
  "\<exists>g g'. kvs_cache_init env0 2 = Some g \<and>
     cache_run g (map (Pair env0) [CAdd ''a'' ''1'', CAdd ''b'' ''2'', CGet ''a'', CAdd ''c'' ''3'', CGet ''b'', CGet ''a'']) =
       Some ([None, None, Some ''1'', None, None, Some ''1''], g') \<and>
     lru_inv g' [(''a'', ''1''), (''c'', ''3'')]"
  using lru_cache_refines [of env0 "map (Pair env0) [CAdd ''a'' ''1'', CAdd ''b'' ''2'', CGet ''a'', CAdd ''c'' ''3'', CGet ''b'', CGet ''a'']" 2]
  by simp

lemma evict_loop_counters:
  assumes "evict_loop g = Some g'"
  shows "total_access g' = total_access g \<and> cache_hit g' = cache_hit g \<and> cache_miss g' = cache_miss g"
proof (rule evict_loop.raw_induct [OF _ assms])
  fix f :: "CacheManager \<Rightarrow> CacheManager option" and g g'
  assume IH: "\<And>g g'. f g = Some g' \<Longrightarrow>
      total_access g' = total_access g \<and> cache_hit g' = cache_hit g \<and> cache_miss g' = cache_miss g"
    and step: "(if max_items g \<le> lsize (lru g) then kvs_cache_lru_evict_key g \<bind> (\<lambda>r. f (snd r)) else Some g) = Some g'"
  show "total_access g' = total_access g \<and> cache_hit g' = cache_hit g \<and> cache_miss g' = cache_miss g"
    using step IH by (auto simp: kvs_cache_lru_evict_key_def split: if_splits bind_splits)
qed

lemma add_counters:
  assumes "kvs_cache_lru_add e g k v len = Some g'"
  shows "total_access g' = total_access g \<and> cache_hit g' = cache_hit g \<and> cache_miss g' = cache_miss g"
  using assms
  by (auto simp: kvs_cache_lru_add_def arc_add_def Let_def split: if_splits bind_splits dest!: evict_loop_counters)

lemma del_counters:
  assumes "kvs_cache_del g k = Some (r, g')"
  shows "total_access g' = total_access g \<and> cache_hit g' = cache_hit g \<and> cache_miss g' = cache_miss g"
  using assms by (auto simp: kvs_cache_del_def split: if_splits bind_splits option.splits)

lemma get_counters:
  assumes "kvs_cache_get e g k = Some (r, g')" "total_access g = cache_hit g + cache_miss g"
  shows "total_access g' = cache_hit g' + cache_miss g'"
  using assms
  by (auto simp: kvs_cache_get_def count_hit_def count_miss_def Let_def split: if_splits bind_splits option.splits)

text \<open>Under every policy, and modulo 2^64, the statistics stay consistent: any sequence of cache
  calls keeps the number of accesses equal to hits plus misses.\<close>

lemma cache_counters_consistent:
  assumes "cache_run g ecs = Some (rs, g')" and "total_access g = cache_hit g + cache_miss g"
  shows "total_access g' = cache_hit g' + cache_miss g'"
  using assms
proof (induction ecs arbitrary: g rs)
  case (Cons ec ecs)
  obtain e c where ec: "ec = (e, c)" by (cases ec)
  obtain r g1 rs1 where 1: "cache_step e g c = Some (r, g1)" "cache_run g1 ecs = Some (rs1, g')"
    using Cons.prems(1) by (auto simp: ec split: bind_splits)
  have "total_access g1 = cache_hit g1 + cache_miss g1"
  proof (cases c)
    case (CGet k)
    then show ?thesis using get_counters 1(1) Cons.prems(2) by simp
  next
    case (CAdd k v)
    then show ?thesis using 1(1) Cons.prems(2) by (auto split: bind_splits dest!: add_counters)
  next
    case (CDel k)
    then show ?thesis using 1(1) Cons.prems(2) by (auto split: bind_splits dest!: del_counters)
  qed
  then show ?case using Cons.IH [OF 1(2)] by blast
qed simp

end
