(* ===== verification/Cache_LFU.thy ===== *)
theory Cache_LFU
  imports Cache_LRU "HOL-Library.Multiset"
begin

text \<open>
  The LFU policy: a binary min-heap of node pointers, ordered by access count. \<open>lfu_rep c rs\<close>
  says that \<open>rs\<close> are the pointers in positions 1 to \<open>size\<close>. The sift operations permute \<open>rs\<close>;
  sifting up after an insertion and down after an eviction or an access keep the heap order, so
  that the evicted node has the least access count. Deletion sifts down only, which can lose
  the order.
\<close>

definition lfu_rep :: "LFUCache \<Rightarrow> ref list \<Rightarrow> bool" where
  "lfu_rep c rs \<longleftrightarrow> (\<exists>x rest. lnodes c = Some (x # rs @ rest) \<and> hsize c = length rs \<and>
     length rs + length rest = capacity c)"

text \<open>The access count at position \<open>i\<close>.\<close>

definition cnt :: "eheap \<Rightarrow> ref list \<Rightarrow> nat \<Rightarrow> 64 word" where
  "cnt h rs i = access_count (the (h (rs ! (i - 1))))"

definition is_heap :: "eheap \<Rightarrow> ref list \<Rightarrow> bool" where
  "is_heap h rs \<longleftrightarrow> (\<forall>i. 2 \<le> i \<and> i \<le> length rs \<longrightarrow> cnt h rs (i div 2) \<le> cnt h rs i)"

definition down_ok :: "eheap \<Rightarrow> ref list \<Rightarrow> nat \<Rightarrow> bool" where
  "down_ok h rs idx \<longleftrightarrow>
     (\<forall>i. 2 \<le> i \<and> i \<le> length rs \<and> i div 2 \<noteq> idx \<longrightarrow> cnt h rs (i div 2) \<le> cnt h rs i) \<and>
     (2 \<le> idx \<longrightarrow> (\<forall>i. i div 2 = idx \<and> i \<le> length rs \<longrightarrow> cnt h rs (idx div 2) \<le> cnt h rs i))"

definition up_ok :: "eheap \<Rightarrow> ref list \<Rightarrow> nat \<Rightarrow> bool" where
  "up_ok h rs idx \<longleftrightarrow>
     (\<forall>i. 2 \<le> i \<and> i \<le> length rs \<and> i \<noteq> idx \<longrightarrow> cnt h rs (i div 2) \<le> cnt h rs i) \<and>
     (2 \<le> idx \<longrightarrow> (\<forall>i. i div 2 = idx \<and> i \<le> length rs \<longrightarrow> cnt h rs (idx div 2) \<le> cnt h rs i))"

lemma lfu_at_rep: "lfu_rep c rs \<Longrightarrow> 1 \<le> i \<Longrightarrow> i \<le> length rs \<Longrightarrow> lfu_at c i = Some (rs ! (i - 1))"
  by (auto simp: lfu_rep_def lfu_at_def nth_append nth_Cons')

lemma lfu_put_rep:
  assumes "lfu_rep c rs" "1 \<le> i" "i \<le> length rs"
  shows "\<exists>c'. lfu_put c i r = Some c' \<and> lfu_rep c' (rs[i - 1 := r]) \<and> capacity c' = capacity c"
proof -
  obtain x rest where c: "lnodes c = Some (x # rs @ rest)" "hsize c = length rs" "length rs + length rest = capacity c"
    using assms(1) by (auto simp: lfu_rep_def)
  obtain j where i: "i = Suc j" using assms(2) by (cases i) auto
  have "lfu_put c i r = Some (c\<lparr>lnodes := Some (x # rs[j := r] @ rest)\<rparr>)"
    using c assms(3) i by (simp add: lfu_put_def list_update_append)
  then show ?thesis using c i by (auto simp: lfu_rep_def)
qed

lemma lfu_swap_rep:
  assumes "lfu_rep c rs" "1 \<le> i" "i \<le> length rs" "1 \<le> j" "j \<le> length rs"
  shows "\<exists>c'. lfu_swap c i j = Some c' \<and> lfu_rep c' (rs[i - 1 := rs ! (j - 1), j - 1 := rs ! (i - 1)]) \<and>
     capacity c' = capacity c"
proof -
  obtain c1 where 1: "lfu_put c i (rs ! (j - 1)) = Some c1" "lfu_rep c1 (rs[i - 1 := rs ! (j - 1)])" "capacity c1 = capacity c"
    using lfu_put_rep [OF assms(1-3)] by blast
  from lfu_put_rep [OF 1(2), of j "rs ! (i - 1)"] assms obtain c2 where
    "lfu_put c1 j (rs ! (i - 1)) = Some c2"
    "lfu_rep c2 (rs[i - 1 := rs ! (j - 1), j - 1 := rs ! (i - 1)])" "capacity c2 = capacity c1" by auto
  then show ?thesis using 1 assms lfu_at_rep [OF assms(1)] by (auto simp: lfu_swap_def)
qed

lemma count_at_rep:
  assumes "lfu_rep c rs" "\<forall>r \<in> set rs. h r \<noteq> None" "1 \<le> i" "i \<le> length rs"
  shows "count_at h c i = Some (cnt h rs i)"
proof -
  have "rs ! (i - 1) \<in> set rs" using assms by (intro nth_mem) auto
  then obtain n where "h (rs ! (i - 1)) = Some n" using assms(2) by auto
  then show ?thesis using lfu_at_rep [OF assms(1,3,4)] by (simp add: count_at_def cnt_def)
qed

lemma cnt_swap:
  assumes "1 \<le> i" "i \<le> length rs" "1 \<le> j" "j \<le> length rs" "1 \<le> k" "k \<le> length rs"
  shows "cnt h (rs[i - 1 := rs ! (j - 1), j - 1 := rs ! (i - 1)]) k =
     (if k = i then cnt h rs j else if k = j then cnt h rs i else cnt h rs k)"
  using assms by (auto simp: cnt_def nth_list_update)

lemma mset_swap_rs:
  "1 \<le> i \<Longrightarrow> i \<le> length rs \<Longrightarrow> 1 \<le> j \<Longrightarrow> j \<le> length rs \<Longrightarrow>
   mset (rs[i - 1 := rs ! (j - 1), j - 1 := rs ! (i - 1)]) = mset rs"
  by (rule mset_swap) auto

section \<open>Sifting\<close>

lemma up_step:
  assumes ok: "up_ok h rs idx" and i: "1 < idx" "idx \<le> length rs" and lt: "cnt h rs idx < cnt h rs (idx div 2)"
  shows "up_ok h (rs[idx div 2 - 1 := rs ! (idx - 1), idx - 1 := rs ! (idx div 2 - 1)]) (idx div 2)"
proof -
  let ?p = "idx div 2"
  let ?rs = "rs[?p - 1 := rs ! (idx - 1), idx - 1 := rs ! (?p - 1)]"
  have p: "1 \<le> ?p" "?p < idx" "?p \<le> length rs" using i by auto
  have c: "cnt h ?rs k = (if k = ?p then cnt h rs idx else if k = idx then cnt h rs ?p else cnt h rs k)"
    if "1 \<le> k" "k \<le> length rs" for k
    using cnt_swap [of ?p rs idx k h] that p i by simp
  have "cnt h ?rs (k div 2) \<le> cnt h ?rs k" if k: "2 \<le> k" "k \<le> length rs" "k \<noteq> ?p" for k
  proof -
    have k2: "1 \<le> k div 2" "k div 2 \<le> length rs" "k div 2 < k" using k by auto
    consider "k = idx" | "k \<noteq> idx" "k div 2 = idx" | "k \<noteq> idx" "k div 2 = ?p" | "k \<noteq> idx" "k div 2 \<noteq> idx" "k div 2 \<noteq> ?p"
      by blast
    then show ?thesis
    proof cases
      case 1
      then show ?thesis using c [of k] c [of "k div 2"] k k2 lt p by simp
    next
      case 2
      then show ?thesis using c [of k] c [of "k div 2"] k k2 ok i p by (simp add: up_ok_def)
    next
      case 3
      have "cnt h rs ?p \<le> cnt h rs k" using ok k 3 by (metis up_ok_def)
      then show ?thesis using c [of k] c [of "k div 2"] k k2 lt 3 by simp
    next
      case 4
      then show ?thesis using c [of k] c [of "k div 2"] k k2 ok by (simp add: up_ok_def)
    qed
  qed
  moreover have "cnt h ?rs (?p div 2) \<le> cnt h ?rs k" if k: "k div 2 = ?p" "k \<le> length rs" "2 \<le> ?p" for k
  proof -
    have pp: "1 \<le> ?p div 2" "?p div 2 < ?p" "?p div 2 \<le> length rs" using k p by auto
    have g: "cnt h rs (?p div 2) \<le> cnt h rs ?p" using ok k(3) p by (simp add: up_ok_def)
    have k1: "1 \<le> k" "k \<noteq> ?p" "2 \<le> k" using k by auto
    show ?thesis
    proof (cases "k = idx")
      case True
      then show ?thesis using c [of k] c [of "?p div 2"] g pp k k1 p by auto
    next
      case False
      have "cnt h rs ?p \<le> cnt h rs k" using ok False k k1 by (metis up_ok_def)
      then show ?thesis using c [of k] c [of "?p div 2"] g pp k k1 p False by auto
    qed
  qed
  ultimately show ?thesis unfolding up_ok_def by simp
qed

lemma heapify_up_correct:
  assumes "lfu_rep c rs" "\<forall>r \<in> set rs. h r \<noteq> None" "1 \<le> idx" "idx \<le> length rs"
  shows "\<exists>c' rs'. lfu_heapify_up h c idx = Some c' \<and> lfu_rep c' rs' \<and> mset rs' = mset rs \<and>
     capacity c' = capacity c \<and> (up_ok h rs idx \<longrightarrow> is_heap h rs')"
  using assms
proof (induction idx arbitrary: c rs rule: less_induct)
  case (less idx)
  show ?case
  proof (cases "1 < idx")
    case False
    then have "up_ok h rs idx \<longrightarrow> is_heap h rs" using less.prems(3) by (auto simp: up_ok_def is_heap_def)
    then show ?thesis using less.prems(1) False by (auto simp: lfu_heapify_up.simps [of h c idx])
  next
    case True
    have p: "1 \<le> idx div 2" "idx div 2 < idx" "idx div 2 \<le> length rs" using True less.prems by auto
    have ca: "count_at h c (idx div 2) = Some (cnt h rs (idx div 2))" "count_at h c idx = Some (cnt h rs idx)"
      using count_at_rep [OF less.prems(1,2)] p less.prems by auto
    show ?thesis
    proof (cases "cnt h rs (idx div 2) \<le> cnt h rs idx")
      case le: True
      then have "up_ok h rs idx \<longrightarrow> is_heap h rs" by (auto simp: up_ok_def is_heap_def)
      then show ?thesis using less.prems(1) True le ca by (auto simp: lfu_heapify_up.simps [of h c idx])
    next
      case gt: False
      let ?rs = "rs[idx div 2 - 1 := rs ! (idx - 1), idx - 1 := rs ! (idx div 2 - 1)]"
      obtain c1 where 1: "lfu_swap c (idx div 2) idx = Some c1" "lfu_rep c1 ?rs" "capacity c1 = capacity c"
        using lfu_swap_rep [OF less.prems(1), of "idx div 2" idx] p less.prems by blast
      have m: "mset ?rs = mset rs" using mset_swap_rs [of "idx div 2" rs idx] p less.prems by blast
      then have "\<forall>r \<in> set ?rs. h r \<noteq> None" "idx div 2 \<le> length ?rs"
        using less.prems(2) p by (metis set_mset_mset, simp)
      from less.IH [OF p(2) 1(2) this(1) p(1) this(2)] obtain c2 rs2 where
        2: "lfu_heapify_up h c1 (idx div 2) = Some c2" "lfu_rep c2 rs2" "mset rs2 = mset ?rs"
        "capacity c2 = capacity c1" "up_ok h ?rs (idx div 2) \<longrightarrow> is_heap h rs2" by blast
      have "up_ok h rs idx \<longrightarrow> is_heap h rs2" using 2(5) up_step [OF _ True less.prems(4)] gt by (meson not_le)
      with 1 2 m True gt ca show ?thesis by (auto simp: lfu_heapify_up.simps [of h c idx])
    qed
  qed
qed

lemma down_step:
  assumes ok: "down_ok h rs idx" and i: "1 \<le> idx" "s div 2 = idx" "s \<le> length rs"
    and lt: "cnt h rs s < cnt h rs idx" and least: "\<forall>k. k div 2 = idx \<and> k \<le> length rs \<longrightarrow> cnt h rs s \<le> cnt h rs k"
  shows "down_ok h (rs[s - 1 := rs ! (idx - 1), idx - 1 := rs ! (s - 1)]) s"
proof -
  let ?rs = "rs[s - 1 := rs ! (idx - 1), idx - 1 := rs ! (s - 1)]"
  have s: "2 \<le> s" "idx < s" "idx \<le> length rs" using i by auto
  have c: "cnt h ?rs k = (if k = s then cnt h rs idx else if k = idx then cnt h rs s else cnt h rs k)"
    if "1 \<le> k" "k \<le> length rs" for k
    using cnt_swap [of s rs idx k h] that s i by simp
  have "cnt h ?rs (k div 2) \<le> cnt h ?rs k" if k: "2 \<le> k" "k \<le> length rs" "k div 2 \<noteq> s" for k
  proof -
    have k2: "1 \<le> k div 2" "k div 2 \<le> length rs" "k div 2 < k" using k by auto
    consider "k = s" | "k = idx" | "k \<noteq> s" "k \<noteq> idx" "k div 2 = idx" | "k \<noteq> s" "k \<noteq> idx" "k div 2 \<noteq> idx"
      by blast
    then show ?thesis
    proof cases
      case 1
      then show ?thesis using c [of k] c [of "k div 2"] k k2 lt i s by simp
    next
      case 2
      have "cnt h rs (idx div 2) \<le> cnt h rs s" using ok i k 2 by (simp add: down_ok_def)
      then show ?thesis using c [of k] c [of "k div 2"] k k2 2 s by simp
    next
      case 3
      then show ?thesis using c [of k] c [of "k div 2"] k k2 least s by simp
    next
      case 4
      then show ?thesis using c [of k] c [of "k div 2"] k k2 ok by (simp add: down_ok_def)
    qed
  qed
  moreover have "cnt h ?rs (s div 2) \<le> cnt h ?rs k" if k: "k div 2 = s" "k \<le> length rs" for k
  proof -
    have "2 \<le> k" "k div 2 \<noteq> idx" using k s by auto
    then have "cnt h rs s \<le> cnt h rs k" using ok k by (metis down_ok_def)
    then show ?thesis using c [of k] c [of "s div 2"] k s i by auto
  qed
  ultimately show ?thesis unfolding down_ok_def by simp
qed

lemma smaller_of_rep:
  assumes "lfu_rep c rs" "\<forall>r \<in> set rs. h r \<noteq> None" "1 \<le> s" "1 \<le> child" "s \<le> length rs \<or> length rs < child"
  shows "smaller_of h c child s = Some (if child \<le> length rs \<and> cnt h rs child < cnt h rs s then child else s)"
proof -
  have "hsize c = length rs" using assms(1) by (auto simp: lfu_rep_def)
  then show ?thesis using assms count_at_rep [OF assms(1,2)] by (auto simp: smaller_of_def)
qed

lemma div2_cases: "1 \<le> idx \<Longrightarrow> k div 2 = idx \<longleftrightarrow> k = idx * 2 \<or> k = idx * 2 + 1" for k idx :: nat
  by auto

lemma heapify_down_correct:
  assumes "lfu_rep c rs" "\<forall>r \<in> set rs. h r \<noteq> None" "1 \<le> idx"
  shows "\<exists>c' rs'. lfu_heapify_down h c idx = Some c' \<and> lfu_rep c' rs' \<and> mset rs' = mset rs \<and>
     capacity c' = capacity c \<and> (down_ok h rs idx \<longrightarrow> is_heap h rs')"
  using assms
proof (induction "length rs - idx" arbitrary: c rs idx rule: less_induct)
  case less
  define s1 where "s1 = (if idx * 2 \<le> length rs \<and> cnt h rs (idx * 2) < cnt h rs idx then idx * 2 else idx)"
  define s where "s = (if idx * 2 + 1 \<le> length rs \<and> cnt h rs (idx * 2 + 1) < cnt h rs s1 then idx * 2 + 1 else s1)"
  have "idx \<le> length rs \<or> length rs < idx * 2" using less.prems(3) by linarith
  then have "smaller_of h c (idx * 2) idx = Some s1"
    using smaller_of_rep [OF less.prems(1,2), of idx "idx * 2"] less.prems(3) by (simp add: s1_def)
  moreover have "s1 \<le> length rs \<or> length rs < idx * 2 + 1" using less.prems(3) by (auto simp: s1_def)
  then have "smaller_of h c (idx * 2 + 1) s1 = Some s"
    using smaller_of_rep [OF less.prems(1,2), of s1 "idx * 2 + 1"] less.prems(3) by (auto simp: s_def s1_def)
  ultimately have u: "lfu_heapify_down h c idx = (if s = idx then Some c
       else do { c' \<leftarrow> lfu_swap c s idx; lfu_heapify_down h c' s })"
    by (subst lfu_heapify_down.simps) simp
  have least: "\<forall>k. k div 2 = idx \<and> k \<le> length rs \<longrightarrow> cnt h rs s \<le> cnt h rs k"
    and sle: "cnt h rs s \<le> cnt h rs idx"
    using div2_cases [OF less.prems(3)] by (auto simp: s_def s1_def)
  show ?case
  proof (cases "s = idx")
    case True
    have "down_ok h rs idx \<longrightarrow> is_heap h rs"
      using least True by (auto simp: down_ok_def is_heap_def)
    then show ?thesis using u True less.prems(1) by auto
  next
    case False
    then have s: "s div 2 = idx" "s \<le> length rs" "idx < s" "1 \<le> s" and lt: "cnt h rs s < cnt h rs idx"
      using less.prems(3) by (auto simp: s_def s1_def split: if_splits)
    let ?rs = "rs[s - 1 := rs ! (idx - 1), idx - 1 := rs ! (s - 1)]"
    obtain c1 where 1: "lfu_swap c s idx = Some c1" "lfu_rep c1 ?rs" "capacity c1 = capacity c"
      using lfu_swap_rep [OF less.prems(1), of s idx] s less.prems(3) by auto
    have m: "mset ?rs = mset rs" using mset_swap_rs [of s rs idx] s less.prems(3) by simp
    then have h: "\<forall>r \<in> set ?rs. h r \<noteq> None" using less.prems(2) by (metis set_mset_mset)
    have "length ?rs - s < length rs - idx" using s by simp
    from less.hyps [OF this 1(2) h s(4)] obtain c2 rs2 where
      2: "lfu_heapify_down h c1 s = Some c2" "lfu_rep c2 rs2" "mset rs2 = mset ?rs" "capacity c2 = capacity c1"
      "down_ok h ?rs s \<longrightarrow> is_heap h rs2" by blast
    have "down_ok h rs idx \<longrightarrow> is_heap h rs2"
      using 2(5) down_step [OF _ less.prems(3) s(1,2) lt least] by blast
    with 1 2 m u False show ?thesis by auto
  qed
qed

text \<open>The root of a heap is least.\<close>

lemma heap_root_least:
  assumes "is_heap h rs" "1 \<le> i" "i \<le> length rs"
  shows "cnt h rs 1 \<le> cnt h rs i"
  using assms(2,3)
proof (induction i rule: less_induct)
  case (less i)
  show ?case
  proof (cases "i = 1")
    case False
    then have "cnt h rs 1 \<le> cnt h rs (i div 2)" using less by auto
    also have "\<dots> \<le> cnt h rs i" using assms(1) less.prems False by (simp add: is_heap_def)
    finally show ?thesis .
  qed simp
qed

section \<open>The manager under the LFU policy\<close>

text \<open>The nodes in the heap are distinct, live and carry a key and a value.\<close>

definition lfu_inv :: "CacheManager \<Rightarrow> ref list \<Rightarrow> bool" where
  "lfu_inv g rs \<longleftrightarrow> lfu_rep (lfu g) rs \<and> distinct rs \<and> NULL \<notin> set rs \<and>
     (\<forall>r \<in> set rs. \<exists>k v. payload (cheap g) r = Some (Some k, Some v)) \<and> policy g = EVICT_LFU \<and>
     0 < max_items g \<and> 0 < capacity (lfu g) \<and> (\<forall>n. cnext g \<le> n \<longrightarrow> cheap g (Ref n) = None)"

definition kv :: "eheap \<Rightarrow> ref \<Rightarrow> string \<times> string" where
  "kv h r = (case payload h r of Some (Some k, Some v) \<Rightarrow> (k, v) | _ \<Rightarrow> undefined)"

lemma kv_payload: "payload h r = Some (Some k, Some v) \<Longrightarrow> kv h r = (k, v)"
  by (simp add: kv_def)

lemma lfu_inv_live: "lfu_inv g rs \<Longrightarrow> \<forall>r \<in> set rs. cheap g r \<noteq> None"
  by (fastforce simp: lfu_inv_def payload_def)

lemma lfu_inv_perm:
  assumes "lfu_inv g rs" "mset rs' = mset rs" "lfu_rep c rs'" "capacity c = capacity (lfu g)"
    "payload h = payload (cheap g)"
  shows "lfu_inv (g\<lparr>cheap := h, lfu := c\<rparr>) rs'"
proof -
  have "set rs' = set rs" "distinct rs' = distinct rs"
    using assms(2) mset_eq_setD mset_eq_imp_distinct_iff by blast+
  then show ?thesis
    using assms fresh_payload [OF assms(5), of "cnext g"] by (auto simp: lfu_inv_def)
qed

lemma scan_correct:
  assumes inv: "lfu_inv g rs"
  shows "1 \<le> i \<Longrightarrow> (\<exists>j. lfu_scan (cheap g) (lfu g) k i = Some j \<and>
     (j = 0 \<and> (\<forall>m. i \<le> m \<and> m \<le> length rs \<longrightarrow> fst (kv (cheap g) (rs ! (m - 1))) \<noteq> k) \<or>
      i \<le> j \<and> j \<le> length rs \<and> fst (kv (cheap g) (rs ! (j - 1))) = k))"
proof (induction "Suc (length rs) - i" arbitrary: i rule: less_induct)
  case less
  have sz: "hsize (lfu g) = length rs" using inv by (auto simp: lfu_inv_def lfu_rep_def)
  show ?case
  proof (cases "i \<le> length rs")
    case False
    then show ?thesis using sz by (auto simp: lfu_scan.simps [of "cheap g" "lfu g" k i])
  next
    case True
    let ?r = "rs ! (i - 1)"
    have r: "?r \<in> set rs" using True less.prems by (intro nth_mem) auto
    then obtain q v where q: "payload (cheap g) ?r = Some (Some q, Some v)" "?r \<noteq> NULL"
      using inv unfolding lfu_inv_def by metis
    then obtain n where n: "cheap g ?r = Some n" "ekey n = Some q" using payload_key by blast
    have at: "lfu_at (lfu g) i = Some ?r" using lfu_at_rep inv True less.prems by (auto simp: lfu_inv_def)
    have kq: "fst (kv (cheap g) ?r) = q" using kv_payload [OF q(1)] by simp
    have u: "lfu_scan (cheap g) (lfu g) k i = (if q = k then Some i else lfu_scan (cheap g) (lfu g) k (Suc i))"
      using True sz at q(2) n by (simp add: lfu_scan.simps [of "cheap g" "lfu g" k i] has_key_def)
    show ?thesis
    proof (cases "q = k")
      case True
      then show ?thesis using u kq less.prems \<open>i \<le> length rs\<close> by auto
    next
      case False
      have "Suc (length rs) - Suc i < Suc (length rs) - i" using True by simp
      from less.hyps [OF this] obtain j where j: "lfu_scan (cheap g) (lfu g) k (Suc i) = Some j"
        "j = 0 \<and> (\<forall>m. Suc i \<le> m \<and> m \<le> length rs \<longrightarrow> fst (kv (cheap g) (rs ! (m - 1))) \<noteq> k) \<or>
         Suc i \<le> j \<and> j \<le> length rs \<and> fst (kv (cheap g) (rs ! (j - 1))) = k" by auto
      have sc: "lfu_scan (cheap g) (lfu g) k i = Some j" using u False j(1) by simp
      from j(2) show ?thesis
      proof (elim disjE conjE)
        assume j0: "j = 0" and all: "\<forall>m. Suc i \<le> m \<and> m \<le> length rs \<longrightarrow> fst (kv (cheap g) (rs ! (m - 1))) \<noteq> k"
        have "fst (kv (cheap g) (rs ! (m - 1))) \<noteq> k" if "i \<le> m" "m \<le> length rs" for m
          using that all kq False by (cases "m = i") auto
        with sc j0 show ?thesis by (intro exI [of _ 0]) simp
      next
        assume "Suc i \<le> j" "j \<le> length rs" "fst (kv (cheap g) (rs ! (j - 1))) = k"
        with sc show ?thesis by (intro exI [of _ j]) simp
      qed
    qed
  qed
qed

lemma scan_none:
  assumes "\<forall>m. 1 \<le> m \<and> m \<le> length rs \<longrightarrow> fst (kv h (rs ! (m - 1))) \<noteq> k"
  shows "\<forall>x \<in> set rs. fst (kv h x) \<noteq> k"
proof
  fix x assume "x \<in> set rs"
  then obtain i where "i < length rs" "x = rs ! i" by (metis in_set_conv_nth)
  with assms [rule_format, of "Suc i"] show "fst (kv h x) \<noteq> k" by simp
qed

lemma touch_payload: "lfu_touch h r = Some h' \<Longrightarrow> payload h' = payload h"
  by (auto simp: lfu_touch_def payload_upd split: bind_splits)

text \<open>What a hit does to the counts: one more at position \<open>i\<close>, as long as it does not wrap.\<close>

lemma touch_down_ok:
  assumes heap: "is_heap h rs" and i: "1 \<le> i" "i \<le> length rs" and d: "distinct rs"
    and n: "h (rs ! (i - 1)) = Some n" "access_count n \<noteq> - 1"
    and h': "h' = h(rs ! (i - 1) \<mapsto> n\<lparr>access_count := access_count n + 1\<rparr>)"
  shows "down_ok h' rs i"
proof -
  have le: "w \<le> w + 1" if "w \<noteq> - 1" for w :: "64 word"
    using that by (meson inc_less_eq_triv_imp nle_le)
  have c: "cnt h' rs k = (if k = i then cnt h rs i + 1 else cnt h rs k)" if "1 \<le> k" "k \<le> length rs" for k
    using that i d n by (auto simp: cnt_def h' nth_eq_iff_index_eq)
  have ci: "cnt h rs i \<le> cnt h rs i + 1" using le n by (simp add: cnt_def)
  have "cnt h' rs (k div 2) \<le> cnt h' rs k" if "2 \<le> k" "k \<le> length rs" "k div 2 \<noteq> i" for k
  proof -
    have "cnt h rs (k div 2) \<le> cnt h rs k" using heap that by (simp add: is_heap_def)
    then show ?thesis using c [of k] c [of "k div 2"] that ci by (auto intro: order_trans)
  qed
  moreover have "cnt h' rs (i div 2) \<le> cnt h' rs k" if "2 \<le> i" "k div 2 = i" "k \<le> length rs" for k
  proof -
    have "2 \<le> k" using that by auto
    then have "cnt h rs (i div 2) \<le> cnt h rs i" "cnt h rs (k div 2) \<le> cnt h rs k"
      using heap that i unfolding is_heap_def by blast+
    then have "cnt h rs (i div 2) \<le> cnt h rs i" "cnt h rs i \<le> cnt h rs k" by (simp_all add: that(2))
    moreover have "k \<noteq> i" "i div 2 \<noteq> i" "1 \<le> k" "1 \<le> i div 2" using that by auto
    ultimately show ?thesis using c [of k] c [of "i div 2"] that i by auto
  qed
  ultimately show ?thesis by (simp add: down_ok_def)
qed

text \<open>Taking out position \<open>i\<close>: the last pointer goes there and the heap shrinks.\<close>

definition take_out :: "ref list \<Rightarrow> nat \<Rightarrow> ref list" where
  "take_out rs i = butlast (rs[i - 1 := last rs])"

lemma take_out_rep:
  assumes "lfu_rep c rs" "1 \<le> i" "i \<le> length rs"
  shows "\<exists>c'. lfu_put c i (last rs) = Some c' \<and> lfu_rep (c'\<lparr>hsize := hsize c' - 1\<rparr>) (take_out rs i) \<and>
     capacity c' = capacity c"
proof -
  obtain c1 where 1: "lfu_put c i (last rs) = Some c1" "lfu_rep c1 (rs[i - 1 := last rs])" "capacity c1 = capacity c"
    using lfu_put_rep [OF assms] by blast
  let ?rs = "rs[i - 1 := last rs]"
  have ne: "?rs \<noteq> []" using assms by auto
  obtain x rest where "lnodes c1 = Some (x # ?rs @ rest)" "hsize c1 = length ?rs" "length ?rs + length rest = capacity c1"
    using 1(2) by (auto simp: lfu_rep_def)
  moreover have "?rs @ rest = butlast ?rs @ (last ?rs # rest)" using ne by simp
  ultimately have "lfu_rep (c1\<lparr>hsize := hsize c1 - 1\<rparr>) (butlast ?rs)"
    using ne assms unfolding lfu_rep_def by (intro exI [of _ x] exI [of _ "last ?rs # rest"]) auto
  with 1 show ?thesis by (auto simp: take_out_def)
qed

lemma mset_take_out:
  assumes "1 \<le> i" "i \<le> length rs"
  shows "mset (take_out rs i) = mset rs - {#rs ! (i - 1)#}"
proof -
  have ne: "rs \<noteq> []" using assms by auto
  have "last (rs[i - 1 := last rs]) = last rs" using assms ne by (auto simp: last_list_update)
  moreover have "mset (rs[i - 1 := last rs]) = mset rs - {#rs ! (i - 1)#} + {#last rs#}"
    using assms by (subst mset_update) auto
  moreover have "mset (butlast xs) = mset xs - {#last xs#}" if "xs \<noteq> []" for xs :: "ref list"
    using that by (metis add_diff_cancel_right' append_butlast_last_id mset.simps mset_append)
  ultimately show ?thesis using ne assms by (simp add: take_out_def)
qed

lemma length_take_out [simp]: "length (take_out rs i) = length rs - 1"
  by (simp add: take_out_def)

lemma set_take_out:
  assumes "distinct rs" "1 \<le> i" "i \<le> length rs"
  shows "set (take_out rs i) = set rs - {rs ! (i - 1)}" "distinct (take_out rs i)"
proof -
  have m: "mset (take_out rs i) = mset (remove1 (rs ! (i - 1)) rs)" using mset_take_out [OF assms(2,3)] by simp
  then show "set (take_out rs i) = set rs - {rs ! (i - 1)}" using assms(1) by (metis mset_eq_setD set_remove1_eq)
  show "distinct (take_out rs i)" using m assms(1) by (metis distinct_remove1 mset_eq_imp_distinct_iff)
qed

lemma cnt_take_out:
  assumes "k \<noteq> i" "1 \<le> k" "k \<le> length rs - 1" "1 \<le> i"
  shows "cnt h (take_out rs i) k = cnt h rs k"
proof -
  have "k - 1 \<noteq> i - 1" using assms by auto
  then show ?thesis using assms by (simp add: cnt_def take_out_def nth_butlast)
qed

lemma take_out_root_ok:
  assumes "is_heap h rs"
  shows "down_ok h (take_out rs 1) 1"
  using assms cnt_take_out [of _ 1 rs h] by (auto simp: down_ok_def is_heap_def)

text \<open>Access counts below a bound, so that one more access does not wrap.\<close>

definition counts_le :: "eheap \<Rightarrow> ref list \<Rightarrow> nat \<Rightarrow> bool" where
  "counts_le h rs n \<longleftrightarrow> (\<forall>r \<in> set rs. \<exists>x. h r = Some x \<and> unat (access_count x) \<le> n)"

lemma counts_le_perm: "counts_le h rs n \<Longrightarrow> mset rs' = mset rs \<Longrightarrow> counts_le h rs' n"
  unfolding counts_le_def by (metis mset_eq_setD)

lemma counts_le_touch:
  assumes "counts_le h rs n" "h r = Some x" "r \<in> set rs" "n < 2 ^ 64 - 1"
  shows "counts_le (h(r \<mapsto> x\<lparr>access_count := access_count x + 1\<rparr>)) rs (Suc n)" "access_count x \<noteq> - 1"
proof -
  have le: "unat (access_count x) \<le> n" using assms(1-3) by (fastforce simp: counts_le_def)
  then have "unat (access_count x) < 2 ^ 64 - 1" using assms(4) by simp
  then show "access_count x \<noteq> - 1" by (auto simp: unsigned_minus_1_eq_mask mask_eq_exp_minus_1)
  have "unat (access_count x + 1) \<le> Suc n" using le mod_less_eq_dividend [of "unat (access_count x) + 1" "2 ^ 64"]
    by (simp add: unat_word_ariths)
  then show "counts_le (h(r \<mapsto> x\<lparr>access_count := access_count x + 1\<rparr>)) rs (Suc n)"
    using assms(1) by (auto simp: counts_le_def intro: le_SucI)
qed

lemma lfu_get_correct:
  assumes inv: "lfu_inv g rs"
  shows "\<exists>r g' rs'. kvs_cache_get e g (Some k) = Some (r, g') \<and> lfu_inv g' rs' \<and> mset rs' = mset rs \<and>
     payload (cheap g') = payload (cheap g) \<and>
     (case r of None \<Rightarrow> \<forall>x \<in> set rs. fst (kv (cheap g) x) \<noteq> k | Some v \<Rightarrow> (k, v) \<in> kv (cheap g) ` set rs) \<and>
     (is_heap (cheap g) rs \<and> counts_le (cheap g) rs n \<and> n < 2 ^ 64 - 1 \<longrightarrow>
        is_heap (cheap g') rs' \<and> counts_le (cheap g') rs' (Suc n))"
proof -
  have p: "policy g = EVICT_LFU" "0 < max_items g" and rep: "lfu_rep (lfu g) rs" and d: "distinct rs"
    using inv by (auto simp: lfu_inv_def)
  obtain j where j: "lfu_scan (cheap g) (lfu g) k 1 = Some j"
    "j = 0 \<and> (\<forall>m. 1 \<le> m \<and> m \<le> length rs \<longrightarrow> fst (kv (cheap g) (rs ! (m - 1))) \<noteq> k) \<or>
     1 \<le> j \<and> j \<le> length rs \<and> fst (kv (cheap g) (rs ! (j - 1))) = k"
    using scan_correct [OF inv, of 1 k] by auto
  show ?thesis
  proof (cases "j = 0")
    case True
    have "\<forall>x \<in> set rs. fst (kv (cheap g) x) \<noteq> k" using scan_none [of rs "cheap g" k] j(2) True by auto
    moreover have "kvs_cache_get e g (Some k) = Some (None, count_miss g)"
      using p j(1) True by (simp add: kvs_cache_get_def policy_defs)
    moreover have "lfu_inv (count_miss g) rs" "payload (cheap (count_miss g)) = payload (cheap g)"
      using inv by (auto simp: lfu_inv_def count_miss_def)
    moreover have "counts_le (cheap g) rs n \<Longrightarrow> counts_le (cheap g) rs (Suc n)"
      unfolding counts_le_def by (meson le_SucI)
    ultimately show ?thesis
      by (intro exI [of _ None] exI [of _ "count_miss g"] exI [of _ rs]) (simp add: count_miss_def)
  next
    case False
    then have jj: "1 \<le> j" "j \<le> length rs" "fst (kv (cheap g) (rs ! (j - 1))) = k" using j(2) by auto
    let ?r = "rs ! (j - 1)"
    have r: "?r \<in> set rs" using jj by (intro nth_mem) auto
    then obtain q v where q: "payload (cheap g) ?r = Some (Some q, Some v)" using inv unfolding lfu_inv_def by metis
    then obtain x where x: "cheap g ?r = Some x" "evalue x = Some v" using payload_key by blast
    have kv: "kv (cheap g) ?r = (k, v)" using kv_payload [OF q] jj(3) by simp
    define h where "h = (cheap g)(?r \<mapsto> x\<lparr>access_count := access_count x + 1\<rparr>)"
    have t: "lfu_touch (cheap g) ?r = Some h" using x by (simp add: lfu_touch_def h_def)
    have pl: "payload h = payload (cheap g)" using touch_payload [OF t] .
    have "\<forall>z \<in> set rs. h z \<noteq> None" using lfu_inv_live [OF inv] by (auto simp: h_def)
    from heapify_down_correct [OF rep this jj(1)] obtain c rs' where
      c: "lfu_heapify_down h (lfu g) j = Some c" "lfu_rep c rs'" "mset rs' = mset rs"
        "capacity c = capacity (lfu g)" "down_ok h rs j \<longrightarrow> is_heap h rs'" by blast
    let ?g = "count_hit (g\<lparr>cheap := h, lfu := c\<rparr>)"
    have "kvs_cache_get e g (Some k) = Some (Some v, ?g)"
      using p j(1) False lfu_at_rep [OF rep jj(1,2)] t c(1) x
      by (simp add: kvs_cache_get_def policy_defs h_def)
    moreover have "lfu_inv ?g rs'" using lfu_inv_perm [OF inv c(3,2,4) pl] by (simp add: lfu_inv_def count_hit_def)
    moreover have "payload (cheap ?g) = payload (cheap g)" using pl by (simp add: count_hit_def)
    moreover have "(k, v) \<in> kv (cheap g) ` set rs" using kv r by (metis image_eqI)
    moreover have "is_heap h rs' \<and> counts_le h rs' (Suc n)"
      if hp: "is_heap (cheap g) rs" "counts_le (cheap g) rs n" "n < 2 ^ 64 - 1"
    proof -
      have "down_ok h rs j"
        using touch_down_ok [OF hp(1) jj(1,2) d x(1) _ h_def] counts_le_touch(2) [OF hp(2) x(1) r hp(3)] by blast
      moreover have "counts_le h rs (Suc n)"
        using counts_le_touch(1) [OF hp(2) x(1) r hp(3)] by (simp add: h_def)
      ultimately show ?thesis using c(5) counts_le_perm [OF _ c(3)] by blast
    qed
    ultimately show ?thesis using c(3)
      by (intro exI [of _ "Some v"] exI [of _ ?g] exI [of _ rs']) (simp add: count_hit_def)
  qed
qed

text \<open>Eviction: the root leaves; in a heap it is a node of least count.\<close>

lemma lfu_evict_correct:
  assumes rep: "lfu_rep c rs" "\<forall>r \<in> set rs. h r \<noteq> None" and d: "distinct rs" "rs \<noteq> []"
  shows "\<exists>c' rs'. lfu_evict h c = Some (rs ! 0, c') \<and> lfu_rep c' rs' \<and> set rs' = set rs - {rs ! 0} \<and>
     distinct rs' \<and> length rs' = length rs - 1 \<and> capacity c' = capacity c \<and>
     (is_heap h rs \<longrightarrow> is_heap h rs' \<and> (\<forall>i. 1 \<le> i \<and> i \<le> length rs \<longrightarrow> cnt h rs 1 \<le> cnt h rs i))"
proof -
  have len: "1 \<le> length rs" using d(2) by (cases rs) auto
  obtain c1 where 1: "lfu_put c 1 (last rs) = Some c1" "lfu_rep (c1\<lparr>hsize := hsize c1 - 1\<rparr>) (take_out rs 1)"
    "capacity c1 = capacity c"
    using take_out_rep [OF rep(1) order_refl len] by blast
  have s: "set (take_out rs 1) = set rs - {rs ! 0}" "distinct (take_out rs 1)"
    using set_take_out [OF d(1) order_refl len] by simp_all
  then have "\<forall>r \<in> set (take_out rs 1). h r \<noteq> None" using rep(2) by auto
  from heapify_down_correct [OF 1(2) this order_refl] obtain c2 rs2 where
    2: "lfu_heapify_down h (c1\<lparr>hsize := hsize c1 - 1\<rparr>) 1 = Some c2" "lfu_rep c2 rs2"
      "mset rs2 = mset (take_out rs 1)" "capacity c2 = capacity c1" "down_ok h (take_out rs 1) 1 \<longrightarrow> is_heap h rs2"
    by auto
  have sz: "hsize c = length rs" using rep(1) by (auto simp: lfu_rep_def)
  have "lfu_at c 1 = Some (rs ! 0)" "lfu_at c (hsize c) = Some (last rs)"
    using lfu_at_rep [OF rep(1)] len d(2) sz by (simp_all add: last_conv_nth)
  then have "lfu_evict h c = Some (rs ! 0, c2)" using 1(1) 2(1) sz d(2) by (simp add: lfu_evict_def)
  moreover have "set rs2 = set (take_out rs 1)" "distinct rs2" "length rs2 = length rs - 1"
    using 2(3) s(2) mset_eq_setD mset_eq_imp_distinct_iff mset_eq_length by (blast, blast, fastforce)
  moreover have "is_heap h rs \<longrightarrow> is_heap h rs2" using 2(5) take_out_root_ok by blast
  ultimately show ?thesis using 2(2,4) 1(3) s(1) heap_root_least [of h rs] by auto
qed

lemma lfu_add_correct:
  assumes rep: "lfu_rep c rs" "\<forall>r \<in> set rs. h r \<noteq> None" and x: "h x \<noteq> None" and room: "length rs < capacity c"
  shows "\<exists>c' rs'. lfu_add h c x = Some c' \<and> lfu_rep c' rs' \<and> mset rs' = add_mset x (mset rs) \<and>
     capacity c' = capacity c \<and> (is_heap h rs \<longrightarrow> is_heap h rs')"
proof -
  obtain y rest where c: "lnodes c = Some (y # rs @ rest)" "hsize c = length rs" "length rs + length rest = capacity c"
    using rep(1) by (auto simp: lfu_rep_def)
  obtain z rest' where r: "rest = z # rest'" using room c(3) by (cases rest) auto
  define c1 where "c1 = c\<lparr>hsize := length rs + 1, lnodes := Some (y # (rs @ [x]) @ rest')\<rparr>"
  have put: "lfu_put (c\<lparr>hsize := hsize c + 1\<rparr>) (hsize c + 1) x = Some c1"
    using c r by (simp add: lfu_put_def c1_def list_update_append)
  have rep1: "lfu_rep c1 (rs @ [x])" using c r by (auto simp: lfu_rep_def c1_def)
  have "\<forall>r \<in> set (rs @ [x]). h r \<noteq> None" using rep(2) x by auto
  from heapify_up_correct [OF rep1 this, of "length rs + 1"] obtain c2 rs2 where
    2: "lfu_heapify_up h c1 (length rs + 1) = Some c2" "lfu_rep c2 rs2" "mset rs2 = mset (rs @ [x])"
      "capacity c2 = capacity c1" "up_ok h (rs @ [x]) (length rs + 1) \<longrightarrow> is_heap h rs2" by auto
  have cn: "cnt h (rs @ [x]) i = cnt h rs i" if "1 \<le> i" "i \<le> length rs" for i
    using that by (cases i) (simp_all add: cnt_def nth_append)
  have "up_ok h (rs @ [x]) (length rs + 1)" if "is_heap h rs"
    using that cn by (auto simp: up_ok_def is_heap_def le_Suc_eq)
  moreover have "lfu_add h c x = Some c2" using put 2(1) c(2) room by (simp add: lfu_add_def c1_def)
  ultimately show ?thesis using 2 by (auto simp: c1_def)
qed

lemma is_heap_upd_other:
  assumes "x \<notin> set rs"
  shows "is_heap (h(x := y)) rs = is_heap h rs"
proof -
  have "cnt (h(x := y)) rs i = cnt h rs i" if "1 \<le> i" "i \<le> length rs" for i
  proof -
    have "rs ! (i - 1) \<in> set rs" using that by (intro nth_mem) auto
    then show ?thesis using assms by (auto simp: cnt_def)
  qed
  then show ?thesis by (auto simp: is_heap_def)
qed

lemma payload_upd_other: "payload (h(x := y)) = (payload h)(x := map_option (\<lambda>n. (ekey n, evalue n)) y)"
  by (auto simp: payload_def fun_eq_iff)

text \<open>The first half of an insertion: when the heap is full, the root is evicted and freed.\<close>

definition make_room :: "eheap \<Rightarrow> LFUCache \<Rightarrow> (eheap \<times> LFUCache) option" where
  "make_room h c = (if hsize c \<ge> capacity c then do {
       (victim, c) \<leftarrow> lfu_evict h c;
       h \<leftarrow> (if victim \<noteq> NULL then free_evict_node h victim else Some h);
       Some (h, c) }
     else Some (h, c))"

lemma make_room_correct:
  assumes rep: "lfu_rep c rs" "\<forall>r \<in> set rs. h r \<noteq> None" and d: "distinct rs" "NULL \<notin> set rs" and cap: "0 < capacity c"
  shows "\<exists>h' c' keep. make_room h c = Some (h', c') \<and> lfu_rep c' keep \<and> distinct keep \<and> set keep \<subseteq> set rs \<and>
     capacity c' = capacity c \<and> length keep < capacity c \<and> (length rs < capacity c \<longrightarrow> keep = rs) \<and>
     (\<forall>r. r \<notin> set rs - set keep \<longrightarrow> h' r = h r) \<and> (\<forall>r. h r = None \<longrightarrow> h' r = None) \<and> (is_heap h rs \<longrightarrow> is_heap h' keep)"
proof (cases "hsize c \<ge> capacity c")
  case False
  then show ?thesis using rep d by (intro exI [of _ h] exI [of _ c] exI [of _ rs]) (auto simp: make_room_def lfu_rep_def)
next
  case True
  have sz: "hsize c = length rs" "length rs \<le> capacity c" using rep(1) by (auto simp: lfu_rep_def)
  then have ne: "rs \<noteq> []" using True cap by auto
  obtain c' keep where c': "lfu_evict h c = Some (rs ! 0, c')" "lfu_rep c' keep" "set keep = set rs - {rs ! 0}"
     "distinct keep" "length keep = length rs - 1" "capacity c' = capacity c" "is_heap h rs \<longrightarrow> is_heap h keep"
    using lfu_evict_correct [OF rep d(1) ne] by blast
  have v: "rs ! 0 \<in> set rs" using ne by simp
  then obtain x where x: "rs ! 0 \<noteq> NULL" "h (rs ! 0) = Some x" using d(2) rep(2) by (metis not_Some_eq)
  have "make_room h c = Some (h(rs ! 0 := None), c')" using True c'(1) x by (simp add: make_room_def free_evict_node_def)
  moreover have "is_heap h rs \<longrightarrow> is_heap (h(rs ! 0 := None)) keep" using c'(3,7) by (simp add: is_heap_upd_other)
  ultimately show ?thesis using c' v sz True cap
    by (intro exI [of _ "h(rs ! 0 := None)"] exI [of _ c'] exI [of _ keep]) auto
qed

definition new_node :: "env \<Rightarrow> string \<Rightarrow> string \<Rightarrow> int \<Rightarrow> EvictNode" where
  "new_node e k v len = \<lparr>ekey = Some k, evalue = Some v, value_len = len, eprev = NULL, enext = NULL,
      access_time = current_time_ms e 0, access_count = 1, is_frequent = 0\<rparr>"

lemma lfu_add_unfold:
  assumes "policy g = EVICT_LFU" "env_ok e"
  shows "kvs_cache_lru_add e g k v len = do {
     (h, c) \<leftarrow> make_room ((cheap g)(Ref (cnext g) \<mapsto> new_node e k v len)) (lfu g);
     c \<leftarrow> lfu_add h c (Ref (cnext g));
     Some (g\<lparr>cnext := cnext g + 1, cheap := h, lfu := c\<rparr>) }"
proof (cases "hsize (lfu g) \<ge> capacity (lfu g)")
  case True
  then show ?thesis using assms
    by (simp add: kvs_cache_lru_add_def new_node_def make_room_def policy_defs Let_def split_beta
        bind_assoc cong: if_cong)
next
  case False
  then show ?thesis using assms
    by (simp add: kvs_cache_lru_add_def new_node_def make_room_def policy_defs Let_def)
qed

text \<open>An insertion: the new node joins the nodes that stay. When the heap is full a node leaves,
  in heap order one of least count.\<close>

lemma lfu_insert_correct:
  assumes inv: "lfu_inv g rs" and ok: "env_ok e"
  defines "new \<equiv> Ref (cnext g)"
  shows "\<exists>g' keep rs'. kvs_cache_lru_add e g k v len = Some g' \<and> lfu_inv g' rs' \<and>
     keep \<subseteq> set rs \<and> set rs' = insert new keep \<and> new \<notin> set rs \<and>
     payload (cheap g') new = Some (Some k, Some v) \<and> (\<forall>r \<in> keep. cheap g' r = cheap g r) \<and>
     (is_heap (cheap g) rs \<and> counts_le (cheap g) rs n \<longrightarrow> is_heap (cheap g') rs' \<and> counts_le (cheap g') rs' (max 1 n))"
proof -
  have p: "policy g = EVICT_LFU" and rep: "lfu_rep (lfu g) rs" and d: "distinct rs" and nn: "NULL \<notin> set rs"
    and pl: "\<forall>r \<in> set rs. \<exists>k v. payload (cheap g) r = Some (Some k, Some v)"
    and cap: "0 < capacity (lfu g)" and fr: "\<forall>n. cnext g \<le> n \<longrightarrow> cheap g (Ref n) = None"
    using inv by (auto simp: lfu_inv_def)
  define nd where "nd = new_node e k v len"
  note nd = nd_def new_node_def
  define h1 where "h1 = (cheap g)(new \<mapsto> nd)"
  have nr: "new \<notin> set rs" using fr lfu_inv_live [OF inv] by (auto simp: new_def)
  have live1: "\<forall>r \<in> set rs. h1 r \<noteq> None" using lfu_inv_live [OF inv] by (auto simp: h1_def)
  obtain h2 c2 keep where 2: "make_room h1 (lfu g) = Some (h2, c2)" "lfu_rep c2 keep" "distinct keep"
     "set keep \<subseteq> set rs" "capacity c2 = capacity (lfu g)" "length keep < capacity (lfu g)"
     "\<forall>r. r \<notin> set rs - set keep \<longrightarrow> h2 r = h1 r" "\<forall>r. h1 r = None \<longrightarrow> h2 r = None" "is_heap h1 rs \<longrightarrow> is_heap h2 keep"
    using make_room_correct [OF rep live1 d nn cap] by blast
  have new2: "h2 new = Some nd" using 2(7) nr by (simp add: h1_def)
  have keep2: "\<forall>r \<in> set keep. h2 r = cheap g r" using 2(4,7) nr by (auto simp: h1_def)
  have "\<forall>r \<in> set keep. h2 r \<noteq> None" using keep2 lfu_inv_live [OF inv] 2(4) by auto
  from lfu_add_correct [OF 2(2) this, of new] obtain c3 rs3 where
    3: "lfu_add h2 c2 new = Some c3" "lfu_rep c3 rs3" "mset rs3 = add_mset new (mset keep)" "capacity c3 = capacity c2"
      "is_heap h2 keep \<longrightarrow> is_heap h2 rs3"
    using new2 2(5,6) by auto
  have m3: "mset rs3 = mset (new # keep)" using 3(3) by simp
  have "new \<notin> set keep" using nr 2(4) by blast
  then have s3: "set rs3 = insert new (set keep)" "distinct rs3"
    using mset_eq_setD [OF m3] mset_eq_imp_distinct_iff [OF m3] 2(3) by simp_all
  let ?g = "g\<lparr>cnext := cnext g + 1, cheap := h2, lfu := c3\<rparr>"
  have "kvs_cache_lru_add e g k v len = Some ?g"
    using lfu_add_unfold [OF p ok, of k v len] 2(1) 3(1)
    by (simp add: new_def [symmetric] nd_def [symmetric] h1_def [symmetric])
  moreover have "lfu_inv ?g rs3"
  proof -
    have "\<exists>k v. payload h2 r = Some (Some k, Some v)" if "r \<in> set rs3" for r
      using that s3(1) new2 keep2 pl 2(4) by (auto simp: payload_def nd)
    moreover have "h2 (Ref m) = None" if "Suc (cnext g) \<le> m" for m
      using that fr 2(8) by (simp add: h1_def new_def)
    ultimately show ?thesis using inv 3(2,4) 2(5) s3 nn 2(4) by (auto simp: lfu_inv_def new_def)
  qed
  moreover have "is_heap h2 rs3 \<and> counts_le h2 rs3 (max 1 n)" if "is_heap (cheap g) rs" "counts_le (cheap g) rs n"
  proof
    show "is_heap h2 rs3" using 3(5) 2(9) is_heap_upd_other [OF nr] that(1) by (simp add: h1_def)
    show "counts_le h2 rs3 (max 1 n)"
      using that(2) s3(1) new2 keep2 2(4) by (fastforce simp: counts_le_def nd)
  qed
  ultimately show ?thesis using 2(4) s3(1) nr new2 keep2
    by (intro exI [of _ ?g] exI [of _ "set keep"] exI [of _ rs3]) (simp add: payload_def nd)
qed

lemma lfu_del_correct:
  assumes inv: "lfu_inv g rs"
  shows "\<exists>r g' rs'. kvs_cache_del g (Some k) = Some (r, g') \<and> lfu_inv g' rs' \<and>
     (\<forall>x \<in> set rs'. cheap g' x = cheap g x) \<and>
     ((\<forall>x \<in> set rs. fst (kv (cheap g) x) \<noteq> k) \<and> set rs' = set rs \<or>
      (\<exists>x \<in> set rs. fst (kv (cheap g) x) = k \<and> set rs' = set rs - {x}))"
proof -
  have p: "policy g = EVICT_LFU" "0 < max_items g" and rep: "lfu_rep (lfu g) rs" and d: "distinct rs"
    using inv by (auto simp: lfu_inv_def)
  obtain j where j: "lfu_scan (cheap g) (lfu g) k 1 = Some j"
    "j = 0 \<and> (\<forall>m. 1 \<le> m \<and> m \<le> length rs \<longrightarrow> fst (kv (cheap g) (rs ! (m - 1))) \<noteq> k) \<or>
     1 \<le> j \<and> j \<le> length rs \<and> fst (kv (cheap g) (rs ! (j - 1))) = k"
    using scan_correct [OF inv, of 1 k] by auto
  show ?thesis
  proof (cases "j = 0")
    case True
    have "kvs_cache_del g (Some k) = Some (-2, g)" using p j(1) True by (simp add: kvs_cache_del_def policy_defs)
    then show ?thesis using inv scan_none [of rs "cheap g" k] j(2) True by (intro exI [of _ "-2"] exI [of _ g] exI [of _ rs]) auto
  next
    case False
    then have jj: "1 \<le> j" "j \<le> length rs" "fst (kv (cheap g) (rs ! (j - 1))) = k" using j(2) by auto
    let ?r = "rs ! (j - 1)"
    have r: "?r \<in> set rs" using jj by (intro nth_mem) auto
    then obtain x where x: "cheap g ?r = Some x" using lfu_inv_live [OF inv] by auto
    obtain c1 where 1: "lfu_put (lfu g) j (last rs) = Some c1" "lfu_rep (c1\<lparr>hsize := hsize c1 - 1\<rparr>) (take_out rs j)"
      "capacity c1 = capacity (lfu g)"
      using take_out_rep [OF rep jj(1,2)] by blast
    have s: "set (take_out rs j) = set rs - {?r}" "distinct (take_out rs j)"
      using set_take_out [OF d jj(1,2)] by simp_all
    then have "\<forall>r \<in> set (take_out rs j). cheap g r \<noteq> None" using lfu_inv_live [OF inv] by auto
    from heapify_down_correct [OF 1(2) this jj(1)] obtain c2 rs2 where
      2: "lfu_heapify_down (cheap g) (c1\<lparr>hsize := hsize c1 - 1\<rparr>) j = Some c2" "lfu_rep c2 rs2"
        "mset rs2 = mset (take_out rs j)" "capacity c2 = capacity c1" by auto
    have s2: "set rs2 = set rs - {?r}" "distinct rs2"
      using 2(3) s mset_eq_setD mset_eq_imp_distinct_iff by (metis, metis)
    let ?g = "g\<lparr>cheap := (cheap g)(?r := None), lfu := c2\<rparr>"
    have "rs \<noteq> []" using r by auto
    then have "lfu_at (lfu g) (hsize (lfu g)) = Some (last rs)"
      using lfu_at_rep [OF rep, of "length rs"] rep by (cases rs) (auto simp: lfu_rep_def last_conv_nth)
    then have "kvs_cache_del g (Some k) = Some (0, ?g)"
      using p j(1) False lfu_at_rep [OF rep jj(1,2)] 1(1) 2(1) x
      by (simp add: kvs_cache_del_def policy_defs free_evict_node_def)
    moreover have "lfu_inv ?g rs2" using inv 2(2,4) 1(3) s2 by (auto simp: lfu_inv_def payload_upd_other)
    ultimately show ?thesis using s2 r jj(3)
      by (intro exI [of _ 0] exI [of _ ?g] exI [of _ rs2]) auto
  qed
qed

section \<open>The contract of a cache\<close>

text \<open>The map a set of nodes denotes: keys are unique, and the graph is their payloads.\<close>

definition denotes :: "eheap \<Rightarrow> ref set \<Rightarrow> (string \<rightharpoonup> string) \<Rightarrow> bool" where
  "denotes h S m \<longleftrightarrow> inj_on (\<lambda>r. fst (kv h r)) S \<and> (\<forall>k v. m k = Some v \<longleftrightarrow> (k, v) \<in> kv h ` S)"

definition keys_of :: "eheap \<Rightarrow> ref set \<Rightarrow> string set" where
  "keys_of h S = (\<lambda>r. fst (kv h r)) ` S"

definition lfu_view :: "CacheManager \<Rightarrow> (string \<rightharpoonup> string) \<Rightarrow> bool" where
  "lfu_view g m \<longleftrightarrow> (\<exists>rs. lfu_inv g rs \<and> denotes (cheap g) (set rs) m)"

lemma kv_cong: "payload h' r = payload h r \<Longrightarrow> kv h' r = kv h r"
  by (simp add: kv_def)

lemma denotes_cong:
  assumes "denotes h S m" "\<And>r. r \<in> S \<Longrightarrow> kv h' r = kv h r"
  shows "denotes h' S m"
proof -
  have "kv h' ` S = kv h ` S" using assms(2) by (rule image_cong [OF refl])
  moreover have "inj_on (\<lambda>r. fst (kv h' r)) S" using assms by (auto simp: denotes_def inj_on_def)
  ultimately show ?thesis using assms(1) by (simp add: denotes_def)
qed

lemma denotes_None: "denotes h S m \<Longrightarrow> m k = None \<longleftrightarrow> (\<forall>r \<in> S. fst (kv h r) \<noteq> k)"
  unfolding denotes_def by (metis fst_conv image_iff not_None_eq surjective_pairing)

lemma denotes_subset:
  assumes "denotes h S m" "T \<subseteq> S"
  shows "denotes h T (m |` keys_of h T)"
proof -
  have inj: "inj_on (\<lambda>r. fst (kv h r)) S" and gr: "\<And>k v. m k = Some v \<longleftrightarrow> (k, v) \<in> kv h ` S"
    using assms(1) by (auto simp: denotes_def)
  have "((m |` keys_of h T) k = Some v) = ((k, v) \<in> kv h ` T)" for k v
  proof
    assume "(m |` keys_of h T) k = Some v"
    then obtain r where r: "r \<in> T" "k = fst (kv h r)" "m k = Some v" by (auto simp: keys_of_def restrict_map_def split: if_splits)
    then obtain r' where "r' \<in> S" "(k, v) = kv h r'" using gr by auto
    moreover from this r have "r' = r" using inj assms(2) by (metis fst_conv inj_onD subsetD)
    ultimately show "(k, v) \<in> kv h ` T" using r(1) by auto
  next
    assume "(k, v) \<in> kv h ` T"
    then obtain r where r: "r \<in> T" "kv h r = (k, v)" by auto
    then have "k \<in> keys_of h T" unfolding keys_of_def by (metis fst_conv image_eqI)
    moreover have "m k = Some v" using gr [of k v] r assms(2) by (metis image_eqI subsetD)
    ultimately show "(m |` keys_of h T) k = Some v" by simp
  qed
  then show ?thesis using inj assms(2) unfolding denotes_def by (blast intro: inj_on_subset)
qed

lemma denotes_insert:
  assumes "denotes h S m" "m k = None" "kv h r = (k, v)" "r \<notin> S"
  shows "denotes h (insert r S) (m(k \<mapsto> v))"
proof -
  have nk: "\<forall>r \<in> S. fst (kv h r) \<noteq> k" using denotes_None [OF assms(1)] assms(2) by blast
  then have "inj_on (\<lambda>r. fst (kv h r)) (insert r S)"
    using assms by (auto simp: denotes_def inj_on_insert)
  moreover have "((m(k \<mapsto> v)) q = Some w) = ((q, w) \<in> kv h ` insert r S)" for q w
    using assms(1,3) nk by (cases "q = k") (auto simp: denotes_def, metis fst_conv)
  ultimately show ?thesis by (simp add: denotes_def)
qed

lemma restrict_le: "m |` A \<subseteq>\<^sub>m m"
  by (auto simp: map_le_def restrict_map_def split: if_splits)

lemma lfu_get_view:
  assumes "lfu_view g m"
  shows "\<exists>g'. kvs_cache_get e g (Some k) = Some (m k, g') \<and> lfu_view g' m"
proof -
  obtain rs where rs: "lfu_inv g rs" "denotes (cheap g) (set rs) m" using assms by (auto simp: lfu_view_def)
  obtain r g' rs' where 1: "kvs_cache_get e g (Some k) = Some (r, g')" "lfu_inv g' rs'" "mset rs' = mset rs"
     "payload (cheap g') = payload (cheap g)"
     "case r of None \<Rightarrow> \<forall>x \<in> set rs. fst (kv (cheap g) x) \<noteq> k | Some v \<Rightarrow> (k, v) \<in> kv (cheap g) ` set rs"
    using lfu_get_correct [OF rs(1), of e k] by blast
  have "r = m k"
  proof (cases r)
    case None
    then show ?thesis using 1(5) denotes_None [OF rs(2), of k] by simp
  next
    case (Some v)
    then have "(k, v) \<in> kv (cheap g) ` set rs" using 1(5) by simp
    then have "m k = Some v" using rs(2) unfolding denotes_def by blast
    then show ?thesis using Some by simp
  qed
  moreover have "denotes (cheap g') (set rs') m"
    unfolding mset_eq_setD [OF 1(3)] by (rule denotes_cong [OF rs(2)], rule kv_cong) (simp only: 1(4))
  ultimately show ?thesis using 1(1,2) by (auto simp: lfu_view_def)
qed

lemma lfu_add_view:
  assumes "lfu_view g m" "env_ok e" "m k = None"
  shows "\<exists>g' m'. cache_add e g k v = Some g' \<and> lfu_view g' m' \<and> m' \<subseteq>\<^sub>m m(k \<mapsto> v)"
proof -
  obtain rs where rs: "lfu_inv g rs" "denotes (cheap g) (set rs) m" using assms(1) by (auto simp: lfu_view_def)
  obtain g' keep rs' where 1: "kvs_cache_lru_add e g k v (int (length v) + 1) = Some g'" "lfu_inv g' rs'"
     "keep \<subseteq> set rs" "set rs' = insert (Ref (cnext g)) keep" "Ref (cnext g) \<notin> set rs"
     "payload (cheap g') (Ref (cnext g)) = Some (Some k, Some v)" "\<forall>r \<in> keep. cheap g' r = cheap g r"
    using lfu_insert_correct [OF rs(1) assms(2), of k v "int (length v) + 1"] by blast
  let ?m = "m |` keys_of (cheap g) keep"
  have "denotes (cheap g') keep ?m"
    using denotes_cong [OF denotes_subset [OF rs(2) 1(3)]] 1(7) by (simp add: kv_def payload_def)
  then have "denotes (cheap g') (set rs') (?m(k \<mapsto> v))"
    using denotes_insert [of "cheap g'" keep ?m k "Ref (cnext g)" v] 1(3-6) assms(3)
    by (auto simp: kv_payload restrict_map_def cong del: if_weak_cong)
  moreover have "?m(k \<mapsto> v) \<subseteq>\<^sub>m m(k \<mapsto> v)" using restrict_le by (rule map_le_upd)
  ultimately show ?thesis using 1(1,2) unfolding lfu_view_def cache_add_def by blast
qed

lemma lfu_del_view:
  assumes "lfu_view g m"
  shows "\<exists>r g'. kvs_cache_del g (Some k) = Some (r, g') \<and> lfu_view g' (m(k := None))"
proof -
  obtain rs where rs: "lfu_inv g rs" "denotes (cheap g) (set rs) m" using assms by (auto simp: lfu_view_def)
  obtain r g' rs' where 1: "kvs_cache_del g (Some k) = Some (r, g')" "lfu_inv g' rs'"
     "\<forall>x \<in> set rs'. cheap g' x = cheap g x"
     "(\<forall>x \<in> set rs. fst (kv (cheap g) x) \<noteq> k) \<and> set rs' = set rs \<or>
      (\<exists>x \<in> set rs. fst (kv (cheap g) x) = k \<and> set rs' = set rs - {x})"
    using lfu_del_correct [OF rs(1), of k] by blast
  have sub: "set rs' \<subseteq> set rs" using 1(4) by blast
  have "denotes (cheap g) (set rs') (m(k := None))"
    using 1(4)
  proof (elim disjE bexE conjE)
    assume "\<forall>x \<in> set rs. fst (kv (cheap g) x) \<noteq> k" "set rs' = set rs"
    then show ?thesis using denotes_None [OF rs(2), of k] rs(2) by (simp add: fun_upd_idem)
  next
    fix x assume x: "x \<in> set rs" "fst (kv (cheap g) x) = k" "set rs' = set rs - {x}"
    have "m |` keys_of (cheap g) (set rs - {x}) = m(k := None)"
    proof
      fix q
      have "q \<in> keys_of (cheap g) (set rs - {x}) \<longleftrightarrow> q \<noteq> k \<and> (\<exists>r \<in> set rs. fst (kv (cheap g) r) = q)"
        using rs(2) x by (auto simp: denotes_def inj_on_def keys_of_def)
      then show "(m |` keys_of (cheap g) (set rs - {x})) q = (m(k := None)) q"
        using denotes_None [OF rs(2), of q] by (auto simp: restrict_map_def)
    qed
    then show ?thesis using denotes_subset [OF rs(2) sub] x(3) by simp
  qed
  then have "denotes (cheap g') (set rs') (m(k := None))"
    by (rule denotes_cong) (use 1(3) in \<open>simp add: kv_def payload_def\<close>)
  then show ?thesis using 1(1,2) by (auto simp: lfu_view_def)
qed

interpretation lfc: lookup_cache lfu_view kvs_cache_get cache_add kvs_cache_del
  by unfold_locales (rule lfu_get_view lfu_add_view lfu_del_view; assumption)+

section \<open>Properties\<close>

text \<open>A heap whose counts are at most \<open>n\<close>: what lookups and insertions keep.\<close>

definition lfu_ok :: "CacheManager \<Rightarrow> nat \<Rightarrow> bool" where
  "lfu_ok g n \<longleftrightarrow> (\<exists>rs. lfu_inv g rs \<and> is_heap (cheap g) rs \<and> counts_le (cheap g) rs n)"

lemma lfu_ok_step:
  assumes "lfu_ok g n" "env_ok e" "\<forall>k. c \<noteq> CDel k" "n < 2 ^ 64 - 1"
  shows "\<exists>r g'. cache_step e g c = Some (r, g') \<and> lfu_ok g' (Suc n)"
proof -
  obtain rs where rs: "lfu_inv g rs" "is_heap (cheap g) rs" "counts_le (cheap g) rs n"
    using assms(1) by (auto simp: lfu_ok_def)
  show ?thesis
  proof (cases c)
    case (CGet k)
    then show ?thesis using lfu_get_correct [OF rs(1), of e k n] rs(2,3) assms(4) by (auto simp: lfu_ok_def)
  next
    case (CAdd k v)
    obtain g' rs' where g': "kvs_cache_lru_add e g k v (int (length v) + 1) = Some g'" "lfu_inv g' rs'"
      "is_heap (cheap g') rs'" "counts_le (cheap g') rs' (max 1 n)"
      using lfu_insert_correct [OF rs(1) assms(2), of k v "int (length v) + 1" n] rs(2,3) by blast
    have "max 1 n \<le> Suc n" by simp
    then have "counts_le (cheap g') rs' (Suc n)" using g'(4) unfolding counts_le_def by (meson order_trans)
    then show ?thesis using CAdd g' by (auto simp: lfu_ok_def)
  qed (use assms(3) in simp)
qed

lemma lfu_ok_run:
  assumes "lfu_ok g n" "\<forall>(e, c) \<in> set ecs. env_ok e \<and> (\<forall>k. c \<noteq> CDel k)" "n + length ecs < 2 ^ 64"
  shows "\<exists>rs g'. cache_run g ecs = Some (rs, g') \<and> lfu_ok g' (n + length ecs)"
  using assms
proof (induction ecs arbitrary: g n)
  case (Cons ec ecs)
  obtain e c where ec: "ec = (e, c)" by (cases ec)
  obtain r g1 where 1: "cache_step e g c = Some (r, g1)" "lfu_ok g1 (Suc n)"
    using lfu_ok_step [of g n e c] Cons.prems ec by auto
  obtain rs g2 where "cache_run g1 ecs = Some (rs, g2)" "lfu_ok g2 (Suc n + length ecs)"
    using Cons.IH [OF 1(2)] Cons.prems by auto
  then show ?case using 1 ec by auto
qed simp

lemma lfu_start_ok:
  assumes "env_ok e" "kvs_cache_init e n = Some g"
  shows "lfu_ok (kvs_cache_set_policy g EVICT_LFU) 0"
proof -
  have "lfu_rep (lfu_init e (nat mx)) []" for mx
    using assms(1) by (auto simp: lfu_rep_def lfu_init_def)
  then have "lfu_inv (kvs_cache_set_policy g EVICT_LFU) []"
    using assms by (auto simp: kvs_cache_init_def kvs_cache_set_policy_def lfu_inv_def lfu_init_def
        arc_init_def DEFAULT_MAX_ITEMS_def Let_def)
  then show ?thesis by (auto simp: lfu_ok_def is_heap_def counts_le_def)
qed

text \<open>C18: Under the LFU policy, after fewer than 2^64 lookups and insertions, the eviction takes a
  node whose access count is least among all cached nodes; every call before it returns.\<close>

theorem lfu_evicts_least:
  assumes "env_ok e0" and "kvs_cache_init e0 n = Some g0"
    and "\<forall>(e, c) \<in> set ecs. env_ok e \<and> (\<forall>k. c \<noteq> CDel k)" and "length ecs < 2 ^ 64"
  shows "\<exists>rs g. cache_run (kvs_cache_set_policy g0 EVICT_LFU) ecs = Some (rs, g) \<and>
     (0 < hsize (lfu g) \<longrightarrow> (\<exists>victim c x. lfu_evict (cheap g) (lfu g) = Some (victim, c) \<and>
        cheap g victim = Some x \<and> (\<forall>i. 1 \<le> i \<and> i \<le> hsize (lfu g) \<longrightarrow>
          (\<exists>m. count_at (cheap g) (lfu g) i = Some m \<and> access_count x \<le> m))))"
proof -
  obtain rs g where g: "cache_run (kvs_cache_set_policy g0 EVICT_LFU) ecs = Some (rs, g)" "lfu_ok g (length ecs)"
    using lfu_ok_run [OF lfu_start_ok [OF assms(1,2)] assms(3)] assms(4) by auto
  obtain ns where ns: "lfu_inv g ns" "is_heap (cheap g) ns" using g(2) by (auto simp: lfu_ok_def)
  have rep: "lfu_rep (lfu g) ns" "distinct ns" and sz: "hsize (lfu g) = length ns"
    using ns(1) by (auto simp: lfu_inv_def lfu_rep_def)
  note live = lfu_inv_live [OF ns(1)]
  have "\<exists>victim c x. lfu_evict (cheap g) (lfu g) = Some (victim, c) \<and> cheap g victim = Some x \<and>
     (\<forall>i. 1 \<le> i \<and> i \<le> hsize (lfu g) \<longrightarrow> (\<exists>m. count_at (cheap g) (lfu g) i = Some m \<and> access_count x \<le> m))"
    if "0 < hsize (lfu g)"
  proof -
    have ne: "ns \<noteq> []" using that sz by auto
    then obtain x where x: "cheap g (ns ! 0) = Some x" using live by fastforce
    obtain c where "lfu_evict (cheap g) (lfu g) = Some (ns ! 0, c)"
      and least: "\<forall>i. 1 \<le> i \<and> i \<le> length ns \<longrightarrow> cnt (cheap g) ns 1 \<le> cnt (cheap g) ns i"
      using lfu_evict_correct [OF rep(1) live rep(2) ne] ns(2) by blast
    moreover have "cnt (cheap g) ns 1 = access_count x" using x by (simp add: cnt_def)
    ultimately show ?thesis using x count_at_rep [OF rep(1) live] sz by auto
  qed
  with g(1) show ?thesis by (intro exI [of _ rs] exI [of _ g] conjI impI)
qed

theorem lfu_evicts_least_witness:
  "\<exists>g0 rs g. kvs_cache_init env0 2 = Some g0 \<and>
     cache_run (kvs_cache_set_policy g0 EVICT_LFU) [(env0, CAdd ''a'' ''1''), (env0, CAdd ''b'' ''2''), (env0, CGet ''a'')] = Some (rs, g) \<and>
     (0 < hsize (lfu g) \<longrightarrow> (\<exists>victim c x. lfu_evict (cheap g) (lfu g) = Some (victim, c) \<and>
        cheap g victim = Some x \<and> (\<forall>i. 1 \<le> i \<and> i \<le> hsize (lfu g) \<longrightarrow>
          (\<exists>m. count_at (cheap g) (lfu g) i = Some m \<and> access_count x \<le> m))))"
proof -
  obtain g0 where "kvs_cache_init env0 2 = Some g0" using lru_init_inv [OF env0_ok, of 2] by blast
  with lfu_evicts_least [OF env0_ok this, of "[(env0, CAdd ''a'' ''1''), (env0, CAdd ''b'' ''2''), (env0, CGet ''a'')]"]
  show ?thesis by simp
qed

text \<open>A heap of six nodes with the counts 1, 3, 1, 3, 3, 2.\<close>

definition heap_node :: "nat \<Rightarrow> string \<Rightarrow> 64 word \<Rightarrow> ref \<times> EvictNode" where
  "heap_node a k n = (Ref a, \<lparr>ekey = Some k, evalue = Some ''v'', value_len = 2, eprev = NULL, enext = NULL,
     access_time = 0, access_count = n, is_frequent = 0\<rparr>)"

definition six_nodes :: "(ref \<times> EvictNode) list" where
  "six_nodes = [heap_node 0 ''a'' 1, heap_node 1 ''b'' 3, heap_node 2 ''c'' 1, heap_node 3 ''d'' 3,
     heap_node 4 ''e'' 3, heap_node 5 ''f'' 2]"

definition six_cache :: CacheManager where
  "six_cache = \<lparr>policy = EVICT_LFU, max_items = 6, lru = lru_init 6,
     lfu = \<lparr>lnodes = Some (NULL # map fst six_nodes), hsize = 6, capacity = 6\<rparr>,
     arc = \<lparr>t1 = lru_init 6, t2 = lru_init 6, b1 = lru_init 6, b2 = lru_init 6, target_size = 3, amax_size = 6\<rparr>,
     total_access = 0, cache_hit = 0, cache_miss = 0, eviction_count = 0, policy_changes = 1,
     cheap = map_of six_nodes, cnext = 6\<rparr>"

text \<open>C19: The deletion of a key from the LFU heap moves the last node into the hole and sifts it down
  only. From a state that satisfies the invariant and the heap order, it can leave a node above
  a node with a smaller count, so that the order on which eviction relies is lost.\<close>

theorem lfu_del_loses_order:
  "\<exists>g rs g' rs'. lfu_inv g rs \<and> is_heap (cheap g) rs \<and> kvs_cache_del g (Some ''d'') = Some (0, g') \<and>
     lfu_inv g' rs' \<and> \<not> is_heap (cheap g') rs'"
proof -
  let ?rs = "map fst six_nodes"
  have "lfu_rep (lfu six_cache) ?rs" unfolding lfu_rep_def
    by (intro exI [of _ NULL] exI [of _ "[]"]) (simp add: six_cache_def six_nodes_def)
  then have inv: "lfu_inv six_cache ?rs"
    by (simp add: lfu_inv_def six_cache_def six_nodes_def heap_node_def payload_def)
  have "cnt (cheap six_cache) ?rs (i div 2) \<le> cnt (cheap six_cache) ?rs i" if "2 \<le> i" "i \<le> length ?rs" for i
  proof -
    have "i = 2 \<or> i = 3 \<or> i = 4 \<or> i = 5 \<or> i = 6" using that by (auto simp: six_nodes_def)
    then show ?thesis by (auto simp: cnt_def six_cache_def six_nodes_def heap_node_def)
  qed
  then have hp: "is_heap (cheap six_cache) ?rs" by (simp add: is_heap_def)
  define c where "c = \<lparr>lnodes = Some [NULL, Ref 0, Ref 1, Ref 2, Ref 5, Ref 4, Ref 5], hsize = 5, capacity = 6\<rparr>"
  have "lfu_heapify_down (cheap six_cache) c (Suc (Suc (Suc (Suc 0)))) = Some c"
    by (subst lfu_heapify_down.simps) (simp add: smaller_of_def c_def)
  then have del: "kvs_cache_del six_cache (Some ''d'') = Some (0, six_cache\<lparr>cheap := (cheap six_cache)(Ref 3 := None), lfu := c\<rparr>)"
    by (simp add: kvs_cache_del_def six_cache_def six_nodes_def heap_node_def policy_defs lfu_scan.simps lfu_at_def
        has_key_def lfu_put_def c_def free_evict_node_def)
  let ?g = "six_cache\<lparr>cheap := (cheap six_cache)(Ref 3 := None), lfu := c\<rparr>"
  let ?rs' = "[Ref 0, Ref 1, Ref 2, Ref 5, Ref 4]"
  have "lfu_rep c ?rs'" unfolding lfu_rep_def by (intro exI [of _ NULL] exI [of _ "[Ref 5]"]) (simp add: c_def)
  then have "lfu_inv ?g ?rs'"
    by (simp add: lfu_inv_def six_cache_def six_nodes_def heap_node_def payload_def c_def)
  moreover have "\<not> cnt (cheap ?g) ?rs' (4 div 2) \<le> cnt (cheap ?g) ?rs' 4"
    by (simp add: cnt_def six_cache_def six_nodes_def heap_node_def)
  then have "\<not> is_heap (cheap ?g) ?rs'" unfolding is_heap_def by (intro notI, elim allE [of _ 4]) simp
  ultimately show ?thesis using inv hp del by blast
qed

end
