(* ===== verification/Cache_ARC.thy ===== *)
theory Cache_ARC
  imports Cache_LRU
begin

text \<open>
  The ARC policy: two lists of cached nodes and two of ghosts. \<open>lists_rep\<close> says that the four
  lists of the cache are the four sequences \<open>X\<close> of nodes, with no node in two of them; taking a
  node out of a list and putting one in front of a list are the operations on \<open>X\<close>. A hit on a
  ghost moves a node without a value to the second list, and the insertion that follows makes
  a second node for the key; the invariant \<open>firsts\<close> says that a node with a value is always the
  first of its key, which is why lookups and deletions are right nevertheless.
\<close>

section \<open>The four lists\<close>

datatype which = LT1 | LT2 | LB1 | LB2

fun lst :: "ARCCache \<Rightarrow> which \<Rightarrow> LRUCache" where
  "lst A LT1 = t1 A" | "lst A LT2 = t2 A" | "lst A LB1 = b1 A" | "lst A LB2 = b2 A"

fun put :: "ARCCache \<Rightarrow> which \<Rightarrow> LRUCache \<Rightarrow> ARCCache" where
  "put A LT1 c = A\<lparr>t1 := c\<rparr>" | "put A LT2 c = A\<lparr>t2 := c\<rparr>" | "put A LB1 c = A\<lparr>b1 := c\<rparr>" | "put A LB2 c = A\<lparr>b2 := c\<rparr>"

lemma lst_put: "lst (put A w c) w' = (if w' = w then c else lst A w')"
  by (cases w; cases w') auto

lemma put_sizes [simp]: "target_size (put A w c) = target_size A" "amax_size (put A w c) = amax_size A"
  by (cases w; simp)+

lemma lst_target [simp]: "lst (A\<lparr>target_size := t\<rparr>) w = lst A w"
  by (cases w) auto

lemma all_which: "(\<forall>w. P w) \<longleftrightarrow> P LT1 \<and> P LT2 \<and> P LB1 \<and> P LB2"
  by (metis which.exhaust)

definition lists_rep :: "eheap \<Rightarrow> ARCCache \<Rightarrow> (which \<Rightarrow> ref list) \<Rightarrow> bool" where
  "lists_rep h A X \<longleftrightarrow> (\<forall>w. lru_rep h (lst A w) (X w)) \<and> (\<forall>w w'. w \<noteq> w' \<longrightarrow> set (X w) \<inter> set (X w') = {})"

lemma lists_repD:
  "lists_rep h A X \<Longrightarrow> lru_rep h (lst A w) (X w)"
  "lists_rep h A X \<Longrightarrow> w \<noteq> w' \<Longrightarrow> set (X w) \<inter> set (X w') = {}"
  by (simp_all add: lists_rep_def)

abbreviation nodes_of :: "(which \<Rightarrow> ref list) \<Rightarrow> ref set" where
  "nodes_of X \<equiv> (\<Union>w. set (X w))"

lemma node_functions: "lru_remove_node = lru_remove" "lru_add_node_front = lru_add_front"
  by (intro ext; simp add: lru_remove_node_def lru_remove_def lru_add_node_front_def lru_add_front_def)+

lemma lru_rep_relinks: "relinks S h h' \<Longrightarrow> S \<inter> set xs = {} \<Longrightarrow> lru_rep h' c xs = lru_rep h c xs"
  by (simp add: lru_rep_def relinks_seg)

lemma take_out:
  assumes "lists_rep h A X" "X w = xs @ x # ys"
  shows "\<exists>h' c. lru_remove_node h (lst A w) x = Some (h', c) \<and> lists_rep h' (put A w c) (X(w := xs @ ys)) \<and>
    h' x = h x \<and> payload h' = payload h \<and> x \<noteq> NULL \<and> x \<notin> nodes_of (X(w := xs @ ys))"
proof -
  have r: "lru_rep h (lst A w) (xs @ x # ys)" using assms by (metis lists_rep_def)
  obtain h' c where c: "lru_remove h (lst A w) x = Some (h', c)" "lru_rep h' c (xs @ ys)" "h' x = h x"
      "relinks (set xs \<union> set ys) h h'"
    using lru_remove_rep [OF r] by blast
  have d: "set (X w) \<inter> set (X v) = {}" if "v \<noteq> w" for v using assms(1) that by (metis lists_rep_def)
  have "lru_rep h' (lst A v) (X v)" if "v \<noteq> w" for v
    using lru_rep_relinks [OF c(4), of "X v"] d [OF that] assms by (auto simp: lists_rep_def)
  then have "lists_rep h' (put A w c) (X(w := xs @ ys))"
    using c(2) assms d by (auto simp: lists_rep_def lst_put)
  moreover have "x \<noteq> NULL" "x \<notin> set (xs @ ys)" using r seg_null [of h NULL "xs @ x # ys" NULL] by (auto simp: lru_rep_def)
  moreover have "x \<notin> set (X v)" if "v \<noteq> w" for v using d [OF that] assms(2) by auto
  ultimately show ?thesis using c by (auto simp: node_functions relinks_def)
qed

lemma put_in:
  assumes "lists_rep h A X" "x \<notin> nodes_of X" "h x = Some e" "x \<noteq> NULL"
  shows "\<exists>h' c. lru_add_node_front h (lst A w) x = Some (h', c) \<and> lists_rep h' (put A w c) (X(w := x # X w)) \<and>
    payload h' = payload h"
proof -
  have r: "lru_rep h (lst A w) (X w)" using assms(1) by (metis lists_rep_def)
  obtain h' c where c: "lru_add_front h (lst A w) x = Some (h', c)" "lru_rep h' c (x # X w)"
      "relinks (insert x (set (X w))) h h'"
    using lru_add_front_rep [OF r assms(3, 4)] assms(2) by auto
  have d: "set (X w) \<inter> set (X v) = {}" if "v \<noteq> w" for v using assms(1) that by (metis lists_rep_def)
  have "lru_rep h' (lst A v) (X v)" if "v \<noteq> w" for v
    using lru_rep_relinks [OF c(3), of "X v"] d [OF that] assms(1, 2) by (auto simp: lists_rep_def)
  then have "lists_rep h' (put A w c) (X(w := x # X w))"
    using c(2) assms(1, 2) d by (auto simp: lists_rep_def lst_put)
  then show ?thesis using c by (auto simp: node_functions relinks_def)
qed

lemma lists_rep_upd_other: "x \<notin> nodes_of X \<Longrightarrow> lists_rep (h(x := y)) A X = lists_rep h A X"
  by (auto simp: lists_rep_def lru_rep_upd_other)

text \<open>Marking a node as frequent changes neither links nor records.\<close>

lemma seg_links:
  "h x = Some e \<Longrightarrow> eprev e' = eprev e \<Longrightarrow> enext e' = enext e \<Longrightarrow> seg (h(x \<mapsto> e')) p xs n = seg h p xs n"
  by (induction xs arbitrary: p) auto

lemma mark_step:
  assumes "lists_rep h A X" "h x = Some e"
  shows "\<exists>h'. mark_frequent h x = Some h' \<and> lists_rep h' A X \<and> payload h' = payload h"
  using assms seg_links [of h x e "e\<lparr>is_frequent := 1\<rparr>"]
  by (auto simp: mark_frequent_def lists_rep_def lru_rep_def payload_upd)

text \<open>Moving a node from one list to the front of another.\<close>

lemma move_node:
  assumes "lists_rep h A X" "X w = xs @ x # ys"
  defines "X' \<equiv> X(w := xs @ ys)"
  shows "\<exists>h1 c1 h2 c2. lru_remove_node h (lst A w) x = Some (h1, c1) \<and>
    lru_add_node_front h1 (lst (put A w c1) v) x = Some (h2, c2) \<and>
    lists_rep h2 (put (put A w c1) v c2) (X'(v := x # X' v)) \<and> payload h2 = payload h \<and> (\<exists>e. h2 x = Some e)"
proof -
  obtain h1 c1 where 1: "lru_remove_node h (lst A w) x = Some (h1, c1)" "lists_rep h1 (put A w c1) X'"
      "h1 x = h x" "payload h1 = payload h" "x \<noteq> NULL" "x \<notin> nodes_of X'"
    using take_out [OF assms(1, 2)] unfolding X'_def by blast
  have "lru_rep h (lst A w) (X w)" using assms(1) by (metis lists_rep_def)
  then have "x \<in> set (X w)" "seg h NULL (X w) NULL" using assms(2) by (simp_all add: lru_rep_def)
  then obtain e where e: "h1 x = Some e" using seg_dom [of h NULL "X w" NULL x] 1(3) by auto
  obtain h2 c2 where 2: "lru_add_node_front h1 (lst (put A w c1) v) x = Some (h2, c2)"
      "lists_rep h2 (put (put A w c1) v c2) (X'(v := x # X' v))" "payload h2 = payload h1"
    using put_in [OF 1(2, 6) e 1(5)] by blast
  have "payload h2 x \<noteq> None" using 2(3) e by (simp add: payload_def)
  then obtain e2 where "h2 x = Some e2" by (auto simp: payload_def)
  then show ?thesis using 1(1, 4) 2
    by (intro exI [of _ h1] exI [of _ c1] exI [of _ h2] exI [of _ c2]) (simp add: \<open>h2 x = Some e2\<close>)
qed

section \<open>Records\<close>

text \<open>The keys and values of a list of nodes; a ghost has no value.\<close>

type_synonym arc_list = "(string \<times> cstr) list"

definition carries :: "eheap \<Rightarrow> ref list \<Rightarrow> arc_list \<Rightarrow> bool" where
  "carries h xs L \<longleftrightarrow> map (payload h) xs = map (\<lambda>(k, v). Some (Some k, v)) L"

lemma carries_simps [simp]:
  "carries h [] L \<longleftrightarrow> L = []" "carries h xs [] \<longleftrightarrow> xs = []"
  "carries h (x # xs) ((k, v) # L) \<longleftrightarrow> payload h x = Some (Some k, v) \<and> carries h xs L"
  by (auto simp: carries_def)

lemma carries_Cons: "carries h (x # xs) L \<longleftrightarrow> (\<exists>k v L'. L = (k, v) # L' \<and> payload h x = Some (Some k, v) \<and> carries h xs L')"
  by (cases L) (auto simp: carries_def)

lemma carries_append: "carries h (xs @ ys) L \<longleftrightarrow> (\<exists>A B. L = A @ B \<and> carries h xs A \<and> carries h ys B)"
  unfolding carries_def by (auto simp: append_eq_map_conv)

lemma carries_appendI: "carries h xs A \<Longrightarrow> carries h ys B \<Longrightarrow> carries h (xs @ ys) (A @ B)"
  by (auto simp: carries_append)

lemma carries_cong: "(\<And>x. x \<in> set xs \<Longrightarrow> payload h' x = payload h x) \<Longrightarrow> carries h' xs L = carries h xs L"
  by (simp add: carries_def cong: map_cong)

lemma carries_length: "carries h xs L \<Longrightarrow> length xs = length L"
  by (auto simp: carries_def dest: map_eq_imp_length_eq)

lemma carries_take: "carries h xs L \<Longrightarrow> carries h (take n xs) (take n L)"
  by (simp add: carries_def take_map [symmetric])

lemma carries_payload: "carries h xs L \<Longrightarrow> x \<in> set xs \<Longrightarrow> \<exists>k v. payload h x = Some (Some k, v)"
proof (induction xs arbitrary: L)
  case (Cons y xs)
  then show ?case by (cases L) (auto simp: carries_Cons)
qed simp

lemma lru_find_carries:
  assumes "lru_rep h c xs" "carries h xs L"
  shows "(k \<notin> fst ` set L \<and> lru_find h c k = Some NULL) \<or>
     (\<exists>ys x zs U v V. xs = ys @ x # zs \<and> L = U @ (k, v) # V \<and> carries h ys U \<and> carries h zs V \<and>
        payload h x = Some (Some k, v) \<and> k \<notin> fst ` set U \<and> x \<noteq> NULL \<and> lru_find h c k = Some x)"
proof -
  have "seg h p xs NULL \<Longrightarrow> carries h xs L \<Longrightarrow> (k \<notin> fst ` set L \<and> find_from h k (first xs NULL) = Some NULL) \<or>
     (\<exists>ys x zs U v V. xs = ys @ x # zs \<and> L = U @ (k, v) # V \<and> carries h ys U \<and> carries h zs V \<and>
        payload h x = Some (Some k, v) \<and> k \<notin> fst ` set U \<and> x \<noteq> NULL \<and> find_from h k (first xs NULL) = Some x)" for p
  proof (induction xs arbitrary: p L)
    case Nil
    then show ?case by (simp add: find_from.simps [of h k NULL])
  next
    case (Cons x xs)
    then obtain q w L' where L: "L = (q, w) # L'" "payload h x = Some (Some q, w)" "carries h xs L'"
      by (auto simp: carries_Cons)
    then obtain n where n: "h x = Some n" "ekey n = Some q" using payload_key by blast
    have x: "x \<noteq> NULL" "enext n = first xs NULL" "seg h x xs NULL" using Cons.prems(1) n by auto
    then have f: "find_from h k (first (x # xs) NULL) = (if q = k then Some x else find_from h k (first xs NULL))"
      using n by (simp add: find_from.simps [of h k x] has_key_def)
    show ?case
    proof (cases "q = k")
      case True
      then show ?thesis using L f x(1)
        by (intro disjI2 exI [of _ "[]"] exI [of _ x] exI [of _ xs] exI [of _ "[]"] exI [of _ w] exI [of _ L']) auto
    next
      case False
      from Cons.IH [OF x(3) L(3)] show ?thesis
      proof (elim disjE exE conjE)
        fix ys y zs U v V
        assume "xs = ys @ y # zs" "L' = U @ (k, v) # V" "carries h ys U" "carries h zs V" "y \<noteq> NULL"
          "payload h y = Some (Some k, v)" "k \<notin> fst ` set U" "find_from h k (first xs NULL) = Some y"
        then show ?thesis using L f False
          by (intro disjI2 exI [of _ "x # ys"] exI [of _ y] exI [of _ zs] exI [of _ "(q, w) # U"]
              exI [of _ v] exI [of _ V]) auto
      qed (use L f False in auto)
    qed
  qed
  then show ?thesis using assms by (auto simp: lru_rep_def lru_find_def)
qed

section \<open>What the cache answers\<close>

text \<open>A node with a value is the first of its key.\<close>

fun firsts :: "arc_list \<Rightarrow> bool" where
  "firsts [] = True"
| "firsts ((k, v) # L) = ((\<forall>w. (k, Some w) \<notin> set L) \<and> firsts L)"

lemma firsts_append: "firsts (A @ B) \<longleftrightarrow> firsts A \<and> firsts B \<and> (\<forall>k \<in> fst ` set A. \<forall>w. (k, Some w) \<notin> set B)"
  by (induction A rule: firsts.induct) auto

definition view :: "arc_list \<Rightarrow> string \<rightharpoonup> string" where
  "view L k = (case map_of L k of Some v \<Rightarrow> v | None \<Rightarrow> None)"

lemma view_Nil [simp]: "view [] = Map.empty"
  by (simp add: view_def fun_eq_iff)

lemma view_Cons: "view ((k, v) # L) = (view L)(k := v)"
  by (simp add: view_def fun_eq_iff)

lemma view_append: "view (A @ B) k = (if k \<in> fst ` set A then view A k else view B k)"
proof (cases "k \<in> fst ` set A")
  case True
  then obtain v where "map_of A k = Some v" by (metis map_of_eq_None_iff option.exhaust)
  then show ?thesis using True by (simp add: view_def)
next
  case False
  then have "map_of A k = None" by (simp add: map_of_eq_None_iff)
  then show ?thesis using False by (simp add: view_def map_add_def split: option.splits)
qed

lemma view_None: "k \<notin> fst ` set L \<Longrightarrow> view L k = None"
  by (simp add: view_def map_of_eq_None_iff [symmetric] split: option.splits)

lemma view_valued: "firsts L \<Longrightarrow> (k, Some w) \<in> set L \<Longrightarrow> view L k = Some w"
  by (induction L rule: firsts.induct) (auto simp: view_Cons)

lemma view_no_value: "\<forall>w. (k, Some w) \<notin> set L \<Longrightarrow> view L k = None"
proof (induction L rule: firsts.induct)
  case (2 q v L)
  then show ?case by (cases v) (auto simp: view_Cons)
qed simp

lemma view_drop:
  assumes "firsts (A @ (k, v) # B)"
  shows "view (A @ B) \<subseteq>\<^sub>m view (A @ (k, v) # B)" "firsts (A @ B)"
proof -
  have "view (A @ B) q = None \<or> view (A @ B) q = view (A @ (k, v) # B) q" for q
    using assms view_no_value [of k B] by (auto simp: view_append view_Cons firsts_append)
  then show "view (A @ B) \<subseteq>\<^sub>m view (A @ (k, v) # B)" unfolding map_le_def by (metis domIff)
  show "firsts (A @ B)" using assms by (auto simp: firsts_append)
qed

section \<open>Accesses\<close>

text \<open>The four lists, with their nodes and with the records of these.\<close>

definition arc_at :: "eheap \<Rightarrow> ARCCache \<Rightarrow> (which \<Rightarrow> ref list) \<Rightarrow> (which \<Rightarrow> arc_list) \<Rightarrow> bool" where
  "arc_at h A X T \<longleftrightarrow> lists_rep h A X \<and> (\<forall>w. carries h (X w) (T w))"

definition arc_rep :: "eheap \<Rightarrow> ARCCache \<Rightarrow> (which \<Rightarrow> arc_list) \<Rightarrow> bool" where
  "arc_rep h A T \<longleftrightarrow> (\<exists>X. lists_rep h A X \<and> (\<forall>w. carries h (X w) (T w)))"

lemma arc_rep_at: "arc_rep h A T \<longleftrightarrow> (\<exists>X. arc_at h A X T)"
  by (simp add: arc_rep_def arc_at_def)

lemma arc_atI:
  assumes "lists_rep h' A X" "\<And>w. carries h (X w) (T w)" "\<And>y. y \<in> nodes_of X \<Longrightarrow> payload h' y = payload h y"
  shows "arc_at h' A X T"
  unfolding arc_at_def
proof (intro conjI allI)
  fix w
  have "carries h' (X w) (T w) = carries h (X w) (T w)" by (rule carries_cong) (use assms(3) in blast)
  then show "carries h' (X w) (T w)" using assms(2) by simp
qed (rule assms(1))

lemma payload_None: "payload h y = None \<longleftrightarrow> h y = None"
  by (simp add: payload_def)

text \<open>Taking a node out, freeing it, and putting a new one in.\<close>

lemma drop_at:
  assumes "arc_at h A X T" "X w = xs @ x # ys" "T w = U @ r # V" "carries h xs U" "carries h ys V"
  shows "\<exists>h' c. lru_remove_node h (lst A w) x = Some (h', c) \<and> arc_at h' (put A w c) (X(w := xs @ ys)) (T(w := U @ V)) \<and>
    h' x = h x \<and> payload h' = payload h \<and> x \<noteq> NULL \<and> x \<notin> nodes_of (X(w := xs @ ys))"
proof -
  obtain h' c where 1: "lru_remove_node h (lst A w) x = Some (h', c)" "lists_rep h' (put A w c) (X(w := xs @ ys))"
      "h' x = h x" "payload h' = payload h" "x \<noteq> NULL" "x \<notin> nodes_of (X(w := xs @ ys))"
    using take_out [of h A X, OF _ assms(2)] assms(1) unfolding arc_at_def by blast
  have "arc_at h' (put A w c) (X(w := xs @ ys)) (T(w := U @ V))"
    by (rule arc_atI [OF 1(2), of h]) (use assms 1(4) carries_appendI in \<open>auto simp: arc_at_def\<close>)
  then show ?thesis using 1 by blast
qed

lemma free_at:
  assumes "arc_at h A X T" "x \<notin> nodes_of X"
  shows "arc_at (h(x := None)) A X T"
proof (rule arc_atI [of _ _ _ h])
  show "lists_rep (h(x := None)) A X" using assms lists_rep_upd_other [OF assms(2)] by (simp add: arc_at_def)
  show "carries h (X w) (T w)" for w using assms(1) by (simp add: arc_at_def)
  fix y assume "y \<in> nodes_of X"
  then have "y \<noteq> x" using assms(2) by blast
  then show "payload (h(x := None)) y = payload h y" by (simp add: payload_def)
qed

lemma fresh_node: "lists_rep h A X \<Longrightarrow> h x = None \<Longrightarrow> x \<notin> nodes_of X"
  using seg_dom by (fastforce simp: lists_rep_def lru_rep_def)

lemma put_at:
  assumes "arc_at h A X T" "h x = None" "x \<noteq> NULL" "ekey m = Some k"
  shows "\<exists>h' c. lru_add_node_front (h(x \<mapsto> m)) (lst A w) x = Some (h', c) \<and>
    arc_at h' (put A w c) (X(w := x # X w)) (T(w := (k, evalue m) # T w)) \<and> (\<forall>y. y \<noteq> x \<longrightarrow> payload h' y = payload h y)"
proof -
  let ?h = "h(x \<mapsto> m)"
  have nx: "x \<notin> nodes_of X" using fresh_node assms(1, 2) unfolding arc_at_def by blast
  have "lists_rep ?h A X" using lists_rep_upd_other [OF nx] assms(1) by (simp add: arc_at_def)
  from put_in [OF this nx _ assms(3), of m w] obtain h' c where
    1: "lru_add_node_front ?h (lst A w) x = Some (h', c)" "lists_rep h' (put A w c) (X(w := x # X w))" "payload h' = payload ?h"
    by auto
  have pl: "payload h' y = payload h y" if "y \<noteq> x" for y using 1(3) that by (simp add: payload_def)
  have old: "carries h' (X q) (T q)" for q
  proof (subst carries_cong [of _ _ h])
    show "payload h' y = payload h y" if "y \<in> set (X q)" for y using pl nx that by (metis UN_I UNIV_I)
  qed (use assms(1) in \<open>simp add: arc_at_def\<close>)
  have "payload h' x = Some (Some k, evalue m)" using 1(3) assms(4) by (simp add: payload_def)
  then have "carries h' ((X(w := x # X w)) q) ((T(w := (k, evalue m) # T w)) q)" for q using old by simp
  then have "arc_at h' (put A w c) (X(w := x # X w)) (T(w := (k, evalue m) # T w))" using 1(2) by (simp add: arc_at_def)
  then show ?thesis using 1(1) pl by blast
qed

definition target_ok :: "ARCCache \<Rightarrow> bool" where
  "target_ok A \<longleftrightarrow> 0 \<le> target_size A \<and> target_size A \<le> amax_size A"

text \<open>The first record of the key in list \<open>w\<close> goes to the front of the second list.\<close>

definition moved :: "(which \<Rightarrow> arc_list) \<Rightarrow> which \<Rightarrow> arc_list \<Rightarrow> string \<times> cstr \<Rightarrow> arc_list \<Rightarrow> which \<Rightarrow> arc_list" where
  "moved T w U r V = (let S = T(w := U @ V) in S(LT2 := r # S LT2))"

text \<open>A list that has the key, or not.\<close>

lemma find_in:
  assumes "arc_rep h A T"
  shows "(k \<notin> fst ` set (T w) \<and> lru_find h (lst A w) k = Some NULL) \<or>
    (\<exists>x U v V. T w = U @ (k, v) # V \<and> k \<notin> fst ` set U \<and> x \<noteq> NULL \<and> lru_find h (lst A w) k = Some x \<and>
       0 < lsize (lst A w) \<and>
       (\<exists>h1 c1 h2 c2. lru_remove_node h (lst A w) x = Some (h1, c1) \<and>
          lru_add_node_front h1 (lst (put A w c1) LT2) x = Some (h2, c2) \<and>
          arc_rep h2 (put (put A w c1) LT2 c2) (moved T w U (k, v) V) \<and> payload h2 = payload h \<and> (\<exists>e. h2 x = Some e)))"
proof -
  obtain X where X: "lists_rep h A X" "\<And>w. carries h (X w) (T w)" using assms by (auto simp: arc_rep_def)
  have r: "lru_rep h (lst A w) (X w)" using X(1) by (simp add: lists_rep_def)
  from lru_find_carries [OF r X(2), of k] show ?thesis
  proof (elim disjE exE conjE)
    fix ys x zs U v V
    assume f: "X w = ys @ x # zs" "T w = U @ (k, v) # V" "carries h ys U" "carries h zs V" "payload h x = Some (Some k, v)"
      "k \<notin> fst ` set U" "x \<noteq> NULL" "lru_find h (lst A w) k = Some x"
    let ?X = "X(w := ys @ zs)"
    obtain h1 c1 h2 c2 where m: "lru_remove_node h (lst A w) x = Some (h1, c1)"
        "lru_add_node_front h1 (lst (put A w c1) LT2) x = Some (h2, c2)"
        "lists_rep h2 (put (put A w c1) LT2 c2) (?X(LT2 := x # ?X LT2))" "payload h2 = payload h" "\<exists>e. h2 x = Some e"
      using move_node [OF X(1) f(1), of LT2] by blast
    have "carries h2 ((?X(LT2 := x # ?X LT2)) u) (moved T w U (k, v) V u)" for u
      using X(2) [of u] X(2) [of LT2] carries_appendI [OF f(3, 4)] f(5) m(4)
      by (auto simp: moved_def Let_def carries_def)
    then have "arc_rep h2 (put (put A w c1) LT2 c2) (moved T w U (k, v) V)" using m(3) unfolding arc_rep_def by blast
    moreover have "0 < lsize (lst A w)" using r f(1) by (simp add: lru_rep_def)
    ultimately show ?thesis using f m by (intro disjI2 exI [of _ x] exI [of _ U] exI [of _ v] exI [of _ V]) auto
  qed auto
qed

lemma arc_rep_lists: "arc_rep h A T \<Longrightarrow> (\<forall>w. lst B w = lst A w) \<Longrightarrow> arc_rep h B T"
  by (simp add: arc_rep_def lists_rep_def)

lemma arc_rep_mark:
  assumes "arc_rep h A T" "h x = Some e"
  shows "\<exists>h'. mark_frequent h x = Some h' \<and> arc_rep h' A T \<and> payload h' = payload h"
proof -
  obtain X where X: "lists_rep h A X" "\<forall>w. carries h (X w) (T w)" using assms(1) by (auto simp: arc_rep_def)
  obtain h' where h': "mark_frequent h x = Some h'" "lists_rep h' A X" "payload h' = payload h" using mark_step [OF X(1) assms(2)] by blast
  then show ?thesis using X(2) unfolding arc_rep_def carries_def by auto
qed

lemma arc_delta_pos: "0 < own \<Longrightarrow> \<exists>d. arc_delta other own = Some d \<and> 1 \<le> d"
  by (auto simp: arc_delta_def)

text \<open>What an access does to the records.\<close>

definition accessed :: "(which \<Rightarrow> arc_list) \<Rightarrow> string \<Rightarrow> int \<Rightarrow> (which \<Rightarrow> arc_list) \<Rightarrow> bool" where
  "accessed T k hit T' \<longleftrightarrow>
     (hit = ARC_MISS \<and> T' = T \<and> k \<notin> fst ` set (T LT1 @ T LT2)) \<or>
     (\<exists>U v V. hit = ARC_HIT_T1 \<and> T LT1 = U @ (k, v) # V \<and> k \<notin> fst ` set U \<and> T' = moved T LT1 U (k, v) V) \<or>
     (\<exists>U v V. hit = ARC_HIT_T2 \<and> T LT2 = U @ (k, v) # V \<and> k \<notin> fst ` set (T LT1 @ U) \<and> T' = moved T LT2 U (k, v) V) \<or>
     (\<exists>w U v V. hit \<notin> {ARC_HIT_T1, ARC_HIT_T2} \<and> w \<in> {LB1, LB2} \<and> T w = U @ (k, v) # V \<and> k \<notin> fst ` set (T LT1 @ T LT2) \<and>
        T' = moved T w U (k, v) V)"

lemmas arc_hits = ARC_MISS_def ARC_HIT_T1_def ARC_HIT_T2_def ARC_HIT_B1_def ARC_HIT_B2_def

lemma accessedI:
  "T LT2 = U @ (k, v) # V \<Longrightarrow> k \<notin> fst ` set (T LT1 @ U) \<Longrightarrow> accessed T k ARC_HIT_T2 (moved T LT2 U (k, v) V)"
  "hit \<notin> {ARC_HIT_T1, ARC_HIT_T2} \<Longrightarrow> w \<in> {LB1, LB2} \<Longrightarrow> T w = U @ (k, v) # V \<Longrightarrow> k \<notin> fst ` set (T LT1 @ T LT2) \<Longrightarrow>
     accessed T k hit (moved T w U (k, v) V)"
  unfolding accessed_def by blast+

lemma find_cases [consumes 1, case_names absent present]:
  assumes "arc_rep h A T"
  obtains "k \<notin> fst ` set (T w)" "lru_find h (lst A w) k = Some NULL"
    | x U v V h1 c1 h2 c2 e where "T w = U @ (k, v) # V" "k \<notin> fst ` set U" "x \<noteq> NULL" "lru_find h (lst A w) k = Some x"
      "0 < lsize (lst A w)" "lru_remove_node h (lst A w) x = Some (h1, c1)"
      "lru_add_node_front h1 (lst (put A w c1) LT2) x = Some (h2, c2)"
      "arc_rep h2 (put (put A w c1) LT2 c2) (moved T w U (k, v) V)" "payload h2 = payload h" "h2 x = Some e"
  using find_in [OF assms, of k w] by blast

lemma ghost_hit:
  assumes "arc_rep h A T" "target_ok A" "k \<notin> fst ` set (T LT1)" "lru_find h (t1 A) k = Some NULL"
    "k \<notin> fst ` set (T LT2)" "lru_find h (t2 A) k = Some NULL"
  shows "\<exists>hit h' A' T'. arc_access h A k = Some (hit, h', A') \<and> arc_rep h' A' T' \<and> payload h' = payload h \<and>
    target_ok A' \<and> amax_size A' = amax_size A \<and> accessed T k hit T'"
  using assms(1)
proof (cases rule: find_cases [where w = LB1 and k = k])
  case (present x U v V h1 c1 h2 c2 e)
  obtain h3 where h3: "mark_frequent h2 x = Some h3" "arc_rep h3 (put (put A LB1 c1) LT2 c2) (moved T LB1 U (k, v) V)" "payload h3 = payload h"
    using arc_rep_mark [OF present(8, 10)] present(9) by auto
  obtain d where d: "arc_delta (lsize (b2 A)) (lsize (b1 A)) = Some d" "1 \<le> d" using arc_delta_pos present(5) by fastforce
  let ?A = "A\<lparr>target_size := min (amax_size A) (target_size A + d), b1 := c1, t2 := c2\<rparr>"
  have "arc_access h A k = Some (ARC_HIT_B1, h3, ?A)"
    using assms(4, 6) present h3(1) d by (simp add: arc_access_def Let_def)
  moreover have "arc_rep h3 ?A (moved T LB1 U (k, v) V)"
    by (rule arc_rep_lists [OF h3(2)]) (simp add: all_which)
  moreover have "target_ok ?A" using assms(2) d(2) by (simp add: target_ok_def)
  moreover have "accessed T k ARC_HIT_B1 (moved T LB1 U (k, v) V)"
    by (rule accessedI(2) [of _ LB1]) (use present(1) assms(3, 5) in \<open>auto simp: arc_hits\<close>)
  ultimately show ?thesis using h3(3)
    by (intro exI [of _ ARC_HIT_B1] exI [of _ h3] exI [of _ ?A] exI [of _ "moved T LB1 U (k, v) V"]) simp
next
  case absent
  note a1 = this
  from assms(1) show ?thesis
  proof (cases rule: find_cases [where w = LB2 and k = k])
    case absent
    then have "arc_access h A k = Some (ARC_MISS, h, A)" using assms(4, 6) a1 by (simp add: arc_access_def)
    then show ?thesis using assms(1-3, 5) by (intro exI [of _ ARC_MISS] exI [of _ h] exI [of _ A] exI [of _ T]) (auto simp: accessed_def)
  next
    case (present x U v V h1 c1 h2 c2 e)
    obtain h3 where h3: "mark_frequent h2 x = Some h3" "arc_rep h3 (put (put A LB2 c1) LT2 c2) (moved T LB2 U (k, v) V)" "payload h3 = payload h"
      using arc_rep_mark [OF present(8, 10)] present(9) by auto
    obtain d where d: "arc_delta (lsize (b1 A)) (lsize (b2 A)) = Some d" "1 \<le> d" using arc_delta_pos present(5) by fastforce
    let ?A = "A\<lparr>target_size := max 0 (target_size A - d), b2 := c1, t2 := c2\<rparr>"
    have "arc_access h A k = Some (ARC_HIT_B2, h3, ?A)"
      using assms(4, 6) a1 present h3(1) d by (simp add: arc_access_def Let_def)
    moreover have "arc_rep h3 ?A (moved T LB2 U (k, v) V)"
      by (rule arc_rep_lists [OF h3(2)]) (simp add: all_which)
    moreover have "target_ok ?A" using assms(2) d(2) by (simp add: target_ok_def)
    moreover have "accessed T k ARC_HIT_B2 (moved T LB2 U (k, v) V)"
      by (rule accessedI(2) [of _ LB2]) (use present(1) assms(3, 5) in \<open>auto simp: arc_hits\<close>)
    ultimately show ?thesis using h3(3)
      by (intro exI [of _ ARC_HIT_B2] exI [of _ h3] exI [of _ ?A] exI [of _ "moved T LB2 U (k, v) V"]) simp
  qed
qed

lemma arc_access_rep:
  assumes "arc_rep h A T" "target_ok A"
  shows "\<exists>hit h' A' T'. arc_access h A k = Some (hit, h', A') \<and> arc_rep h' A' T' \<and> payload h' = payload h \<and>
    target_ok A' \<and> amax_size A' = amax_size A \<and> accessed T k hit T'"
  using assms(1)
proof (cases rule: find_cases [where w = LT1 and k = k])
  case (present x U v V h1 c1 h2 c2 e)
  obtain h3 where h3: "mark_frequent h2 x = Some h3" "arc_rep h3 (put (put A LT1 c1) LT2 c2) (moved T LT1 U (k, v) V)" "payload h3 = payload h"
    using arc_rep_mark [OF present(8, 10)] present(9) by auto
  have "arc_access h A k = Some (ARC_HIT_T1, h3, A\<lparr>t1 := c1, t2 := c2\<rparr>)" using present h3(1) by (simp add: arc_access_def)
  moreover have "accessed T k ARC_HIT_T1 (moved T LT1 U (k, v) V)" unfolding accessed_def using present(1, 2) by blast
  ultimately show ?thesis using h3(2, 3) assms(2)
    by (intro exI [of _ ARC_HIT_T1] exI [of _ h3] exI [of _ "A\<lparr>t1 := c1, t2 := c2\<rparr>"] exI [of _ "moved T LT1 U (k, v) V"])
      (simp add: target_ok_def)
next
  case absent
  note a1 = this
  from assms(1) show ?thesis
  proof (cases rule: find_cases [where w = LT2 and k = k])
    case (present x U v V h1 c1 h2 c2 e)
    have "arc_access h A k = Some (ARC_HIT_T2, h2, A\<lparr>t2 := c2\<rparr>)" using present a1 by (simp add: arc_access_def)
    moreover have "accessed T k ARC_HIT_T2 (moved T LT2 U (k, v) V)" by (rule accessedI(1)) (use present(1, 2) a1 in auto)
    ultimately show ?thesis using present(8, 9) assms(2)
      by (intro exI [of _ ARC_HIT_T2] exI [of _ h2] exI [of _ "A\<lparr>t2 := c2\<rparr>"] exI [of _ "moved T LT2 U (k, v) V"])
        (simp add: target_ok_def)
  next
    case absent
    then show ?thesis using ghost_hit [OF assms] a1 by simp
  qed
qed

text \<open>The invariant of the records: the first list has values, the ghosts have none.\<close>

definition arc_good :: "(which \<Rightarrow> arc_list) \<Rightarrow> bool" where
  "arc_good T \<longleftrightarrow> (\<forall>r \<in> set (T LT1). snd r \<noteq> None) \<and> firsts (T LT1 @ T LT2) \<and> (\<forall>r \<in> set (T LB1 @ T LB2). snd r = None)"

abbreviation arc_map :: "(which \<Rightarrow> arc_list) \<Rightarrow> string \<rightharpoonup> string" where
  "arc_map T \<equiv> view (T LT1 @ T LT2)"

lemma first_list_distinct:
  assumes "arc_good T" "T LT1 = U @ (k, v) # V"
  shows "k \<notin> fst ` set V"
proof
  assume "k \<in> fst ` set V"
  then obtain w where w: "(k, w) \<in> set V" by auto
  then have "(k, w) \<in> set (T LT1)" using assms(2) by simp
  then have "w \<noteq> None" using assms(1) unfolding arc_good_def by fastforce
  moreover have "firsts ((k, v) # V)" using assms by (simp add: arc_good_def firsts_append)
  ultimately show False using w by auto
qed

lemma accessed_good:
  assumes "arc_good T" "accessed T k hit T'"
  shows "arc_good T' \<and> arc_map T' = arc_map T \<and>
    (if hit = ARC_HIT_T1 \<or> hit = ARC_HIT_T2 then \<exists>L. T' LT2 = (k, arc_map T k) # L else arc_map T k = None)"
  using assms(2) unfolding accessed_def
proof (elim disjE exE conjE)
  assume "hit = ARC_MISS" "T' = T" "k \<notin> fst ` set (T LT1 @ T LT2)"
  then show ?thesis using assms(1) view_None [of k "T LT1 @ T LT2"] by (simp add: arc_hits)
next
  fix U v V
  assume a: "hit = ARC_HIT_T1" "T LT1 = U @ (k, v) # V" "k \<notin> fst ` set U" "T' = moved T LT1 U (k, v) V"
  have d: "k \<notin> fst ` set V" using first_list_distinct [OF assms(1) a(2)] .
  have "firsts (U @ (k, v) # V @ T LT2)" using assms(1) a(2) by (simp add: arc_good_def)
  then have "firsts ((U @ V) @ (k, v) # T LT2)" using a(3) d by (auto simp: firsts_append)
  then have "arc_good T'" using assms(1) a(2, 4) by (simp add: arc_good_def moved_def)
  moreover have "arc_map T' q = arc_map T q" for q
    using a(2-4) d by (auto simp: moved_def view_append view_Cons)
  then have "arc_map T' = arc_map T" by (rule ext)
  moreover have "arc_map T k = v" using a(2, 3) by (simp add: view_append view_Cons image_Un)
  then have "\<exists>L. T' LT2 = (k, arc_map T k) # L" using a(4) by (simp add: moved_def)
  ultimately show ?thesis using a(1) by simp
next
  fix U v V
  assume a: "hit = ARC_HIT_T2" "T LT2 = U @ (k, v) # V" "k \<notin> fst ` set (T LT1 @ U)" "T' = moved T LT2 U (k, v) V"
  have "firsts (T LT1 @ U @ (k, v) # V)" using assms(1) a(2) by (simp add: arc_good_def)
  moreover have "\<forall>w. (k, w) \<notin> set U" using a(3) by force
  ultimately have "firsts (T LT1 @ (k, v) # U @ V)" by (auto simp: firsts_append)
  then have "arc_good T'" using assms(1) a(4) by (simp add: arc_good_def moved_def)
  moreover have "arc_map T' q = arc_map T q" for q
    using a(2-4) by (auto simp: moved_def view_append view_Cons)
  then have "arc_map T' = arc_map T" by (rule ext)
  moreover have "arc_map T k = v" using a(2, 3) by (simp add: view_append view_Cons image_Un)
  then have "\<exists>L. T' LT2 = (k, arc_map T k) # L" using a(4) by (simp add: moved_def)
  ultimately show ?thesis using a(1) by simp
next
  fix w U v V
  assume a: "hit \<notin> {ARC_HIT_T1, ARC_HIT_T2}" "w \<in> {LB1, LB2}" "T w = U @ (k, v) # V" "k \<notin> fst ` set (T LT1 @ T LT2)"
    "T' = moved T w U (k, v) V"
  have v: "v = None" using assms(1) a(2, 3) by (auto simp: arc_good_def)
  have T: "T' LT1 = T LT1" "T' LT2 = (k, v) # T LT2" using a(2, 5) by (auto simp: moved_def)
  have g: "set (T' LB1 @ T' LB2) \<subseteq> set (T LB1 @ T LB2)" using a(2, 3, 5) by (auto simp: moved_def)
  have "\<forall>w. (k, w) \<notin> set (T LT2)" using a(4) by force
  then have "firsts (T LT1 @ (k, v) # T LT2)" using assms(1) v by (auto simp: arc_good_def firsts_append)
  then have "arc_good T'" using assms(1) T g unfolding arc_good_def by (auto simp del: set_append)
  moreover have "arc_map T k = None" by (rule view_None) (rule a(4))
  moreover have "arc_map T' q = arc_map T q" for q
    using a(4) T v \<open>arc_map T k = None\<close> by (auto simp: view_append view_Cons)
  ultimately show ?thesis using a(1) by (simp add: fun_eq_iff)
qed

text \<open>The ghost lists hold at most \<open>mx\<close> keys.\<close>

definition ghosts_le :: "int \<Rightarrow> (which \<Rightarrow> arc_list) \<Rightarrow> bool" where
  "ghosts_le mx T \<longleftrightarrow> int (length (T LB1)) \<le> mx \<and> int (length (T LB2)) \<le> mx"

lemma accessed_ghosts:
  assumes "ghosts_le mx T" "accessed T k hit T'"
  shows "ghosts_le mx T'"
  using assms(2) unfolding accessed_def
proof (elim disjE exE conjE)
  fix w U v V
  assume a: "w \<in> {LB1, LB2}" "T w = U @ (k, v) # V" "T' = moved T w U (k, v) V"
  show ?thesis
  proof (cases "w = LB1")
    case True
    then show ?thesis using a(2, 3) assms(1) by (simp add: moved_def ghosts_le_def)
  next
    case False
    then show ?thesis using a assms(1) by (simp add: moved_def ghosts_le_def)
  qed
qed (use assms(1) in \<open>simp_all add: moved_def ghosts_le_def\<close>)

section \<open>Lookup\<close>

lemma find_first:
  assumes "arc_rep h A T" "T w = (k, v) # L"
  shows "\<exists>x n. lru_find h (lst A w) k = Some x \<and> x \<noteq> NULL \<and> h x = Some n \<and> evalue n = v"
proof -
  obtain X where X: "lists_rep h A X" "carries h (X w) (T w)" using assms(1) by (auto simp: arc_rep_def)
  have r: "lru_rep h (lst A w) (X w)" using X(1) by (simp add: lists_rep_def)
  from lru_find_carries [OF r X(2), of k] show ?thesis
  proof (elim disjE exE conjE)
    fix ys x zs U u V
    assume f: "T w = U @ (k, u) # V" "payload h x = Some (Some k, u)" "k \<notin> fst ` set U" "x \<noteq> NULL" "lru_find h (lst A w) k = Some x"
    have "u = v" using f(1, 3) assms(2) by (cases U) auto
    then show ?thesis using f payload_key [OF f(2)] by auto
  qed (use assms(2) in simp)
qed

lemma arc_get_rep:
  assumes "arc_rep h A T" "target_ok A" "arc_good T" "ghosts_le mx T"
  shows "\<exists>h' A' T'. arc_get h A k = Some (arc_map T k, h', A') \<and> arc_rep h' A' T' \<and> arc_good T' \<and>
    arc_map T' = arc_map T \<and> payload h' = payload h \<and> target_ok A' \<and> amax_size A' = amax_size A \<and> ghosts_le mx T'"
proof -
  obtain hit h' A' T' where a: "arc_access h A k = Some (hit, h', A')" "arc_rep h' A' T'" "payload h' = payload h"
      "target_ok A'" "amax_size A' = amax_size A" "accessed T k hit T'"
    using arc_access_rep [OF assms(1, 2)] by blast
  note g = accessed_good [OF assms(3) a(6)]
  have "arc_get h A k = Some (arc_map T k, h', A')"
  proof (cases "hit = ARC_HIT_T1 \<or> hit = ARC_HIT_T2")
    case True
    then obtain L where "T' LT2 = (k, arc_map T k) # L" using g by auto
    then obtain x n where "lru_find h' (t2 A') k = Some x" "x \<noteq> NULL" "h' x = Some n" "evalue n = arc_map T k"
      using find_first [OF a(2)] by (metis lst.simps(2))
    then show ?thesis using a(1) True by (auto simp: arc_get_def)
  next
    case False
    then show ?thesis using a(1) g by (simp add: arc_get_def)
  qed
  then show ?thesis using a g accessed_ghosts [OF assms(4) a(6)] by (intro exI [of _ h'] exI [of _ A'] exI [of _ T']) simp
qed

section \<open>Eviction and insertion\<close>

lemma put_put [simp]: "put (put A w c) w c' = put A w c'"
  by (cases w) auto

text \<open>Trimming stops, and keeps the first \<open>mx\<close> ghosts.\<close>

lemma trim_rep:
  assumes "lists_rep h A X" "0 \<le> mx"
  shows "\<exists>h' c. trim_ghosts h (lst A w) mx = Some (h', c) \<and> lists_rep h' (put A w c) (X(w := take (nat mx) (X w))) \<and>
    (\<forall>x. payload h' x = (if x \<in> set (drop (nat mx) (X w)) then None else payload h x))"
  using assms(1)
proof (induction "length (X w)" arbitrary: h A X)
  case 0
  then have "lists_rep h (put A w (lst A w)) X" "lsize (lst A w) = 0"
    by (auto simp: lists_rep_def lst_put lru_rep_def)
  then show ?case using 0(1) assms(2) by (simp add: trim_ghosts.simps [of h "lst A w" mx] fun_upd_idem)
next
  case (Suc n)
  have r: "lru_rep h (lst A w) (X w)" using Suc.prems by (simp add: lists_rep_def)
  show ?case
  proof (cases "lsize (lst A w) > mx")
    case False
    then have "take (nat mx) (X w) = X w" "drop (nat mx) (X w) = []" using r assms(2) by (simp_all add: lru_rep_def)
    moreover have "lists_rep h (put A w (lst A w)) X" using Suc.prems by (auto simp: lists_rep_def lst_put)
    ultimately show ?thesis using False by (simp add: trim_ghosts.simps [of h "lst A w" mx] fun_upd_idem)
  next
    case True
    obtain ys x where xs: "X w = ys @ [x]" using Suc.hyps(2) by (metis append_butlast_last_id list.size(3) nat.distinct(1))
    obtain h1 c1 where 1: "lru_remove_node h (lst A w) x = Some (h1, c1)" "lists_rep h1 (put A w c1) (X(w := ys))"
        "h1 x = h x" "payload h1 = payload h" "x \<notin> nodes_of (X(w := ys))"
      using take_out [OF Suc.prems, of w ys x "[]"] xs by auto
    have t: "ltail (lst A w) = x" "int (length ys) \<ge> mx" using r True xs by (auto simp: lru_rep_def)
    obtain m where m: "h1 x = Some m" using r xs 1(3) seg_dom [of h NULL "X w" NULL x] by (auto simp: lru_rep_def)
    have "lists_rep (h1(x := None)) (put A w c1) (X(w := ys))" using 1(2) lists_rep_upd_other [OF 1(5)] by blast
    from Suc.hyps(1) [OF _ this] Suc.hyps(2) xs obtain h2 c2 where
      2: "trim_ghosts (h1(x := None)) c1 mx = Some (h2, c2)" "lists_rep h2 (put A w c2) (X(w := take (nat mx) ys))"
        "\<forall>y. payload h2 y = (if y \<in> set (drop (nat mx) ys) then None else payload (h1(x := None)) y)"
      by (auto simp: lst_put)
    have "nat mx \<le> length ys" using t(2) by linarith
    then have td: "take (nat mx) (X w) = take (nat mx) ys" "drop (nat mx) (X w) = drop (nat mx) ys @ [x]" using xs by auto
    have "trim_ghosts h (lst A w) mx = Some (h2, c2)" using 1(1) 2(1) t(1) m True by (subst trim_ghosts.simps) simp
    moreover have "payload (h1(x := None)) y = (if y = x then None else payload h y)" for y
      using 1(4) by (simp add: payload_def fun_eq_iff)
    ultimately show ?thesis using 2(2, 3) td by (intro exI [of _ h2] exI [of _ c2]) auto
  qed
qed

lemma trim_at:
  assumes "arc_at h A X T" "0 \<le> mx"
  shows "\<exists>h' c. trim_ghosts h (lst A w) mx = Some (h', c) \<and>
    arc_at h' (put A w c) (X(w := take (nat mx) (X w))) (T(w := take (nat mx) (T w))) \<and>
    (\<forall>x. payload h' x = (if x \<in> set (drop (nat mx) (X w)) then None else payload h x))"
proof -
  let ?X = "X(w := take (nat mx) (X w))"
  have l: "lists_rep h A X" using assms(1) by (simp add: arc_at_def)
  obtain h' c where 1: "trim_ghosts h (lst A w) mx = Some (h', c)" "lists_rep h' (put A w c) ?X"
      "\<And>x. payload h' x = (if x \<in> set (drop (nat mx) (X w)) then None else payload h x)"
    using trim_rep [OF l assms(2), of w] by blast
  have "y \<notin> set (drop (nat mx) (X w))" if "y \<in> set (?X q)" for y q
  proof (cases "q = w")
    case True
    have "distinct (X w)" using lists_repD(1) [OF l, of w] by (simp add: lru_rep_def)
    then have "set (take (nat mx) (X w)) \<inter> set (drop (nat mx) (X w)) = {}" by (rule set_take_disj_set_drop_if_distinct) simp
    then show ?thesis using that True by auto
  next
    case False
    then have "y \<notin> set (X w)" using lists_repD(2) [OF l, of q w] that by auto
    then show ?thesis by (metis in_set_dropD)
  qed
  then have "arc_at h' (put A w c) ?X (T(w := take (nat mx) (T w)))"
    by (intro arc_atI [OF 1(2), of h]) (use assms(1) 1(3) carries_take in \<open>auto simp: arc_at_def\<close>)
  then show ?thesis using 1(1, 3) by blast
qed

text \<open>The victim at the end of list \<open>w\<close> leaves a ghost at the front of list \<open>v\<close>.\<close>

lemma evict_one:
  assumes "arc_rep h A T" "T w = L @ [(k, u)]" "w \<noteq> v" "h new = None" "new \<noteq> NULL" "env_ok e" "0 \<le> mx"
  shows "\<exists>x h1 c h2 h3 g3 h4 g4. ltail (lst A w) = x \<and> x \<noteq> NULL \<and> lru_remove_node h (lst A w) x = Some (h1, c) \<and>
    make_ghost e h1 x new f = Some h2 \<and> lru_add_node_front h2 (lst A v) new = Some (h3, g3) \<and>
    trim_ghosts h3 g3 mx = Some (h4, g4) \<and> free_evict_node h4 x = Some (h4(x := None)) \<and>
    arc_rep (h4(x := None)) (put (put A w c) v g4) (T(w := L, v := take (nat mx) ((k, None) # T v))) \<and>
    (\<forall>y. y \<noteq> new \<and> h y = None \<longrightarrow> (h4(x := None)) y = None)"
proof -
  obtain X where X: "arc_at h A X T" using assms(1) by (auto simp: arc_rep_at)
  obtain xs x where xs: "X w = xs @ [x]" "carries h xs L" "payload h x = Some (Some k, u)"
    using X assms(2) by (auto simp: arc_at_def carries_append carries_def append_eq_map_conv map_eq_append_conv dest!: spec [of _ w])
  obtain h1 c where 1: "lru_remove_node h (lst A w) x = Some (h1, c)" "arc_at h1 (put A w c) (X(w := xs)) (T(w := L))"
      "payload h1 = payload h" "x \<noteq> NULL" "x \<notin> nodes_of (X(w := xs))"
    using drop_at [OF X, of w xs x "[]" L "(k, u)" "[]"] xs(1, 2) assms(2) by auto
  obtain n where n: "h1 x = Some n" "ekey n = Some k" using xs(3) 1(3) payload_key by metis
  have f1: "h1 y = None \<longleftrightarrow> h y = None" for y using 1(3) payload_None by metis
  define m where "m = \<lparr>ekey = Some k, evalue = None, value_len = 0, eprev = NULL, enext = NULL,
    access_time = current_time_ms e 0, access_count = access_count n, is_frequent = f\<rparr>"
  have ghost: "make_ghost e h1 x new f = Some (h1(new \<mapsto> m))" using n assms(6) by (simp add: make_ghost_def m_def)
  have lv: "lst (put A w c) v = lst A v" "(X(w := xs)) v = X v" "(T(w := L)) v = T v" using assms(3) by (auto simp: lst_put)
  have "h1 new = None" using f1 assms(4) by simp
  from put_at [OF 1(2) this assms(5), of m k v] obtain h3 g3 where
    3: "lru_add_node_front (h1(new \<mapsto> m)) (lst A v) new = Some (h3, g3)"
      "arc_at h3 (put (put A w c) v g3) (X(w := xs, v := new # X v)) (T(w := L, v := (k, None) # T v))"
      "\<And>y. y \<noteq> new \<Longrightarrow> payload h3 y = payload h1 y"
    unfolding lv by (auto simp: m_def simp del: fun_upd_apply)
  let ?X = "X(w := xs, v := take (nat mx) (new # X v))" and ?T = "T(w := L, v := take (nat mx) ((k, None) # T v))"
  obtain h4 g4 where 4: "trim_ghosts h3 g3 mx = Some (h4, g4)" "arc_at h4 (put (put A w c) v g4) ?X ?T"
      "\<And>y. payload h4 y = (if y \<in> set (drop (nat mx) (new # X v)) then None else payload h3 y)"
    using trim_at [OF 3(2) assms(7), of v] unfolding lst_put put_put by auto
  have p4: "payload h4 y = (if y \<in> set (drop (nat mx) (new # X v)) then None else payload h y)" if "y \<noteq> new" for y
    using 4(3) 3(3) [OF that] 1(3) by simp
  have xn: "x \<noteq> new" using xs(3) assms(4) by (auto simp: payload_def)
  have xv: "x \<notin> set (new # X v)" using 1(5) assms(3) xn by (force split: if_splits)
  then have td: "x \<notin> set (take (nat mx) (new # X v))" "x \<notin> set (drop (nat mx) (new # X v))" by (metis in_set_takeD in_set_dropD)+
  then have "arc_at (h4(x := None)) (put (put A w c) v g4) ?X ?T" using 1(5) by (intro free_at [OF 4(2)]) (auto split: if_splits)
  moreover have "payload h4 x = payload h x" using p4 [OF xn] td(2) by simp
  then obtain n' where "h4 x = Some n'" using xs(3) payload_key by metis
  moreover have "(h4(x := None)) y = None" if "y \<noteq> new" "h y = None" for y
    using p4 [OF that(1)] that(2) by (simp add: payload_def split: if_splits)
  moreover have "ltail (lst A w) = x" using X xs(1) by (auto simp: arc_at_def lists_rep_def lru_rep_def dest!: spec [of _ w])
  ultimately show ?thesis using 1(1, 4) ghost 3(1) 4(1) unfolding arc_rep_at
    by (intro exI [of _ x] exI [of _ h1] exI [of _ c] exI [of _ "h1(new \<mapsto> m)"] exI [of _ h3] exI [of _ g3] exI [of _ h4] exI [of _ g4])
      (auto simp: free_evict_node_def simp del: fun_upd_apply)
qed

lemma evicted_good:
  fixes n :: nat
  assumes "arc_good T" "w \<in> {LT1, LT2}" "v \<in> {LB1, LB2}" "T w = L @ [(k, u)]"
  defines "T' \<equiv> T(w := L, v := take n ((k, None) # T v))"
  shows "arc_good T' \<and> arc_map T' \<subseteq>\<^sub>m arc_map T"
proof -
  have t: "T' LT1 @ T' LT2 = (if w = LT1 then L @ T LT2 else T LT1 @ L)"
    and s: "T LT1 @ T LT2 = (if w = LT1 then L @ (k, u) # T LT2 else (T LT1 @ L) @ (k, u) # [])"
    using assms(2-4) by (auto simp: T'_def)
  have "firsts (T LT1 @ T LT2)" using assms(1) by (simp add: arc_good_def)
  then have "arc_map T' \<subseteq>\<^sub>m arc_map T" "firsts (T' LT1 @ T' LT2)"
    unfolding t s using view_drop [of L k u "T LT2"] view_drop [of "T LT1 @ L" k u "[]"] by (auto split: if_splits)
  moreover have "set (T' LT1) \<subseteq> set (T LT1)" "set (T' LB1 @ T' LB2) \<subseteq> insert (k, None) (set (T LB1 @ T LB2))"
    using assms(2-4) set_take_subset [of n "(k, None) # T v"] by (auto simp: T'_def)
  ultimately show ?thesis using assms(1) unfolding arc_good_def by fastforce
qed

lemma tail_record:
  assumes "arc_rep h A T" "ltail (lst A w) \<noteq> NULL"
  shows "\<exists>L k u. T w = L @ [(k, u)]"
proof -
  obtain X where X: "lists_rep h A X" "carries h (X w) (T w)" using assms(1) by (auto simp: arc_rep_def)
  have "X w \<noteq> []" using assms(2) lists_repD(1) [OF X(1), of w] by (auto simp: lru_rep_def)
  then have "T w \<noteq> []" using X(2) by auto
  then show ?thesis by (metis append_butlast_last_id surj_pair)
qed

lemma arc_evict_rep:
  assumes "arc_rep h A T" "target_ok A" "arc_good T" "h new = None" "new \<noteq> NULL" "env_ok e" "ghosts_le (amax_size A) T"
  shows "\<exists>x h1 A' h2 T'. arc_evict e h A new = Some (x, h1, A') \<and>
    (if x \<noteq> NULL then free_evict_node h1 x else Some h1) = Some h2 \<and> arc_rep h2 A' T' \<and> arc_good T' \<and>
    arc_map T' \<subseteq>\<^sub>m arc_map T \<and> target_ok A' \<and> amax_size A' = amax_size A \<and> ghosts_le (amax_size A) T' \<and>
    (\<forall>y. y \<noteq> new \<and> h y = None \<longrightarrow> h2 y = None)"
proof -
  have mx: "0 \<le> amax_size A" using assms(2) by (simp add: target_ok_def)
  consider (keep) "arc_evict e h A new = Some (NULL, h, A)"
    | (t1) "\<not> lsize (t1 A) + lsize (t2 A) < amax_size A" "lsize (t1 A) > target_size A" "ltail (t1 A) \<noteq> NULL"
    | (t2) "\<not> lsize (t1 A) + lsize (t2 A) < amax_size A" "\<not> (lsize (t1 A) > target_size A \<and> ltail (t1 A) \<noteq> NULL)" "ltail (t2 A) \<noteq> NULL"
    unfolding arc_evict_def by metis
  then show ?thesis
  proof cases
    case keep
    then show ?thesis using assms by (intro exI [of _ NULL] exI [of _ h] exI [of _ A] exI [of _ h] exI [of _ T]) simp
  next
    case t1
    obtain L k u where L: "T LT1 = L @ [(k, u)]" using tail_record [OF assms(1), of LT1] t1(3) by auto
    from evict_one [OF assms(1) L which.distinct(3) assms(4-6) mx, of 0] obtain x h1 c h2 h3 g3 h4 g4 where
      v: "ltail (t1 A) = x" "x \<noteq> NULL" "lru_remove_node h (t1 A) x = Some (h1, c)" "make_ghost e h1 x new 0 = Some h2"
        "lru_add_node_front h2 (b1 A) new = Some (h3, g3)" "trim_ghosts h3 g3 (amax_size A) = Some (h4, g4)"
        "free_evict_node h4 x = Some (h4(x := None))"
        "arc_rep (h4(x := None)) (A\<lparr>t1 := c, b1 := g4\<rparr>) (T(LT1 := L, LB1 := take (nat (amax_size A)) ((k, None) # T LB1)))"
        "\<forall>y. y \<noteq> new \<and> h y = None \<longrightarrow> (h4(x := None)) y = None"
      by (simp only: lst.simps put.simps) blast
    have "arc_evict e h A new = Some (x, h4, A\<lparr>t1 := c, b1 := g4\<rparr>)"
      using t1 v(1-6) by (simp add: arc_evict_def)
    moreover have "target_ok (A\<lparr>t1 := c, b1 := g4\<rparr>)" "amax_size (A\<lparr>t1 := c, b1 := g4\<rparr>) = amax_size A"
      using assms(2) by (simp_all add: target_ok_def)
    moreover have "ghosts_le (amax_size A) (T(LT1 := L, LB1 := take (nat (amax_size A)) ((k, None) # T LB1)))"
      using assms(7) mx by (auto simp: ghosts_le_def)
    moreover note evicted_good [OF assms(3) _ _ L, of LB1 "nat (amax_size A)"] v(2, 7-9)
    ultimately show ?thesis
      by (intro exI [of _ x] exI [of _ h4] exI [of _ "A\<lparr>t1 := c, b1 := g4\<rparr>"] exI [of _ "h4(x := None)"]
          exI [of _ "T(LT1 := L, LB1 := take (nat (amax_size A)) ((k, None) # T LB1))"]) simp
  next
    case t2
    obtain L k u where L: "T LT2 = L @ [(k, u)]" using tail_record [OF assms(1), of LT2] t2(3) by auto
    from evict_one [OF assms(1) L which.distinct(9) assms(4-6) mx, of 1] obtain x h1 c h2 h3 g3 h4 g4 where
      v: "ltail (t2 A) = x" "x \<noteq> NULL" "lru_remove_node h (t2 A) x = Some (h1, c)" "make_ghost e h1 x new 1 = Some h2"
        "lru_add_node_front h2 (b2 A) new = Some (h3, g3)" "trim_ghosts h3 g3 (amax_size A) = Some (h4, g4)"
        "free_evict_node h4 x = Some (h4(x := None))"
        "arc_rep (h4(x := None)) (A\<lparr>t2 := c, b2 := g4\<rparr>) (T(LT2 := L, LB2 := take (nat (amax_size A)) ((k, None) # T LB2)))"
        "\<forall>y. y \<noteq> new \<and> h y = None \<longrightarrow> (h4(x := None)) y = None"
      by (simp only: lst.simps put.simps) blast
    have "arc_evict e h A new = Some (x, h4, A\<lparr>t2 := c, b2 := g4\<rparr>)"
      using t2 v(1-6) by (auto simp: arc_evict_def)
    moreover have "target_ok (A\<lparr>t2 := c, b2 := g4\<rparr>)" "amax_size (A\<lparr>t2 := c, b2 := g4\<rparr>) = amax_size A"
      using assms(2) by (simp_all add: target_ok_def)
    moreover have "ghosts_le (amax_size A) (T(LT2 := L, LB2 := take (nat (amax_size A)) ((k, None) # T LB2)))"
      using assms(7) mx by (auto simp: ghosts_le_def)
    moreover note evicted_good [OF assms(3) _ _ L, of LB2 "nat (amax_size A)"] v(2, 7-9)
    ultimately show ?thesis
      by (intro exI [of _ x] exI [of _ h4] exI [of _ "A\<lparr>t2 := c, b2 := g4\<rparr>"] exI [of _ "h4(x := None)"]
          exI [of _ "T(LT2 := L, LB2 := take (nat (amax_size A)) ((k, None) # T LB2))"]) simp
  qed
qed

lemma arc_rep_put:
  assumes "arc_rep h A T" "h x = None" "x \<noteq> NULL" "ekey m = Some k"
  shows "\<exists>h' c. lru_add_node_front (h(x \<mapsto> m)) (lst A w) x = Some (h', c) \<and>
    arc_rep h' (put A w c) (T(w := (k, evalue m) # T w)) \<and> (\<forall>y. y \<noteq> x \<and> h y = None \<longrightarrow> h' y = None)"
proof -
  obtain X where X: "arc_at h A X T" using assms(1) by (auto simp: arc_rep_at)
  obtain h' c where 1: "lru_add_node_front (h(x \<mapsto> m)) (lst A w) x = Some (h', c)"
      "arc_at h' (put A w c) (X(w := x # X w)) (T(w := (k, evalue m) # T w))" "\<forall>y. y \<noteq> x \<longrightarrow> payload h' y = payload h y"
    using put_at [OF X assms(2-4), of w] by blast
  have "h' y = None" if "y \<noteq> x" "h y = None" for y using 1(3) that payload_None by metis
  then show ?thesis using 1(1, 2) unfolding arc_rep_at by blast
qed

lemma added_good:
  assumes "arc_good T" "arc_map T k = None"
  shows "arc_good (T(LT1 := (k, Some v) # T LT1)) \<and> arc_map (T(LT1 := (k, Some v) # T LT1)) = (arc_map T)(k \<mapsto> v)"
proof -
  have "(k, Some w) \<notin> set (T LT1 @ T LT2)" for w using view_valued assms by (force simp: arc_good_def)
  then show ?thesis using assms(1) by (auto simp: arc_good_def view_Cons)
qed

definition arc_inv :: "CacheManager \<Rightarrow> (which \<Rightarrow> arc_list) \<Rightarrow> bool" where
  "arc_inv g T \<longleftrightarrow> arc_rep (cheap g) (arc g) T \<and> target_ok (arc g) \<and> arc_good T \<and> ghosts_le (max_items g) T \<and>
     policy g = EVICT_ARC \<and> 0 < max_items g \<and> amax_size (arc g) = max_items g \<and>
     (\<forall>n. cnext g \<le> n \<longrightarrow> cheap g (Ref n) = None)"

lemma arc_add_inv:
  assumes "arc_inv g T" "env_ok e" "arc_map T k = None"
  shows "\<exists>g' T'. cache_add e g k v = Some g' \<and> arc_inv g' T' \<and> arc_map T' \<subseteq>\<^sub>m (arc_map T)(k \<mapsto> v) \<and>
    max_items g' = max_items g"
proof -
  have i: "arc_rep (cheap g) (arc g) T" "target_ok (arc g)" "arc_good T" "ghosts_le (amax_size (arc g)) T"
      "policy g = EVICT_ARC" "0 < max_items g" "amax_size (arc g) = max_items g"
      "\<And>n. cnext g \<le> n \<Longrightarrow> cheap g (Ref n) = None" using assms(1) by (auto simp: arc_inv_def)
  obtain x h1 A' h2 T' where ev: "arc_evict e (cheap g) (arc g) (Ref (cnext g)) = Some (x, h1, A')"
      "(if x \<noteq> NULL then free_evict_node h1 x else Some h1) = Some h2" "arc_rep h2 A' T'" "arc_good T'"
      "arc_map T' \<subseteq>\<^sub>m arc_map T" "target_ok A'" "amax_size A' = amax_size (arc g)" "ghosts_le (amax_size (arc g)) T'"
      "\<forall>y. y \<noteq> Ref (cnext g) \<and> cheap g y = None \<longrightarrow> h2 y = None"
    using arc_evict_rep [OF i(1-3) i(8) [OF order_refl] _ assms(2) i(4)] by auto
  define m where "m = \<lparr>ekey = Some k, evalue = Some v, value_len = int (length v) + 1, eprev = NULL, enext = NULL,
     access_time = current_time_ms e 1, access_count = 1, is_frequent = 0\<rparr>"
  let ?x = "Ref (cnext g + 1)" and ?T = "T'(LT1 := (k, Some v) # T' LT1)"
  have x: "h2 ?x = None" using ev(9) i(8) [of "cnext g + 1"] by simp
  obtain h3 c where 3: "lru_add_node_front (h2(?x \<mapsto> m)) (t1 A') ?x = Some (h3, c)" "arc_rep h3 (A'\<lparr>t1 := c\<rparr>) ?T"
      "\<forall>y. y \<noteq> ?x \<and> h2 y = None \<longrightarrow> h3 y = None"
    using arc_rep_put [OF ev(3) x, of m k LT1] by (auto simp: m_def)
  let ?g = "g\<lparr>cheap := h3, cnext := cnext g + 2, arc := A'\<lparr>t1 := c\<rparr>\<rparr>"
  have "arc_map T' k = None" using ev(5) assms(3) by (metis domIff map_le_implies_dom_le subsetD)
  note g = added_good [OF ev(4) this, of v]
  have "h3 (Ref n) = None" if "cnext g + 2 \<le> n" for n using 3(3) ev(9) i(8) [of n] that by simp
  then have "arc_inv ?g ?T" using 3(2) ev(6-8) i(5-7) g by (simp add: arc_inv_def target_ok_def ghosts_le_def)
  moreover have "cache_add e g k v = Some ?g"
    using ev(1, 2) 3(1) i(5) assms(2) by (simp add: cache_add_def kvs_cache_lru_add_def arc_add_def m_def)
  moreover have "arc_map ?T \<subseteq>\<^sub>m (arc_map T)(k \<mapsto> v)" using g map_le_upd [OF ev(5), of k "Some v"] by simp
  ultimately show ?thesis by (intro exI [of _ ?g] exI [of _ ?T]) simp
qed

section \<open>Deletion\<close>

lemma drop_cases [consumes 1, case_names absent present]:
  assumes "arc_rep h A T"
  obtains "k \<notin> fst ` set (T w)" "lru_find h (lst A w) k = Some NULL"
    | x U v V h1 c where "T w = U @ (k, v) # V" "k \<notin> fst ` set U" "x \<noteq> NULL" "lru_find h (lst A w) k = Some x"
      "lru_remove_node h (lst A w) x = Some (h1, c)" "free_evict_node h1 x = Some (h1(x := None))"
      "arc_rep (h1(x := None)) (put A w c) (T(w := U @ V))" "\<forall>y. h y = None \<longrightarrow> (h1(x := None)) y = None"
proof -
  obtain X where X: "arc_at h A X T" using assms by (auto simp: arc_rep_at)
  then have l: "lists_rep h A X" "carries h (X w) (T w)" by (auto simp: arc_at_def)
  from lru_find_carries [OF lists_repD(1) [OF l(1)] l(2), of k] show thesis
  proof (elim disjE exE conjE)
    fix ys x zs U v V
    assume f: "X w = ys @ x # zs" "T w = U @ (k, v) # V" "carries h ys U" "carries h zs V" "payload h x = Some (Some k, v)"
      "k \<notin> fst ` set U" "x \<noteq> NULL" "lru_find h (lst A w) k = Some x"
    obtain h1 c where 1: "lru_remove_node h (lst A w) x = Some (h1, c)" "arc_at h1 (put A w c) (X(w := ys @ zs)) (T(w := U @ V))"
        "h1 x = h x" "payload h1 = payload h" "x \<notin> nodes_of (X(w := ys @ zs))"
      using drop_at [OF X f(1-4)] by blast
    have ar: "arc_rep (h1(x := None)) (put A w c) (T(w := U @ V))" using free_at [OF 1(2, 5)] unfolding arc_rep_at by blast
    have "h1 y = None \<longleftrightarrow> h y = None" for y using 1(4) payload_None by metis
    then have fr: "\<forall>y. h y = None \<longrightarrow> (h1(x := None)) y = None" by simp
    obtain n where "h1 x = Some n" using payload_key [OF f(5)] 1(3) by auto
    then have "free_evict_node h1 x = Some (h1(x := None))" by (simp add: free_evict_node_def)
    from that(2) [OF f(2, 6-8) 1(1) this ar fr] show thesis .
  next
    assume "k \<notin> fst ` set (T w)" "lru_find h (lst A w) k = Some NULL"
    then show thesis by (rule that(1))
  qed
qed

text \<open>The first record of the key, in the order of the lists, is dropped.\<close>

lemma deleted_good:
  assumes "arc_good T" "T w = U @ (k, v) # V" "k \<notin> fst ` set U"
    "w \<noteq> LT1 \<Longrightarrow> k \<notin> fst ` set (T LT1)" "w \<notin> {LT1, LT2} \<Longrightarrow> k \<notin> fst ` set (T LT2)"
  shows "arc_good (T(w := U @ V)) \<and> arc_map (T(w := U @ V)) = (arc_map T)(k := None)"
proof (cases "w \<in> {LT1, LT2}")
  case True
  define P S where "P = (if w = LT1 then U else T LT1 @ U)" and "S = (if w = LT1 then V @ T LT2 else V)"
  let ?T = "T(w := U @ V)"
  have t: "T LT1 @ T LT2 = P @ (k, v) # S" "?T LT1 @ ?T LT2 = P @ S"
    using True assms(2) by (auto simp: P_def S_def)
  have f: "firsts (P @ (k, v) # S)" using assms(1) t(1) by (simp add: arc_good_def)
  have p: "k \<notin> fst ` set P" using assms(3, 4) True by (auto simp: P_def)
  have "view S k = None" using f by (intro view_no_value) (simp add: firsts_append)
  then have "view (P @ S) q = ((view (P @ (k, v) # S))(k := None)) q" for q
    using p by (auto simp: view_append view_Cons)
  then have "arc_map ?T = (arc_map T)(k := None)" unfolding t by (rule ext)
  moreover have "firsts (P @ S)" using view_drop(2) [OF f] .
  moreover have "\<forall>r \<in> set (?T LT1). snd r \<noteq> None" "\<forall>r \<in> set (?T LB1 @ ?T LB2). snd r = None"
    using assms(1, 2) True by (auto simp: arc_good_def)
  ultimately show ?thesis using t(2) by (simp add: arc_good_def)
next
  case False
  then have "arc_map T k = None" using assms(4, 5) by (intro view_None) auto
  moreover have "arc_good (T(w := U @ V))" using False assms(1, 2) by (cases w) (auto simp: arc_good_def)
  ultimately show ?thesis using False by (cases w) (simp_all add: fun_upd_idem)
qed

lemma deleted_ghosts: "ghosts_le mx T \<Longrightarrow> T w = U @ (k, v) # V \<Longrightarrow> ghosts_le mx (T(w := U @ V))"
  by (cases w) (auto simp: ghosts_le_def)

lemma arc_del_rep:
  assumes "arc_rep h A T" "arc_good T" "ghosts_le mx T"
  shows "\<exists>r h' A' T'. arc_del h A k = Some (r, h', A') \<and> arc_rep h' A' T' \<and> arc_good T' \<and>
    arc_map T' = (arc_map T)(k := None) \<and> ghosts_le mx T' \<and> target_size A' = target_size A \<and>
    amax_size A' = amax_size A \<and> (\<forall>y. h y = None \<longrightarrow> h' y = None)"
proof -
  have ok: ?thesis if "T w = U @ (k, v) # V" "k \<notin> fst ` set U" "w \<noteq> LT1 \<Longrightarrow> k \<notin> fst ` set (T LT1)"
      "w \<notin> {LT1, LT2} \<Longrightarrow> k \<notin> fst ` set (T LT2)" "arc_del h A k = Some (r, h', put A w c)"
      "arc_rep h' (put A w c) (T(w := U @ V))" "\<forall>y. h y = None \<longrightarrow> h' y = None" for w U v V r h' c
    using deleted_good [OF assms(2) that(1-4)] deleted_ghosts [OF assms(3) that(1)] that(5-7)
    by (intro exI [of _ r] exI [of _ h'] exI [of _ "put A w c"] exI [of _ "T(w := U @ V)"]) simp
  show ?thesis using assms(1)
  proof (cases rule: drop_cases [where w = LT1 and k = k])
    case (present x U v V h1 c)
    then show ?thesis by (intro ok [of LT1 U v V 0 "h1(x := None)" c]) (simp_all add: arc_del_def)
  next
    case absent
    note a1 = this
    show ?thesis using assms(1)
    proof (cases rule: drop_cases [where w = LT2 and k = k])
      case (present x U v V h1 c)
      then show ?thesis using a1 by (intro ok [of LT2 U v V 0 "h1(x := None)" c]) (simp_all add: arc_del_def)
    next
      case absent
      note a2 = this
      show ?thesis using assms(1)
      proof (cases rule: drop_cases [where w = LB1 and k = k])
        case (present x U v V h1 c)
        then show ?thesis using a1 a2 by (intro ok [of LB1 U v V 0 "h1(x := None)" c]) (simp_all add: arc_del_def)
      next
        case absent
        note a3 = this
        show ?thesis using assms(1)
        proof (cases rule: drop_cases [where w = LB2 and k = k])
          case (present x U v V h1 c)
          then show ?thesis using a1 a2 a3 by (intro ok [of LB2 U v V 0 "h1(x := None)" c]) (simp_all add: arc_del_def)
        next
          case absent
          have "arc_map T k = None" using a1(1) a2(1) by (intro view_None) auto
          then show ?thesis using a1(2) a2(2) a3(2) absent(2) assms
            by (intro exI [of _ "-1"] exI [of _ h] exI [of _ A] exI [of _ T]) (simp add: arc_del_def fun_upd_idem)
        qed
      qed
    qed
  qed
qed

section \<open>The contract\<close>

definition arc_view :: "int \<Rightarrow> CacheManager \<Rightarrow> (string \<rightharpoonup> string) \<Rightarrow> bool" where
  "arc_view n g m \<longleftrightarrow> (\<exists>T. arc_inv g T \<and> m = arc_map T) \<and> max_items g = n"

lemma arc_get_view:
  assumes "arc_view n g m"
  shows "\<exists>g'. kvs_cache_get e g (Some k) = Some (m k, g') \<and> arc_view n g' m"
proof -
  obtain T where T: "arc_inv g T" "m = arc_map T" "max_items g = n" using assms by (auto simp: arc_view_def)
  have i: "arc_rep (cheap g) (arc g) T" "target_ok (arc g)" "arc_good T" "ghosts_le (max_items g) T"
      "policy g = EVICT_ARC" "0 < max_items g" "amax_size (arc g) = max_items g"
      "\<And>n. cnext g \<le> n \<Longrightarrow> cheap g (Ref n) = None" using T(1) by (auto simp: arc_inv_def)
  obtain h' A' T' where a: "arc_get (cheap g) (arc g) k = Some (m k, h', A')" "arc_rep h' A' T'" "arc_good T'"
      "arc_map T' = m" "payload h' = payload (cheap g)" "target_ok A'" "amax_size A' = amax_size (arc g)" "ghosts_le (max_items g) T'"
    using arc_get_rep [OF i(1-4), of k] T(2) by auto
  let ?g = "g\<lparr>cheap := h', arc := A'\<rparr>"
  let ?g' = "if m k \<noteq> None then count_hit ?g else count_miss ?g"
  have "h' (Ref i) = None" if "cnext g \<le> i" for i
    using fun_cong [OF a(5), of "Ref i"] i(8) [OF that] by (simp add: payload_def)
  then have "arc_inv ?g' T'" using a(2, 3, 6-8) i(5-7) by (simp add: arc_inv_def count_hit_def count_miss_def)
  then have "arc_view n ?g' m" using a(4) T(3) by (auto simp: arc_view_def count_hit_def count_miss_def)
  moreover have "kvs_cache_get e g (Some k) = Some (m k, ?g')"
    using i(5, 6) a(1) by (simp add: kvs_cache_get_def policy_defs Let_def)
  ultimately show ?thesis by blast
qed

lemma arc_del_view:
  assumes "arc_view n g m"
  shows "\<exists>r g'. kvs_cache_del g (Some k) = Some (r, g') \<and> arc_view n g' (m(k := None))"
proof -
  obtain T where T: "arc_inv g T" "m = arc_map T" "max_items g = n" using assms by (auto simp: arc_view_def)
  have i: "arc_rep (cheap g) (arc g) T" "target_ok (arc g)" "arc_good T" "ghosts_le (max_items g) T"
      "policy g = EVICT_ARC" "0 < max_items g" "amax_size (arc g) = max_items g"
      "\<And>n. cnext g \<le> n \<Longrightarrow> cheap g (Ref n) = None" using T(1) by (auto simp: arc_inv_def)
  obtain r h' A' T' where a: "arc_del (cheap g) (arc g) k = Some (r, h', A')" "arc_rep h' A' T'" "arc_good T'"
      "arc_map T' = m(k := None)" "ghosts_le (max_items g) T'" "target_size A' = target_size (arc g)"
      "amax_size A' = amax_size (arc g)" "\<forall>y. cheap g y = None \<longrightarrow> h' y = None"
    using arc_del_rep [OF i(1, 3, 4), of k] T(2) by auto
  let ?g = "g\<lparr>cheap := h', arc := A'\<rparr>"
  have "arc_inv ?g T'" using a(2, 3, 5-8) i(2, 5-8) by (simp add: arc_inv_def target_ok_def)
  then have "arc_view n ?g (m(k := None))" using a(4) T(3) by (auto simp: arc_view_def)
  moreover have "kvs_cache_del g (Some k) = Some (r, ?g)"
    using i(5, 6) a(1) by (simp add: kvs_cache_del_def policy_defs)
  ultimately show ?thesis by blast
qed

interpretation arcc: lookup_cache "arc_view n" kvs_cache_get cache_add kvs_cache_del for n
proof unfold_locales
  fix g m e k v
  assume v: "arc_view n g m"
  show "\<exists>g'. kvs_cache_get e g (Some k) = Some (m k, g') \<and> arc_view n g' m" by (rule arc_get_view [OF v])
  show "\<exists>r g'. kvs_cache_del g (Some k) = Some (r, g') \<and> arc_view n g' (m(k := None))" by (rule arc_del_view [OF v])
  assume e: "env_ok e" "m k = None"
  obtain T where T: "arc_inv g T" "m = arc_map T" "max_items g = n" using v by (auto simp: arc_view_def)
  obtain g' T' where g': "cache_add e g k v = Some g'" "arc_inv g' T'" "arc_map T' \<subseteq>\<^sub>m m(k \<mapsto> v)" "max_items g' = n"
    using arc_add_inv [OF T(1) e(1), of k v] e(2) T by auto
  then show "\<exists>g' m'. cache_add e g k v = Some g' \<and> arc_view n g' m' \<and> m' \<subseteq>\<^sub>m m(k \<mapsto> v)"
    by (auto simp: arc_view_def)
qed

lemma arc_init_view:
  assumes "env_ok e"
  shows "\<exists>g. kvs_cache_init e n = Some g \<and>
    arc_view (if n > 0 then n else DEFAULT_MAX_ITEMS) (kvs_cache_set_policy g EVICT_ARC) Map.empty"
proof -
  define mx where "mx = (if n > 0 then n else DEFAULT_MAX_ITEMS)"
  have mx: "0 < mx" by (simp add: mx_def DEFAULT_MAX_ITEMS_def)
  define A where "A = \<lparr>t1 = lru_init mx, t2 = lru_init mx, b1 = lru_init mx, b2 = lru_init mx, target_size = mx sdiv 2, amax_size = mx\<rparr>"
  have l: "lst A w = lru_init mx" for w by (cases w) (simp_all add: A_def)
  have "arc_rep h A (\<lambda>_. [])" for h
    unfolding arc_rep_def lists_rep_def l by (intro exI [of _ "\<lambda>_. []"]) (simp add: lru_rep_def lru_init_def)
  moreover have "target_ok A" using mx by (simp add: target_ok_def A_def signed_divide_int_def)
  moreover obtain g where g: "kvs_cache_init e n = Some g" "max_items g = mx" "arc g = A" "cheap g = Map.empty"
    using assms by (simp add: kvs_cache_init_def arc_init_def A_def mx_def Let_def)
  ultimately have "arc_inv (kvs_cache_set_policy g EVICT_ARC) (\<lambda>_. [])"
    using mx by (simp add: arc_inv_def kvs_cache_set_policy_def arc_good_def ghosts_le_def A_def)
  then have "arc_view mx (kvs_cache_set_policy g EVICT_ARC) Map.empty"
    using g(2) by (auto simp: arc_view_def kvs_cache_set_policy_def intro!: exI [of _ "\<lambda>_. []"])
  then show ?thesis using g(1) by (simp add: mx_def)
qed

section \<open>Sizes\<close>

lemma arc_sizes:
  assumes "arc_rep h A T"
  shows "lsize (lst A w) = int (length (T w))"
proof -
  obtain X where X: "lists_rep h A X" "carries h (X w) (T w)" using assms by (auto simp: arc_rep_def)
  show ?thesis using lists_repD(1) [OF X(1), of w] carries_length [OF X(2)] by (simp add: lru_rep_def)
qed

text \<open>A hit on a ghost puts its node back without an eviction, so the two lists of cached nodes
  together grow by one, whatever their sizes: the capacity does not bound them.\<close>

lemma ghost_hit_grows:
  assumes "arc_rep h A T" "target_ok A" "arc_access h A k = Some (hit, h', A')" "hit \<in> {ARC_HIT_B1, ARC_HIT_B2}"
  shows "lsize (t1 A') + lsize (t2 A') = lsize (t1 A) + lsize (t2 A) + 1"
proof -
  obtain T' where T': "arc_rep h' A' T'" "accessed T k hit T'" using arc_access_rep [OF assms(1, 2), of k] assms(3) by auto
  then have "length (T' LT1) = length (T LT1)" "length (T' LT2) = length (T LT2) + 1"
    using assms(4) unfolding accessed_def by (auto simp: arc_hits moved_def)
  then show ?thesis
    using arc_sizes [OF T'(1), of LT1] arc_sizes [OF T'(1), of LT2] arc_sizes [OF assms(1), of LT1] arc_sizes [OF assms(1), of LT2]
    by simp
qed

section \<open>Properties\<close>

text \<open>C17: Under the ARC policy, from initialisation, a reader behind the cache always gets what the store
  holds, whatever the sequence of reads and writes: ghost hits, adaptations of the target and
  evictions never show a stale or a missing value, and every call returns. Meanwhile the target stays
  between 0 and the capacity and neither ghost list exceeds the capacity.\<close>

theorem arc_cache_transparent:
  fixes n :: int and db :: "string \<rightharpoonup> string"
  assumes "env_ok e0" and "\<forall>(e, c) \<in> set ops. env_ok e"
  defines "mx \<equiv> (if n > 0 then n else DEFAULT_MAX_ITEMS)"
  shows "\<exists>g g'. kvs_cache_init e0 n = Some g \<and>
     store_run kvs_cache_get cache_add kvs_cache_del (kvs_cache_set_policy g EVICT_ARC) db ops = Some (store_answers db ops, g') \<and>
     max_items g' = mx \<and> 0 \<le> target_size (arc g') \<and> target_size (arc g') \<le> mx \<and>
     lsize (b1 (arc g')) \<le> mx \<and> lsize (b2 (arc g')) \<le> mx"
proof -
  obtain g where g: "kvs_cache_init e0 n = Some g" "arc_view mx (kvs_cache_set_policy g EVICT_ARC) Map.empty"
    using arc_init_view [OF assms(1), of n] by (auto simp: mx_def)
  obtain g' m where r: "store_run kvs_cache_get cache_add kvs_cache_del (kvs_cache_set_policy g EVICT_ARC) db ops =
      Some (store_answers db ops, g')" "arc_view mx g' m"
    using arcc.store_run_transparent [OF arcc.coherent_empty [OF g(2)] assms(2)] by blast
  then obtain T where T: "arc_inv g' T" "max_items g' = mx" by (auto simp: arc_view_def)
  then have "arc_rep (cheap g') (arc g') T" by (simp add: arc_inv_def)
  from arc_sizes [OF this, of LB1] arc_sizes [OF this, of LB2] show ?thesis
    using g(1) r(1) T by (auto simp: arc_inv_def ghosts_le_def target_ok_def)
qed

theorem arc_cache_transparent_witness:
  "\<exists>g g'. kvs_cache_init env0 1 = Some g \<and>
     store_run kvs_cache_get cache_add kvs_cache_del (kvs_cache_set_policy g EVICT_ARC) [''a'' \<mapsto> ''1'', ''b'' \<mapsto> ''2'']
       (map (Pair env0) [SRead ''a'', SRead ''b'', SRead ''a'', SWrite ''a'' (Some ''3''), SRead ''a'', SRead ''c'']) =
       Some ([Some ''1'', Some ''2'', Some ''1'', Some ''3'', None], g') \<and>
     target_size (arc g') \<le> 1 \<and> lsize (b1 (arc g')) \<le> 1"
  using arc_cache_transparent [of env0 "map (Pair env0) [SRead ''a'', SRead ''b'', SRead ''a'', SWrite ''a'' (Some ''3''), SRead ''a'', SRead ''c'']" 1
      "[''a'' \<mapsto> ''1'', ''b'' \<mapsto> ''2'']"] by auto

end
