(* ===== verification/Protocol_Correct.thy ===== *)
theory Protocol_Correct
  imports Protocol_Tokens Rdb_Correct Cache_LFU Cache_ARC
begin

text \<open>
  Correctness of the command protocol as a composition of its parts. The locale
  \<open>cached_engine\<close> joins the contract of an engine with the contract of the cache and proves
  once that the five commands of an engine, with the cache in front, reply as the abstract map
  does; it is interpreted for the four engines, with any of the three policies. From the bytes
  of a request to the text of its reply this gives \<open>server_refines_map\<close>. The cache is shared
  by the four engines and by the policies, and two theorems show the stale replies that follow.
  Saving, background saving and restarting are put together with the persistence layer.
\<close>

section \<open>From bytes to tokens\<close>

definition clean :: "string \<Rightarrow> bool" where
  "clean t \<longleftrightarrow> (\<forall>c \<in> set t. c \<notin> {CHR 0x22, CHR 0x0D, CHR 0x0A, CHR 0x00})"

text \<open>A received buffer: the command line, its line end, and the zero bytes behind it.\<close>

definition request_buffer :: "string list \<Rightarrow> nat \<Rightarrow> string" where
  "request_buffer ts n = command_line ts @ crlf @ replicate n (CHR 0x00)"

definition request_length :: "string list \<Rightarrow> int" where
  "request_length ts = int (length (command_line ts)) + 2"

lemma command_line_chars:
  "\<forall>t \<in> set ts. clean t \<Longrightarrow> c \<in> set (command_line ts) \<Longrightarrow> c \<notin> {CHR 0x0D, CHR 0x0A, CHR 0x00}"
  by (induction ts rule: command_line.induct) (auto simp: quote_def clean_def split: if_splits)

lemma blank_request:
  assumes "\<forall>t \<in> set ts. clean t"
  shows "blank_line_ends (nat (request_length ts)) (request_buffer ts n) =
    (command_line ts @ ''  '') @ replicate n (CHR 0x00)"
proof -
  let ?l = "command_line ts"
  have "nat (request_length ts) = length (?l @ crlf)" by (simp add: request_length_def crlf_def)
  then have "take (nat (request_length ts)) (request_buffer ts n) = ?l @ crlf"
    "drop (nat (request_length ts)) (request_buffer ts n) = replicate n (CHR 0x00)"
    by (simp_all add: request_buffer_def crlf_def)
  moreover have "map (\<lambda>c. if c = CHR 0x0D \<or> c = CHR 0x0A then CHR '' '' else c) ?l = ?l"
    using command_line_chars [OF assms] by (intro map_idI) auto
  ultimately show ?thesis by (simp add: blank_line_ends_def crlf_def)
qed

lemma protocol_request:
  assumes "\<forall>t \<in> set ts. clean t" "ts \<noteq> []" "length ts \<le> KVS_MAX_TOKENS" "0 < n"
  shows "kvs_protocol F rq (request_buffer ts n) (request_length ts) ns s = do {
    ((result, text), ns, s) \<leftarrow> kvs_filter_protocol F rq ts ns s;
    if result < 0 then Some (say ''ERROR'', ns, s) else Some ((result, text), ns, s) }"
proof -
  have nul: "CHR 0x00 \<notin> set (command_line ts @ ''  '')" using command_line_chars [OF assms(1)] by fastforce
  have "c_string ((command_line ts @ ''  '') @ replicate n (CHR 0x00)) = Some (command_line ts @ ''  '')"
    using nul assms(4) by (cases n) (simp_all add: c_string_def takeWhile_stop del: append_assoc)
  moreover have "\<forall>t \<in> set ts. plain t" using assms(1) by (auto simp: clean_def plain_def)
  then have "kvs_split_token (command_line ts @ ''  '') = ts"
    using split_from_line [of ts 0 "''  ''"] assms(3) by (simp add: kvs_split_token_def)
  moreover have "0 < request_length ts" "request_length ts \<le> int (length (request_buffer ts n))"
    by (simp_all add: request_length_def request_buffer_def crlf_def)
  ultimately show ?thesis
    using assms(2) by (simp add: kvs_protocol_def blank_request [OF assms(1)])
qed

section \<open>An engine behind the cache\<close>

text \<open>The five commands of an engine that is a component of the server's engines.\<close>

fun port_step :: "'s engine_ops \<Rightarrow> (engines \<Rightarrow> 's) \<Rightarrow> ('s \<Rightarrow> engines \<Rightarrow> engines) \<Rightarrow> request \<Rightarrow> 'f server \<Rightarrow> kv_cmd \<Rightarrow>
    (reply \<times> 'f server) option" where
  "port_step ops sel upd rq s (KSet k v) = do {
     (ret, x) \<leftarrow> op_set ops (rq_engine rq) (sel (engs s)) (Some k) (Some v);
     Some (set_reply ret, s\<lparr>engs := upd x (engs s)\<rparr>) }"
| "port_step ops sel upd rq s (KGet k) = cached_get rq s (Some k) (op_get ops (sel (engs s)) (Some k))"
| "port_step ops sel upd rq s (KDel k) = do {
     (ret, x) \<leftarrow> op_del ops (sel (engs s)) (Some k);
     s \<leftarrow> invalidate (s\<lparr>engs := upd x (engs s)\<rparr>) (Some k) ret;
     Some (del_reply ret, s) }"
| "port_step ops sel upd rq s (KMod k v) = do {
     (ret, x) \<leftarrow> op_mod ops (rq_engine rq) (sel (engs s)) (Some k) (Some v);
     s \<leftarrow> invalidate (s\<lparr>engs := upd x (engs s)\<rparr>) (Some k) ret;
     Some (del_reply ret, s) }"
| "port_step ops sel upd rq s (KExist k) = do {
     ret \<leftarrow> op_exist ops (sel (engs s)) (Some k);
     Some (exist_reply ret, s) }"

text \<open>The text of an abstract reply.\<close>

fun render :: "kv_cmd \<Rightarrow> kv_reply \<Rightarrow> reply" where
  "render (KSet k v) (Code r) = set_reply r"
| "render (KGet k) (Val None) = say ''NO EXIST''"
| "render (KGet k) (Val (Some v)) = reply_n (v @ crlf)"
| "render (KDel k) (Code r) = del_reply r"
| "render (KMod k v) (Code r) = del_reply r"
| "render (KExist k) (Code r) = exist_reply r"
| "render _ _ = say []"

definition request_ok :: "request \<Rightarrow> bool" where
  "request_ok rq \<longleftrightarrow> env_ok (rq_engine rq) \<and> env_ok (rq_fill rq)"

locale cached_engine =
  eng: kv_engine ops start inv contents key_ok cap +
  cache: lookup_cache rep kvs_cache_get cache_add kvs_cache_del
  for ops :: "'s engine_ops" and start inv contents key_ok cap and rep +
  fixes sel :: "engines \<Rightarrow> 's" and upd :: "'s \<Rightarrow> engines \<Rightarrow> engines"
  assumes sel_upd: "sel (upd x w) = x"
begin

definition served :: "'f server \<Rightarrow> bool" where
  "served s \<longleftrightarrow> inv (sel (engs s)) \<and> cache.coherent (base (cch s)) (contents (sel (engs s)))"

lemma get_served:
  assumes "served s" "key_ok k" "request_ok rq"
  shows "\<exists>s'. port_step ops sel upd rq s (KGet k) = Some (render (KGet k) (Val (contents (sel (engs s)) k)), s') \<and>
    served s' \<and> engs s' = engs s"
proof -
  let ?db = "contents (sel (engs s))"
  obtain m where m: "rep (base (cch s)) m" "m \<subseteq>\<^sub>m ?db" using assms(1) by (auto simp: served_def cache.coherent_def)
  obtain g where g: "kvs_cache_get (rq_lookup rq) (base (cch s)) (Some k) = Some (m k, g)" "rep g m"
    using cache.get_law [OF m(1)] by blast
  have e: "op_get ops (sel (engs s)) (Some k) = Some (?db k)" and inv: "inv (sel (engs s))"
    using assms(1, 2) eng.get_law by (auto simp: served_def)
  show ?thesis
  proof (cases "m k")
    case (Some v)
    then have "?db k = Some v" using m(2) by (metis domI map_le_def)
    then show ?thesis using g m(2) Some inv by (auto simp: cached_get_def served_def cache.coherent_def)
  next
    case None
    show ?thesis
    proof (cases "?db k")
      case db: None
      then show ?thesis using g m(2) None e inv by (auto simp: cached_get_def served_def cache.coherent_def)
    next
      case db: (Some v)
      obtain g2 m2 where g2: "cache_add (rq_fill rq) g k v = Some g2" "rep g2 m2" "m2 \<subseteq>\<^sub>m m(k \<mapsto> v)"
        using cache.add_law [OF g(2) _ None, of "rq_fill rq" v] assms(3) unfolding request_ok_def by blast
      have "m(k \<mapsto> v) \<subseteq>\<^sub>m ?db" using m(2) db by (auto simp: map_le_def)
      then have "m2 \<subseteq>\<^sub>m ?db" using g2(3) map_le_trans by blast
      then show ?thesis using g g2 None e inv db
        by (auto simp: cached_get_def served_def cache.coherent_def cache_add_def)
    qed
  qed
qed

lemma write_served:
  assumes "served s" "inv x" "contents x = (contents (sel (engs s)))(k := w)"
  shows "\<exists>s'. invalidate (s\<lparr>engs := upd x (engs s)\<rparr>) (Some k) 0 = Some s' \<and> served s' \<and> sel (engs s') = x"
proof -
  have "cache.coherent (base (cch s)) (contents (sel (engs s)))" using assms(1) by (simp add: served_def)
  from cache.invalidate_coherent [OF this, of k w] show ?thesis
    using assms(2, 3) by (auto simp: invalidate_def served_def sel_upd)
qed

lemma step_refines:
  assumes "served s" "key_ok (cmd_key c)" "request_ok rq"
  shows "\<exists>s'. port_step ops sel upd rq s c =
      Some (render c (fst (spec_step cap (contents (sel (engs s))) c)), s') \<and> served s' \<and>
    contents (sel (engs s')) = snd (spec_step cap (contents (sel (engs s))) c)"
proof -
  let ?x = "sel (engs s)" and ?e = "rq_engine rq"
  have inv: "inv ?x" and co: "cache.coherent (base (cch s)) (contents ?x)" using assms(1) by (auto simp: served_def)
  have ok: "env_ok ?e" using assms(3) by (simp add: request_ok_def)
  show ?thesis
  proof (cases c)
    case (KSet k v)
    then have k: "key_ok k" using assms(2) by simp
    consider "\<not> has_room cap (contents ?x)" | "has_room cap (contents ?x)" "contents ?x k \<noteq> None"
      | "has_room cap (contents ?x)" "contents ?x k = None" by blast
    then show ?thesis
    proof cases
      case 3
      obtain x where "op_set ops ?e ?x (Some k) (Some v) = Some (0, x)" "inv x" "contents x = (contents ?x)(k \<mapsto> v)"
        using eng.set_new [OF inv k ok 3] by blast
      then show ?thesis using KSet 3 cache.insert_coherent [OF co 3(2)] by (auto simp: served_def sel_upd)
    qed (use KSet inv co eng.set_full [OF inv k] eng.set_dup [OF inv k] in \<open>auto simp: served_def sel_upd\<close>)
  next
    case (KGet k)
    then have "key_ok k" using assms(2) by simp
    then obtain s' where "port_step ops sel upd rq s (KGet k) = Some (render (KGet k) (Val (contents ?x k)), s')"
        "served s'" "engs s' = engs s"
      using get_served [OF assms(1) _ assms(3)] by blast
    then show ?thesis using KGet by simp
  next
    case (KDel k)
    then have k: "key_ok k" using assms(2) by simp
    show ?thesis
    proof (cases "contents ?x k = None")
      case True
      then show ?thesis using KDel inv co eng.del_miss [OF inv k] by (auto simp: served_def sel_upd invalidate_def)
    next
      case False
      obtain x where x: "op_del ops ?x (Some k) = Some (0, x)" "inv x" "contents x = (contents ?x)(k := None)"
        using eng.del_hit [OF inv k False] by blast
      from write_served [OF assms(1) x(2, 3)] show ?thesis using KDel False x by auto
    qed
  next
    case (KMod k v)
    then have k: "key_ok k" using assms(2) by simp
    show ?thesis
    proof (cases "contents ?x k = None")
      case True
      then show ?thesis using KMod inv co eng.mod_miss [OF inv k] by (auto simp: served_def sel_upd invalidate_def)
    next
      case False
      obtain x where x: "op_mod ops ?e ?x (Some k) (Some v) = Some (0, x)" "inv x" "contents x = (contents ?x)(k \<mapsto> v)"
        using eng.mod_hit [OF inv k ok False] by blast
      from write_served [OF assms(1) x(2, 3)] show ?thesis using KMod False x by auto
    qed
  next
    case (KExist k)
    then show ?thesis using assms inv eng.exist_law [OF inv] by auto
  qed
qed

text \<open>Only the engine's own component of the engines changes.\<close>

lemma step_engs:
  assumes "port_step ops sel upd rq s c = Some (r, s')"
  shows "engs s' \<in> insert (engs s) (range (\<lambda>x. upd x (engs s)))"
  using assms
  by (cases c) (auto simp: cached_get_def invalidate_def Let_def split: bind_splits option.splits if_splits)

lemma step_framed:
  assumes "served s" "key_ok (cmd_key c)" "request_ok rq" "P (engs s)" "\<And>x. inv x \<Longrightarrow> P (upd x (engs s))"
  shows "\<exists>s'. port_step ops sel upd rq s c =
      Some (render c (fst (spec_step cap (contents (sel (engs s))) c)), s') \<and> served s' \<and> P (engs s') \<and>
    contents (sel (engs s')) = snd (spec_step cap (contents (sel (engs s))) c)"
proof -
  obtain s' where s': "port_step ops sel upd rq s c =
      Some (render c (fst (spec_step cap (contents (sel (engs s))) c)), s')" "served s'"
      "contents (sel (engs s')) = snd (spec_step cap (contents (sel (engs s))) c)"
    using step_refines [OF assms(1-3)] by blast
  moreover have "P (engs s')" using step_engs [OF s'(1)] s'(2) assms(4, 5) by (auto simp: served_def sel_upd)
  ultimately show ?thesis by blast
qed

end

text \<open>The cache under any of its policies.\<close>

definition any_view :: "CacheManager \<Rightarrow> (string \<rightharpoonup> string) \<Rightarrow> bool" where
  "any_view g m \<longleftrightarrow> lru_view g m \<or> lfu_view g m \<or> (\<exists>n. arc_view n g m)"

interpretation anyc: lookup_cache any_view kvs_cache_get cache_add kvs_cache_del
proof
  fix g m e k v
  assume "any_view g m"
  then consider (lru) "lru_view g m" | (lfu) "lfu_view g m" | (arc) n where "arc_view n g m" by (auto simp: any_view_def)
  note c = this
  show "\<exists>g'. kvs_cache_get e g (Some k) = Some (m k, g') \<and> any_view g' m"
    unfolding any_view_def using c by cases (use lrc.get_law [of g m e k] lfc.get_law [of g m e k] arcc.get_law [of _ g m e k] in blast)+
  show "\<exists>r g'. kvs_cache_del g (Some k) = Some (r, g') \<and> any_view g' (m(k := None))"
    unfolding any_view_def using c by cases (use lrc.del_law [of g m k] lfc.del_law [of g m k] arcc.del_law [of _ g m k] in blast)+
  assume a: "env_ok e" "m k = None"
  show "\<exists>g' m'. cache_add e g k v = Some g' \<and> any_view g' m' \<and> m' \<subseteq>\<^sub>m m(k \<mapsto> v)"
    unfolding any_view_def using c by cases (use lrc.add_law [of g m e k v] lfc.add_law [of g m e k v] arcc.add_law [of _ g m e k v] a in blast)+
qed

interpretation parr: cached_engine array_ops array_start array_inv array_map "\<lambda>_. True" "enat KVS_ARRAY_SIZE" any_view
  global_array "\<lambda>x w. w\<lparr>global_array := x\<rparr>"
  by unfold_locales simp

interpretation prbt: cached_engine rbtree_ops rbtree_start rbtree_inv rbtree_map "\<lambda>_. True" \<infinity> any_view
  global_rbtree "\<lambda>x w. w\<lparr>global_rbtree := x\<rparr>"
  by unfold_locales simp

interpretation phsh: cached_engine hash_ops hash_start hash_inv hash_map hash_key_ok \<infinity> any_view
  global_hash "\<lambda>x w. w\<lparr>global_hash := x\<rparr>"
  by unfold_locales simp

interpretation pskp: cached_engine skip_ops skip_start skip_inv skip_map "\<lambda>_. True" \<infinity> any_view
  global_skip "\<lambda>x w. w\<lparr>global_skip := x\<rparr>"
  by unfold_locales simp

section \<open>The server as a map\<close>

text \<open>The four families of commands: their names, the map behind them and its limits.\<close>

datatype family = Array_Cmds | Rbtree_Cmds | Hash_Cmds | Skip_Cmds

fun prefix :: "family \<Rightarrow> string" where
  "prefix Array_Cmds = []"
| "prefix Rbtree_Cmds = ''R''"
| "prefix Hash_Cmds = ''H''"
| "prefix Skip_Cmds = ''S''"

fun tokens_of :: "family \<Rightarrow> kv_cmd \<Rightarrow> string list" where
  "tokens_of f (KSet k v) = [prefix f @ ''SET'', k, v]"
| "tokens_of f (KGet k) = [prefix f @ ''GET'', k]"
| "tokens_of f (KDel k) = [prefix f @ ''DEL'', k]"
| "tokens_of f (KMod k v) = [prefix f @ ''MOD'', k, v]"
| "tokens_of f (KExist k) = [prefix f @ ''EXIST'', k]"

fun family_map :: "family \<Rightarrow> engines \<Rightarrow> kv_map" where
  "family_map Array_Cmds w = array_map (global_array w)"
| "family_map Rbtree_Cmds w = rbtree_map (global_rbtree w)"
| "family_map Hash_Cmds w = hash_map (global_hash w)"
| "family_map Skip_Cmds w = skip_map (global_skip w)"

fun family_cap :: "family \<Rightarrow> enat" where
  "family_cap Array_Cmds = enat KVS_ARRAY_SIZE"
| "family_cap _ = \<infinity>"

fun family_key_ok :: "family \<Rightarrow> string \<Rightarrow> bool" where
  "family_key_ok Hash_Cmds k = hash_key_ok k"
| "family_key_ok _ k = True"

text \<open>Engines well formed, and a cache that answers only what the family's engine holds.\<close>

definition server_ok :: "family \<Rightarrow> 'f server \<Rightarrow> bool" where
  "server_ok f s \<longleftrightarrow> engines_inv (engs s) \<and> (\<exists>m. any_view (base (cch s)) m \<and> m \<subseteq>\<^sub>m family_map f (engs s))"

text \<open>The key a command works on in a namespace.\<close>

definition in_ns :: "string \<Rightarrow> string \<Rightarrow> string" where
  "in_ns ns k = (if ns = [] \<or> ns = ''default'' then k else take 255 (ns @ '':'' @ k))"

fun cmd_in_ns :: "string \<Rightarrow> kv_cmd \<Rightarrow> kv_cmd" where
  "cmd_in_ns ns (KSet k v) = KSet (in_ns ns k) v"
| "cmd_in_ns ns (KGet k) = KGet (in_ns ns k)"
| "cmd_in_ns ns (KDel k) = KDel (in_ns ns k)"
| "cmd_in_ns ns (KMod k v) = KMod (in_ns ns k) v"
| "cmd_in_ns ns (KExist k) = KExist (in_ns ns k)"

lemma make_key: "make_namespaced_key (Some ns) (Some k) = Some (Some (in_ns ns k))"
  by (simp add: make_namespaced_key_def in_ns_def snprintf_def)

text \<open>The dispatcher sends a family's command to its engine.\<close>

definition family_step :: "family \<Rightarrow> request \<Rightarrow> 'f server \<Rightarrow> kv_cmd \<Rightarrow> (reply \<times> 'f server) option" where
  "family_step f = (case f of
     Array_Cmds \<Rightarrow> port_step array_ops global_array (\<lambda>x w. w\<lparr>global_array := x\<rparr>)
   | Rbtree_Cmds \<Rightarrow> port_step rbtree_ops global_rbtree (\<lambda>x w. w\<lparr>global_rbtree := x\<rparr>)
   | Hash_Cmds \<Rightarrow> port_step hash_ops global_hash (\<lambda>x w. w\<lparr>global_hash := x\<rparr>)
   | Skip_Cmds \<Rightarrow> port_step skip_ops global_skip (\<lambda>x w. w\<lparr>global_skip := x\<rparr>))"

lemma find_command_family:
  "find_command ''SET'' = KVS_CMD_SET" "find_command ''GET'' = KVS_CMD_GET" "find_command ''DEL'' = KVS_CMD_DEL"
  "find_command ''MOD'' = KVS_CMD_MOD" "find_command ''EXIST'' = KVS_CMD_EXIST"
  "find_command ''RSET'' = KVS_CMD_RSET" "find_command ''RGET'' = KVS_CMD_RGET" "find_command ''RDEL'' = KVS_CMD_RDEL"
  "find_command ''RMOD'' = KVS_CMD_RMOD" "find_command ''REXIST'' = KVS_CMD_REXIST"
  "find_command ''HSET'' = KVS_CMD_HSET" "find_command ''HGET'' = KVS_CMD_HGET" "find_command ''HDEL'' = KVS_CMD_HDEL"
  "find_command ''HMOD'' = KVS_CMD_HMOD" "find_command ''HEXIST'' = KVS_CMD_HEXIST"
  "find_command ''SSET'' = KVS_CMD_SSET" "find_command ''SGET'' = KVS_CMD_SGET" "find_command ''SDEL'' = KVS_CMD_SDEL"
  "find_command ''SMOD'' = KVS_CMD_SMOD" "find_command ''SEXIST'' = KVS_CMD_SEXIST"
  by (simp_all add: find_command_def command_def)

lemma filter_family:
  "kvs_filter_protocol F rq (tokens_of f c) (Some ns) s =
     do { (r, s) \<leftarrow> family_step f rq s (cmd_in_ns ns c); Some (r, Some ns, s) }"
  by (cases c; cases f)
    (simp_all add: kvs_filter_protocol_def find_command_family value_of_def takes_value_def tok_def with_key_def
      make_key family_step_def array_ops_def rbtree_ops_def hash_ops_def skip_ops_def
      cmd_set_def cmd_get_def cmd_del_def cmd_mod_def cmd_exist_def
      cmd_rset_def cmd_rget_def cmd_rdel_def cmd_rmod_def cmd_rexist_def
      cmd_hset_def cmd_hget_def cmd_hdel_def cmd_hmod_def cmd_hexist_def
      cmd_sset_def cmd_sget_def cmd_sdel_def cmd_smod_def cmd_sexist_def)

lemmas family_defs = server_ok_def parr.served_def prbt.served_def phsh.served_def pskp.served_def
  anyc.coherent_def engines_inv_def

lemma family_step_refines:
  assumes "server_ok f s" "family_key_ok f (cmd_key c)" "request_ok rq"
  defines "a \<equiv> spec_step (family_cap f) (family_map f (engs s)) c"
  shows "\<exists>s'. family_step f rq s c = Some (render c (fst a), s') \<and> server_ok f s' \<and> family_map f (engs s') = snd a"
proof (cases f)
  case Array_Cmds
  then show ?thesis
    using parr.step_framed [where P = engines_inv and s = s and c = c and rq = rq] assms by (auto simp: a_def family_step_def family_defs)
next
  case Rbtree_Cmds
  then show ?thesis
    using prbt.step_framed [where P = engines_inv and s = s and c = c and rq = rq] assms by (auto simp: a_def family_step_def family_defs)
next
  case Hash_Cmds
  then show ?thesis
    using phsh.step_framed [where P = engines_inv and s = s and c = c and rq = rq] assms by (auto simp: a_def family_step_def family_defs)
next
  case Skip_Cmds
  then show ?thesis
    using pskp.step_framed [where P = engines_inv and s = s and c = c and rq = rq] assms by (auto simp: a_def family_step_def family_defs)
qed

text \<open>A session: requests as bytes in a buffer with \<open>n\<close> zero bytes behind them, replies as texts.\<close>

fun session :: "'f float_ops \<Rightarrow> family \<Rightarrow> cstr \<Rightarrow> 'f server \<Rightarrow> (request \<times> nat \<times> kv_cmd) list \<Rightarrow>
    (reply list \<times> 'f server) option" where
  "session F f ns s [] = Some ([], s)"
| "session F f ns s ((rq, n, c) # cs) = do {
     (r, ns, s) \<leftarrow> kvs_protocol F rq (request_buffer (tokens_of f c) n) (request_length (tokens_of f c)) ns s;
     (rs, s) \<leftarrow> session F f ns s cs;
     Some (r # rs, s) }"

definition sound_request :: "family \<Rightarrow> string \<Rightarrow> request \<times> nat \<times> kv_cmd \<Rightarrow> bool" where
  "sound_request f ns = (\<lambda>(rq, n, c). request_ok rq \<and> 0 < n \<and> (\<forall>t \<in> set (tokens_of f c). clean t) \<and>
     family_key_ok f (cmd_key (cmd_in_ns ns c)))"

lemma render_nonneg: "0 \<le> fst (render c r)"
  by (cases "(c, r)" rule: render.cases)
    (auto simp: set_reply_def del_reply_def exist_reply_def say_def reply_n_def snprintf_def)

lemma protocol_step:
  assumes "server_ok f s" "sound_request f ns (rq, n, c)"
  defines "a \<equiv> spec_step (family_cap f) (family_map f (engs s)) (cmd_in_ns ns c)"
  shows "\<exists>s'. kvs_protocol F rq (request_buffer (tokens_of f c) n) (request_length (tokens_of f c)) (Some ns) s =
      Some (render (cmd_in_ns ns c) (fst a), Some ns, s') \<and> server_ok f s' \<and> family_map f (engs s') = snd a"
proof -
  obtain s' where s': "family_step f rq s (cmd_in_ns ns c) = Some (render (cmd_in_ns ns c) (fst a), s')"
      "server_ok f s'" "family_map f (engs s') = snd a"
    using family_step_refines [OF assms(1), of "cmd_in_ns ns c" rq] assms(2) unfolding a_def sound_request_def by auto
  have "length (tokens_of f c) \<le> KVS_MAX_TOKENS" "tokens_of f c \<noteq> []" by (cases c; simp add: KVS_MAX_TOKENS_def)+
  then show ?thesis
    using s' assms(2) render_nonneg [of "cmd_in_ns ns c" "fst a"]
    by (cases "render (cmd_in_ns ns c) (fst a)") (simp add: protocol_request sound_request_def filter_family)
qed

lemma session_refines:
  assumes "server_ok f s" "\<forall>r \<in> set rs. sound_request f ns r"
  defines "cs \<equiv> map (\<lambda>(rq, n, c). cmd_in_ns ns c) rs"
  defines "a \<equiv> spec_run (family_cap f) (family_map f (engs s)) cs"
  shows "\<exists>s'. session F f (Some ns) s rs = Some (map2 render cs (fst a), s') \<and> server_ok f s' \<and>
    family_map f (engs s') = snd a"
  using assms(1, 2) unfolding a_def cs_def
proof (induction rs arbitrary: s)
  case (Cons r rs)
  obtain rq n c where r: "r = (rq, n, c)" by (cases r)
  obtain s1 where s1: "kvs_protocol F rq (request_buffer (tokens_of f c) n) (request_length (tokens_of f c)) (Some ns) s =
      Some (render (cmd_in_ns ns c) (fst (spec_step (family_cap f) (family_map f (engs s)) (cmd_in_ns ns c))), Some ns, s1)"
      "server_ok f s1" "family_map f (engs s1) = snd (spec_step (family_cap f) (family_map f (engs s)) (cmd_in_ns ns c))"
    using protocol_step [OF Cons.prems(1), of ns rq n c F] Cons.prems(2) r by auto
  then show ?case
    using Cons.IH [OF s1(2)] Cons.prems(2) by (auto simp: r Let_def split_beta)
qed simp

text \<open>C1: from bytes to replies. In any namespace, every session of well-formed requests to one
  family of commands (array, red-black tree, hash table or skip list), with the LRU, LFU or ARC cache
  in front, is answered, request by request, with the text that a map of the family's capacity
  would give; the server stays well formed and its engine ends with the map's contents.\<close>

theorem server_refines_map:
  assumes "server_ok f s" "\<forall>r \<in> set rs. sound_request f ns r"
  defines "cs \<equiv> map (\<lambda>(rq, n, c). cmd_in_ns ns c) rs"
  defines "a \<equiv> spec_run (family_cap f) (family_map f (engs s)) cs"
  shows "\<exists>s'. session F f (Some ns) s rs = Some (map2 render cs (fst a), s') \<and> server_ok f s' \<and>
    family_map f (engs s') = snd a"
  using session_refines [OF assms(1, 2)] unfolding a_def cs_def .

section \<open>A fresh server\<close>

text \<open>The engines start empty, and then the dump is loaded, if there is one.\<close>

lemma init_kvengine_loads:
  assumes "\<forall>i. env_ok (es i)" "rdb_load_default les d engines_start = Some (n, w)"
  shows "\<exists>s. init_kvengine F es les d = Some (0, s) \<and> engs s = w \<and> lru_inv (base (cch s)) [] \<and>
    max_items (base (cch s)) = 1000 \<and> dsk s = d \<and> saving s = []"
proof -
  obtain c where c: "kvs_cache_init (es 5) 1000 = Some c" "lru_inv c []" "max_items c = 1000"
    using lru_init_inv [of "es 5" 1000] assms(1) by auto
  have "kvs_rbtree_create (es 1) rbtree_zero = Some (0, rbtree_start)"
    using assms(1) by (simp add: kvs_rbtree_create_def rbtree_zero_def rbtree_start_def set_color_def write_node_def Let_def numeral_2_eq_2)
  moreover have "kvs_array_create (es 0) array_zero = (0, array_start)"
    using assms(1) by (simp add: kvs_array_create_def array_zero_def array_start_def)
  moreover have "kvs_hash_create (es 2) hash_zero = (0, hash_start)"
    using assms(1) by (simp add: kvs_hash_create_def hash_zero_def hash_start_def)
  moreover have "kvs_skip_create (es 3) skip_zero = (0, skip_start)"
    using assms(1) by (simp add: kvs_skip_create_def createNode_def skip_zero_def skip_start_def)
  ultimately show ?thesis
    using c assms(2) by (auto simp: init_kvengine_def engines_start_def stats_init_def Let_def split_beta)
qed

lemma init_server:
  assumes "\<forall>i. env_ok (es i)" "d RDB_FILENAME = None"
  shows "\<exists>s. init_kvengine F es les d = Some (0, s) \<and> engs s = engines_start \<and> lru_inv (base (cch s)) [] \<and>
    max_items (base (cch s)) = 1000 \<and> dsk s = d \<and> saving s = []"
  using init_kvengine_loads [OF assms(1), of les d 0 engines_start] assms(2)
  by (simp add: rdb_load_default_def rdb_load_def)

lemma fresh_server_ok:
  assumes "engs s = engines_start" "lru_inv (base (cch s)) []"
  shows "server_ok f s" "family_map f (engs s) = Map.empty"
proof -
  have "lru_view (base (cch s)) Map.empty" using lru_viewI [OF assms(2)] by simp
  then show "server_ok f s" using assms(1) engines_start_inv unfolding server_ok_def any_view_def by auto
  show "family_map f (engs s) = Map.empty"
    using assms(1) by (cases f) (simp_all add: engines_start_def arr.start_contents hsh.start_contents
      rbt.start_contents skp.start_contents)
qed

text \<open>A request with enough memory and a successful save.\<close>

definition rq0 :: request where
  "rq0 = \<lparr>rq_engine = env0, rq_lookup = env0, rq_fill = env0, rq_os = os0, rq_fork = 1, rq_mtime = 0\<rparr>"

lemma rq0_ok [simp]: "request_ok rq0"
  by (simp add: request_ok_def rq0_def)

theorem server_refines_map_witness:
  "\<exists>s s'. init_kvengine rat_ops (\<lambda>_. env0) (\<lambda>_. env0) Map.empty = Some (0, s) \<and>
     session rat_ops Array_Cmds (Some ''default'') s
       [(rq0, 1, KSet ''k'' ''a b''), (rq0, 1, KGet ''k''), (rq0, 1, KMod ''k'' ''c''), (rq0, 1, KGet ''k''),
        (rq0, 1, KDel ''k''), (rq0, 1, KExist ''k'')] =
       Some ([say ''OK'', say ''a b'', say ''OK'', say ''c'', say ''OK'', say ''NO EXIST''], s')"
proof -
  obtain s where s: "init_kvengine rat_ops (\<lambda>_. env0) (\<lambda>_. env0) Map.empty = Some (0, s)" "engs s = engines_start"
      "lru_inv (base (cch s)) []"
    using init_server [of "\<lambda>_. env0" Map.empty rat_ops "\<lambda>_. env0"] by auto
  note f = fresh_server_ok [OF s(2, 3), of Array_Cmds]
  let ?rs = "[(rq0, 1, KSet ''k'' ''a b''), (rq0, 1, KGet ''k''), (rq0, 1, KMod ''k'' ''c''), (rq0, 1, KGet ''k''),
        (rq0, 1, KDel ''k''), (rq0, 1, KExist ''k'')]"
  have "\<forall>r \<in> set ?rs. sound_request Array_Cmds ''default'' r"
    by (simp add: sound_request_def clean_def)
  from server_refines_map [OF f(1) this, of rat_ops] show ?thesis
    using s(1) f(2)
    by (auto simp: in_ns_def has_room_def KVS_ARRAY_SIZE_def Let_def reply_n_def snprintf_def RESPONSE_MAX_LEN_def
        crlf_def say_def set_reply_def del_reply_def exist_reply_def)
qed

section \<open>One cache for all engines and all policies\<close>

fun talk :: "'f float_ops \<Rightarrow> cstr \<Rightarrow> 'f server \<Rightarrow> (request \<times> string list) list \<Rightarrow> (reply list \<times> 'f server) option" where
  "talk F ns s [] = Some ([], s)"
| "talk F ns s ((rq, ts) # rs) = do {
     (r, ns, s) \<leftarrow> kvs_protocol F rq (request_buffer ts 1) (request_length ts) ns s;
     (rs, s) \<leftarrow> talk F ns s rs;
     Some (r # rs, s) }"

lemma talk_family:
  assumes "family_step f rq s c = Some (r, s')" "0 \<le> fst r" "\<forall>t \<in> set (tokens_of f c). clean t"
  shows "talk F (Some ''default'') s ((rq, tokens_of f c) # rs) =
    do { (rs, s) \<leftarrow> talk F (Some ''default'') s' rs; Some (r # rs, s) }"
proof -
  have "length (tokens_of f c) \<le> KVS_MAX_TOKENS" "tokens_of f c \<noteq> []" "cmd_in_ns ''default'' c = c"
    by (cases c; simp add: KVS_MAX_TOKENS_def in_ns_def)+
  then show ?thesis using assms by (cases r) (simp add: protocol_request filter_family)
qed

lemma evict_loop_lfu:
  assumes "evict_loop g = Some g'"
  shows "lfu g' = lfu g"
proof (rule evict_loop.raw_induct [OF _ assms])
  fix f :: "CacheManager \<Rightarrow> CacheManager option" and g g'
  assume IH: "\<And>g g'. f g = Some g' \<Longrightarrow> lfu g' = lfu g"
    and step: "(if max_items g \<le> lsize (lru g) then kvs_cache_lru_evict_key g \<bind> (\<lambda>r. f (snd r)) else Some g) = Some g'"
  show "lfu g' = lfu g" using step IH by (auto simp: kvs_cache_lru_evict_key_def split: if_splits bind_splits)
qed

text \<open>Under the LRU policy the LFU heap is left alone.\<close>

lemma lru_keeps_lfu:
  "policy g = EVICT_LRU \<Longrightarrow> kvs_cache_get e g k = Some (r, g') \<Longrightarrow> lfu g' = lfu g"
  "policy g = EVICT_LRU \<Longrightarrow> kvs_cache_lru_add e g k' v len = Some g' \<Longrightarrow> lfu g' = lfu g"
  by (auto simp: kvs_cache_get_def kvs_cache_lru_add_def count_hit_def count_miss_def EVICT_LRU_def EVICT_ARC_def
      EVICT_LFU_def Let_def split: if_splits bind_splits option.splits dest!: evict_loop_lfu)

lemma cached_get_fill:
  assumes "lru_inv (base (cch s)) []" "env_ok (rq_fill rq)"
  shows "\<exists>s'. cached_get rq s (Some k) (Some (Some v)) = Some (reply_n (v @ crlf), s') \<and> engs s' = engs s \<and>
    lru_inv (base (cch s')) [(k, v)] \<and> lfu (base (cch s')) = lfu (base (cch s))"
proof -
  let ?g = "base (cch s)"
  obtain g where g: "kvs_cache_get (rq_lookup rq) ?g (Some k) = Some (None, g)" "lru_inv g []"
    using lru_get_refines [OF assms(1), of "rq_lookup rq" k 0] by auto
  obtain g' where g': "kvs_cache_lru_add (rq_fill rq) g k v (int (length v) + 1) = Some g'" "lru_inv g' [(k, v)]"
    using lru_add_refines [OF g(2) assms(2), of k v "int (length v) + 1"] by auto
  have p: "policy ?g = EVICT_LRU" "policy g = EVICT_LRU" using assms(1) g(2) by (auto simp: lru_inv_def)
  show ?thesis
    using g g' lru_keeps_lfu(1) [OF p(1) g(1)] lru_keeps_lfu(2) [OF p(2) g'(1)] by (simp add: cached_get_def)
qed

lemma cached_get_hit:
  assumes "lru_inv (base (cch s)) L" "map_of L k = Some v"
  shows "\<exists>s'. cached_get rq s (Some k) r = Some (reply_n (v @ crlf), s') \<and> engs s' = engs s"
  using lru_get_refines [OF assms(1), of "rq_lookup rq" k 0] assms(2) by (auto simp: cached_get_def)

lemma array_set_fresh:
  assumes "engs s = engines_start"
  shows "\<exists>x. family_step Array_Cmds rq0 s (KSet k v) = Some (say ''OK'', s\<lparr>engs := engines_start\<lparr>global_array := x\<rparr>\<rparr>) \<and>
    array_inv x \<and> array_map x = [k \<mapsto> v]"
proof -
  have "has_room (enat KVS_ARRAY_SIZE) (array_map array_start)"
    by (simp add: arr.start_contents has_room_def KVS_ARRAY_SIZE_def)
  then show ?thesis
    using arr.set_new [OF arr.start_inv TrueI env0_ok, of k v] assms
    by (auto simp: family_step_def rq0_def arr.start_contents engines_start_def set_reply_def)
qed

lemma say_nonneg: "0 \<le> fst (say t)"
  by (simp add: say_def)

lemma reply_1: "reply_n (CHR ''1'' # crlf) = say ''1''"
  by (simp add: reply_n_def say_def snprintf_def RESPONSE_MAX_LEN_def crlf_def)

text \<open>C33: the cache does not know which engine a value came from. On a fresh server, after
  \<open>SET k 1\<close>, \<open>GET k\<close> and \<open>HSET k 2\<close>, the command \<open>HGET k\<close> is answered with 1, although the
  hash table holds 2.\<close>

theorem cache_mixes_engines:
  "\<exists>s s'. init_kvengine F (\<lambda>_. env0) (\<lambda>_. env0) Map.empty = Some (0, s) \<and>
     talk F (Some ''default'') s [(rq0, [''SET'', ''k'', ''1'']), (rq0, [''GET'', ''k'']), (rq0, [''HSET'', ''k'', ''2'']),
       (rq0, [''HGET'', ''k''])] = Some ([say ''OK'', say ''1'', say ''OK'', say ''1''], s') \<and>
     hash_map (global_hash (engs s')) ''k'' = Some ''2''"
proof -
  obtain s where s: "init_kvengine F (\<lambda>_. env0) (\<lambda>_. env0) Map.empty = Some (0, s)" "engs s = engines_start"
      "lru_inv (base (cch s)) []"
    using init_server [of "\<lambda>_. env0" Map.empty F "\<lambda>_. env0"] by auto
  obtain x where x: "family_step Array_Cmds rq0 s (KSet ''k'' ''1'') = Some (say ''OK'', s\<lparr>engs := engines_start\<lparr>global_array := x\<rparr>\<rparr>)"
      "array_inv x" "array_map x = [''k'' \<mapsto> ''1'']"
    using array_set_fresh [OF s(2)] by blast
  let ?s1 = "s\<lparr>engs := engines_start\<lparr>global_array := x\<rparr>\<rparr>"
  obtain s2 where s2: "family_step Array_Cmds rq0 ?s1 (KGet ''k'') = Some (say ''1'', s2)" "engs s2 = engs ?s1"
      "lru_inv (base (cch s2)) [(''k'', ''1'')]"
    using cached_get_fill [of ?s1 rq0 "''k''" "''1''"] s(3) arr.get_law [OF x(2), of "''k''"] x(3)
    by (auto simp: family_step_def rq0_def reply_1)
  have kok: "hash_key_ok ''k''" by (simp add: hash_key_ok_def hash_of_def schar_def MAX_TABLE_SIZE_def signed_modulo_int_def)
  obtain y where y: "op_set hash_ops env0 hash_start (Some ''k'') (Some ''2'') = Some (0, y)" "hash_map y ''k'' = Some ''2''"
    using hsh.set_new [OF hsh.start_inv kok env0_ok, of "''2''"] by (auto simp: hsh.start_contents has_room_def)
  let ?s3 = "s2\<lparr>engs := (engs s2)\<lparr>global_hash := y\<rparr>\<rparr>"
  have s3: "family_step Hash_Cmds rq0 s2 (KSet ''k'' ''2'') = Some (say ''OK'', ?s3)"
    using s2(2) y(1) by (simp add: family_step_def rq0_def engines_start_def set_reply_def)
  obtain s4 where "family_step Hash_Cmds rq0 ?s3 (KGet ''k'') = Some (say ''1'', s4)" "engs s4 = engs ?s3"
    using cached_get_hit [of ?s3 "[(''k'', ''1'')]" "''k''" "''1''" rq0] s2(3) by (auto simp: family_step_def reply_1)
  note steps = x(1) s2(1) s3 this
  have c: "\<forall>t \<in> set (tokens_of Array_Cmds (KSet ''k'' ''1'')). clean t" "\<forall>t \<in> set (tokens_of Array_Cmds (KGet ''k'')). clean t"
      "\<forall>t \<in> set (tokens_of Hash_Cmds (KSet ''k'' ''2'')). clean t" "\<forall>t \<in> set (tokens_of Hash_Cmds (KGet ''k'')). clean t"
    by (simp_all add: clean_def)
  have "talk F (Some ''default'') s [(rq0, tokens_of Array_Cmds (KSet ''k'' ''1'')), (rq0, tokens_of Array_Cmds (KGet ''k'')),
      (rq0, tokens_of Hash_Cmds (KSet ''k'' ''2'')), (rq0, tokens_of Hash_Cmds (KGet ''k''))] =
      Some ([say ''OK'', say ''1'', say ''OK'', say ''1''], s4)"
    unfolding talk_family [OF steps(1) say_nonneg c(1)] talk_family [OF steps(2) say_nonneg c(2)]
      talk_family [OF steps(3) say_nonneg c(3)] talk_family [OF steps(4) say_nonneg c(4)] by simp
  then show ?thesis using s(1) steps(5) y(2) by auto
qed

lemma talk_policy:
  "talk F (Some ''default'') s ((rq, [''POLICY'', ''SET'', ''lru'']) # rs) = do {
     (rs, s) \<leftarrow> talk F (Some ''default'') (set_policy s EVICT_LRU) rs; Some (say ''Policy set to LRU'' # rs, s) }"
  "talk F (Some ''default'') s ((rq, [''POLICY'', ''SET'', ''lfu'']) # rs) = do {
     (rs, s) \<leftarrow> talk F (Some ''default'') (set_policy s EVICT_LFU) rs; Some (say ''Policy set to LFU'' # rs, s) }"
proof -
  have "find_command ''POLICY'' = KVS_CMD_POLICY" by (simp add: find_command_def command_def)
  then show
    "talk F (Some ''default'') s ((rq, [''POLICY'', ''SET'', ''lru'']) # rs) = do {
       (rs, s) \<leftarrow> talk F (Some ''default'') (set_policy s EVICT_LRU) rs; Some (say ''Policy set to LRU'' # rs, s) }"
    "talk F (Some ''default'') s ((rq, [''POLICY'', ''SET'', ''lfu'']) # rs) = do {
       (rs, s) \<leftarrow> talk F (Some ''default'') (set_policy s EVICT_LFU) rs; Some (say ''Policy set to LFU'' # rs, s) }"
    by (simp_all add: protocol_request clean_def KVS_MAX_TOKENS_def kvs_filter_protocol_def takes_value_def value_of_def
        keep_ns_def cmd_policy_def say_def)
qed

text \<open>Under the LFU policy with an empty heap, invalidation finds nothing.\<close>

lemma invalidate_lfu_empty:
  assumes "policy (base (cch s)) = EVICT_LFU" "hsize (lfu (base (cch s))) = 0"
  shows "invalidate s (Some k) 0 = Some s"
proof -
  have "lfu_scan h c k 1 = Some 0" if "hsize c = 0" for h c using that by (subst lfu_scan.simps) simp
  then have "kvs_cache_del (base (cch s)) (Some k) = Some (if max_items (base (cch s)) = 0 then -1 else -2, base (cch s))"
    using assms by (simp add: kvs_cache_del_def EVICT_LFU_def EVICT_LRU_def)
  then show ?thesis by (simp add: invalidate_def)
qed

text \<open>C34: a policy switch leaves the other policy's cache as it was. On a fresh server, a value
  cached under LRU survives a \<open>MOD\<close> made under LFU, and is served again after the switch back:
  \<open>GET k\<close> is answered with 1 although the engine holds 2.\<close>

theorem policy_switch_serves_stale:
  "\<exists>s s'. init_kvengine F (\<lambda>_. env0) (\<lambda>_. env0) Map.empty = Some (0, s) \<and>
     talk F (Some ''default'') s [(rq0, [''SET'', ''k'', ''1'']), (rq0, [''GET'', ''k'']), (rq0, [''POLICY'', ''SET'', ''lfu'']),
       (rq0, [''MOD'', ''k'', ''2'']), (rq0, [''POLICY'', ''SET'', ''lru'']), (rq0, [''GET'', ''k''])] =
       Some ([say ''OK'', say ''1'', say ''Policy set to LFU'', say ''OK'', say ''Policy set to LRU'', say ''1''], s') \<and>
     array_map (global_array (engs s')) ''k'' = Some ''2''"
proof -
  obtain s where s: "init_kvengine F (\<lambda>_. env0) (\<lambda>_. env0) Map.empty = Some (0, s)" "engs s = engines_start"
      "lru_inv (base (cch s)) []"
    using init_server [of "\<lambda>_. env0" Map.empty F "\<lambda>_. env0"] by auto
  have lfu0: "hsize (lfu (base (cch s))) = 0"
    using s(1) by (auto simp: init_kvengine_def kvs_cache_init_def stats_init_def lfu_init_def Let_def split_beta split: bind_splits)
  obtain x where x: "family_step Array_Cmds rq0 s (KSet ''k'' ''1'') = Some (say ''OK'', s\<lparr>engs := engines_start\<lparr>global_array := x\<rparr>\<rparr>)"
      "array_inv x" "array_map x = [''k'' \<mapsto> ''1'']"
    using array_set_fresh [OF s(2)] by blast
  let ?s1 = "s\<lparr>engs := engines_start\<lparr>global_array := x\<rparr>\<rparr>"
  obtain s2 where s2: "family_step Array_Cmds rq0 ?s1 (KGet ''k'') = Some (say ''1'', s2)" "engs s2 = engs ?s1"
      "lru_inv (base (cch s2)) [(''k'', ''1'')]" "lfu (base (cch s2)) = lfu (base (cch s))"
    using cached_get_fill [of ?s1 rq0 "''k''" "''1''"] s(3) arr.get_law [OF x(2), of "''k''"] x(3)
    by (auto simp: family_step_def rq0_def reply_1)
  let ?s3 = "set_policy s2 EVICT_LFU"
  obtain y where y: "op_mod array_ops env0 x (Some ''k'') (Some ''2'') = Some (0, y)" "array_map y ''k'' = Some ''2''"
    using arr.mod_hit [OF x(2) TrueI env0_ok, of "''k''" "''2''"] x(3) by auto
  let ?s4 = "?s3\<lparr>engs := (engs s2)\<lparr>global_array := y\<rparr>\<rparr>"
  have "invalidate ?s4 (Some ''k'') 0 = Some ?s4"
    by (rule invalidate_lfu_empty) (use s2(4) lfu0 in \<open>simp_all add: set_policy_def kvs_cache_set_policy_def\<close>)
  then have s4: "family_step Array_Cmds rq0 ?s3 (KMod ''k'' ''2'') = Some (say ''OK'', ?s4)"
    using s2(2) y(1) by (simp add: family_step_def rq0_def del_reply_def set_policy_def)
  let ?s5 = "set_policy ?s4 EVICT_LRU"
  have "lru_inv (base (cch ?s5)) [(''k'', ''1'')]"
    using s2(3) by (simp add: lru_inv_def set_policy_def kvs_cache_set_policy_def)
  then obtain s6 where "family_step Array_Cmds rq0 ?s5 (KGet ''k'') = Some (say ''1'', s6)" "engs s6 = engs ?s5"
    using cached_get_hit [of ?s5 "[(''k'', ''1'')]" "''k''" "''1''" rq0] by (auto simp: family_step_def reply_1)
  note steps = x(1) s2(1) s4 this
  have c: "\<forall>t \<in> set (tokens_of Array_Cmds (KSet ''k'' ''1'')). clean t" "\<forall>t \<in> set (tokens_of Array_Cmds (KGet ''k'')). clean t"
      "\<forall>t \<in> set (tokens_of Array_Cmds (KMod ''k'' ''2'')). clean t"
    by (simp_all add: clean_def)
  have "talk F (Some ''default'') s [(rq0, tokens_of Array_Cmds (KSet ''k'' ''1'')), (rq0, tokens_of Array_Cmds (KGet ''k'')),
      (rq0, [''POLICY'', ''SET'', ''lfu'']), (rq0, tokens_of Array_Cmds (KMod ''k'' ''2'')),
      (rq0, [''POLICY'', ''SET'', ''lru'']), (rq0, tokens_of Array_Cmds (KGet ''k''))] =
      Some ([say ''OK'', say ''1'', say ''Policy set to LFU'', say ''OK'', say ''Policy set to LRU'', say ''1''], s6)"
    unfolding talk_policy talk_family [OF steps(1) say_nonneg c(1)] talk_family [OF steps(2) say_nonneg c(2)]
      talk_family [OF steps(3) say_nonneg c(3)] talk_family [OF steps(4) say_nonneg c(2)] by simp
  then show ?thesis using s(1) steps(5) y(2) by (auto simp: set_policy_def)
qed

section \<open>Requests that are refused\<close>

text \<open>C32: a command name that is not in the table is answered with \<open>Unknown command\<close>, and a
  \<open>SET\<close> or \<open>MOD\<close> of any family without a value with an error; the server and the namespace
  are as before.\<close>

theorem bad_requests_change_nothing:
  assumes "tokens = name # args" "\<forall>t \<in> set tokens. clean t" "length tokens \<le> KVS_MAX_TOKENS" "0 < n"
    and "name \<notin> fst ` set command \<or> takes_value (find_command name) \<and> length args < 2"
  shows "kvs_protocol F rq (request_buffer tokens n) (request_length tokens) ns s =
    Some (if name \<notin> fst ` set command then say ''Unknown command''
      else say ''ERROR: command requires key and value'', ns, s)"
proof (cases "name \<in> fst ` set command")
  case True
  then show ?thesis
    using assms by (auto simp: protocol_request kvs_filter_protocol_def Let_def say_def)
next
  case False
  then have "find (\<lambda>(nm, c). strcmp name nm = 0) command = None" by (auto simp: find_None_iff image_iff)
  then have "find_command name = KVS_CMD_COUNT" by (simp add: find_command_def)
  then show ?thesis
    using assms(1-4) False by (auto simp: protocol_request kvs_filter_protocol_def takes_value_def Let_def say_def)
qed

theorem bad_requests_change_nothing_witness:
  "\<exists>s. init_kvengine rat_ops (\<lambda>_. env0) (\<lambda>_. env0) Map.empty = Some (0, s) \<and>
     kvs_protocol rat_ops rq0 (request_buffer [''HMOD'', ''k''] 1) (request_length [''HMOD'', ''k'']) (Some ''default'') s =
       Some (say ''ERROR: command requires key and value'', Some ''default'', s)"
  using init_server [of "\<lambda>_. env0" Map.empty rat_ops "\<lambda>_. env0"]
    bad_requests_change_nothing [of "[''HMOD'', ''k'']" "''HMOD''" "[''k'']" 1 rat_ops rq0 "Some ''default''"]
  by (auto simp: clean_def KVS_MAX_TOKENS_def command_def find_command_def takes_value_def)

section \<open>Saving and restarting\<close>

text \<open>C4: a restart restores the data. When the writes succeed and every key and value can be
  stored, \<open>SAVE\<close> is answered with the number of entries of the four engines, the engines and the
  cache stay as they are, and a server started on that disk has the same four maps, is well
  formed for every family of commands and serves from an empty cache.\<close>

theorem save_restart_restores:
  assumes "engines_inv (engs s)" "all_storable (engs s)" "0 < n"
    and "full_writes (rq_os rq)" "os_open (rq_os rq)" "os_rename (rq_os rq)"
    and "\<forall>i. env_ok (es i)" "\<forall>i. env_ok (les i)"
  defines "nkeys \<equiv> int (sum_list (map (\<lambda>m. card (dom m)) (maps_of (engs s))))"
  shows "\<exists>d s'. kvs_protocol F rq (request_buffer [''SAVE''] n) (request_length [''SAVE'']) ns s =
       Some (say (''OK: Saved '' @ show_int nkeys @ '' keys to dump.rdb''), ns, s\<lparr>dsk := d\<rparr>) \<and>
     init_kvengine F es les d = Some (0, s') \<and> maps_of (engs s') = maps_of (engs s) \<and>
     (\<forall>f. server_ok f s') \<and> any_view (base (cch s')) Map.empty"
proof -
  obtain d w where d: "rdb_save_default (rq_os rq) (dsk s) (engs s) = Some (nkeys, d)"
      "rdb_load_default les d engines_start = Some (nkeys, w)" "engines_inv w" "maps_of w = maps_of (engs s)"
    using save_then_load [OF assms(1, 2, 4, 5, 6, 8), of "dsk s" RDB_FILENAME]
    by (auto simp: rdb_save_default_def rdb_load_default_def nkeys_def)
  obtain s' where s': "init_kvengine F es les d = Some (0, s')" "engs s' = w" "lru_inv (base (cch s')) []"
    using init_kvengine_loads [OF assms(7) d(2)] by blast
  have v: "any_view (base (cch s')) Map.empty" using lru_viewI [OF s'(3)] by (simp add: any_view_def)
  then have "server_ok f s'" for f using s'(2) d(3) by (auto simp: server_ok_def)
  moreover have "find_command ''SAVE'' = KVS_CMD_SAVE" by (simp add: find_command_def command_def)
  then have "kvs_protocol F rq (request_buffer [''SAVE''] n) (request_length [''SAVE'']) ns s =
      Some (say (''OK: Saved '' @ show_int nkeys @ '' keys to dump.rdb''), ns, s\<lparr>dsk := d\<rparr>)"
    using assms(3) d(1)
    by (simp add: protocol_request clean_def KVS_MAX_TOKENS_def kvs_filter_protocol_def takes_value_def
        value_of_def keep_ns_def cmd_save_def say_def nkeys_def)
  ultimately show ?thesis using s'(1, 2) d(4) v by blast
qed

text \<open>A server with one entry in the array.\<close>

lemma one_entry_server:
  "\<exists>s s1. init_kvengine F (\<lambda>_. env0) (\<lambda>_. env0) Map.empty = Some (0, s) \<and>
     talk F (Some ''default'') s [(rq0, [''SET'', ''k'', ''1''])] = Some ([say ''OK''], s1) \<and>
     engines_inv (engs s1) \<and> all_storable (engs s1) \<and> maps_of (engs s1) = [[''k'' \<mapsto> ''1''], Map.empty, Map.empty, Map.empty] \<and>
     saving s1 = [] \<and> server_ok f s1"
proof -
  obtain s where s: "init_kvengine F (\<lambda>_. env0) (\<lambda>_. env0) Map.empty = Some (0, s)" "engs s = engines_start" "saving s = []"
      "lru_inv (base (cch s)) []"
    using init_server [of "\<lambda>_. env0" Map.empty F "\<lambda>_. env0"] by auto
  obtain x where x: "family_step Array_Cmds rq0 s (KSet ''k'' ''1'') = Some (say ''OK'', s\<lparr>engs := engines_start\<lparr>global_array := x\<rparr>\<rparr>)"
      "array_inv x" "array_map x = [''k'' \<mapsto> ''1'']"
    using array_set_fresh [OF s(2)] by blast
  let ?w = "engines_start\<lparr>global_array := x\<rparr>"
  have m: "maps_of ?w = [[''k'' \<mapsto> ''1''], Map.empty, Map.empty, Map.empty]"
    using x(3) by (simp add: maps_of_def engines_start_def hsh.start_contents rbt.start_contents skp.start_contents)
  moreover have "engines_inv ?w" using engines_start_inv x(2) by (simp add: engines_inv_def)
  moreover have "all_storable ?w" unfolding all_storable_def m by (auto simp: storable_def split: if_splits)
  moreover have "talk F (Some ''default'') s [(rq0, [''SET'', ''k'', ''1''])] = Some ([say ''OK''], s\<lparr>engs := ?w\<rparr>)"
    using talk_family [OF x(1) say_nonneg, of F "[]"] by (simp add: clean_def)
  moreover have "lru_view (base (cch s)) Map.empty" using lru_viewI [OF s(4)] by simp
  then have "server_ok f (s\<lparr>engs := ?w\<rparr>)" using \<open>engines_inv ?w\<close> unfolding server_ok_def any_view_def by auto
  ultimately show ?thesis using s(1, 3) by (intro exI [of _ s] exI [of _ "s\<lparr>engs := ?w\<rparr>"]) simp
qed

theorem save_restart_restores_witness:
  "\<exists>s s1 d s2. init_kvengine rat_ops (\<lambda>_. env0) (\<lambda>_. env0) Map.empty = Some (0, s) \<and>
     talk rat_ops (Some ''default'') s [(rq0, [''SET'', ''k'', ''1''])] = Some ([say ''OK''], s1) \<and>
     kvs_protocol rat_ops rq0 (request_buffer [''SAVE''] 1) (request_length [''SAVE'']) (Some ''default'') s1 =
       Some (say ''OK: Saved 1 keys to dump.rdb'', Some ''default'', s1\<lparr>dsk := d\<rparr>) \<and>
     init_kvengine rat_ops (\<lambda>_. env0) (\<lambda>_. env0) d = Some (0, s2) \<and> array_map (global_array (engs s2)) = [''k'' \<mapsto> ''1'']"
proof -
  obtain s s1 where s: "init_kvengine rat_ops (\<lambda>_. env0) (\<lambda>_. env0) Map.empty = Some (0, s)"
      "talk rat_ops (Some ''default'') s [(rq0, [''SET'', ''k'', ''1''])] = Some ([say ''OK''], s1)"
      "engines_inv (engs s1)" "all_storable (engs s1)" "maps_of (engs s1) = [[''k'' \<mapsto> ''1''], Map.empty, Map.empty, Map.empty]"
    using one_entry_server [of rat_ops] by blast
  have "full_writes (rq_os rq0)" "os_open (rq_os rq0)" "os_rename (rq_os rq0)" using os0_full by (simp_all add: rq0_def)
  from save_restart_restores [OF s(3, 4) _ this, of 1 "\<lambda>_. env0" "\<lambda>_. env0" rat_ops "Some ''default''"]
  obtain d s2 where "kvs_protocol rat_ops rq0 (request_buffer [''SAVE''] 1) (request_length [''SAVE'']) (Some ''default'') s1 =
       Some (say (''OK: Saved '' @ show_int 1 @ '' keys to dump.rdb''), Some ''default'', s1\<lparr>dsk := d\<rparr>)"
      "init_kvengine rat_ops (\<lambda>_. env0) (\<lambda>_. env0) d = Some (0, s2)" "maps_of (engs s2) = maps_of (engs s1)"
    using s(5) by auto
  moreover have "show_int 1 = ''1''" by code_simp
  ultimately show ?thesis using s(1, 2, 5) by (auto simp: maps_of_def)
qed

section \<open>Saving in the background\<close>

text \<open>The files and the children of the server are left alone by every command that does not save.\<close>

definition files_kept :: "'f server \<Rightarrow> (reply \<times> 'f server) option \<Rightarrow> bool" where
  "files_kept s x \<longleftrightarrow> (\<forall>r s'. x = Some (r, s') \<longrightarrow> dsk s' = dsk s \<and> saving s' = saving s)"

lemma invalidate_keeps: "invalidate s key ret = Some s' \<Longrightarrow> dsk s' = dsk s \<and> saving s' = saving s"
  by (auto simp: invalidate_def split: if_splits bind_splits)

lemma get_keeps: "files_kept s (cached_get rq s key g)"
  by (auto simp: files_kept_def cached_get_def Let_def split: bind_splits option.splits)

lemma read_keeps:
  "files_kept s (cmd_get rq s key)" "files_kept s (cmd_rget rq s key)" "files_kept s (cmd_hget rq s key)" "files_kept s (cmd_sget rq s key)"
  by (simp_all add: cmd_get_def cmd_rget_def cmd_hget_def cmd_sget_def get_keeps)

lemma family_keeps:
  "files_kept s (cmd_set rq s key v)" "files_kept s (cmd_del rq s key)" "files_kept s (cmd_mod rq s key v)" "files_kept s (cmd_exist rq s key)"
  "files_kept s (cmd_rset rq s key v)" "files_kept s (cmd_rdel rq s key)" "files_kept s (cmd_rmod rq s key v)" "files_kept s (cmd_rexist rq s key)"
  "files_kept s (cmd_hset rq s key v)" "files_kept s (cmd_hdel rq s key)" "files_kept s (cmd_hmod rq s key v)" "files_kept s (cmd_hexist rq s key)"
  "files_kept s (cmd_sset rq s key v)" "files_kept s (cmd_sdel rq s key)" "files_kept s (cmd_smod rq s key v)" "files_kept s (cmd_sexist rq s key)"
  by (auto simp: files_kept_def cmd_set_def cmd_del_def cmd_mod_def cmd_exist_def cmd_rset_def cmd_rdel_def cmd_rmod_def cmd_rexist_def
      cmd_hset_def cmd_hdel_def cmd_hmod_def cmd_hexist_def cmd_sset_def cmd_sdel_def cmd_smod_def cmd_sexist_def
      split: bind_splits dest!: invalidate_keeps)

lemma other_keeps:
  "files_kept s (cmd_vset F rq s key ts)" "files_kept s (cmd_vget F s key)" "files_kept s (cmd_vsearch F rq s key ts)" "files_kept s (cmd_vdel rq s key)"
  "files_kept s (cmd_vcount s)" "files_kept s (cmd_policy s ts)" "files_kept s (cmd_stats F s)" "files_kept s (cmd_recommend F s)"
  "files_kept s (cmd_lastsave rq s)"
  by (auto simp: files_kept_def cmd_vset_def cmd_vget_def cmd_vsearch_def cmd_vdel_def cmd_vcount_def cmd_policy_def set_policy_def cmd_stats_def
      cmd_recommend_def cmd_lastsave_def Let_def split: bind_splits if_splits)

lemma with_key_keeps:
  "with_key ns ts f = Some (r, ns', s') \<Longrightarrow> (\<And>key. files_kept s (f key)) \<Longrightarrow> dsk s' = dsk s \<and> saving s' = saving s"
  "keep_ns ns x = Some (r, ns', s') \<Longrightarrow> files_kept s x \<Longrightarrow> dsk s' = dsk s \<and> saving s' = saving s"
  by (auto simp: with_key_def keep_ns_def files_kept_def split: bind_splits)

lemma filter_keeps:
  assumes "kvs_filter_protocol F rq ts ns s = Some (r, ns', s')" "ts \<noteq> []" "find_command (ts ! 0) \<notin> {KVS_CMD_SAVE, KVS_CMD_BGSAVE}"
  shows "dsk s' = dsk s \<and> saving s' = saving s"
proof (cases "takes_value (find_command (ts ! 0)) \<and> (length ts < 3 \<or> value_of (find_command (ts ! 0)) ts = None)")
  case True
  then show ?thesis using assms(1, 2) by (simp add: kvs_filter_protocol_def Let_def)
next
  case False
  note rules = read_keeps [THEN with_key_keeps(1) [rotated]] family_keeps [THEN with_key_keeps(1) [rotated]]
    other_keeps(1-4) [THEN with_key_keeps(1) [rotated]] other_keeps(5-9) [THEN with_key_keeps(2) [rotated]]
  show ?thesis using assms False
    by (cases "find_command (ts ! 0)") (auto simp: kvs_filter_protocol_def Let_def split: bind_splits dest!: rules)
qed

text \<open>The parent goes on with requests of any clients: each is a buffer with its length and the namespace of
  the connection. None of them asks for a save.\<close>

definition saves_nothing :: "string \<Rightarrow> int \<Rightarrow> bool" where
  "saves_nothing buf len \<longleftrightarrow> (case c_string (blank_line_ends (nat len) buf) of None \<Rightarrow> True
     | Some msg \<Rightarrow> kvs_split_token msg = [] \<or> find_command (kvs_split_token msg ! 0) \<notin> {KVS_CMD_SAVE, KVS_CMD_BGSAVE})"

fun parent_run :: "'f float_ops \<Rightarrow> (request \<times> string \<times> int \<times> cstr) list \<Rightarrow> 'f server \<Rightarrow> 'f server option" where
  "parent_run F [] s = Some s"
| "parent_run F ((rq, buf, len, ns) # rs) s = do { (r, ns', s) \<leftarrow> kvs_protocol F rq buf len ns s; parent_run F rs s }"

lemma protocol_keeps:
  assumes "kvs_protocol F rq buf len ns s = Some (r, ns', s')" "saves_nothing buf len"
  shows "dsk s' = dsk s \<and> saving s' = saving s"
proof (cases "len \<le> 0")
  case True
  then show ?thesis using assms(1) by (simp add: kvs_protocol_def)
next
  case False
  then obtain msg where msg: "c_string (blank_line_ends (nat len) buf) = Some msg"
    using assms(1) by (auto simp: kvs_protocol_def split: if_splits bind_splits)
  show ?thesis
  proof (cases "kvs_split_token msg = []")
    case True
    then show ?thesis using assms(1) False msg by (simp add: kvs_protocol_def split: if_splits)
  next
    case t: False
    then have "find_command (kvs_split_token msg ! 0) \<notin> {KVS_CMD_SAVE, KVS_CMD_BGSAVE}"
      using assms(2) msg by (simp add: saves_nothing_def)
    moreover obtain r1 where "kvs_filter_protocol F rq (kvs_split_token msg) ns s = Some (r1, ns', s')"
      using assms(1) False msg t by (auto simp: kvs_protocol_def split: if_splits bind_splits)
    ultimately show ?thesis using filter_keeps t by blast
  qed
qed

lemma parent_keeps:
  assumes "parent_run F rs s = Some s'" "\<forall>(rq, buf, len, ns) \<in> set rs. saves_nothing buf len"
  shows "dsk s' = dsk s \<and> saving s' = saving s"
  using assms
proof (induction F rs s rule: parent_run.induct)
  case (2 F rq buf len ns rs s)
  then obtain r ns' s1 where s1: "kvs_protocol F rq buf len ns s = Some (r, ns', s1)" "parent_run F rs s1 = Some s'"
    by (auto split: bind_splits)
  have "dsk s1 = dsk s \<and> saving s1 = saving s" using protocol_keeps [OF s1(1)] "2.prems"(2) by simp
  then show ?case using "2.IH" [OF s1(1) refl refl s1(2)] "2.prems"(2) by simp
qed simp

text \<open>C5: \<open>BGSAVE\<close> saves the data of the moment it was asked for. When no other child runs and every key and
  value can be stored, and the parent then handles any requests but \<open>SAVE\<close> and \<open>BGSAVE\<close>, whatever
  they do to its engines, its requests leave the disk alone, and the child's save with complete
  writes leaves the parent's engines alone and produces a dump from which a restart rebuilds the
  maps that the engines held at the fork.\<close>

theorem bgsave_snapshot:
  fixes F :: "'f float_ops" and s :: "'f server"
  assumes "engines_inv (engs s)" "all_storable (engs s)" "saving s = []" "0 < n" "0 < rq_fork rq"
    and "full_writes os" "os_open os" "os_rename os"
    and "\<forall>i. env_ok (es i)" "\<forall>i. env_ok (les i)"
  shows "\<exists>s1. kvs_protocol F rq (request_buffer [''BGSAVE''] n) (request_length [''BGSAVE'']) ns s =
       Some (say (''Background saving started (pid: '' @ show_int (rq_fork rq) @ '')''), ns, s1) \<and>
     engs s1 = engs s \<and> dsk s1 = dsk s \<and>
     (\<forall>rs later. parent_run F rs s1 = Some later \<and> (\<forall>(rq, buf, len, ns) \<in> set rs. saves_nothing buf len) \<longrightarrow>
       dsk later = dsk s \<and>
       (\<exists>s2 s3. child_save os later 0 = Some s2 \<and> engs s2 = engs later \<and> saving s2 = [] \<and>
          init_kvengine F es les (dsk s2) = Some (0, s3) \<and> maps_of (engs s3) = maps_of (engs s)))"
proof -
  let ?s1 = "s\<lparr>saving := engs s # saving s\<rparr>"
  have "find_command ''BGSAVE'' = KVS_CMD_BGSAVE" by (simp add: find_command_def command_def)
  then have "kvs_protocol F rq (request_buffer [''BGSAVE''] n) (request_length [''BGSAVE'']) ns s =
      Some (say (''Background saving started (pid: '' @ show_int (rq_fork rq) @ '')''), ns, ?s1)"
    using assms(4, 5)
    by (simp add: protocol_request clean_def KVS_MAX_TOKENS_def kvs_filter_protocol_def takes_value_def
        value_of_def keep_ns_def cmd_bgsave_def say_def)
  moreover have "dsk later = dsk s \<and> (\<exists>s2 s3. child_save os later 0 = Some s2 \<and> engs s2 = engs later \<and> saving s2 = [] \<and>
      init_kvengine F es les (dsk s2) = Some (0, s3) \<and> maps_of (engs s3) = maps_of (engs s))"
    if r: "parent_run F rs ?s1 = Some later" "\<forall>(rq, buf, len, ns) \<in> set rs. saves_nothing buf len" for rs later
  proof -
    have k: "dsk later = dsk s" "saving later = [engs s]" using parent_keeps [OF r] assms(3) by simp_all
    obtain r d w where d: "rdb_save_default os (dsk later) (engs s) = Some (r, d)"
        "rdb_load_default les d engines_start = Some (r, w)" "maps_of w = maps_of (engs s)"
      using save_then_load [OF assms(1, 2, 6, 7, 8, 10), of "dsk later" RDB_FILENAME]
      by (auto simp: rdb_save_default_def rdb_load_default_def)
    obtain s3 where "init_kvengine F es les d = Some (0, s3)" "engs s3 = w"
      using init_kvengine_loads [OF assms(9) d(2)] by blast
    then show ?thesis using d k by (simp add: child_save_def)
  qed
  ultimately show ?thesis by (intro exI [of _ ?s1]) auto
qed

theorem bgsave_snapshot_witness:
  "\<exists>s s1 sb later s2 s3. init_kvengine rat_ops (\<lambda>_. env0) (\<lambda>_. env0) Map.empty = Some (0, s) \<and>
     talk rat_ops (Some ''default'') s [(rq0, [''SET'', ''k'', ''1''])] = Some ([say ''OK''], s1) \<and>
     kvs_protocol rat_ops rq0 (request_buffer [''BGSAVE''] 1) (request_length [''BGSAVE'']) (Some ''default'') s1 =
       Some (say (''Background saving started (pid: '' @ show_int (rq_fork rq0) @ '')''), Some ''default'', sb) \<and>
     parent_run rat_ops [(rq0, request_buffer [''DEL'', ''k''] 1, request_length [''DEL'', ''k''], Some ''default'')] sb = Some later \<and>
     array_map (global_array (engs later)) = Map.empty \<and> child_save os0 later 0 = Some s2 \<and>
     init_kvengine rat_ops (\<lambda>_. env0) (\<lambda>_. env0) (dsk s2) = Some (0, s3) \<and> array_map (global_array (engs s3)) = [''k'' \<mapsto> ''1'']"
proof -
  obtain s s1 where s: "init_kvengine rat_ops (\<lambda>_. env0) (\<lambda>_. env0) Map.empty = Some (0, s)"
      "talk rat_ops (Some ''default'') s [(rq0, [''SET'', ''k'', ''1''])] = Some ([say ''OK''], s1)"
      "engines_inv (engs s1)" "all_storable (engs s1)" "maps_of (engs s1) = [[''k'' \<mapsto> ''1''], Map.empty, Map.empty, Map.empty]"
      "saving s1 = []" "server_ok Array_Cmds s1"
    using one_entry_server [of rat_ops Array_Cmds] by blast
  have "0 < rq_fork rq0" by (simp add: rq0_def)
  from bgsave_snapshot [OF s(3, 4, 6) _ this os0_full, of 1 "\<lambda>_. env0" "\<lambda>_. env0" rat_ops "Some ''default''"]
  obtain sb where sb: "kvs_protocol rat_ops rq0 (request_buffer [''BGSAVE''] 1) (request_length [''BGSAVE'']) (Some ''default'') s1 =
       Some (say (''Background saving started (pid: '' @ show_int (rq_fork rq0) @ '')''), Some ''default'', sb)"
    and run: "\<forall>rs later. parent_run rat_ops rs sb = Some later \<and> (\<forall>(rq, buf, len, ns) \<in> set rs. saves_nothing buf len) \<longrightarrow>
       dsk later = dsk s1 \<and>
       (\<exists>s2 s3. child_save os0 later 0 = Some s2 \<and> engs s2 = engs later \<and> saving s2 = [] \<and>
          init_kvengine rat_ops (\<lambda>_. env0) (\<lambda>_. env0) (dsk s2) = Some (0, s3) \<and> maps_of (engs s3) = maps_of (engs s1))"
    by auto
  have "find_command ''BGSAVE'' = KVS_CMD_BGSAVE" by (simp add: find_command_def command_def)
  then have "sb = s1\<lparr>saving := [engs s1]\<rparr>" using sb s(6)
    by (auto simp: protocol_request clean_def KVS_MAX_TOKENS_def kvs_filter_protocol_def takes_value_def
        value_of_def keep_ns_def cmd_bgsave_def say_def rq0_def)
  then have "server_ok Array_Cmds sb" "family_map Array_Cmds (engs sb) = [''k'' \<mapsto> ''1'']"
    using s(5, 7) by (simp_all add: server_ok_def maps_of_def)
  then obtain later where later: "parent_run rat_ops [(rq0, request_buffer [''DEL'', ''k''] 1, request_length [''DEL'', ''k''], Some ''default'')] sb = Some later"
      "array_map (global_array (engs later)) = Map.empty"
    using protocol_step [of Array_Cmds sb "''default''" rq0 1 "KDel ''k''" rat_ops]
    by (auto simp: sound_request_def clean_def in_ns_def split: bind_splits)
  have "saves_nothing (request_buffer [''DEL'', ''k''] 1) (request_length [''DEL'', ''k''])" by code_simp
  then obtain s2 s3 where "child_save os0 later 0 = Some s2"
      "init_kvengine rat_ops (\<lambda>_. env0) (\<lambda>_. env0) (dsk s2) = Some (0, s3)" "maps_of (engs s3) = maps_of (engs s1)"
    using run [rule_format, OF conjI, OF later(1)] by auto
  then show ?thesis using s(1, 2, 5) sb later by (auto simp: maps_of_def)
qed

end
