(* ===== verification/Reactor_Correct.thy ===== *)
theory Reactor_Correct
  imports Network_Spec Protocol_Correct
begin

text \<open>
  The event loop in front of the command protocol. The protocol is shown to keep the contract
  \<open>msg_service\<close> for the commands of all four families, the namespace commands and unknown
  commands, whatever the cache holds, as long as keys are ASCII: every reply fits the write
  buffer because a value is never longer than the request that stored it. Through the
  interpretation this gives that the reactor never faults, and that the interleaved clients get
  the replies of a server that takes their requests one at a time.
\<close>

section \<open>Replies that fit\<close>

definition short :: "kv_map \<Rightarrow> bool" where
  "short m \<longleftrightarrow> (\<forall>k v. m k = Some v \<longrightarrow> length v + 2 < BUFFER_LENGTH)"

lemma short_le: "m \<subseteq>\<^sub>m m' \<Longrightarrow> short m' \<Longrightarrow> short m"
  unfolding short_def by (metis domI map_le_def)

lemma short_upd [simp]:
  "short m \<Longrightarrow> length v + 2 < BUFFER_LENGTH \<Longrightarrow> short (m(k \<mapsto> v))"
  "short m \<Longrightarrow> short (m(k := None))"
  by (auto simp: short_def)

lemma fits_say: "length t + 2 < BUFFER_LENGTH \<Longrightarrow> fits (say t)"
  by (simp add: fits_def say_def crlf_def)

lemma fits_replies [simp]:
  "fits (set_reply ret)" "fits (del_reply ret)" "fits (exist_reply ret)" "fits (say ''NO EXIST'')"
  by (simp_all add: set_reply_def del_reply_def exist_reply_def fits_say BUFFER_LENGTH_def)

lemma fits_value: "length v + 2 < BUFFER_LENGTH \<Longrightarrow> fits (reply_n (v @ crlf))"
  by (simp add: reply_n_def snprintf_def fits_def crlf_def RESPONSE_MAX_LEN_def BUFFER_LENGTH_def)

fun cmd_short :: "kv_cmd \<Rightarrow> bool" where
  "cmd_short (KSet k v) = (length v + 2 < BUFFER_LENGTH)"
| "cmd_short (KMod k v) = (length v + 2 < BUFFER_LENGTH)"
| "cmd_short _ = True"

context cached_engine
begin

text \<open>The commands of an engine behind any cache: its answers fit, and so does what is stored.\<close>

lemma get_safe:
  assumes "inv (sel (engs s))" "rep (base (cch s)) m" "short m" "short (contents (sel (engs s)))"
    "key_ok k" "request_ok rq"
  shows "\<exists>r s' m'. port_step ops sel upd rq s (KGet k) = Some (r, s') \<and> fits r \<and> engs s' = engs s \<and>
    rep (base (cch s')) m' \<and> short m'"
proof -
  let ?db = "contents (sel (engs s))"
  obtain g where g: "kvs_cache_get (rq_lookup rq) (base (cch s)) (Some k) = Some (m k, g)" "rep g m"
    using cache.get_law [OF assms(2)] by blast
  have e: "op_get ops (sel (engs s)) (Some k) = Some (?db k)" using assms(1, 5) eng.get_law by blast
  show ?thesis
  proof (cases "m k")
    case (Some v)
    then have "fits (reply_n (v @ crlf))" using assms(3) fits_value by (auto simp: short_def)
    then show ?thesis using g Some assms(3) by (auto simp: cached_get_def)
  next
    case None
    show ?thesis
    proof (cases "?db k")
      case db: None
      then show ?thesis using g None e assms(3) by (auto simp: cached_get_def)
    next
      case db: (Some v)
      then have v: "length v + 2 < BUFFER_LENGTH" using assms(4) by (auto simp: short_def)
      obtain g2 m2 where g2: "cache_add (rq_fill rq) g k v = Some g2" "rep g2 m2" "m2 \<subseteq>\<^sub>m m(k \<mapsto> v)"
        using cache.add_law [OF g(2) _ None, of "rq_fill rq" v] assms(6) unfolding request_ok_def by blast
      have "short m2" using short_le [OF g2(3)] assms(3) v by simp
      then show ?thesis using g g2 None e db fits_value [OF v] by (auto simp: cached_get_def cache_add_def)
    qed
  qed
qed

lemma invalidate_safe:
  assumes "rep (base (cch s)) m" "short m"
  shows "\<exists>s' m'. invalidate s (Some k) ret = Some s' \<and> engs s' = engs s \<and> rep (base (cch s')) m' \<and> short m'"
proof (cases "ret = 0")
  case True
  obtain r g where "kvs_cache_del (base (cch s)) (Some k) = Some (r, g)" "rep g (m(k := None))"
    using cache.del_law [OF assms(1)] by blast
  then show ?thesis using True assms(2) by (auto simp: invalidate_def intro!: exI [of _ "m(k := None)"])
qed (use assms in \<open>auto simp: invalidate_def\<close>)

lemma step_safe:
  assumes "inv (sel (engs s))" "rep (base (cch s)) m" "short m" "short (contents (sel (engs s)))"
    "key_ok (cmd_key c)" "request_ok rq" "cmd_short c"
  shows "\<exists>r s' m'. port_step ops sel upd rq s c = Some (r, s') \<and> fits r \<and> inv (sel (engs s')) \<and>
    rep (base (cch s')) m' \<and> short m' \<and> short (contents (sel (engs s')))"
proof (cases "\<exists>k. c = KGet k")
  case True
  then show ?thesis using get_safe [OF assms(1-4) _ assms(6)] assms(1, 4, 5) by fastforce
next
  case False
  let ?x = "sel (engs s)"
  obtain ret x where x: "eng_step ops (rq_engine rq) ?x c = Some (Code ret, x)" "inv x" "short (contents x)"
  proof -
    have "env_ok (rq_engine rq)" using assms(6) by (simp add: request_ok_def)
    from eng.step_refines [OF assms(1, 5) this] obtain x where "eng_step ops (rq_engine rq) ?x c =
        Some (fst (spec_step cap (contents ?x) c), x)" "inv x" "contents x = snd (spec_step cap (contents ?x) c)" by blast
    moreover have "\<exists>ret. fst (spec_step cap (contents ?x) c) = Code ret" "short (snd (spec_step cap (contents ?x) c))"
      using False assms(4, 7) by (cases c; auto)+
    ultimately show ?thesis using that by auto
  qed
  obtain s' m' where i: "invalidate (s\<lparr>engs := upd x (engs s)\<rparr>) (Some (cmd_key c)) ret = Some s'" "sel (engs s') = x"
      "rep (base (cch s')) m'" "short m'"
    using invalidate_safe [of "s\<lparr>engs := upd x (engs s)\<rparr>" m "cmd_key c" ret] assms(2, 3) sel_upd by auto
  let ?r = "case c of KSet k v \<Rightarrow> set_reply ret | KExist k \<Rightarrow> exist_reply ret | _ \<Rightarrow> del_reply ret"
  let ?s = "case c of KSet k v \<Rightarrow> s\<lparr>engs := upd x (engs s)\<rparr> | KExist k \<Rightarrow> s | _ \<Rightarrow> s'"
  have "fits ?r" by (cases c) simp_all
  have step: "port_step ops sel upd rq s c = Some (?r, ?s)"
    using x(1) i(1) False by (cases c) (auto split: bind_splits)
  have k: "c = KExist k \<Longrightarrow> x = ?x" for k using x(1) by (auto split: bind_splits)
  have sx: "sel (engs ?s) = x" using i(2) sel_upd k False by (cases c) simp_all
  have "rep (base (cch ?s)) m \<or> rep (base (cch ?s)) m'" using i(3) assms(2) by (cases c) simp_all
  then obtain m2 where m2: "rep (base (cch ?s)) m2" "short m2" using i(4) assms(3) by blast
  show ?thesis
    by (rule exI [of _ ?r], rule exI [of _ ?s], rule exI [of _ m2]) (use step \<open>fits ?r\<close> sx x(2, 3) m2 in simp)
qed

end

context cached_engine
begin

lemma step_safe_framed:
  assumes "inv (sel (engs s))" "rep (base (cch s)) m" "short m" "short (contents (sel (engs s)))"
    "key_ok (cmd_key c)" "request_ok rq" "cmd_short c"
    and "P (engs s)" "\<And>x. inv x \<Longrightarrow> short (contents x) \<Longrightarrow> P (upd x (engs s))"
  shows "\<exists>r s' m'. port_step ops sel upd rq s c = Some (r, s') \<and> fits r \<and> P (engs s') \<and> rep (base (cch s')) m' \<and> short m'"
proof -
  obtain r s' m' where s': "port_step ops sel upd rq s c = Some (r, s')" "fits r" "inv (sel (engs s'))"
      "rep (base (cch s')) m'" "short m'" "short (contents (sel (engs s')))"
    using step_safe [OF assms(1-7)] by blast
  have "P (engs s')" using step_engs [OF s'(1)] s'(3, 6) assms(8, 9) by (auto simp: sel_upd)
  then show ?thesis using s' by blast
qed

end

section \<open>The protocol as a service\<close>

definition safe_engines :: "engines \<Rightarrow> bool" where
  "safe_engines w \<longleftrightarrow> engines_inv w \<and> (\<forall>f. short (family_map f w))"

text \<open>Well-formed engines and cache, and no value that a reply cannot hold; the cache may hold
  values of any engine.\<close>

definition safe_server :: "'f server \<Rightarrow> bool" where
  "safe_server s \<longleftrightarrow> safe_engines (engs s) \<and> (\<exists>m. any_view (base (cch s)) m \<and> short m)"

lemma all_family: "(\<forall>f. Q f) \<longleftrightarrow> Q Array_Cmds \<and> Q Rbtree_Cmds \<and> Q Hash_Cmds \<and> Q Skip_Cmds"
  by (metis family.exhaust)

lemma family_step_safe:
  assumes "safe_server s" "family_key_ok f (cmd_key c)" "request_ok rq" "cmd_short c"
  shows "\<exists>r s'. family_step f rq s c = Some (r, s') \<and> fits r \<and> safe_server s'"
proof -
  obtain m where m: "any_view (base (cch s)) m" "short m" and w: "safe_engines (engs s)"
    using assms(1) by (auto simp: safe_server_def)
  note w' = w [unfolded safe_engines_def engines_inv_def all_family, simplified]
  have "\<exists>r s' m'. family_step f rq s c = Some (r, s') \<and> fits r \<and> safe_engines (engs s') \<and> any_view (base (cch s')) m' \<and> short m'"
  proof (cases f)
    case Array_Cmds
    show ?thesis unfolding family_step_def Array_Cmds family.case
      by (rule parr.step_safe_framed [where P = safe_engines, OF _ m _ TrueI assms(3, 4) w])
        (use w' in \<open>auto simp: safe_engines_def engines_inv_def all_family\<close>)
  next
    case Rbtree_Cmds
    show ?thesis unfolding family_step_def Rbtree_Cmds family.case
      by (rule prbt.step_safe_framed [where P = safe_engines, OF _ m _ TrueI assms(3, 4) w])
        (use w' in \<open>auto simp: safe_engines_def engines_inv_def all_family\<close>)
  next
    case Hash_Cmds
    then have k: "hash_key_ok (cmd_key c)" using assms(2) by simp
    show ?thesis unfolding family_step_def Hash_Cmds family.case
      by (rule phsh.step_safe_framed [where P = safe_engines, OF _ m _ k assms(3, 4) w])
        (use w' in \<open>auto simp: safe_engines_def engines_inv_def all_family\<close>)
  next
    case Skip_Cmds
    show ?thesis unfolding family_step_def Skip_Cmds family.case
      by (rule pskp.step_safe_framed [where P = safe_engines, OF _ m _ TrueI assms(3, 4) w])
        (use w' in \<open>auto simp: safe_engines_def engines_inv_def all_family\<close>)
  qed
  then show ?thesis by (auto simp: safe_server_def)
qed

definition ascii :: "string \<Rightarrow> bool" where
  "ascii t \<longleftrightarrow> (\<forall>c \<in> set t. (of_char c :: nat) < 128)"

definition service_ns :: "string \<Rightarrow> bool" where
  "service_ns ns \<longleftrightarrow> ascii ns \<and> length ns < 64"

text \<open>The requests of these properties are the service requests: a command of one of the four string
  families, \<open>NAMESPACE SET\<close>, \<open>NS\<close>, or a command that does not exist; whole in one \<open>recv\<close>
  of less than 1024 bytes, with ASCII tokens that need no escape. \<open>SAVE\<close>, \<open>BGSAVE\<close>,
  \<open>LASTSAVE\<close>, \<open>POLICY\<close>, \<open>STATS\<close>, \<open>RECOMMEND\<close> and the vector commands are left out: the
  vector commands read out of bounds, \<open>POLICY SET\<close> can overrun the reply buffer and leaves the
  cache with values of another policy, the saves have properties of their own, and for the
  texts of the others no bound is proved.\<close>

definition service_tokens :: "string list \<Rightarrow> bool" where
  "service_tokens ts \<longleftrightarrow> (\<exists>f c. ts = tokens_of f c) \<or> (\<exists>n. ts = [''NAMESPACE'', ''SET'', n]) \<or> (\<exists>n. ts = [''NS'', n]) \<or>
     (ts \<noteq> [] \<and> hd ts \<notin> fst ` set command \<and> length ts \<le> KVS_MAX_TOKENS)"

definition service_request :: "request \<Rightarrow> string \<Rightarrow> bool" where
  "service_request rq bs \<longleftrightarrow> request_ok rq \<and> length bs < BUFFER_LENGTH \<and>
     (\<exists>ts. bs = command_line ts @ crlf \<and> service_tokens ts \<and> (\<forall>t \<in> set ts. clean t \<and> ascii t))"

lemma hash_key_ascii: "ascii k \<Longrightarrow> hash_key_ok k"
  using hash_sum_ascii [of k]
  by (simp add: hash_key_ok_def hash_of_def ascii_def signed_modulo_int_def signed_divide_int_def MAX_TABLE_SIZE_def sgn_if)

lemma ascii_in_ns: "ascii ns \<Longrightarrow> ascii k \<Longrightarrow> ascii (in_ns ns k)"
  by (auto simp: ascii_def in_ns_def dest!: in_set_takeD)

lemma length_command_line: "t \<in> set ts \<Longrightarrow> length t \<le> length (command_line ts)"
  by (induction ts rule: command_line.induct) (auto simp: quote_def)

lemma family_request_safe:
  assumes "safe_server s" "service_ns ns" "request_ok rq" "\<forall>t \<in> set (tokens_of f c). ascii t"
    "length (command_line (tokens_of f c)) + 2 < BUFFER_LENGTH"
  shows "\<exists>r s'. kvs_filter_protocol F rq (tokens_of f c) (Some ns) s = Some (r, Some ns, s') \<and> fits r \<and> safe_server s'"
proof -
  let ?c = "cmd_in_ns ns c"
  have "ascii (cmd_key ?c)" using assms(2, 4) by (cases c) (auto simp: service_ns_def intro!: ascii_in_ns)
  then have "family_key_ok f (cmd_key ?c)" using hash_key_ascii by (cases f) auto
  moreover have "cmd_short ?c"
    using assms(5) length_command_line [of _ "tokens_of f c"] by (cases c) fastforce+
  ultimately show ?thesis using family_step_safe [OF assms(1) _ assms(3)] filter_family [of F rq f c ns s] by fastforce
qed

lemma namespace_request_safe:
  assumes "ts = [''NAMESPACE'', ''SET'', n] \<or> ts = [''NS'', n]" "ascii n"
  shows "\<exists>r ns'. kvs_filter_protocol F rq ts (Some ns) s = Some (r, Some ns', s) \<and> fits r \<and> service_ns ns'"
proof -
  have cmds: "find_command ''NAMESPACE'' = KVS_CMD_NAMESPACE" "find_command ''NS'' = KVS_CMD_NS"
    by (simp_all add: find_command_def command_def)
  have d: "service_ns ''default''" by (simp add: service_ns_def ascii_def)
  have n: "service_ns (take 63 n)" using assms(2) by (auto simp: service_ns_def ascii_def dest!: in_set_takeD)
  have f: "fits (say (''Namespace set to: '' @ take 63 n))" "fits (say ''Namespace reset to: default'')"
    by (simp_all add: fits_say BUFFER_LENGTH_def)
  from assms(1) show ?thesis
  proof
    assume "ts = [''NAMESPACE'', ''SET'', n]"
    then show ?thesis using cmds n f
      by (auto simp: kvs_filter_protocol_def takes_value_def cmd_namespace_def set_namespace_def simp del: append.simps)
  next
    assume ts: "ts = [''NS'', n]"
    then have k: "kvs_filter_protocol F rq ts (Some ns) s =
        (if n = ''RESET'' then Some (say ''Namespace reset to: default'', Some ''default'', s)
         else Some (say (''Namespace set to: '' @ take 63 n), Some (take 63 n), s))"
      using cmds by (simp add: kvs_filter_protocol_def takes_value_def cmd_namespace_def set_namespace_def)
    show ?thesis
    proof (cases "n = ''RESET''")
      case True
      then show ?thesis unfolding k using f(2) d by (simp only: refl if_True) blast
    next
      case False
      then show ?thesis unfolding k using f(1) n by (simp only: refl if_False) blast
    qed
  qed
qed

lemma unknown_request_safe:
  assumes "ts \<noteq> []" "hd ts \<notin> fst ` set command"
  shows "kvs_filter_protocol F rq ts (Some ns) s = Some (say ''Unknown command'', Some ns, s)"
proof -
  obtain name args where ts: "ts = name # args" using assms(1) by (cases ts) auto
  have "find (\<lambda>(nm, c). strcmp name nm = 0) command = None" using assms(2) ts by (auto simp: find_None_iff image_iff)
  then have "find_command name = KVS_CMD_COUNT" by (simp add: find_command_def)
  then show ?thesis using ts by (simp add: kvs_filter_protocol_def takes_value_def)
qed

lemma service_filter:
  assumes "safe_server s" "service_ns ns" "request_ok rq" "service_tokens ts" "\<forall>t \<in> set ts. ascii t"
    "length (command_line ts) + 2 < BUFFER_LENGTH"
  shows "\<exists>rep ns' s'. kvs_filter_protocol F rq ts (Some ns) s = Some (rep, Some ns', s') \<and> fits rep \<and> service_ns ns' \<and> safe_server s'"
proof -
  consider f c where "ts = tokens_of f c" | n where "ts = [''NAMESPACE'', ''SET'', n] \<or> ts = [''NS'', n]"
    | "ts \<noteq> []" "hd ts \<notin> fst ` set command"
    using assms(4) unfolding service_tokens_def by blast
  then show ?thesis
  proof cases
    case 1
    then show ?thesis using family_request_safe [of s ns rq f c F] assms by blast
  next
    case 2
    then have "ascii n" using assms(5) by auto
    from namespace_request_safe [OF 2 this] show ?thesis using assms(1) by blast
  next
    case 3
    have "fits (say ''Unknown command'')" by (simp add: fits_say BUFFER_LENGTH_def)
    then show ?thesis using unknown_request_safe [OF 3] assms(1, 2) by blast
  qed
qed

lemma service_handles:
  assumes "safe_server s" "service_ns ns" "service_request rq bs"
  shows "\<exists>rep ns' msg s'. kvs_handler F rq (padded bs) (int (length bs)) (Some ns) s = Some (rep, Some ns', msg, s') \<and>
    fits rep \<and> service_ns ns' \<and> safe_server s'"
proof -
  obtain ts where ts: "bs = command_line ts @ crlf" "service_tokens ts" "\<forall>t \<in> set ts. clean t" "\<forall>t \<in> set ts. ascii t"
    and rq: "request_ok rq" "length bs < BUFFER_LENGTH" using assms(3) by (auto simp: service_request_def)
  have len: "length (command_line ts) + 2 < BUFFER_LENGTH" using rq(2) ts(1) by (simp add: crlf_def)
  have "0 < length (tokens_of f c) \<and> length (tokens_of f c) \<le> KVS_MAX_TOKENS" for f c by (cases c; simp add: KVS_MAX_TOKENS_def)
  then have "0 < length ts \<and> length ts \<le> KVS_MAX_TOKENS"
    using ts(2) unfolding service_tokens_def by (elim disjE exE conjE) (simp_all add: KVS_MAX_TOKENS_def)
  then have n: "length ts \<le> KVS_MAX_TOKENS" "ts \<noteq> []" by auto
  obtain rep ns' s' where f: "kvs_filter_protocol F rq ts (Some ns) s = Some (rep, Some ns', s')" "fits rep" "service_ns ns'" "safe_server s'"
    using service_filter [OF assms(1, 2) rq(1) ts(2, 4) len] by blast
  have b: "padded bs = request_buffer ts (BUFFER_LENGTH - length bs)" "int (length bs) = request_length ts"
    using ts(1) by (simp_all add: padded_def request_buffer_def zeros_def request_length_def crlf_def)
  have "kvs_protocol F rq (padded bs) (int (length bs)) (Some ns) s = Some (rep, Some ns', s')"
    unfolding b using f(1, 2) protocol_request [OF ts(3) n(2, 1), of "BUFFER_LENGTH - length bs" F rq "Some ns" s] rq(2)
    by (cases rep) (simp add: fits_def)
  then show ?thesis using f(2-4) by (auto simp: kvs_handler_def)
qed

interpretation service: msg_service "kvs_handler F" safe_server service_ns service_request for F
proof
  show "service_ns ''default''" by (simp add: service_ns_def ascii_def)
qed (rule service_handles)

section \<open>Starting\<close>

lemma reactor_inv_listen:
  assumes "reactor_inv ok_ns P L r" "dom (epoll r) = L" "fd \<notin> L" "0 \<le> fd" "fd < int CONNECTION_SIZE"
  shows "\<exists>r'. start_ports [(fd, b)] port r = Some r' \<and> reactor_inv ok_ns P (insert fd L) r' \<and> dom (epoll r') = insert fd L \<and>
    app r' = app r \<and> sent r' = sent r"
proof -
  let ?r = "r\<lparr>listening := (fd, if b then Some (port mod 65536) else None) # listening r\<rparr>"
  obtain c where c: "conn_at ?r fd = Some c"
    using assms(1, 4, 5) conn_at_range [of r fd] by (auto simp: reactor_inv_def)
  let ?c = "c\<lparr>conn_fd := fd, recv_callback := Some Accept_cb\<rparr>"
  obtain r1 where r1: "put_conn ?r fd ?c = Some r1" using put_conn_total [OF c] by blast
  note p = conn_at_put [OF r1]
  let ?r' = "set_event r1 fd EPOLLIN True"
  have ep: "epoll ?r' = (epoll r)(fd \<mapsto> EPOLLIN)" using assms(2, 3) p(2) by (auto simp: set_event_epoll)
  have "start_ports [(fd, b)] port r = Some ?r'" using c r1 by (simp add: r_init_server_def)
  moreover have "reactor_inv ok_ns P (insert fd L) ?r'"
    using assms(1, 2) p unfolding reactor_inv_def ep by auto
  moreover have "dom (epoll ?r') = insert fd L" using assms(2) ep by simp
  ultimately show ?thesis using p by auto
qed

lemma start_ports_cons:
  "start_ports (x # socks) port r = do { r \<leftarrow> start_ports [x] port r; start_ports socks (port + 1) r }"
  by (cases x) (simp add: r_init_server_def)

lemma start_ports_inv:
  assumes "reactor_inv ok_ns P L r" "dom (epoll r) = L" "distinct (map fst socks)" "fst ` set socks \<inter> L = {}"
    "\<forall>(fd, b) \<in> set socks. 0 \<le> fd \<and> fd < int CONNECTION_SIZE"
  shows "\<exists>r'. start_ports socks port r = Some r' \<and> reactor_inv ok_ns P (L \<union> fst ` set socks) r' \<and>
    dom (epoll r') = L \<union> fst ` set socks \<and> app r' = app r \<and> sent r' = sent r"
  using assms
proof (induction socks arbitrary: L r port)
  case (Cons x socks)
  obtain fd b where x: "x = (fd, b)" by (cases x)
  have "fd \<notin> L" "0 \<le> fd" "fd < int CONNECTION_SIZE" using Cons.prems x by auto
  then obtain r1 where r1: "start_ports [(fd, b)] port r = Some r1" "reactor_inv ok_ns P (insert fd L) r1"
      "dom (epoll r1) = insert fd L" "app r1 = app r" "sent r1 = sent r"
    using reactor_inv_listen [OF Cons.prems(1, 2)] by blast
  have "fst ` set socks \<inter> insert fd L = {}" using Cons.prems(3, 4) x by auto
  from Cons.IH [OF r1(2, 3) _ this, of "port + 1"] Cons.prems(3, 5) obtain r' where
      r': "start_ports socks (port + 1) r1 = Some r'" "reactor_inv ok_ns P (insert fd L \<union> fst ` set socks) r'"
      "dom (epoll r') = insert fd L \<union> fst ` set socks" "app r' = app r1" "sent r' = sent r1" by auto
  have "start_ports (x # socks) port r = Some r'" using r1(1) r'(1) x by (subst start_ports_cons) (simp only: bind.bind_lunit)
  moreover have "insert fd L \<union> fst ` set socks = L \<union> fst ` set (x # socks)" using x by auto
  ultimately show ?case using r' r1(4, 5) by auto
qed simp

text \<open>The sockets that the start opens are different descriptors, all of them in the table.\<close>

definition listeners :: "(nat \<Rightarrow> int \<times> bool) \<Rightarrow> int set" where
  "listeners socks = fst ` set (map socks [0..<MAX_PORTS])"

definition good_socks :: "(nat \<Rightarrow> int \<times> bool) \<Rightarrow> bool" where
  "good_socks socks \<longleftrightarrow> distinct (map fst (map socks [0..<MAX_PORTS])) \<and>
     (\<forall>fd \<in> listeners socks. 0 \<le> fd \<and> fd < int CONNECTION_SIZE)"

lemma reactor_starts:
  assumes "good_socks socks" "P a"
  shows "\<exists>r. reactor_start socks port now a = Some r \<and> reactor_inv ok_ns P (listeners socks) r \<and>
    abs_net (listeners socks) r = net_start a \<and> dom (epoll r) = listeners socks"
proof -
  let ?socks = "map socks [0..<MAX_PORTS]"
  have z: "reactor_inv ok_ns P {} (reactor_zero a)" "dom (epoll (reactor_zero a)) = {}"
    using assms(2) by (simp_all add: reactor_inv_def reactor_zero_def)
  have "\<forall>(fd, b) \<in> set ?socks. 0 \<le> fd \<and> fd < int CONNECTION_SIZE"
    using assms(1) by (auto simp: good_socks_def listeners_def image_iff split_beta)
  then obtain r where r: "start_ports ?socks port (reactor_zero a) = Some r" "reactor_inv ok_ns P (listeners socks) r"
      "dom (epoll r) = listeners socks" "app r = a" "sent r = (\<lambda>_. [])"
    using start_ports_inv [OF z, of ?socks port] assms(1) by (auto simp: good_socks_def listeners_def reactor_zero_def)
  let ?r = "r\<lparr>begin_tv := now\<rparr>"
  have "reactor_inv ok_ns P (listeners socks) ?r" using r(2) by (simp add: reactor_inv_def)
  moreover have "epoll r fd \<noteq> Some EPOLLOUT" for fd
  proof (cases "fd \<in> listeners socks")
    case True
    then have "epoll r fd = Some EPOLLIN" using r(2) by (simp add: reactor_inv_def)
    then show ?thesis by (simp add: EPOLLIN_def EPOLLOUT_def)
  next
    case False
    then have "epoll r fd = None" using r(3) by blast
    then show ?thesis by simp
  qed
  then have "abs_net (listeners socks) ?r = net_start a"
    using r(3-5) by (simp add: abs_net_def net_start_def pending_def) (metis domIff)
  ultimately show ?thesis using r(1, 3) by (auto simp: reactor_start_def)
qed

lemma fresh_safe_server:
  "\<exists>s. init_kvengine F (\<lambda>_. env0) (\<lambda>_. env0) Map.empty = Some (0, s) \<and> safe_server s \<and> engs s = engines_start"
proof -
  obtain s where s: "init_kvengine F (\<lambda>_. env0) (\<lambda>_. env0) Map.empty = Some (0, s)" "engs s = engines_start" "lru_inv (base (cch s)) []"
    using init_server [of "\<lambda>_. env0" Map.empty F "\<lambda>_. env0"] by auto
  have "any_view (base (cch s)) Map.empty" using lru_viewI [OF s(3)] by (simp add: any_view_def)
  moreover have "short Map.empty" by (simp add: short_def)
  moreover have "safe_engines (engs s)"
    using fresh_server_ok(2) [OF s(2, 3)] engines_start_inv s(2) \<open>short Map.empty\<close> by (simp add: safe_engines_def)
  ultimately show ?thesis using s(1, 2) by (auto simp: safe_server_def)
qed

text \<open>A client that connects, sends a \<open>SET\<close> and reads the reply.\<close>

definition socks0 :: "nat \<Rightarrow> int \<times> bool" where
  "socks0 i = (int i + 4, True)"

definition ev0 :: net_event where
  "ev0 = \<lparr>ev_fd = 4, ev_in = True, ev_out = False, ans_accept = -1, ans_recv = None, ans_send = 1024, ans_now = (0, 0),
     ans_rq = rq0\<rparr>"

definition demo_events :: "net_event list" where
  "demo_events = [ev0\<lparr>ans_accept := 30\<rparr>, ev0\<lparr>ev_fd := 30, ans_recv := Some (command_line [''SET'', ''k'', ''1''] @ crlf)\<rparr>,
     ev0\<lparr>ev_fd := 30, ev_in := False, ev_out := True\<rparr>]"

lemma socks0_good: "good_socks socks0" "30 \<notin> listeners socks0" "4 \<in> listeners socks0" "-1 \<notin> listeners socks0"
  by (auto simp: good_socks_def listeners_def socks0_def MAX_PORTS_def CONNECTION_SIZE_def distinct_map inj_on_def
      image_image image_iff intro!: bexI [of _ 0])

lemma reactor_inv_wlength:
  assumes "reactor_inv ok_ns P L r" "epoll r fd \<noteq> None" "fd \<notin> L" "conn_at r fd = Some c"
  shows "wlength c < int BUFFER_LENGTH"
  using assms unfolding reactor_inv_def conn_ok_def by fastforce

lemma demo_run:
  fixes F :: "'f float_ops"
  assumes "safe_server a"
  shows "\<exists>r0 r. reactor_start socks0 8000 (0, 0) a = Some r0 \<and>
    reactor_runs (kvs_handler F) (\<lambda>r ev. tame service_request ev \<and> sends_all r ev) r0 demo_events r \<and>
    main_loop (kvs_handler F) demo_events r0 = Some r \<and> epoll r 30 = Some EPOLLIN \<and> epoll r (-1) = None"
proof -
  let ?L = "listeners socks0" and ?h = "kvs_handler F"
  obtain e1 e2 e3 where ev: "demo_events = [e1, e2, e3]" and e: "e1 = ev0\<lparr>ans_accept := 30\<rparr>"
      "e2 = ev0\<lparr>ev_fd := 30, ans_recv := Some (command_line [''SET'', ''k'', ''1''] @ crlf)\<rparr>"
      "e3 = ev0\<lparr>ev_fd := 30, ev_in := False, ev_out := True\<rparr>"
    by (auto simp: demo_events_def)
  obtain r0 where r0: "reactor_start socks0 8000 (0, 0) a = Some r0" "reactor_inv service_ns safe_server ?L r0" "dom (epoll r0) = ?L"
    using reactor_starts [where P = safe_server, OF socks0_good(1) assms] by blast
  have ep0: "epoll r0 4 = Some EPOLLIN" "epoll r0 30 = None" "epoll r0 (-1) = None"
    using r0(2, 3) socks0_good by (auto simp: reactor_inv_def)
  have "service_request rq0 (command_line [''SET'', ''k'', ''1''] @ crlf)"
    unfolding service_request_def service_tokens_def
    by (auto simp: BUFFER_LENGTH_def quote_def crlf_def clean_def ascii_def
        intro!: exI [of _ "[''SET'', ''k'', ''1'']"] exI [of _ Array_Cmds] exI [of _ "KSet ''k'' ''1''"])
  then have t: "tame service_request e1" "tame service_request e2" "tame service_request e3"
    by (simp_all add: tame_def e ev0_def CONNECTION_SIZE_def BUFFER_LENGTH_def quote_def crlf_def)
  have n1: "enabled r0 e1" using ep0 by (simp add: enabled_def e ev0_def)
  obtain r1 where r1: "handle_event ?h e1 r0 = Some r1" "reactor_inv service_ns safe_server ?L r1"
    using service.event_step [OF r0(2) n1 t(1)] by blast
  have ep1: "epoll r1 = (epoll r0)(30 \<mapsto> EPOLLIN)"
    using service.event_epoll [OF r0(2) n1 r1(1)] socks0_good(3) by (simp add: next_epoll_def e ev0_def)
  have n2: "enabled r1 e2" using ep0 ep1 by (simp add: enabled_def e ev0_def)
  obtain r2 where r2: "handle_event ?h e2 r1 = Some r2" "reactor_inv service_ns safe_server ?L r2"
    using service.event_step [OF r1(2) n2 t(2)] by blast
  have ep2: "epoll r2 = (epoll r0)(30 \<mapsto> EPOLLOUT)"
    using service.event_epoll [OF r1(2) n2 r2(1)] socks0_good(2) ep1 by (simp add: next_epoll_def e ev0_def quote_def)
  have n3: "enabled r2 e3" using ep0 ep2 by (simp add: enabled_def e ev0_def)
  obtain r3 where r3: "handle_event ?h e3 r2 = Some r3" using service.event_step [OF r2(2) n3 t(3)] by blast
  have ep3: "epoll r3 = (epoll r0)(30 \<mapsto> EPOLLIN)"
    using service.event_epoll [OF r2(2) n3 r3] ep2 by (simp add: next_epoll_def e ev0_def)
  have "sends_all r0 e1" "sends_all r1 e2" by (simp_all add: sends_all_def e ev0_def)
  moreover have "sends_all r2 e3"
    using reactor_inv_wlength [OF r2(2), of 30] ep2 socks0_good(2) by (auto simp: sends_all_def e ev0_def BUFFER_LENGTH_def)
  ultimately have "reactor_runs ?h (\<lambda>r ev. tame service_request ev \<and> sends_all r ev) r0 ((([] @ [e1]) @ [e2]) @ [e3]) r3"
    by (intro runs_snoc [OF runs_snoc [OF runs_snoc [OF runs_nil n1 _ r1(1)] n2 _ r2(1)] n3 _ r3] conjI t)
  then have "reactor_runs ?h (\<lambda>r ev. tame service_request ev \<and> sends_all r ev) r0 demo_events r3" by (simp add: ev)
  then show ?thesis using r0(1) ep0 ep3 runs_main_loop by (intro exI [of _ r0] exI [of _ r3]) auto
qed

section \<open>Properties\<close>

text \<open>C3: the event loop is type safe: from a start with different listening sockets, every state
  reached with at most 1024 descriptors and service requests (commands of the four string
  families, namespace commands and unknown commands, each whole in one \<open>recv\<close>) is well formed (buffers of
  their size, callbacks that fit the sockets, replies within the write buffer, a well-formed
  server), and every event that the kernel can report is handled without a fault, whatever
  \<open>accept\<close>, \<open>recv\<close> and \<open>send\<close> answer.\<close>

theorem reactor_type_safe:
  assumes "good_socks socks" "safe_server a" "reactor_start socks port now a = Some r0"
    and "reactor_runs (kvs_handler F) (\<lambda>r ev. tame service_request ev) r0 evs r"
  shows "main_loop (kvs_handler F) evs r0 = Some r \<and> reactor_inv service_ns safe_server (listeners socks) r \<and>
    (\<forall>ev. enabled r ev \<and> tame service_request ev \<longrightarrow> (\<exists>r'. handle_event (kvs_handler F) ev r = Some r'))"
proof -
  have "reactor_inv service_ns safe_server (listeners socks) r0"
    using reactor_starts [of socks safe_server a port now service_ns] assms(1-3) by auto
  then have i: "reactor_inv service_ns safe_server (listeners socks) r" using service.runs_inv [OF assms(4)] by blast
  then show ?thesis using service.event_step [OF i] runs_main_loop [OF assms(4)] by blast
qed

theorem reactor_type_safe_witness:
  "\<exists>s r0 r. init_kvengine rat_ops (\<lambda>_. env0) (\<lambda>_. env0) Map.empty = Some (0, s) \<and>
     reactor_start socks0 8000 (0, 0) s = Some r0 \<and> main_loop (kvs_handler rat_ops) demo_events r0 = Some r \<and>
     (\<exists>r'. handle_event (kvs_handler rat_ops) (ev0\<lparr>ev_fd := 30\<rparr>) r = Some r')"
proof -
  obtain s where s: "init_kvengine rat_ops (\<lambda>_. env0) (\<lambda>_. env0) Map.empty = Some (0, s)" "safe_server s"
    using fresh_safe_server [of rat_ops] by blast
  obtain r0 r where r: "reactor_start socks0 8000 (0, 0) s = Some r0"
      "reactor_runs (kvs_handler rat_ops) (\<lambda>r ev. tame service_request ev \<and> sends_all r ev) r0 demo_events r"
      "main_loop (kvs_handler rat_ops) demo_events r0 = Some r" "epoll r 30 = Some EPOLLIN" "epoll r (-1) = None"
    using demo_run [OF s(2)] by blast
  have t: "reactor_runs (kvs_handler rat_ops) (\<lambda>r ev. tame service_request ev) r0 demo_events r"
    by (rule reactor_runs_mono [OF r(2)]) simp
  have "enabled r (ev0\<lparr>ev_fd := 30\<rparr>)" "tame service_request (ev0\<lparr>ev_fd := 30\<rparr>)"
    using r(4, 5) by (simp_all add: enabled_def ev0_def tame_def CONNECTION_SIZE_def)
  then obtain r' where "handle_event (kvs_handler rat_ops) (ev0\<lparr>ev_fd := 30\<rparr>) r = Some r'"
    using conjunct2 [OF conjunct2 [OF reactor_type_safe [OF socks0_good(1) s(2) r(1) t]], rule_format] by auto
  then show ?thesis using s(1) r(1, 3) by (intro exI conjI)
qed

text \<open>C2: the reactor takes requests one at a time. Whatever the interleaving of the clients, when
  every request is a service request (a command of the four string families, a namespace
  command or an unknown command, ASCII and whole in one \<open>recv\<close>) and every \<open>send\<close> takes the
  whole reply, the event loop does what the abstract server does with the
  connections and requests in their order of arrival: the clients have been sent, or are about
  to be sent, the replies of the protocol to their own requests, each in its own namespace.\<close>

theorem reactor_serialises:
  assumes "good_socks socks" "safe_server a" "reactor_start socks port now a = Some r0"
    and "reactor_runs (kvs_handler F) (\<lambda>r ev. tame service_request ev \<and> sends_all r ev) r0 evs r"
  shows "main_loop (kvs_handler F) evs r0 = Some r \<and>
    net_run (kvs_handler F) (concat (map (op_of (listeners socks)) evs)) (net_start a) = Some (abs_net (listeners socks) r)"
proof -
  have "reactor_inv service_ns safe_server (listeners socks) r0" "abs_net (listeners socks) r0 = net_start a"
    using reactor_starts [of socks safe_server a port now service_ns] assms(1-3) by auto
  then show ?thesis using service.runs_simulate [OF assms(4)] runs_main_loop [OF assms(4)] by fastforce
qed

theorem reactor_serialises_witness:
  "\<exists>s r0 r. init_kvengine rat_ops (\<lambda>_. env0) (\<lambda>_. env0) Map.empty = Some (0, s) \<and>
     reactor_start socks0 8000 (0, 0) s = Some r0 \<and> main_loop (kvs_handler rat_ops) demo_events r0 = Some r \<and>
     sent r 30 = ''OK'' @ crlf"
proof -
  obtain s where s: "init_kvengine rat_ops (\<lambda>_. env0) (\<lambda>_. env0) Map.empty = Some (0, s)" "safe_server s" "engs s = engines_start"
    using fresh_safe_server [of rat_ops] by blast
  obtain r0 r where r: "reactor_start socks0 8000 (0, 0) s = Some r0"
      "reactor_runs (kvs_handler rat_ops) (\<lambda>r ev. tame service_request ev \<and> sends_all r ev) r0 demo_events r"
      "main_loop (kvs_handler rat_ops) demo_events r0 = Some r" "epoll r 30 = Some EPOLLIN"
    using demo_run [OF s(2)] by blast
  let ?bs = "command_line [''SET'', ''k'', ''1''] @ crlf"
  have ops: "concat (map (op_of (listeners socks0)) demo_events) = [Opened 30, Request 30 rq0 ?bs]"
    using socks0_good(2, 3) by (simp add: demo_events_def op_of_def ev0_def BUFFER_LENGTH_def quote_def crlf_def)
  have b: "padded ?bs = request_buffer [''SET'', ''k'', ''1''] (1024 - length ?bs)" "int (length ?bs) = request_length [''SET'', ''k'', ''1'']"
    by (simp_all add: padded_def request_buffer_def zeros_def request_length_def crlf_def BUFFER_LENGTH_def)
  obtain x where "family_step Array_Cmds rq0 s (KSet ''k'' ''1'') = Some (say ''OK'', s\<lparr>engs := x\<rparr>)"
    using array_set_fresh [OF s(3)] by blast
  then have "kvs_protocol rat_ops rq0 (padded ?bs) (int (length ?bs)) (Some ''default'') s = Some (say ''OK'', Some ''default'', s\<lparr>engs := x\<rparr>)"
    unfolding b using filter_family [of rat_ops rq0 Array_Cmds "KSet ''k'' ''1''" "''default''" s]
    by (subst protocol_request) (simp_all add: clean_def KVS_MAX_TOKENS_def quote_def crlf_def in_ns_def say_def)
  then have "net_run (kvs_handler rat_ops) [Opened 30, Request 30 rq0 ?bs] (net_start s) \<noteq> None \<Longrightarrow>
      out (the (net_run (kvs_handler rat_ops) [Opened 30, Request 30 rq0 ?bs] (net_start s))) 30 = ''OK'' @ crlf"
    by (simp add: kvs_handler_def net_start_def say_def crlf_def)
  then have "out (abs_net (listeners socks0) r) 30 = ''OK'' @ crlf"
    using reactor_serialises [OF socks0_good(1) s(2) r(1, 2)] unfolding ops by simp
  then have "sent r 30 = ''OK'' @ crlf" using r(4) by (simp add: abs_net_def pending_def EPOLLIN_def EPOLLOUT_def)
  then show ?thesis using s(1) r(1, 3) by blast
qed

end
