(* ===== verification/Kvs_Proactor.thy ===== *)
theory Kvs_Proactor
  imports Kvs_Reactor
begin

text \<open>
  The io_uring loop (\<open>src/network/proactor.c\<close>), an alternative network layer.

  Of liburing the model has what the loop relies on: submitted entries are in flight until the
  kernel completes them, a completed receive has stored its bytes in the buffer of the entry, a
  completed send has read its bytes from there, and a completion carries the data of its entry
  and a result. There is one receive buffer for all connections. The buffer of the replies is
  local to a block of the loop that has been left when the kernel reads it; the model has one
  such stack slot, which keeps its bytes until the block is entered again.
\<close>

section \<open>State\<close>

definition EVENT_ACCEPT :: int where "EVENT_ACCEPT = 0"
definition EVENT_READ :: int where "EVENT_READ = 1"
definition EVENT_WRITE :: int where "EVENT_WRITE = 2"
definition ENTRIES_LENGTH :: nat where "ENTRIES_LENGTH = 1024"
definition MAX_CONNECTIONS :: nat where "MAX_CONNECTIONS = 1024"

record conn_info =
  info_fd :: int
  info_event :: int

text \<open>A submission entry: its user data and the number of bytes to send.\<close>

type_synonym sqe = "conn_info \<times> int"

text \<open>A completion: the entry, the result, the bytes received, and the environment of the request.\<close>

record completion =
  cq_entry :: sqe
  cq_res :: int
  cq_bytes :: string
  cq_rq :: request

record 's proactor =
  sockfd :: int
  shared_buffer :: string
  response_slot :: string
  connection_namespaces :: "string list"
  submissions :: "sqe list"
  in_flight :: "sqe list"
  completed :: "completion list"
  papp :: 's
  psent :: "int \<Rightarrow> string"
  pclosed :: "int set"

section \<open>Submissions\<close>

text \<open>\<open>io_uring_get_sqe\<close> gives NULL when the queue is full, and the caller writes through it.\<close>

definition get_sqe :: "'s proactor \<Rightarrow> sqe \<Rightarrow> 's proactor option" where
  "get_sqe p x = (if length (submissions p) < ENTRIES_LENGTH then Some (p\<lparr>submissions := submissions p @ [x]\<rparr>) else None)"

definition set_event_recv :: "'s proactor \<Rightarrow> int \<Rightarrow> 's proactor option" where
  "set_event_recv p fd = get_sqe p (\<lparr>info_fd = fd, info_event = EVENT_READ\<rparr>, 0)"

definition set_event_send :: "'s proactor \<Rightarrow> int \<Rightarrow> int \<Rightarrow> 's proactor option" where
  "set_event_send p fd len = get_sqe p (\<lparr>info_fd = fd, info_event = EVENT_WRITE\<rparr>, len)"

definition set_event_accept :: "'s proactor \<Rightarrow> 's proactor option" where
  "set_event_accept p = get_sqe p (\<lparr>info_fd = sockfd p, info_event = EVENT_ACCEPT\<rparr>, 0)"

definition init_connection_namespace :: "int \<Rightarrow> string list \<Rightarrow> string list" where
  "init_connection_namespace fd nss = (if fd \<ge> 0 \<and> fd < int MAX_CONNECTIONS then nss[nat fd := ''default''] else nss)"

definition get_connection_namespace :: "int \<Rightarrow> string list \<Rightarrow> cstr" where
  "get_connection_namespace fd nss = (if fd \<ge> 0 \<and> fd < int MAX_CONNECTIONS then Some (nss ! nat fd) else None)"

definition cleanup_connection_namespace :: "int \<Rightarrow> string list \<Rightarrow> string list" where
  "cleanup_connection_namespace fd nss = (if fd \<ge> 0 \<and> fd < int MAX_CONNECTIONS then nss[nat fd := ''default''] else nss)"

text \<open>What the handler leaves in the namespace it was given a pointer to.\<close>

definition write_namespace :: "int \<Rightarrow> cstr \<Rightarrow> string list \<Rightarrow> string list" where
  "write_namespace fd ns nss = (case ns of None \<Rightarrow> nss | Some n \<Rightarrow> nss[nat fd := n])"

section \<open>The loop\<close>

text \<open>The kernel's part. A receive stores \<open>res\<close> bytes, a send reads \<open>res\<close> bytes of the reply.\<close>

definition kernel_complete :: "completion \<Rightarrow> 's proactor \<Rightarrow> 's proactor option" where
  "kernel_complete cq p =
     (let (info, len) = cq_entry cq; n = nat (cq_res cq); q = p\<lparr>in_flight := remove1 (cq_entry cq) (in_flight p), completed := completed p @ [cq]\<rparr> in
      if cq_entry cq \<notin> set (in_flight p) then None
      else if info_event info = EVENT_READ then
        if n = length (cq_bytes cq) \<and> n \<le> BUFFER_LENGTH
        then Some (q\<lparr>shared_buffer := cq_bytes cq @ drop n (shared_buffer p)\<rparr>) else None
      else if info_event info = EVENT_WRITE then
        if len < 0 \<or> len > int (length (response_slot p)) then None
        else Some (q\<lparr>psent := (psent p)(info_fd info := psent p (info_fd info) @ take (min n (nat len)) (response_slot p))\<rparr>)
      else Some q)"

text \<open>The body of the loop over the completions.\<close>

definition handle_cqe :: "'s msg_handler \<Rightarrow> completion \<Rightarrow> 's proactor \<Rightarrow> 's proactor option" where
  "handle_cqe h cq p =
     (let info = fst (cq_entry cq); fd = info_fd info in
      if info_event info = EVENT_ACCEPT then do {
        p \<leftarrow> set_event_accept p;
        let connfd = cq_res cq;
        let p = p\<lparr>connection_namespaces := init_connection_namespace connfd (connection_namespaces p)\<rparr>;
        set_event_recv p connfd }
      else if info_event info = EVENT_READ then
        if cq_res cq = 0 then
          Some (p\<lparr>connection_namespaces := cleanup_connection_namespace fd (connection_namespaces p),
            pclosed := insert fd (pclosed p)\<rparr>)
        else if cq_res cq > 0 then do {
          let ns = get_connection_namespace fd (connection_namespaces p);
          (rep, ns, msg, s) \<leftarrow> h (cq_rq cq) (shared_buffer p) (cq_res cq) ns (papp p);
          response \<leftarrow> put_reply (zeros BUFFER_LENGTH) rep;
          set_event_send (p\<lparr>shared_buffer := msg, response_slot := response, papp := s,
            connection_namespaces := write_namespace fd ns (connection_namespaces p)\<rparr>) fd (fst rep) }
        else Some p
      else if info_event info = EVENT_WRITE then set_event_recv p fd
      else Some p)"

fun each :: "('a \<Rightarrow> 'b \<Rightarrow> 'b option) \<Rightarrow> 'a list \<Rightarrow> 'b \<Rightarrow> 'b option" where
  "each f [] x = Some x"
| "each f (a # as) x = do { x \<leftarrow> f a x; each f as x }"

text \<open>One turn: submit, wait while the kernel completes \<open>arrived\<close>, and handle a batch of at most 128
  completions.\<close>

definition turn :: "'s msg_handler \<Rightarrow> completion list \<Rightarrow> 's proactor \<Rightarrow> 's proactor option" where
  "turn h arrived p = do {
     let p = p\<lparr>in_flight := in_flight p @ submissions p, submissions := []\<rparr>;
     p \<leftarrow> each kernel_complete arrived p;
     let cqes = take 128 (completed p);
     p \<leftarrow> each (handle_cqe h) cqes p;
     Some (p\<lparr>completed := drop (length cqes) (completed p)\<rparr>) }"

text \<open>\<open>p_init_server\<close>, given what \<open>socket\<close> and \<open>bind\<close> answer, and \<open>proactor_start\<close> up to its
  loop. The result of \<open>p_init_server\<close> is not tested.\<close>

definition p_init_server :: "int \<Rightarrow> bool \<Rightarrow> int" where
  "p_init_server sock bind_ok = (if bind_ok then sock else -1)"

definition proactor_start :: "int \<Rightarrow> bool \<Rightarrow> 's \<Rightarrow> 's proactor option" where
  "proactor_start sock bind_ok a = set_event_accept
     \<lparr>sockfd = p_init_server sock bind_ok, shared_buffer = zeros BUFFER_LENGTH, response_slot = zeros BUFFER_LENGTH,
      connection_namespaces = replicate MAX_CONNECTIONS [], submissions = [], in_flight = [], completed = [], papp = a,
      psent = (\<lambda>_. []), pclosed = {}\<rparr>"

end
