(* ===== verification/Network_Correct.thy ===== *)
theory Network_Correct
  imports Reactor_Correct Kvs_Proactor
begin

text \<open>
  The io_uring loop does not keep the contract of \<open>Network_Spec\<close>: its receive buffer is shared and
  never cleared, and a request is read together with what an earlier one left behind it.
\<close>

section \<open>The shared receive buffer\<close>

lemma kvs_handler_text:
  assumes "0 < len" "len \<le> int (length buf)" "blank_line_ends (nat len) buf = t @ CHR 0x00 # r" "CHR 0x00 \<notin> set t"
    "kvs_split_token t = ts" "ts \<noteq> []" "kvs_filter_protocol F rq ts ns s = Some (ans, ns', s')" "0 \<le> fst ans"
  shows "kvs_handler F rq buf len ns s = Some (ans, ns', mark_from 0 t @ CHR 0x00 # r, s')"
proof -
  have t: "takeWhile (\<lambda>c. c \<noteq> CHR 0x00) (t @ CHR 0x00 # r) = t" "dropWhile (\<lambda>c. c \<noteq> CHR 0x00) (t @ CHR 0x00 # r) = CHR 0x00 # r"
    using takeWhile_stop [OF assms(4)] dropWhile_stop [OF assms(4)] by simp_all
  then have "c_string (blank_line_ends (nat len) buf) = Some t" using assms(3) by (simp add: c_string_def)
  then have "kvs_protocol F rq buf len ns s = Some (ans, ns', s')"
    using assms(1, 2, 5-8) by (cases ans) (simp add: kvs_protocol_def)
  then show ?thesis using assms(1, 3) t by (simp add: kvs_handler_def mark_tokens_def)
qed

definition line1 :: string where "line1 = ''SET key value'' @ crlf"
definition line2 :: string where "line2 = ''SET a b'' @ crlf"

lemma line_tokens:
  "kvs_split_token ''SET key value  '' = [''SET'', ''key'', ''value'']"
  "kvs_split_token ''SET a b  alue'' = [''SET'', ''a'', ''b'', ''alue'']"
  "mark_from 0 ''SET key value  '' = ''SET'' @ CHR 0x00 # ''key'' @ CHR 0x00 # ''value'' @ CHR 0x00 # '' ''"
  "join_tokens [''SET'', ''a'', ''b'', ''alue''] 2 8192 = ''b alue''"
  by code_simp+

lemma filter_set3:
  "kvs_filter_protocol F rq [''SET'', k, v] (Some ''default'') s = do { (r, s) \<leftarrow> cmd_set rq s (Some k) (Some v); Some (r, Some ''default'', s) }"
  "kvs_filter_protocol F rq [''SET'', ''a'', ''b'', ''alue''] (Some ''default'') s =
     do { (r, s) \<leftarrow> cmd_set rq s (Some ''a'') (Some ''b alue''); Some (r, Some ''default'', s) }"
  by (simp_all add: kvs_filter_protocol_def find_command_family value_of_def takes_value_def tok_def with_key_def
      make_namespaced_key_def line_tokens(4))

definition acc_info :: conn_info where "acc_info = \<lparr>info_fd = 3, info_event = EVENT_ACCEPT\<rparr>"
definition read_info :: conn_info where "read_info = \<lparr>info_fd = 5, info_event = EVENT_READ\<rparr>"
definition write_info :: conn_info where "write_info = \<lparr>info_fd = 5, info_event = EVENT_WRITE\<rparr>"

text \<open>A client on descriptor 5 connects, sends the first line, gets its reply and sends the second.\<close>

definition demo_turns :: "completion list list" where
  "demo_turns = [
     [\<lparr>cq_entry = (acc_info, 0), cq_res = 5, cq_bytes = [], cq_rq = rq0\<rparr>],
     [\<lparr>cq_entry = (read_info, 0), cq_res = 15, cq_bytes = line1, cq_rq = rq0\<rparr>],
     [\<lparr>cq_entry = (write_info, 4), cq_res = 4, cq_bytes = [], cq_rq = rq0\<rparr>],
     [\<lparr>cq_entry = (read_info, 0), cq_res = 9, cq_bytes = line2, cq_rq = rq0\<rparr>]]"

lemmas event_tags = EVENT_ACCEPT_def EVENT_READ_def EVENT_WRITE_def
lemmas infos = acc_info_def read_info_def write_info_def event_tags

lemma accept_turn:
  assumes "completed p = []" "in_flight p = []" "submissions p = [(acc_info, 0)]" "sockfd p = 3"
  shows "turn h [\<lparr>cq_entry = (acc_info, 0), cq_res = 5, cq_bytes = [], cq_rq = rq\<rparr>] p =
    Some (p\<lparr>submissions := [(acc_info, 0), (read_info, 0)], connection_namespaces := (connection_namespaces p)[5 := ''default'']\<rparr>)"
  using assms
  by (cases p) (simp add: turn_def kernel_complete_def handle_cqe_def Let_def set_event_accept_def set_event_recv_def get_sqe_def infos
      ENTRIES_LENGTH_def init_connection_namespace_def MAX_CONNECTIONS_def)

lemma read_turn:
  assumes "completed p = []" "in_flight p = fl" "submissions p = sub" "(read_info, 0) \<in> set (fl @ sub)"
    "length bs = n" "0 < n" "n \<le> BUFFER_LENGTH"
    "h rq (bs @ drop n (shared_buffer p)) (int n) (Some (connection_namespaces p ! 5)) (papp p) = Some (ans, Some ns, msg, s)"
    "put_reply (zeros BUFFER_LENGTH) ans = Some w"
  shows "turn h [\<lparr>cq_entry = (read_info, 0), cq_res = int n, cq_bytes = bs, cq_rq = rq\<rparr>] p =
    Some (p\<lparr>submissions := [(write_info, fst ans)], in_flight := remove1 (read_info, 0) (fl @ sub), shared_buffer := msg, response_slot := w,
      connection_namespaces := (connection_namespaces p)[5 := ns], papp := s\<rparr>)"
  using assms
  by (cases p) (auto simp: turn_def kernel_complete_def handle_cqe_def set_event_send_def get_sqe_def infos Let_def
      ENTRIES_LENGTH_def get_connection_namespace_def write_namespace_def MAX_CONNECTIONS_def)

lemma write_turn:
  assumes "completed p = []" "in_flight p = fl" "submissions p = [(write_info, n)]" "0 \<le> n" "n \<le> int (length (response_slot p))"
  shows "turn h [\<lparr>cq_entry = (write_info, n), cq_res = n, cq_bytes = [], cq_rq = rq\<rparr>] p =
    Some (p\<lparr>submissions := [(read_info, 0)], in_flight := remove1 (write_info, n) (fl @ [(write_info, n)]),
      psent := (psent p)(5 := psent p 5 @ take (nat n) (response_slot p))\<rparr>)"
  using assms
  by (cases p) (simp add: turn_def kernel_complete_def handle_cqe_def Let_def set_event_recv_def get_sqe_def infos ENTRIES_LENGTH_def)

lemma cmd_set_new:
  assumes "array_inv (global_array (engs s))" "array_map (global_array (engs s)) k = None" "card (dom (array_map (global_array (engs s)))) < 2"
  shows "\<exists>x. cmd_set rq0 s (Some k) (Some v) = Some (say ''OK'', s\<lparr>engs := (engs s)\<lparr>global_array := x\<rparr>\<rparr>) \<and> array_inv x \<and>
    array_map x = (array_map (global_array (engs s)))(k \<mapsto> v)"
proof -
  have "has_room (enat KVS_ARRAY_SIZE) (array_map (global_array (engs s)))" using assms(3) by (simp add: has_room_def KVS_ARRAY_SIZE_def)
  then show ?thesis
    using arr.set_new [OF assms(1) TrueI env0_ok _ assms(2), of v] by (auto simp: cmd_set_def rq0_def array_ops_def set_reply_def)
qed

text \<open>The receive buffer after each line, as the handler sees it.\<close>

lemma first_text: "blank_line_ends 15 (line1 @ drop 15 (zeros BUFFER_LENGTH)) = ''SET key value  '' @ CHR 0x00 # zeros 1008"
proof -
  have "drop 15 (zeros BUFFER_LENGTH) = replicate (Suc 1008) (CHR 0x00)" by (simp add: zeros_def BUFFER_LENGTH_def)
  then have "drop 15 (zeros BUFFER_LENGTH) = CHR 0x00 # zeros 1008" by (simp only: replicate_Suc zeros_def)
  then show ?thesis by (simp add: blank_line_ends_def line1_def crlf_def)
qed

lemma second_text:
  "blank_line_ends 9 (line2 @ drop 9 (mark_from 0 ''SET key value  '' @ CHR 0x00 # r)) = ''SET a b  alue'' @ CHR 0x00 # '' '' @ CHR 0x00 # r"
  by (simp add: blank_line_ends_def line2_def crlf_def line_tokens)

lemma put_ok: "put_reply (zeros BUFFER_LENGTH) (say ''OK'') = Some ((''OK'' @ crlf) @ CHR 0x00 # zeros 1019)"
  by (simp add: put_reply_def say_def zeros_def BUFFER_LENGTH_def crlf_def)

text \<open>The two requests of the run below: the second is read with the tail of the first.\<close>

abbreviation after_first :: string where
  "after_first \<equiv> mark_from 0 ''SET key value  '' @ CHR 0x00 # zeros 1008"

lemma first_request:
  assumes "cmd_set rq0 s (Some ''key'') (Some ''value'') = Some (say ''OK'', s')"
  shows "kvs_handler F rq0 (line1 @ drop 15 (zeros BUFFER_LENGTH)) (int 15) (Some ''default'') s =
    Some (say ''OK'', Some ''default'', after_first, s')"
proof -
  have l: "length line1 = 15" by (simp add: line1_def crlf_def)
  show ?thesis
    by (rule kvs_handler_text [OF _ _ _ _ line_tokens(1)])
      (use l assms in \<open>simp_all add: first_text filter_set3 say_def del: append.simps\<close>)
qed

lemma second_request:
  assumes "cmd_set rq0 s (Some ''a'') (Some ''b alue'') = Some (say ''OK'', s')"
  shows "kvs_handler F rq0 (line2 @ drop 9 after_first) (int 9) (Some ''default'') s =
    Some (say ''OK'', Some ''default'', mark_from 0 ''SET a b  alue'' @ CHR 0x00 # '' '' @ CHR 0x00 # zeros 1008, s')"
proof -
  have l: "length line2 = 9" by (simp add: line2_def crlf_def)
  show ?thesis
    by (rule kvs_handler_text [OF _ _ _ _ line_tokens(2)])
      (use l assms second_text [of "zeros 1008"] in \<open>simp_all add: filter_set3 say_def del: append.simps drop_append\<close>)
qed

text \<open>C40: the io_uring loop mixes requests. On a fresh server, a client that sends \<open>SET key value\<close>,
  waits for its reply and sends \<open>SET a b\<close> has the value \<open>b alue\<close> stored for \<open>a\<close>: the second
  line is read together with what the first one left behind it in the receive buffer.\<close>

theorem proactor_stale_tail:
  "\<exists>s p p'. init_kvengine F (\<lambda>_. env0) (\<lambda>_. env0) Map.empty = Some (0, s) \<and> proactor_start 3 True s = Some p \<and>
     each (turn (kvs_handler F)) demo_turns p = Some p' \<and> psent p' 5 = ''OK'' @ crlf \<and>
     array_map (global_array (engs (papp p'))) ''a'' = Some ''b alue''"
proof -
  obtain s where s: "init_kvengine F (\<lambda>_. env0) (\<lambda>_. env0) Map.empty = Some (0, s)" "engs s = engines_start"
    using init_server [of "\<lambda>_. env0" Map.empty F "\<lambda>_. env0"] by auto
  let ?h = "kvs_handler F"
  obtain p where p: "proactor_start 3 True s = Some p" "completed p = []" "in_flight p = []" "submissions p = [(acc_info, 0)]"
      "sockfd p = 3" "shared_buffer p = zeros BUFFER_LENGTH" "papp p = s" "length (connection_namespaces p) = MAX_CONNECTIONS" "psent p 5 = []"
    by (simp add: proactor_start_def p_init_server_def set_event_accept_def get_sqe_def ENTRIES_LENGTH_def acc_info_def)
  obtain x where x: "cmd_set rq0 s (Some ''key'') (Some ''value'') = Some (say ''OK'', s\<lparr>engs := (engs s)\<lparr>global_array := x\<rparr>\<rparr>)"
      "array_inv x" "array_map x = [''key'' \<mapsto> ''value'']"
    using cmd_set_new [of s "''key''" "''value''"] s(2) by (auto simp: engines_start_def arr.start_inv arr.start_contents)
  let ?s1 = "s\<lparr>engs := (engs s)\<lparr>global_array := x\<rparr>\<rparr>"
  obtain y where y: "cmd_set rq0 ?s1 (Some ''a'') (Some ''b alue'') = Some (say ''OK'', ?s1\<lparr>engs := (engs ?s1)\<lparr>global_array := y\<rparr>\<rparr>)"
      "array_map y = [''key'' \<mapsto> ''value'', ''a'' \<mapsto> ''b alue'']"
    using cmd_set_new [of ?s1 "''a''" "''b alue''"] x(2, 3) by auto
  let ?s2 = "?s1\<lparr>engs := (engs ?s1)\<lparr>global_array := y\<rparr>\<rparr>"
  note h1 = first_request [OF x(1), of F] and h2 = second_request [OF y(1), of F]
  let ?p1 = "p\<lparr>submissions := [(acc_info, 0), (read_info, 0)], connection_namespaces := (connection_namespaces p)[5 := ''default'']\<rparr>"
  have ns: "connection_namespaces ?p1 ! 5 = ''default''" using p(8) by (simp add: MAX_CONNECTIONS_def)
  let ?w = "(''OK'' @ crlf) @ CHR 0x00 # zeros 1019"
  have d: "remove1 (read_info, 0) ([] @ [(acc_info, 0), (read_info, 0)]) = [(acc_info, 0 :: int)]"
      "remove1 (write_info, 4) ([(acc_info, 0)] @ [(write_info, 4)]) = [(acc_info, 0 :: int)]" "fst (say ''OK'') = 4"
    by (simp_all add: infos say_def crlf_def)
  have b: "length line1 = 15" "0 < (15 :: nat)" "15 \<le> BUFFER_LENGTH" "length line2 = 9" "0 < (9 :: nat)" "9 \<le> BUFFER_LENGTH"
    by (simp_all add: BUFFER_LENGTH_def line1_def line2_def crlf_def)
  obtain p2 where t2: "turn ?h [\<lparr>cq_entry = (read_info, 0), cq_res = 15, cq_bytes = line1, cq_rq = rq0\<rparr>] ?p1 = Some p2"
      and p2: "completed p2 = []" "in_flight p2 = [(acc_info, 0)]" "submissions p2 = [(write_info, 4)]" "shared_buffer p2 = after_first"
      "response_slot p2 = ?w" "connection_namespaces p2 ! 5 = ''default''" "papp p2 = ?s1" "psent p2 5 = []"
    using read_turn [OF _ _ _ _ b(1-3) _ put_ok, of ?p1 "[]" "[(acc_info, 0), (read_info, 0)]" ?h rq0 "''default''" after_first ?s1]
      p h1 ns d by (auto simp: MAX_CONNECTIONS_def simp del: append.simps)
  have w: "nat 4 = length (''OK'' @ crlf)" "(4 :: int) \<le> int (length ?w)" by (simp_all add: crlf_def)
  obtain p3 where t3: "turn ?h [\<lparr>cq_entry = (write_info, 4), cq_res = 4, cq_bytes = [], cq_rq = rq0\<rparr>] p2 = Some p3"
      and p3: "completed p3 = []" "in_flight p3 = [(acc_info, 0)]" "submissions p3 = [(read_info, 0)]" "shared_buffer p3 = after_first"
      "connection_namespaces p3 ! 5 = ''default''" "papp p3 = ?s1" "psent p3 5 = ''OK'' @ crlf"
    using write_turn [OF p2(1-3), of ?h rq0] p2 d w by (auto simp del: append.simps)
  obtain p4 where t4: "turn ?h [\<lparr>cq_entry = (read_info, 0), cq_res = 9, cq_bytes = line2, cq_rq = rq0\<rparr>] p3 = Some p4"
      and p4: "papp p4 = ?s2" "psent p4 5 = ''OK'' @ crlf"
    using read_turn [OF p3(1-3) _ b(4-6) _ put_ok, of ?h rq0 "''default''" _ ?s2] p3 h2 by (auto simp del: append.simps)
  have "each (turn ?h) demo_turns p = Some p4"
    unfolding demo_turns_def each.simps accept_turn [OF p(2-5)] using t2 t3 t4 by simp
  then show ?thesis using s(1) p(1) p4 y(2) by auto
qed

end
