(* ===== verification/Nty_Schedule.thy ===== *)
theory Nty_Schedule
  imports LKV_Prelude
begin

unbundle bit_operations_syntax

text \<open>
  The coroutine library that the coroutine server runs on (\<open>NtyCo/core/nty_coroutine.c\<close>,
  \<open>nty_schedule.c\<close>, \<open>nty_epoll.c\<close>, in the \<open>_USE_UCONTEXT\<close> build of \<open>nty_coroutine.h\<close>).

  A coroutine is a record in the store \<open>coros\<close>; \<open>free\<close> removes it, so that following a freed
  pointer is a fault (\<^const>\<open>None\<close>), as is a failed \<open>assert\<close>. Statuses are 32-bit words, times
  64-bit words. The queues of the macros in \<open>nty_queue.h\<close> and the trees of \<open>nty_tree.h\<close> are the
  lists of their nodes in order: a search finds a node whose key compares equal, an insertion
  returns the node that is in the way, and removing a node that is not linked is a fault.

  All coroutines run on the one stack of the scheduler; \<open>_save_stack\<close> and \<open>_load_stack\<close> copy the
  used part of it. The code of the coroutines is the argument \<open>exec\<close> of the scheduler: the
  effect of switching to a coroutine until it yields. \<open>nty_schedule_run\<close> is a machine whose
  program counter stands at the tests of its loops; each of its steps gets what the clock and
  the kernel answer.
\<close>

section \<open>Statuses\<close>

definition NTY_COROUTINE_STATUS_WAIT_READ :: nat where "NTY_COROUTINE_STATUS_WAIT_READ = 0"
definition NTY_COROUTINE_STATUS_WAIT_WRITE :: nat where "NTY_COROUTINE_STATUS_WAIT_WRITE = 1"
definition NTY_COROUTINE_STATUS_NEW :: nat where "NTY_COROUTINE_STATUS_NEW = 2"
definition NTY_COROUTINE_STATUS_READY :: nat where "NTY_COROUTINE_STATUS_READY = 3"
definition NTY_COROUTINE_STATUS_EXITED :: nat where "NTY_COROUTINE_STATUS_EXITED = 4"
definition NTY_COROUTINE_STATUS_SLEEPING :: nat where "NTY_COROUTINE_STATUS_SLEEPING = 6"
definition NTY_COROUTINE_STATUS_EXPIRED :: nat where "NTY_COROUTINE_STATUS_EXPIRED = 7"
definition NTY_COROUTINE_STATUS_FDEOF :: nat where "NTY_COROUTINE_STATUS_FDEOF = 8"
definition NTY_COROUTINE_STATUS_DETACH :: nat where "NTY_COROUTINE_STATUS_DETACH = 9"

definition BIT :: "nat \<Rightarrow> 32 word" where "BIT x = push_bit x 1"
definition CLEARBIT :: "nat \<Rightarrow> 32 word" where "CLEARBIT x = NOT (push_bit x 1)"

definition has_bit :: "32 word \<Rightarrow> nat \<Rightarrow> bool" where
  "has_bit st x = (st AND BIT x \<noteq> 0)"

definition NTY_CO_MAX_STACKSIZE :: nat where "NTY_CO_MAX_STACKSIZE = 131072"

text \<open>Poll events; the values of \<open>POLLIN\<close> and its like agree with those of \<open>EPOLLIN\<close>.\<close>

definition POLLIN :: "16 word" where "POLLIN = 1"
definition POLLOUT :: "16 word" where "POLLOUT = 4"
definition POLLERR :: "16 word" where "POLLERR = 8"
definition POLLHUP :: "16 word" where "POLLHUP = 16"

section \<open>State\<close>

record nty_coroutine =
  co_status :: "32 word"
  co_birth :: "64 word"
  co_id :: "64 word"
  co_fd :: int
  co_events :: "16 word"
  co_ops :: "32 word"
  co_sleep_usecs :: "64 word"
  co_stack :: string

type_synonym coheap = "ref \<rightharpoonup> nty_coroutine"

text \<open>Where \<open>nty_schedule_run\<close> stands: at the test of its outer loop, of the loop over the expired
  sleepers, of the loop over the ready queue (with \<open>last_co_ready\<close>), before \<open>nty_schedule_epoll\<close>, at
  its call of \<open>epoll_wait\<close>, at the test of the loop over the events, or behind the loops.\<close>

datatype run_pc = At_top | At_expired | At_ready ref | At_epoll | At_wait | At_events | At_end

text \<open>\<open>nty_schedule\<close>, with the interest set of its epoll instance, the events that have not been
  taken up, the store of coroutines and its next address. Fields that this build never reads are
  left out, here and in \<open>nty_coroutine\<close>; the sizes of stacks are the lengths of their contents.\<close>

record nty_schedule =
  sbirth :: "64 word"
  sstack :: string
  spawned_coroutines :: int
  default_timeout :: "64 word"
  curr_thread :: ref
  poller :: "int \<rightharpoonup> 32 word"
  eventfd :: int
  new_events :: "(int \<times> 32 word) list"
  ready :: "ref list"
  busy :: "ref list"
  sleeping :: "ref list"
  waiting :: "ref list"
  coros :: coheap
  conext :: nat
  run_pc :: run_pc

definition put_co :: "ref \<Rightarrow> nty_coroutine \<Rightarrow> 'z nty_schedule_scheme \<Rightarrow> 'z nty_schedule_scheme" where
  "put_co co c s = s\<lparr>coros := (coros s)(co \<mapsto> c)\<rparr>"

section \<open>Queues and trees\<close>

definition nty_coroutine_sleep_cmp :: "nty_coroutine \<Rightarrow> nty_coroutine \<Rightarrow> int" where
  "nty_coroutine_sleep_cmp co1 co2 =
     (if co_sleep_usecs co1 < co_sleep_usecs co2 then -1
      else if co_sleep_usecs co1 = co_sleep_usecs co2 then 0 else 1)"

definition nty_coroutine_wait_cmp :: "nty_coroutine \<Rightarrow> nty_coroutine \<Rightarrow> int" where
  "nty_coroutine_wait_cmp co1 co2 =
     (if co_fd co1 < co_fd co2 then -1 else if co_fd co1 = co_fd co2 then 0 else 1)"

fun tree_find :: "(nty_coroutine \<Rightarrow> nty_coroutine \<Rightarrow> int) \<Rightarrow> coheap \<Rightarrow> ref list \<Rightarrow> nty_coroutine \<Rightarrow> ref option" where
  "tree_find cmp h [] x = Some NULL"
| "tree_find cmp h (r # t) x = do { c \<leftarrow> h r; if cmp x c = 0 then Some r else tree_find cmp h t x }"

fun tree_insert :: "(nty_coroutine \<Rightarrow> nty_coroutine \<Rightarrow> int) \<Rightarrow> coheap \<Rightarrow> ref list \<Rightarrow> ref \<Rightarrow> (ref \<times> ref list) option" where
  "tree_insert cmp h [] x = Some (NULL, [x])"
| "tree_insert cmp h (r # t) x = do {
     xc \<leftarrow> h x; c \<leftarrow> h r;
     if cmp xc c = 0 then Some (r, r # t)
     else if cmp xc c < 0 then Some (NULL, x # r # t)
     else do { (q, t) \<leftarrow> tree_insert cmp h t x; Some (q, r # t) } }"

definition tree_remove :: "ref list \<Rightarrow> ref \<Rightarrow> ref list option" where
  "tree_remove t x = (if x \<in> set t then Some (remove1 x t) else None)"

definition tree_min :: "ref list \<Rightarrow> ref" where
  "tree_min t = (case t of [] \<Rightarrow> NULL | r # _ \<Rightarrow> r)"

section \<open>Sleeping\<close>

text \<open>The insertion loop: on a collision the wake-up time moves by a microsecond.\<close>

partial_function (option) sleep_insert :: "ref \<Rightarrow> 'z nty_schedule_scheme \<Rightarrow> 'z nty_schedule_scheme option" where
  "sleep_insert co s = do {
     r \<leftarrow> tree_insert nty_coroutine_sleep_cmp (coros s) (sleeping s) co;
     c \<leftarrow> coros s co;
     if fst r \<noteq> NULL then sleep_insert co (put_co co (c\<lparr>co_sleep_usecs := co_sleep_usecs c + 1\<rparr>) s)
     else Some (put_co co (c\<lparr>co_status := co_status c OR BIT NTY_COROUTINE_STATUS_SLEEPING\<rparr>) (s\<lparr>sleeping := snd r\<rparr>)) }"

definition nty_schedule_sched_sleepdown :: "64 word \<Rightarrow> ref \<Rightarrow> 64 word \<Rightarrow> 'z nty_schedule_scheme \<Rightarrow> 'z nty_schedule_scheme option" where
  "nty_schedule_sched_sleepdown now co msecs s = do {
     let usecs = msecs * 1000;
     c \<leftarrow> coros s co;
     co_tmp \<leftarrow> tree_find nty_coroutine_sleep_cmp (coros s) (sleeping s) c;
     s \<leftarrow> (if co_tmp \<noteq> NULL then do { t \<leftarrow> tree_remove (sleeping s) co_tmp; Some (s\<lparr>sleeping := t\<rparr>) } else Some s);
     let s = put_co co (c\<lparr>co_sleep_usecs := (now - sbirth s) + usecs\<rparr>) s;
     if msecs \<noteq> 0 then sleep_insert co s else Some s }"

definition nty_schedule_desched_sleepdown :: "ref \<Rightarrow> 'z nty_schedule_scheme \<Rightarrow> 'z nty_schedule_scheme option" where
  "nty_schedule_desched_sleepdown co s = do {
     c \<leftarrow> coros s co;
     if has_bit (co_status c) NTY_COROUTINE_STATUS_SLEEPING then do {
       t \<leftarrow> tree_remove (sleeping s) co;
       let st = co_status c AND CLEARBIT NTY_COROUTINE_STATUS_SLEEPING;
       let st = st OR BIT NTY_COROUTINE_STATUS_READY;
       let st = st AND CLEARBIT NTY_COROUTINE_STATUS_EXPIRED;
       Some (put_co co (c\<lparr>co_status := st\<rparr>) (s\<lparr>sleeping := t\<rparr>)) }
     else Some s }"

section \<open>Waiting for a descriptor\<close>

text \<open>The coroutine on the stack of a search, \<open>find_it\<close>.\<close>

definition find_it :: "int \<Rightarrow> nty_coroutine" where
  "find_it fd = \<lparr>co_status = 0, co_birth = 0, co_id = 0, co_fd = fd, co_events = 0, co_ops = 0, co_sleep_usecs = 0, co_stack = []\<rparr>"

definition nty_schedule_search_wait :: "int \<Rightarrow> 'z nty_schedule_scheme \<Rightarrow> (ref \<times> 'z nty_schedule_scheme) option" where
  "nty_schedule_search_wait fd s = do {
     co \<leftarrow> tree_find nty_coroutine_wait_cmp (coros s) (waiting s) (find_it fd);
     c \<leftarrow> coros s co;
     Some (co, put_co co (c\<lparr>co_status := 0\<rparr>) s) }"

definition nty_schedule_desched_wait :: "int \<Rightarrow> 'z nty_schedule_scheme \<Rightarrow> (ref \<times> 'z nty_schedule_scheme) option" where
  "nty_schedule_desched_wait fd s = do {
     co \<leftarrow> tree_find nty_coroutine_wait_cmp (coros s) (waiting s) (find_it fd);
     s \<leftarrow> (if co \<noteq> NULL then do { t \<leftarrow> tree_remove (waiting s) co; Some (s\<lparr>waiting := t\<rparr>) } else Some s);
     c \<leftarrow> coros s co;
     let s = put_co co (c\<lparr>co_status := 0\<rparr>) s;
     s \<leftarrow> nty_schedule_desched_sleepdown co s;
     Some (co, s) }"

text \<open>The status gets the number of the enumeration, not its bit: 0 for reading, 1 for writing.\<close>

definition nty_schedule_sched_wait ::
    "64 word \<Rightarrow> ref \<Rightarrow> int \<Rightarrow> 16 word \<Rightarrow> 64 word \<Rightarrow> 'z nty_schedule_scheme \<Rightarrow> 'z nty_schedule_scheme option" where
  "nty_schedule_sched_wait now co fd events timeout s = do {
     c \<leftarrow> coros s co;
     if has_bit (co_status c) NTY_COROUTINE_STATUS_WAIT_READ \<or> has_bit (co_status c) NTY_COROUTINE_STATUS_WAIT_WRITE then None
     else do {
       st \<leftarrow> (if events AND POLLIN \<noteq> 0 then Some (co_status c OR of_nat NTY_COROUTINE_STATUS_WAIT_READ)
         else if events AND POLLOUT \<noteq> 0 then Some (co_status c OR of_nat NTY_COROUTINE_STATUS_WAIT_WRITE)
         else None);
       let s = put_co co (c\<lparr>co_status := st, co_fd := fd, co_events := events\<rparr>) s;
       (co_tmp, t) \<leftarrow> tree_insert nty_coroutine_wait_cmp (coros s) (waiting s) co;
       if co_tmp \<noteq> NULL then None
       else let s = s\<lparr>waiting := t\<rparr> in
         if timeout = 1 then Some s else nty_schedule_sched_sleepdown now co timeout s } }"

definition nty_schedule_cancel_wait :: "ref \<Rightarrow> 'z nty_schedule_scheme \<Rightarrow> 'z nty_schedule_scheme option" where
  "nty_schedule_cancel_wait co s = do { t \<leftarrow> tree_remove (waiting s) co; Some (s\<lparr>waiting := t\<rparr>) }"

section \<open>Stacks\<close>

text \<open>\<open>depth\<close> is the distance \<open>top - &dummy\<close> of the stack pointer from the top. The used part of the
  stack is its end, since stacks grow downwards.\<close>

definition save_stack :: "bool \<Rightarrow> nat \<Rightarrow> ref \<Rightarrow> 'z nty_schedule_scheme \<Rightarrow> 'z nty_schedule_scheme option" where
  "save_stack alloc_ok depth co s = do {
     c \<leftarrow> coros s co;
     if depth > NTY_CO_MAX_STACKSIZE then None
     else if length (co_stack c) < depth \<and> \<not> alloc_ok then None
     else if depth > length (sstack s) then None
     else Some (put_co co (c\<lparr>co_stack := drop (length (sstack s) - depth) (sstack s)\<rparr>) s) }"

definition load_stack :: "ref \<Rightarrow> 'z nty_schedule_scheme \<Rightarrow> 'z nty_schedule_scheme option" where
  "load_stack co s = do {
     c \<leftarrow> coros s co;
     if length (co_stack c) > length (sstack s) then None
     else Some (s\<lparr>sstack := take (length (sstack s) - length (co_stack c)) (sstack s) @ co_stack c\<rparr>) }"

section \<open>Coroutines\<close>

definition nty_coroutine_free :: "ref \<Rightarrow> 'z nty_schedule_scheme \<Rightarrow> 'z nty_schedule_scheme option" where
  "nty_coroutine_free co s =
     (if co = NULL then Some s
      else do { c \<leftarrow> coros s co;
        Some (s\<lparr>spawned_coroutines := spawned_coroutines s - 1, coros := (coros s)(co := None)\<rparr>) })"

definition nty_coroutine_init :: "ref \<Rightarrow> 'z nty_schedule_scheme \<Rightarrow> 'z nty_schedule_scheme option" where
  "nty_coroutine_init co s = do { c \<leftarrow> coros s co; Some (put_co co (c\<lparr>co_status := BIT NTY_COROUTINE_STATUS_READY\<rparr>) s) }"

text \<open>What happens before the switch back to the scheduler.\<close>

definition nty_coroutine_yield :: "bool \<Rightarrow> nat \<Rightarrow> ref \<Rightarrow> 'z nty_schedule_scheme \<Rightarrow> 'z nty_schedule_scheme option" where
  "nty_coroutine_yield alloc_ok depth co s = do {
     c \<leftarrow> coros s co;
     let s = put_co co (c\<lparr>co_ops := 0\<rparr>) s;
     if has_bit (co_status c) NTY_COROUTINE_STATUS_EXITED then Some s else save_stack alloc_ok depth co s }"

text \<open>\<open>_exec\<close> after the function of the coroutine has returned.\<close>

definition exec_return :: "bool \<Rightarrow> nat \<Rightarrow> ref \<Rightarrow> 'z nty_schedule_scheme \<Rightarrow> 'z nty_schedule_scheme option" where
  "exec_return alloc_ok depth co s = do {
     c \<leftarrow> coros s co;
     let st = BIT NTY_COROUTINE_STATUS_EXITED OR BIT NTY_COROUTINE_STATUS_FDEOF OR BIT NTY_COROUTINE_STATUS_DETACH;
     nty_coroutine_yield alloc_ok depth co (put_co co (c\<lparr>co_status := co_status c OR st\<rparr>) s) }"

definition nty_coroutine_resume ::
    "(ref \<Rightarrow> 'z nty_schedule_scheme \<Rightarrow> 'z nty_schedule_scheme option) \<Rightarrow> ref \<Rightarrow> 'z nty_schedule_scheme \<Rightarrow>
     (int \<times> 'z nty_schedule_scheme) option" where
  "nty_coroutine_resume exec co s = do {
     c \<leftarrow> coros s co;
     s \<leftarrow> (if has_bit (co_status c) NTY_COROUTINE_STATUS_NEW then nty_coroutine_init co s else load_stack co s);
     s \<leftarrow> exec co (s\<lparr>curr_thread := co\<rparr>);
     let s = s\<lparr>curr_thread := NULL\<rparr>;
     c \<leftarrow> coros s co;
     if has_bit (co_status c) NTY_COROUTINE_STATUS_EXITED then do {
       s \<leftarrow> (if has_bit (co_status c) NTY_COROUTINE_STATUS_DETACH then nty_coroutine_free co s else Some s);
       Some (-1, s) }
     else Some (0, s) }"

text \<open>\<open>nty_coroutine_renice\<close> and \<open>nty_coroutine_sleep\<close> up to the yield: whether they yield, and the
  state. A sleep of more than no time registers the coroutine and returns without a yield.\<close>

definition nty_coroutine_renice :: "ref \<Rightarrow> 'z nty_schedule_scheme \<Rightarrow> (bool \<times> 'z nty_schedule_scheme) option" where
  "nty_coroutine_renice co s = do {
     c \<leftarrow> coros s co;
     let s = put_co co (c\<lparr>co_ops := co_ops c + 1\<rparr>) s;
     if co_ops c + 1 < 5 then Some (False, s) else Some (True, s\<lparr>ready := ready s @ [co]\<rparr>) }"

definition nty_coroutine_sleep :: "64 word \<Rightarrow> 64 word \<Rightarrow> 'z nty_schedule_scheme \<Rightarrow> (bool \<times> 'z nty_schedule_scheme) option" where
  "nty_coroutine_sleep now msecs s =
     (let co = curr_thread s in
      if msecs = 0 then Some (True, s\<lparr>ready := ready s @ [co]\<rparr>)
      else do { s \<leftarrow> nty_schedule_sched_sleepdown now co msecs s; Some (False, s) })"

definition nty_coroutine_detach :: "'z nty_schedule_scheme \<Rightarrow> 'z nty_schedule_scheme option" where
  "nty_coroutine_detach s = do {
     c \<leftarrow> coros s (curr_thread s);
     Some (put_co (curr_thread s) (c\<lparr>co_status := co_status c OR BIT NTY_COROUTINE_STATUS_DETACH\<rparr>) s) }"

section \<open>Creation\<close>

text \<open>\<open>nty_epoller_ev_register_trigger\<close>: the event descriptor is created and goes to the interest set. Both
  \<open>eventfd\<close> and \<open>epoll_ctl\<close> are asserted to succeed.\<close>

definition nty_epoller_ev_register_trigger :: "int \<Rightarrow> bool \<Rightarrow> 'z nty_schedule_scheme \<Rightarrow> 'z nty_schedule_scheme option" where
  "nty_epoller_ev_register_trigger evfd ctl_ok s = do {
     s \<leftarrow> (if eventfd s = 0 then if evfd = -1 then None else Some (s\<lparr>eventfd := evfd\<rparr>) else Some s);
     if ctl_ok then Some (s\<lparr>poller := (poller s)(eventfd s \<mapsto> 1)\<rparr>) else None }"

text \<open>\<open>nty_schedule_create\<close>, given whether \<open>calloc\<close> and \<open>epoll_create\<close> succeed, the result of \<open>eventfd\<close> and
  whether \<open>epoll_ctl\<close> takes it, the memory that \<open>posix_memalign\<close> gives for the stack, and the time. A NULL
  scheduler is an inner \<^const>\<open>None\<close>, a failed assertion an outer one.\<close>

definition nty_schedule_create :: "bool \<Rightarrow> bool \<Rightarrow> int \<Rightarrow> bool \<Rightarrow> string option \<Rightarrow> 64 word \<Rightarrow> nty_schedule option option" where
  "nty_schedule_create alloc_ok epoll_ok evfd ctl_ok stack_memory now =
     (if \<not> alloc_ok \<or> \<not> epoll_ok then Some None
      else do {
        sched \<leftarrow> nty_epoller_ev_register_trigger evfd ctl_ok \<lparr>sbirth = 0, sstack = [], spawned_coroutines = 0,
          default_timeout = 0, curr_thread = NULL, poller = Map.empty, eventfd = 0, new_events = [], ready = [],
          busy = [], sleeping = [], waiting = [], coros = Map.empty, conext = 0, run_pc = At_top\<rparr>;
        stack_bytes \<leftarrow> stack_memory;
        Some (Some (sched\<lparr>sstack := stack_bytes, spawned_coroutines := 0, default_timeout := 3000000, sbirth := now\<rparr>)) })"

definition nty_coroutine_create :: "bool \<Rightarrow> 64 word \<Rightarrow> 'z nty_schedule_scheme \<Rightarrow> int \<times> ref \<times> 'z nty_schedule_scheme" where
  "nty_coroutine_create alloc_ok now s =
     (if \<not> alloc_ok then (-2, NULL, s)
      else let co = Ref (conext s) in
        (0, co, s\<lparr>spawned_coroutines := spawned_coroutines s + 1, conext := conext s + 1, ready := ready s @ [co],
           coros := (coros s)(co \<mapsto> \<lparr>co_status = BIT NTY_COROUTINE_STATUS_NEW, co_birth = now,
             co_id = of_int (spawned_coroutines s), co_fd = -1, co_events = 0, co_ops = 0, co_sleep_usecs = 0, co_stack = []\<rparr>)\<rparr>))"

definition nty_schedule_free :: "'z nty_schedule_scheme \<Rightarrow> 'z nty_schedule_scheme" where
  "nty_schedule_free s = s\<lparr>poller := Map.empty, sstack := []\<rparr>"

section \<open>The scheduler\<close>

definition nty_schedule_expired :: "64 word \<Rightarrow> 'z nty_schedule_scheme \<Rightarrow> (ref \<times> 'z nty_schedule_scheme) option" where
  "nty_schedule_expired now s =
     (let t_diff_usecs = now - sbirth s; co = tree_min (sleeping s) in
      if co = NULL then Some (NULL, s)
      else do {
        c \<leftarrow> coros s co;
        if co_sleep_usecs c \<le> t_diff_usecs then do { t \<leftarrow> tree_remove (sleeping s) co; Some (co, s\<lparr>sleeping := t\<rparr>) }
        else Some (NULL, s) })"

definition nty_schedule_isdone :: "'z nty_schedule_scheme \<Rightarrow> bool" where
  "nty_schedule_isdone s = (waiting s = [] \<and> busy s = [] \<and> sleeping s = [] \<and> ready s = [])"

definition nty_schedule_min_timeout :: "64 word \<Rightarrow> 'z nty_schedule_scheme \<Rightarrow> (64 word) option" where
  "nty_schedule_min_timeout now s =
     (let t_diff_usecs = now - sbirth s; co = tree_min (sleeping s) in
      if co = NULL then Some (default_timeout s)
      else do {
        c \<leftarrow> coros s co;
        if co_sleep_usecs c > t_diff_usecs then Some (co_sleep_usecs c - t_diff_usecs) else Some 0 })"

text \<open>The timespec of \<open>nty_schedule_epoll\<close>, and the timeout that \<open>nty_epoller_wait\<close> makes of it: a \<open>double\<close>
  of milliseconds, which is converted to the \<open>int\<close> that \<open>epoll_wait\<close> takes. The conversion drops the
  fraction; beyond the largest \<open>int\<close> it is undefined, which is a fault of the model.\<close>

definition epoll_timespec :: "64 word \<Rightarrow> 64 word \<times> 64 word" where
  "epoll_timespec usecs =
     (let sec = usecs div 1000000 in (sec, if sec \<noteq> 0 then (usecs mod 1000) * 1000 else usecs * 1000))"

definition nty_epoller_wait :: "64 word \<times> 64 word \<Rightarrow> int option" where
  "nty_epoller_wait t =
     (let ms = uint (fst t) * 1000 + uint (snd t) div 1000000 in if ms > 2147483647 then None else Some ms)"

text \<open>The answers to one step of the scheduler: the time, and what \<open>epoll_wait\<close> returns.\<close>

datatype epoll_answer = Interrupted | Failed | Ready_events "(int \<times> 32 word) list"

record tick =
  tk_now :: "64 word"
  tk_epoll :: epoll_answer

text \<open>\<open>nty_schedule_epoll\<close> up to its loop around \<open>epoll_wait\<close>, with the timeout of that call, and one round
  of the loop.\<close>

definition nty_schedule_epoll :: "tick \<Rightarrow> 'z nty_schedule_scheme \<Rightarrow> 'z nty_schedule_scheme option" where
  "nty_schedule_epoll tk s = do {
     let s = s\<lparr>new_events := []\<rparr>;
     usecs \<leftarrow> nty_schedule_min_timeout (tk_now tk) s;
     if usecs \<noteq> 0 \<and> ready s = [] then do {
       timeout \<leftarrow> nty_epoller_wait (epoll_timespec usecs);
       Some (s\<lparr>run_pc := At_wait\<rparr>) }
     else Some (s\<lparr>run_pc := At_events\<rparr>) }"

definition epoll_round :: "tick \<Rightarrow> 'z nty_schedule_scheme \<Rightarrow> 'z nty_schedule_scheme option" where
  "epoll_round tk s =
     (case tk_epoll tk of Interrupted \<Rightarrow> Some s | Failed \<Rightarrow> None
      | Ready_events evs \<Rightarrow> Some (s\<lparr>new_events := evs, run_pc := At_events\<rparr>))"

text \<open>One step of \<open>nty_schedule_run\<close>.\<close>

definition run_expired :: "(ref \<Rightarrow> 'z nty_schedule_scheme \<Rightarrow> 'z nty_schedule_scheme option) \<Rightarrow> tick \<Rightarrow>
    'z nty_schedule_scheme \<Rightarrow> 'z nty_schedule_scheme option" where
  "run_expired exec tk s = do {
     (expired, s) \<leftarrow> nty_schedule_expired (tk_now tk) s;
     if expired \<noteq> NULL then do { (_, s) \<leftarrow> nty_coroutine_resume exec expired s; Some s }
     else Some (s\<lparr>run_pc := At_ready (if ready s = [] then NULL else last (ready s))\<rparr>) }"

definition run_ready :: "(ref \<Rightarrow> 'z nty_schedule_scheme \<Rightarrow> 'z nty_schedule_scheme option) \<Rightarrow> ref \<Rightarrow>
    'z nty_schedule_scheme \<Rightarrow> 'z nty_schedule_scheme option" where
  "run_ready exec last_co_ready s =
     (case ready s of [] \<Rightarrow> Some (s\<lparr>run_pc := At_epoll\<rparr>)
      | co # rest \<Rightarrow> do {
          let s = s\<lparr>ready := rest\<rparr>;
          c \<leftarrow> coros s co;
          if has_bit (co_status c) NTY_COROUTINE_STATUS_FDEOF then do {
            s \<leftarrow> nty_coroutine_free co s;
            Some (s\<lparr>run_pc := At_epoll\<rparr>) }
          else do {
            (_, s) \<leftarrow> nty_coroutine_resume exec co s;
            Some (if co = last_co_ready then s\<lparr>run_pc := At_epoll\<rparr> else s) } })"

definition run_event :: "(ref \<Rightarrow> 'z nty_schedule_scheme \<Rightarrow> 'z nty_schedule_scheme option) \<Rightarrow>
    'z nty_schedule_scheme \<Rightarrow> 'z nty_schedule_scheme option" where
  "run_event exec s =
     (if new_events s = [] then Some (s\<lparr>run_pc := At_top\<rparr>)
      else do {
        let (fd, events) = last (new_events s);
        let s = s\<lparr>new_events := butlast (new_events s)\<rparr>;
        let is_eof = (events AND 16 \<noteq> 0);
        (co, s) \<leftarrow> nty_schedule_search_wait fd s;
        if co \<noteq> NULL then do {
          c \<leftarrow> coros s co;
          let s = (if is_eof then put_co co (c\<lparr>co_status := co_status c OR BIT NTY_COROUTINE_STATUS_FDEOF\<rparr>) s else s);
          (_, s) \<leftarrow> nty_coroutine_resume exec co s;
          Some s }
        else Some s })"

definition nty_schedule_run :: "(ref \<Rightarrow> 'z nty_schedule_scheme \<Rightarrow> 'z nty_schedule_scheme option) \<Rightarrow> tick \<Rightarrow>
    'z nty_schedule_scheme \<Rightarrow> 'z nty_schedule_scheme option" where
  "nty_schedule_run exec tk s =
     (case run_pc s of
        At_top \<Rightarrow> if nty_schedule_isdone s then Some (nty_schedule_free (s\<lparr>run_pc := At_end\<rparr>)) else Some (s\<lparr>run_pc := At_expired\<rparr>)
      | At_expired \<Rightarrow> run_expired exec tk s
      | At_ready last_co_ready \<Rightarrow> run_ready exec last_co_ready s
      | At_epoll \<Rightarrow> nty_schedule_epoll tk s
      | At_wait \<Rightarrow> epoll_round tk s
      | At_events \<Rightarrow> run_event exec s
      | At_end \<Rightarrow> Some s)"

end
