(* ===== verification/Nty_Socket.thy ===== *)
theory Nty_Socket
  imports Nty_Schedule
begin

unbundle bit_operations_syntax

text \<open>
  The socket calls of the coroutine library (\<open>NtyCo/core/nty_socket.c\<close>), which replace those of the
  C library. Without a scheduler a call goes straight to the kernel. In a coroutine it registers
  the descriptor with epoll and in the waiting tree, yields, and calls the kernel when it is
  resumed; depending on the answer it waits again or returns.

  \<open>poll_enter\<close> and \<open>poll_leave\<close> are \<open>nty_poll_inner\<close> before and after its yield. For each call,
  \<open>X_begin\<close> says what it does first and \<open>X_next\<close> what it does with the answer of the kernel.
\<close>

section \<open>Waiting for descriptors\<close>

definition POLLRDNORM :: "16 word" where "POLLRDNORM = 64"
definition POLLWRNORM :: "16 word" where "POLLWRNORM = 256"

definition nty_pollevent_2epoll :: "16 word \<Rightarrow> 32 word" where
  "nty_pollevent_2epoll events =
     (if events AND POLLIN \<noteq> 0 then 1 else 0) OR (if events AND POLLOUT \<noteq> 0 then 4 else 0) OR
     (if events AND POLLHUP \<noteq> 0 then 16 else 0) OR (if events AND POLLERR \<noteq> 0 then 8 else 0) OR
     (if events AND POLLRDNORM \<noteq> 0 then 64 else 0) OR (if events AND POLLWRNORM \<noteq> 0 then 256 else 0)"

definition nty_epollevent_2poll :: "32 word \<Rightarrow> 16 word" where
  "nty_epollevent_2poll events =
     (if events AND 1 \<noteq> 0 then POLLIN else 0) OR (if events AND 4 \<noteq> 0 then POLLOUT else 0) OR
     (if events AND 16 \<noteq> 0 then POLLHUP else 0) OR (if events AND 8 \<noteq> 0 then POLLERR else 0) OR
     (if events AND 64 \<noteq> 0 then POLLRDNORM else 0) OR (if events AND 256 \<noteq> 0 then POLLWRNORM else 0)"

text \<open>\<open>epoll_ctl\<close>: adding fails for a bad or a registered descriptor, and the result is not looked at.\<close>

definition epoll_ctl_add :: "int \<Rightarrow> 32 word \<Rightarrow> 'z nty_schedule_scheme \<Rightarrow> 'z nty_schedule_scheme" where
  "epoll_ctl_add fd ev s = (if fd < 0 \<or> poller s fd \<noteq> None then s else s\<lparr>poller := (poller s)(fd \<mapsto> ev)\<rparr>)"

definition epoll_ctl_del :: "int \<Rightarrow> 'z nty_schedule_scheme \<Rightarrow> 'z nty_schedule_scheme" where
  "epoll_ctl_del fd s = s\<lparr>poller := (poller s)(fd := None)\<rparr>"

text \<open>The loops of \<open>nty_poll_inner\<close> before and after the yield. The socket calls always pass a timeout
  of 1 and only when there is a scheduler, so the branches for a timeout of 0 and for no scheduler
  are not taken.\<close>

fun poll_enter :: "64 word \<Rightarrow> int \<Rightarrow> (int \<times> 16 word) list \<Rightarrow> 'z nty_schedule_scheme \<Rightarrow> 'z nty_schedule_scheme option" where
  "poll_enter now timeout [] s = Some s"
| "poll_enter now timeout ((fd, events) # fds) s = do {
     let timeout = (if timeout < 0 then 2147483647 else timeout);
     let co = curr_thread s;
     let s = epoll_ctl_add fd (nty_pollevent_2epoll events) s;
     c \<leftarrow> coros s co;
     let s = put_co co (c\<lparr>co_events := events\<rparr>) s;
     s \<leftarrow> nty_schedule_sched_wait now co fd events (of_int timeout) s;
     poll_enter now timeout fds s }"

fun poll_leave :: "(int \<times> 16 word) list \<Rightarrow> 'z nty_schedule_scheme \<Rightarrow> 'z nty_schedule_scheme option" where
  "poll_leave [] s = Some s"
| "poll_leave ((fd, events) # fds) s = do {
     (_, s) \<leftarrow> nty_schedule_desched_wait fd (epoll_ctl_del fd s);
     poll_leave fds s }"

section \<open>The calls\<close>

text \<open>What a call does next: wait for events of its descriptor, ask the kernel, return, or fail an
  assertion.\<close>

datatype io_step = Wait_for "16 word" | Ask_kernel | Returns int | Asserts

definition EAGAIN :: int where "EAGAIN = 11"
definition EINPROGRESS :: int where "EINPROGRESS = 115"
definition ECONNRESET :: int where "ECONNRESET = 104"
definition ECONNABORTED :: int where "ECONNABORTED = 103"

definition READABLE :: "16 word" where "READABLE = POLLIN OR POLLERR OR POLLHUP"
definition WRITABLE :: "16 word" where "WRITABLE = POLLOUT OR POLLERR OR POLLHUP"

definition socket_next :: "bool \<Rightarrow> int \<Rightarrow> bool \<Rightarrow> int" where
  "socket_next sched ret fcntl_ok = (if \<not> sched then ret else if ret = -1 then -1 else if \<not> fcntl_ok then -1 else ret)"

definition read_begin :: "bool \<Rightarrow> io_step" where
  "read_begin sched = (if sched then Wait_for READABLE else Ask_kernel)"

definition read_next :: "int \<Rightarrow> int \<Rightarrow> io_step" where
  "read_next ret err = (if ret < 0 \<and> err = ECONNRESET then Returns (-1) else Returns ret)"

definition recv_begin :: "bool \<Rightarrow> io_step" where
  "recv_begin sched = (if sched then Wait_for READABLE else Ask_kernel)"

definition recv_next :: "int \<Rightarrow> int \<Rightarrow> io_step" where
  "recv_next ret err = (if ret < 0 \<and> err = ECONNRESET then Returns (-1) else Returns ret)"

definition recvfrom_begin :: "bool \<Rightarrow> io_step" where
  "recvfrom_begin sched = (if sched then Wait_for READABLE else Ask_kernel)"

definition recvfrom_next :: "int \<Rightarrow> int \<Rightarrow> io_step" where
  "recvfrom_next ret err =
     (if ret < 0 then if err = EAGAIN then Returns ret else if err = ECONNRESET then Returns 0 else Asserts
      else Returns ret)"

definition sendto_begin :: "bool \<Rightarrow> io_step" where
  "sendto_begin sched = (if sched then Wait_for WRITABLE else Ask_kernel)"

definition sendto_next :: "int \<Rightarrow> int \<Rightarrow> io_step" where
  "sendto_next ret err =
     (if ret < 0 then if err = EAGAIN then Returns ret else if err = ECONNRESET then Returns 0 else Asserts
      else Returns ret)"

text \<open>\<open>accept\<close> and \<open>connect\<close> wait in a loop.\<close>

definition accept_begin :: "bool \<Rightarrow> io_step" where
  "accept_begin sched = (if sched then Wait_for READABLE else Ask_kernel)"

definition accept_next :: "int \<Rightarrow> int \<Rightarrow> bool \<Rightarrow> io_step" where
  "accept_next ret err fcntl_ok =
     (if ret < 0 then if err = EAGAIN then Wait_for READABLE else Returns (-1)
      else if \<not> fcntl_ok then Returns (-1) else Returns ret)"

definition connect_begin :: "bool \<Rightarrow> io_step" where
  "connect_begin sched = (if sched then Wait_for WRITABLE else Ask_kernel)"

definition connect_next :: "int \<Rightarrow> int \<Rightarrow> io_step" where
  "connect_next ret err =
     (if ret = 0 then Returns ret
      else if ret = -1 \<and> (err = EAGAIN \<or> err = EINPROGRESS) then Wait_for WRITABLE else Returns ret)"

text \<open>\<open>send\<close> and \<open>write\<close> ask the kernel first and wait while bytes are left. The state of a call is
  the number of bytes sent.\<close>

definition send_loop :: "nat \<Rightarrow> int \<Rightarrow> nat \<Rightarrow> io_step" where
  "send_loop len ret sent = (if sent < len then Wait_for WRITABLE else if ret \<le> 0 \<and> sent = 0 then Returns ret else Returns (int sent))"

definition send_first :: "bool \<Rightarrow> nat \<Rightarrow> int \<Rightarrow> nat \<times> io_step" where
  "send_first sched len ret =
     (if \<not> sched then (nat ret, Returns ret)
      else if ret = 0 then (0, Returns 0)
      else let sent = (if ret > 0 then nat ret else 0) in (sent, send_loop len ret sent))"

definition send_next :: "nat \<Rightarrow> nat \<Rightarrow> int \<Rightarrow> nat \<times> io_step" where
  "send_next len sent ret =
     (if ret \<le> 0 then (sent, if sent = 0 then Returns ret else Returns (int sent))
      else (sent + nat ret, send_loop len ret (sent + nat ret)))"

definition write_first :: "bool \<Rightarrow> nat \<Rightarrow> int \<Rightarrow> nat \<times> io_step" where
  "write_first sched len ret =
     (if \<not> sched then (nat ret, Returns ret)
      else if ret = 0 then (0, Returns 0)
      else let sent = (if ret > 0 then nat ret else 0) in (sent, send_loop len ret sent))"

definition write_next :: "nat \<Rightarrow> nat \<Rightarrow> int \<Rightarrow> nat \<times> io_step" where
  "write_next len sent ret =
     (if ret \<le> 0 then (sent, if sent = 0 then Returns ret else Returns (int sent))
      else (sent + nat ret, send_loop len ret (sent + nat ret)))"

text \<open>A \<open>send\<close> whose answers of the kernel are given: the bytes that were sent, and the result;
  \<^const>\<open>None\<close> when the answers end before the call returns.\<close>

fun send_rest :: "nat \<Rightarrow> nat \<Rightarrow> int list \<Rightarrow> (nat \<times> int) option" where
  "send_rest len sent [] = None"
| "send_rest len sent (ret # rets) =
     (case send_next len sent ret of
        (n, Returns r) \<Rightarrow> Some (n, r)
      | (n, Wait_for e) \<Rightarrow> send_rest len n rets
      | _ \<Rightarrow> None)"

definition send_all :: "nat \<Rightarrow> int list \<Rightarrow> (nat \<times> int) option" where
  "send_all len rets =
     (case rets of [] \<Rightarrow> None
      | ret # rets \<Rightarrow> (case send_first True len ret of
          (n, Returns r) \<Rightarrow> Some (n, r)
        | (n, Wait_for e) \<Rightarrow> send_rest len n rets
        | _ \<Rightarrow> None))"

end
