(* ===== verification/Kvs_Ntyco.thy ===== *)
theory Kvs_Ntyco
  imports Nty_Socket Kvs_Proactor
begin

text \<open>
  The coroutine server (\<open>src/network/ntyco.c\<close>) on the coroutine library.

  A coroutine of the server is a program that runs from one yield to the next. Its frame says
  where it stands and holds the locals that live across the yield: the function \<open>server\<close> before
  its first statement or inside \<open>accept\<close>, the function \<open>server_reader\<close> before its first statement,
  inside \<open>recv\<close>, or inside \<open>send\<close> with a reply and the number of bytes that are sent. \<open>server\<close> and
  \<open>server_reader\<close> below take the frame, the answers of the kernel to the calls of this stretch, and
  run to the next yield.

  The scheduler keeps all coroutines on one stack. A reader gets the address of the variable
  \<open>cli_fd\<close> of \<open>server\<close>, which lies on that stack, and reads it when it is started: it finds the bytes
  that the stack \<open>sstack\<close> of the scheduler holds there at that time. The place of the variable, \<open>cli_at\<close>
  bytes below the top, is the choice of the compiler and a parameter.
\<close>

section \<open>State\<close>

datatype co_frame =
    Server_start
  | Server_accept int
  | Reader_start
  | Reader_recv int string
  | Reader_send int string string nat nat

text \<open>\<open>cli_at\<close> is the place of the variable \<open>cli_fd\<close> on the stack. \<open>cli_fd\<close> records what \<open>server\<close> has assigned to it
  last; the code only writes it, and the reader looks at the stack. \<open>nsent\<close> is the kernel's side of each
  connection, as in the event loop.\<close>

record 's ntyco = nty_schedule +
  frames :: "ref \<rightharpoonup> co_frame"
  cli_at :: nat
  cli_fd :: int
  nsent :: "int \<Rightarrow> string"
  napp :: 's

text \<open>The answers to one stretch: the clock and \<open>epoll_wait\<close>, the part of the stack that is in use
  at the yield, what starting a coroutine writes on the stack before its first statement (bytes at
  distances from the top, from \<open>makecontext\<close>, \<open>_exec\<close> and the entry of the function), the allocations,
  \<open>socket\<close>, \<open>fcntl\<close>, \<open>accept\<close> with its error number, \<open>recv\<close> (none for an error), the most that \<open>send\<close>
  takes, and the environment of the request.\<close>

record answers =
  a_tick :: tick
  a_used :: string
  a_entry :: "(nat \<times> char) list"
  a_realloc :: bool
  a_calloc :: bool
  a_socket :: int
  a_fcntl :: bool
  a_accept :: int
  a_errno :: int
  a_recv :: "string option"
  a_send :: int
  a_rq :: request

definition put_frame :: "co_frame \<Rightarrow> 's ntyco \<Rightarrow> 's ntyco" where
  "put_frame fr s = s\<lparr>frames := (frames s)(curr_thread s \<mapsto> fr)\<rparr>"

section \<open>The shared stack\<close>

text \<open>An \<open>int\<close> in memory, in the byte order of the machine, and the bytes at a distance from the top of the
  stack.\<close>

definition int_bytes :: "int \<Rightarrow> string" where "int_bytes v = rev (htonl v)"

definition bytes_int :: "string \<Rightarrow> int" where "bytes_int bs = ntohl (rev bs)"

definition stack_read :: "nat \<Rightarrow> nat \<Rightarrow> string \<Rightarrow> string" where
  "stack_read d n st = take n (drop (length st - d) st)"

definition stack_write :: "nat \<Rightarrow> string \<Rightarrow> string \<Rightarrow> string" where
  "stack_write d bs st = take (length st - d) st @ bs @ drop (length st - d + length bs) st"

text \<open>The word at the address that a reader was given, as the reader finds it.\<close>

definition arg_int :: "'s ntyco \<Rightarrow> int" where
  "arg_int s = bytes_int (stack_read (cli_at s) 4 (sstack s))"

text \<open>Starting a coroutine.\<close>

definition enter_stack :: "answers \<Rightarrow> string \<Rightarrow> string" where
  "enter_stack a st = fold (\<lambda>(d, b) st. st[length st - d := b]) (a_entry a) st"

section \<open>Yields\<close>

text \<open>What the coroutine has written on the stack; more than the stack holds is a fault. In the frame of
  \<open>server\<close> the variable \<open>cli_fd\<close> keeps its bytes from one \<open>accept\<close> to the next.\<close>

definition use_stack :: "answers \<Rightarrow> 's ntyco \<Rightarrow> 's ntyco option" where
  "use_stack a s =
     (if length (a_used a) > length (sstack s) then None
      else let st = take (length (sstack s) - length (a_used a)) (sstack s) @ a_used a in
        Some (s\<lparr>sstack := (case frames s (curr_thread s) of
            Some (Server_accept fd) \<Rightarrow> stack_write (cli_at s) (stack_read (cli_at s) 4 (sstack s)) st
          | _ \<Rightarrow> st)\<rparr>))"

text \<open>\<open>nty_poll_inner\<close> up to its yield, as the socket calls use it.\<close>

definition wait_io :: "answers \<Rightarrow> int \<Rightarrow> 16 word \<Rightarrow> 's ntyco \<Rightarrow> 's ntyco option" where
  "wait_io a fd events s = do {
     s \<leftarrow> poll_enter (tk_now (a_tick a)) 1 [(fd, events)] s;
     s \<leftarrow> use_stack a s;
     nty_coroutine_yield (a_realloc a) (length (a_used a)) (curr_thread s) s }"

text \<open>The function of the coroutine returns; its frame is gone.\<close>

definition finish :: "answers \<Rightarrow> 's ntyco \<Rightarrow> 's ntyco option" where
  "finish a s = do {
     s \<leftarrow> use_stack a (s\<lparr>frames := (frames s)(curr_thread s := None)\<rparr>);
     exec_return (a_realloc a) (length (a_used a)) (curr_thread s) s }"

section \<open>The reader\<close>

text \<open>The calls of \<open>recv\<close> and \<open>send\<close>. In a coroutine \<open>recv\<close> begins with a wait; the buffer of the loop is
  cleared in every round, so the frame does not keep it.\<close>

definition reader_loop :: "answers \<Rightarrow> int \<Rightarrow> string \<Rightarrow> 's ntyco \<Rightarrow> 's ntyco option" where
  "reader_loop a fd ns s =
     (case recv_begin True of
        Wait_for events \<Rightarrow> wait_io a fd events (put_frame (Reader_recv fd ns) s)
      | _ \<Rightarrow> None)"

text \<open>The kernel takes some of the bytes it is offered.\<close>

definition take_bytes :: "int \<Rightarrow> string \<Rightarrow> int \<Rightarrow> 's ntyco \<Rightarrow> 's ntyco" where
  "take_bytes fd bytes n s = s\<lparr>nsent := (nsent s)(fd := nsent s fd @ take (nat n) bytes)\<rparr>"

definition after_send :: "answers \<Rightarrow> int \<Rightarrow> string \<Rightarrow> string \<Rightarrow> nat \<Rightarrow> nat \<times> io_step \<Rightarrow> 's ntyco \<Rightarrow> 's ntyco option" where
  "after_send a fd ns response slength st s =
     (case st of
        (n, Returns ret) \<Rightarrow> if ret = -1 then finish a s else reader_loop a fd ns s
      | (n, Wait_for events) \<Rightarrow> wait_io a fd events (put_frame (Reader_send fd ns response slength n) s)
      | _ \<Rightarrow> None)"

text \<open>A message has arrived: the handler, and the first call of \<open>send\<close>. A length outside the array of
  the response makes \<open>send\<close> read beyond it.\<close>

definition reader_reply :: "'s msg_handler \<Rightarrow> answers \<Rightarrow> int \<Rightarrow> string \<Rightarrow> string \<Rightarrow> 's ntyco \<Rightarrow> 's ntyco option" where
  "reader_reply h a fd ns got s = do {
     (rep, ns, msg, app) \<leftarrow> h (a_rq a) (got @ zeros (1024 - length got)) (int (length got)) (Some ns) (napp s);
     ns \<leftarrow> ns;
     response \<leftarrow> put_reply (zeros 1024) rep;
     if fst rep < 0 \<or> fst rep > 1024 then None
     else do {
       let slength = nat (fst rep);
       let ret = min (a_send a) (int slength);
       let s = take_bytes fd (take slength response) ret (s\<lparr>napp := app\<rparr>);
       after_send a fd ns response slength (send_first True slength ret) s } }"

definition reader_got :: "'s msg_handler \<Rightarrow> answers \<Rightarrow> int \<Rightarrow> string \<Rightarrow> 's ntyco \<Rightarrow> 's ntyco option" where
  "reader_got h a fd ns s =
     (let got = (case a_recv a of None \<Rightarrow> [] | Some bs \<Rightarrow> take 1024 bs) in
      case recv_next (if a_recv a = None then -1 else int (length got)) (a_errno a) of
        Returns ret \<Rightarrow>
          if ret > 0 then reader_reply h a fd ns got s
          else if ret = 0 then finish a s
          else reader_loop a fd ns s
      | _ \<Rightarrow> None)"

definition server_reader :: "'s msg_handler \<Rightarrow> answers \<Rightarrow> co_frame \<Rightarrow> 's ntyco \<Rightarrow> 's ntyco option" where
  "server_reader h a fr s =
     (case fr of
        Reader_start \<Rightarrow> let s = s\<lparr>sstack := enter_stack a (sstack s)\<rparr> in reader_loop a (arg_int s) ''default'' s
      | Reader_recv fd ns \<Rightarrow> do { s \<leftarrow> poll_leave [(fd, READABLE)] s; reader_got h a fd ns s }
      | Reader_send fd ns response slength n \<Rightarrow> do {
          s \<leftarrow> poll_leave [(fd, WRITABLE)] s;
          let ret = min (a_send a) (int (slength - n));
          after_send a fd ns response slength (send_next slength n ret)
            (take_bytes fd (drop n (take slength response)) ret s) }
      | _ \<Rightarrow> None)"

section \<open>The server\<close>

definition server_loop :: "answers \<Rightarrow> int \<Rightarrow> 's ntyco \<Rightarrow> 's ntyco option" where
  "server_loop a fd s =
     (case accept_begin True of
        Wait_for events \<Rightarrow> wait_io a fd events (put_frame (Server_accept fd) s)
      | _ \<Rightarrow> None)"

text \<open>The result of \<open>accept\<close> goes to the variable, and a reader is created whatever it is. The kernel
  opens the stream of a new connection.\<close>

definition create_reader :: "answers \<Rightarrow> int \<Rightarrow> 's ntyco \<Rightarrow> 's ntyco" where
  "create_reader a cli s =
     (let s = s\<lparr>sstack := stack_write (cli_at s) (int_bytes cli) (sstack s), cli_fd := cli, nsent := (if cli < 0 then nsent s else (nsent s)(cli := []))\<rparr>;
          (ret, co, s) = nty_coroutine_create (a_calloc a) (tk_now (a_tick a)) s in
      if ret = 0 then s\<lparr>frames := (frames s)(co \<mapsto> Reader_start)\<rparr> else s)"

definition ntyco_server :: "answers \<Rightarrow> co_frame \<Rightarrow> 's ntyco \<Rightarrow> 's ntyco option" where
  "ntyco_server a fr s =
     (case fr of
        Server_start \<Rightarrow>
          let fd = socket_next True (a_socket a) (a_fcntl a) in
          if fd < 0 then finish a s else server_loop a fd s
      | Server_accept fd \<Rightarrow> do {
          s \<leftarrow> poll_leave [(fd, READABLE)] s;
          case accept_next (a_accept a) (a_errno a) (a_fcntl a) of
            Returns cli \<Rightarrow> server_loop a fd (create_reader a cli s)
          | Wait_for events \<Rightarrow> wait_io a fd events (put_frame (Server_accept fd) s)
          | _ \<Rightarrow> None }
      | _ \<Rightarrow> None)"

section \<open>Running\<close>

definition exec :: "'s msg_handler \<Rightarrow> answers \<Rightarrow> ref \<Rightarrow> 's ntyco \<Rightarrow> 's ntyco option" where
  "exec h a co s = do {
     fr \<leftarrow> frames s co;
     case fr of Server_start \<Rightarrow> ntyco_server a fr s | Server_accept fd \<Rightarrow> ntyco_server a fr s | _ \<Rightarrow> server_reader h a fr s }"

definition ntyco_step :: "'s msg_handler \<Rightarrow> answers \<Rightarrow> 's ntyco \<Rightarrow> 's ntyco option" where
  "ntyco_step h a s = nty_schedule_run (exec h a) (a_tick a) s"

text \<open>\<open>ntyco_start\<close> up to the loop of \<open>nty_schedule_run\<close>. Creating the first coroutine creates the
  scheduler; when there is none, \<open>nty_schedule_run\<close> returns at once (an inner \<^const>\<open>None\<close>).\<close>

definition ntyco_start ::
    "bool \<Rightarrow> bool \<Rightarrow> int \<Rightarrow> bool \<Rightarrow> string option \<Rightarrow> bool \<Rightarrow> 64 word \<Rightarrow> nat \<Rightarrow> 's \<Rightarrow> 's ntyco option option" where
  "ntyco_start alloc_ok epoll_ok evfd ctl_ok stack_memory calloc_ok now layout a = do {
     sched \<leftarrow> nty_schedule_create alloc_ok epoll_ok evfd ctl_ok stack_memory now;
     Some (case sched of None \<Rightarrow> None
       | Some sched \<Rightarrow>
           let s = nty_schedule.extend sched \<lparr>frames = Map.empty, cli_at = layout, cli_fd = 0, nsent = (\<lambda>_. []), napp = a\<rparr>;
               (ret, co, s) = nty_coroutine_create calloc_ok now s in
           Some (if ret = 0 then s\<lparr>frames := (frames s)(co \<mapsto> Server_start)\<rparr> else s)) }"

end
