(* ===== verification/Nty_Correct.thy ===== *)
theory Nty_Correct
  imports Nty_Socket
begin

unbundle bit_operations_syntax

text \<open>
  The coroutine library on its own. The locale \<open>keyed_tree\<close> is the contract of the two trees of
  the scheduler, which the comparisons of the sleeping and of the waiting tree keep: a search
  finds the coroutine with a key, an insertion of a new key keeps the order. From it follow the
  effects of waiting for a descriptor and of the end of a wait, and of going to sleep. The stacks
  are saved and restored, the timeout of \<open>epoll_wait\<close> does not pass the first wake-up time unless it overflows, and a
  \<open>send\<close> to a kernel that takes bytes sends all of them. A coroutine that is woken by its
  descriptor stays among the sleepers, and when it ends, the scheduler follows a freed pointer.
\<close>

section \<open>Statuses\<close>

lemmas status_defs = NTY_COROUTINE_STATUS_WAIT_READ_def NTY_COROUTINE_STATUS_WAIT_WRITE_def NTY_COROUTINE_STATUS_NEW_def
  NTY_COROUTINE_STATUS_READY_def NTY_COROUTINE_STATUS_EXITED_def NTY_COROUTINE_STATUS_SLEEPING_def
  NTY_COROUTINE_STATUS_EXPIRED_def NTY_COROUTINE_STATUS_FDEOF_def NTY_COROUTINE_STATUS_DETACH_def

lemma put_co_fields [simp]:
  "coros (put_co co c s) = (coros s)(co \<mapsto> c)" "waiting (put_co co c s) = waiting s" "sleeping (put_co co c s) = sleeping s"
  "ready (put_co co c s) = ready s" "poller (put_co co c s) = poller s" "curr_thread (put_co co c s) = curr_thread s"
  "sstack (put_co co c s) = sstack s" "sbirth (put_co co c s) = sbirth s" "busy (put_co co c s) = busy s"
  "eventfd (put_co co c s) = eventfd s" "new_events (put_co co c s) = new_events s" "run_pc (put_co co c s) = run_pc s"
  "conext (put_co co c s) = conext s" "default_timeout (put_co co c s) = default_timeout s"
  "spawned_coroutines (put_co co c s) = spawned_coroutines s" "nty_schedule.more (put_co co c s) = nty_schedule.more s"
  by (simp_all add: put_co_def)

section \<open>Trees\<close>

definition tree_ok :: "(nty_coroutine \<Rightarrow> 'k::linorder) \<Rightarrow> coheap \<Rightarrow> ref list \<Rightarrow> bool" where
  "tree_ok key h t \<longleftrightarrow> set t \<subseteq> dom h \<and> NULL \<notin> set t \<and> sorted_wrt (<) (map (\<lambda>r. key (the (h r))) t)"

lemma tree_ok_Nil [simp]: "tree_ok key h []"
  by (simp add: tree_ok_def)

lemma tree_ok_Cons:
  "tree_ok key h (r # t) \<longleftrightarrow> (\<exists>c. h r = Some c \<and> (\<forall>x \<in> set t. key c < key (the (h x)))) \<and> r \<noteq> NULL \<and> tree_ok key h t"
  by (auto simp: tree_ok_def)

lemma tree_ok_cong: "tree_ok key h t \<Longrightarrow> (\<And>r. r \<in> set t \<Longrightarrow> h' r = h r) \<Longrightarrow> tree_ok key h' t"
  by (induction t) (auto simp: tree_ok_Cons)

lemma tree_ok_upd: "tree_ok key h t \<Longrightarrow> x \<notin> set t \<Longrightarrow> tree_ok key (h(x := v)) t"
  by (erule tree_ok_cong) auto

lemma tree_ok_same_key:
  "tree_ok key h t \<Longrightarrow> h x = Some c \<Longrightarrow> key c' = key c \<Longrightarrow> tree_ok key (h(x \<mapsto> c')) t"
  by (induction t) (auto 0 3 simp: tree_ok_Cons)

lemma tree_ok_distinct: "tree_ok key h t \<Longrightarrow> distinct t"
  by (induction t) (auto simp: tree_ok_Cons)

lemma tree_ok_remove: "tree_ok key h t \<Longrightarrow> tree_ok key h (remove1 x t)"
proof (induction t)
  case (Cons r t)
  then show ?case using set_remove1_subset [of x t] by (auto simp: tree_ok_Cons)
qed simp

lemma tree_ok_key_inj:
  "tree_ok key h t \<Longrightarrow> x \<in> set t \<Longrightarrow> y \<in> set t \<Longrightarrow> key (the (h x)) = key (the (h y)) \<Longrightarrow> x = y"
  by (auto simp: tree_ok_def strict_sorted_iff distinct_map inj_on_def)

locale keyed_tree =
  fixes cmp :: "nty_coroutine \<Rightarrow> nty_coroutine \<Rightarrow> int"
    and key :: "nty_coroutine \<Rightarrow> 'k::linorder"
  assumes cmp: "cmp a b = (if key a < key b then -1 else if key a = key b then 0 else 1)"
begin

lemma cmp_sign: "cmp a b = 0 \<longleftrightarrow> key a = key b" "cmp a b < 0 \<longleftrightarrow> key a < key b"
  by (auto simp: cmp)

lemma find_present:
  assumes "tree_ok key h t" "r \<in> set t" "key x = key (the (h r))"
  shows "tree_find cmp h t x = Some r"
  using assms by (induction t) (fastforce simp: tree_ok_Cons cmp_sign)+

lemma find_absent:
  assumes "tree_ok key h t" "\<forall>r \<in> set t. key (the (h r)) \<noteq> key x"
  shows "tree_find cmp h t x = Some NULL"
  using assms by (induction t) (auto simp: tree_ok_Cons cmp_sign)

lemma insert_new:
  assumes "tree_ok key h t" "h x = Some c" "x \<noteq> NULL" "\<forall>r \<in> set t. key (the (h r)) \<noteq> key c"
  shows "\<exists>t'. tree_insert cmp h t x = Some (NULL, t') \<and> set t' = insert x (set t) \<and> tree_ok key h t'"
  using assms(1, 4)
proof (induction t)
  case (Cons r t)
  obtain d where d: "h r = Some d" "\<forall>y \<in> set t. key d < key (the (h y))" "r \<noteq> NULL" "tree_ok key h t" "key d \<noteq> key c"
    using Cons.prems by (auto simp: tree_ok_Cons)
  show ?case
  proof (cases "key c < key d")
    case True
    then show ?thesis using assms(2, 3) d Cons.prems(1) by (auto simp: cmp_sign tree_ok_Cons intro: less_trans)
  next
    case False
    then have "key d < key c" using d(5) by simp
    moreover obtain t' where t': "tree_insert cmp h t x = Some (NULL, t')" "set t' = insert x (set t)" "tree_ok key h t'"
      using Cons.IH d(4) Cons.prems(2) by auto
    ultimately show ?thesis using assms(2) d by (auto simp: cmp_sign tree_ok_Cons)
  qed
qed (use assms(2, 3) in \<open>simp add: tree_ok_Cons\<close>)

lemma insert_clash:
  assumes "tree_ok key h t" "h x = Some c" "r \<in> set t" "key (the (h r)) = key c"
  shows "tree_insert cmp h t x = Some (r, t)"
  using assms(1, 3)
proof (induction t)
  case (Cons q t)
  obtain d where d: "h q = Some d" "\<forall>y \<in> set t. key d < key (the (h y))" "tree_ok key h t"
    using Cons.prems by (auto simp: tree_ok_Cons)
  show ?case
  proof (cases "r = q")
    case True
    then show ?thesis using d assms(2, 4) by (simp add: cmp_sign)
  next
    case False
    then have "r \<in> set t" using Cons.prems by simp
    moreover from this have "key d < key c" using d(2) assms(4) by auto
    ultimately show ?thesis using Cons.IH d assms(2) by (auto simp: cmp_sign)
  qed
qed simp

end

interpretation wt: keyed_tree nty_coroutine_wait_cmp co_fd
  by unfold_locales (simp add: nty_coroutine_wait_cmp_def)

interpretation sl: keyed_tree nty_coroutine_sleep_cmp co_sleep_usecs
  by unfold_locales (simp add: nty_coroutine_sleep_cmp_def)

section \<open>Waiting for a descriptor\<close>

lemma has_bit_0 [simp]: "\<not> has_bit 0 x"
  by (simp add: has_bit_def)

text \<open>The end of a wait: the descriptor leaves the interest set, the coroutine the waiting tree.\<close>

lemma desched_wait_law:
  assumes "tree_ok co_fd (coros s) (waiting s)" "co \<in> set (waiting s)" "coros s co = Some c" "co_fd c = fd"
  shows "nty_schedule_desched_wait fd s = Some (co, put_co co (c\<lparr>co_status := 0\<rparr>) (s\<lparr>waiting := remove1 co (waiting s)\<rparr>))"
proof -
  have "tree_find nty_coroutine_wait_cmp (coros s) (waiting s) (find_it fd) = Some co"
    using wt.find_present [OF assms(1, 2)] assms(3, 4) by (simp add: find_it_def)
  moreover have "co \<noteq> NULL" using assms(1, 2) by (auto simp: tree_ok_def)
  ultimately show ?thesis
    using assms(2, 3) by (simp add: nty_schedule_desched_wait_def nty_schedule_desched_sleepdown_def tree_remove_def)
qed

lemma poll_leave_law:
  assumes "tree_ok co_fd (coros s) (waiting s)" "co \<in> set (waiting s)" "coros s co = Some c" "co_fd c = fd"
  shows "poll_leave [(fd, events)] s =
    Some (put_co co (c\<lparr>co_status := 0\<rparr>) (s\<lparr>poller := (poller s)(fd := None), waiting := remove1 co (waiting s)\<rparr>))"
  using desched_wait_law [of "epoll_ctl_del fd s" co c fd] assms by (simp add: epoll_ctl_del_def)

text \<open>The beginning of a wait without a timeout.\<close>

definition wait_status :: "16 word \<Rightarrow> 32 word \<Rightarrow> 32 word" where
  "wait_status events st = st OR (if events AND POLLIN \<noteq> 0 then 0 else 1)"

lemma poll_enter_law:
  assumes "tree_ok co_fd (coros s) (waiting s)" "curr_thread s = co" "co \<noteq> NULL" "co \<notin> set (waiting s)" "coros s co = Some c"
    "\<not> has_bit (co_status c) 0" "\<not> has_bit (co_status c) 1" "\<forall>r \<in> set (waiting s). co_fd (the (coros s r)) \<noteq> fd"
    "0 \<le> fd" "poller s fd = None" "events AND POLLIN \<noteq> 0 \<or> events AND POLLOUT \<noteq> 0"
  defines "c' \<equiv> c\<lparr>co_status := wait_status events (co_status c), co_fd := fd, co_events := events\<rparr>"
  shows "\<exists>t. poll_enter now 1 [(fd, events)] s =
      Some (put_co co c' (s\<lparr>poller := (poller s)(fd \<mapsto> nty_pollevent_2epoll events), waiting := t\<rparr>)) \<and>
    set t = insert co (set (waiting s)) \<and> tree_ok co_fd ((coros s)(co \<mapsto> c')) t"
proof -
  have "\<forall>r \<in> set (waiting s). co_fd (the (((coros s)(co \<mapsto> c')) r)) \<noteq> co_fd c'"
    using assms(4, 8) by (auto simp: c'_def)
  then obtain t where t: "tree_insert nty_coroutine_wait_cmp ((coros s)(co \<mapsto> c')) (waiting s) co = Some (NULL, t)"
      "set t = insert co (set (waiting s))" "tree_ok co_fd ((coros s)(co \<mapsto> c')) t"
    using wt.insert_new [OF tree_ok_upd [OF assms(1, 4)], of "Some c'" co c'] assms(3) by (auto simp del: fun_upd_apply) (metis fun_upd_same)
  let ?s = "put_co co (c\<lparr>co_events := events\<rparr>) (epoll_ctl_add fd (nty_pollevent_2epoll events) s)"
  have "nty_schedule_sched_wait now co fd events 1 ?s =
      Some (put_co co c' (s\<lparr>poller := (poller s)(fd \<mapsto> nty_pollevent_2epoll events), waiting := t\<rparr>))"
    using t(1) assms(6, 7, 9-11)
    by (cases "events AND POLLIN = 0")
      (simp_all add: nty_schedule_sched_wait_def c'_def status_defs epoll_ctl_add_def put_co_def wait_status_def fun_upd_same
        del: fun_upd_apply)
  then show ?thesis using t(2, 3) assms(2, 5, 9) by (auto simp: epoll_ctl_add_def assms(10) simp del: fun_upd_apply)
qed

section \<open>A scheduler\<close>

text \<open>A coroutine that sleeps until 5000 and waits for descriptor 9, and one that runs.\<close>

definition nap_co :: "32 word \<Rightarrow> int \<Rightarrow> 64 word \<Rightarrow> nty_coroutine" where
  "nap_co st fd k = \<lparr>co_status = st, co_birth = 0, co_id = 0, co_fd = fd, co_events = 0, co_ops = 0, co_sleep_usecs = k, co_stack = []\<rparr>"

definition nap_sched :: nty_schedule where
  "nap_sched = \<lparr>sbirth = 0, sstack = ''abcdef'', spawned_coroutines = 2, default_timeout = 3000000, curr_thread = Ref 1, poller = [9 \<mapsto> 1],
     eventfd = 3, new_events = [], ready = [], busy = [], sleeping = [Ref 0], waiting = [Ref 0],
     coros = [Ref 0 \<mapsto> nap_co 64 9 5000, Ref 1 \<mapsto> nap_co 8 (-1) 0], conext = 2, run_pc = At_ready (Ref 1)\<rparr>"

lemma nap_trees: "tree_ok co_sleep_usecs (coros nap_sched) (sleeping nap_sched)" "tree_ok co_fd (coros nap_sched) (waiting nap_sched)"
  by (simp_all add: nap_sched_def tree_ok_def)

section \<open>Sleeping\<close>

abbreviation sleep_keys :: "'z nty_schedule_scheme \<Rightarrow> (64 word) set" where
  "sleep_keys s \<equiv> (\<lambda>r. co_sleep_usecs (the (coros s r))) ` set (sleeping s)"

definition slept :: "64 word \<Rightarrow> nty_coroutine \<Rightarrow> nty_coroutine" where
  "slept k c = c\<lparr>co_sleep_usecs := k, co_status := co_status c OR BIT NTY_COROUTINE_STATUS_SLEEPING\<rparr>"

text \<open>The insertion loop ends at the first free microsecond.\<close>

lemma sleep_insert_free:
  assumes "tree_ok co_sleep_usecs (coros s) (sleeping s)" "co \<noteq> NULL" "coros s co = Some c" "co_sleep_usecs c \<notin> sleep_keys s"
  shows "\<exists>t. sleep_insert co s = Some (put_co co (slept (co_sleep_usecs c) c) (s\<lparr>sleeping := t\<rparr>)) \<and>
    set t = insert co (set (sleeping s)) \<and> tree_ok co_sleep_usecs ((coros s)(co \<mapsto> slept (co_sleep_usecs c) c)) t"
proof -
  have "\<forall>r \<in> set (sleeping s). co_sleep_usecs (the (coros s r)) \<noteq> co_sleep_usecs c" using assms(4) by (metis imageI)
  then obtain t where t: "tree_insert nty_coroutine_sleep_cmp (coros s) (sleeping s) co = Some (NULL, t)"
      "set t = insert co (set (sleeping s))" "tree_ok co_sleep_usecs (coros s) t"
    using sl.insert_new [OF assms(1, 3, 2)] by blast
  have "tree_ok co_sleep_usecs ((coros s)(co \<mapsto> slept (co_sleep_usecs c) c)) t"
    by (rule tree_ok_same_key [OF t(3) assms(3)]) (simp add: slept_def)
  moreover have "sleep_insert co s = Some (put_co co (slept (co_sleep_usecs c) c) (s\<lparr>sleeping := t\<rparr>))"
    using t(1) assms(3) by (subst sleep_insert.simps) (simp add: slept_def)
  ultimately show ?thesis using t(2) by blast
qed

lemma sleep_insert_law:
  assumes "tree_ok co_sleep_usecs (coros s) (sleeping s)" "co \<notin> set (sleeping s)" "co \<noteq> NULL" "coros s co = Some c"
    "co_sleep_usecs c + of_nat j \<notin> sleep_keys s"
  shows "\<exists>i t. i \<le> j \<and> sleep_insert co s = Some (put_co co (slept (co_sleep_usecs c + of_nat i) c) (s\<lparr>sleeping := t\<rparr>)) \<and>
    set t = insert co (set (sleeping s)) \<and> tree_ok co_sleep_usecs ((coros s)(co \<mapsto> slept (co_sleep_usecs c + of_nat i) c)) t"
  using assms
proof (induction j arbitrary: s c)
  case (0 s c)
  then show ?case using sleep_insert_free [of s co c] by (simp del: fun_upd_apply)
next
  case (Suc j s c)
  show ?case
  proof (cases "co_sleep_usecs c \<in> sleep_keys s")
    case False
    then show ?thesis using sleep_insert_free [OF Suc.prems(1, 3, 4)] by (intro exI [of _ 0]) (simp del: fun_upd_apply)
  next
    case True
    then obtain r where r: "r \<in> set (sleeping s)" "co_sleep_usecs (the (coros s r)) = co_sleep_usecs c" by force
    have "r \<noteq> NULL" using r(1) Suc.prems(1) by (auto simp: tree_ok_def)
    let ?c = "c\<lparr>co_sleep_usecs := co_sleep_usecs c + 1\<rparr>"
    let ?s = "put_co co ?c s"
    have step: "sleep_insert co s = sleep_insert co ?s"
      using sl.insert_clash [OF Suc.prems(1, 4) r] \<open>r \<noteq> NULL\<close> Suc.prems(4) by (subst sleep_insert.simps) simp
    have keys: "sleep_keys ?s = sleep_keys s" using Suc.prems(2) by (auto intro!: image_cong)
    have "co_sleep_usecs ?c + of_nat j \<notin> sleep_keys ?s"
      unfolding keys using Suc.prems(5) by (simp add: add.assoc)
    from Suc.IH [OF _ _ Suc.prems(3) _ this] obtain i t where i: "i \<le> j"
        "sleep_insert co ?s = Some (put_co co (slept (co_sleep_usecs ?c + of_nat i) ?c) (?s\<lparr>sleeping := t\<rparr>))"
        "set t = insert co (set (sleeping ?s))" "tree_ok co_sleep_usecs ((coros ?s)(co \<mapsto> slept (co_sleep_usecs ?c + of_nat i) ?c)) t"
      using tree_ok_upd [OF Suc.prems(1, 2)] Suc.prems(2) by (auto simp del: fun_upd_apply simp: fun_upd_same)
    have "slept (co_sleep_usecs ?c + of_nat i) ?c = slept (co_sleep_usecs c + of_nat (Suc i)) c" by (simp add: slept_def add.assoc)
    then show ?thesis using step i by (intro exI [of _ "Suc i"] exI [of _ t]) (simp add: put_co_def del: fun_upd_apply of_nat_Suc)
  qed
qed

lemma free_key: "finite A \<Longrightarrow> card A < 2 ^ 64 \<Longrightarrow> \<exists>j \<le> card A. (k :: 64 word) + of_nat j \<notin> A"
proof (rule ccontr)
  assume a: "finite A" "card A < 2 ^ 64" "\<not> (\<exists>j \<le> card A. k + of_nat j \<notin> A)"
  let ?f = "\<lambda>j. k + of_nat j"
  have "inj_on ?f {..card A}"
    using a(2) by (auto simp: inj_on_def word_of_nat_eq_iff take_bit_nat_eq_self)
  moreover have "?f ` {..card A} \<subseteq> A" using a(3) by auto
  ultimately have "card {..card A} \<le> card A" using card_inj_on_le a(1) by blast
  then show False by simp
qed

text \<open>The sleeper with a given wake-up time is taken out of the tree, if there is one.\<close>

definition sleepers_but :: "64 word \<Rightarrow> 'z nty_schedule_scheme \<Rightarrow> ref list" where
  "sleepers_but k s = filter (\<lambda>r. co_sleep_usecs (the (coros s r)) \<noteq> k) (sleeping s)"

lemma tree_ok_filter: "tree_ok key h t \<Longrightarrow> tree_ok key h (filter p t)"
  by (induction t) (auto simp: tree_ok_Cons)

lemma find_and_remove:
  assumes "tree_ok co_sleep_usecs (coros s) (sleeping s)" "coros s co = Some c"
  shows "do { r \<leftarrow> tree_find nty_coroutine_sleep_cmp (coros s) (sleeping s) c;
      if r \<noteq> NULL then do { t \<leftarrow> tree_remove (sleeping s) r; Some (s\<lparr>sleeping := t\<rparr>) } else Some s } =
    Some (s\<lparr>sleeping := sleepers_but (co_sleep_usecs c) s\<rparr>)"
proof (cases "\<exists>r \<in> set (sleeping s). co_sleep_usecs (the (coros s r)) = co_sleep_usecs c")
  case True
  then obtain r where r: "r \<in> set (sleeping s)" "co_sleep_usecs (the (coros s r)) = co_sleep_usecs c" by blast
  have "r \<noteq> NULL" using assms(1) r(1) by (auto simp: tree_ok_def)
  moreover have "remove1 r (sleeping s) = sleepers_but (co_sleep_usecs c) s"
    unfolding sleepers_but_def distinct_remove1_removeAll [OF tree_ok_distinct [OF assms(1)]] removeAll_filter_not_eq
    using tree_ok_key_inj [OF assms(1) _ r(1)] r(2) by (intro filter_cong) auto
  ultimately show ?thesis using sl.find_present [OF assms(1) r(1)] r by (simp add: tree_remove_def)
next
  case False
  then have "sleepers_but (co_sleep_usecs c) s = sleeping s" by (auto simp: sleepers_but_def filter_id_conv)
  then show ?thesis using sl.find_absent [OF assms(1)] False by simp
qed

text \<open>C37: going to sleep terminates, registers the coroutine, and takes at most one other sleeper out. With
  a well-formed sleeping tree of fewer than \<open>2 ^ 64\<close> sleepers, a coroutine that sleeps for more than no
  time, whether it sleeps already or not, is in the tree afterwards, after at most as many
  collisions as there are sleepers, one microsecond later for each. The other sleepers stay, except
  for the one whose wake-up time is the old wake-up time of the coroutine: the code takes that one
  for the coroutine itself and removes it. All other coroutines are as they were.\<close>

theorem sleepdown_registers:
  assumes "tree_ok co_sleep_usecs (coros s) (sleeping s)" "co \<noteq> NULL" "coros s co = Some c"
    "length (sleeping s) < 2 ^ 64" "msecs \<noteq> 0"
  shows "\<exists>i s'. i \<le> length (sleeping s) \<and> nty_schedule_sched_sleepdown now co msecs s = Some s' \<and>
    set (sleeping s') = insert co {r \<in> set (sleeping s). co_sleep_usecs (the (coros s r)) \<noteq> co_sleep_usecs c} \<and>
    tree_ok co_sleep_usecs (coros s') (sleeping s') \<and>
    coros s' = (coros s)(co \<mapsto> slept ((now - sbirth s) + msecs * 1000 + of_nat i) c)"
proof -
  let ?k = "(now - sbirth s) + msecs * 1000" and ?t = "sleepers_but (co_sleep_usecs c) s"
  let ?c = "c\<lparr>co_sleep_usecs := ?k\<rparr>" and ?w = "s\<lparr>sleeping := ?t\<rparr>"
  let ?s = "put_co co ?c ?w"
  have t: "set ?t = {r \<in> set (sleeping s). co_sleep_usecs (the (coros s r)) \<noteq> co_sleep_usecs c}" "co \<notin> set ?t" "length ?t \<le> length (sleeping s)"
    using assms(3) by (auto simp: sleepers_but_def)
  have t0: "tree_ok co_sleep_usecs (coros ?w) (sleeping ?w)" using tree_ok_filter [OF assms(1)] by (simp add: sleepers_but_def)
  have card: "card (sleep_keys ?w) \<le> length (sleeping s)"
    using card_image_le [of "set ?t" "\<lambda>r. co_sleep_usecs (the (coros s r))"] card_length [of ?t] t(3) by simp
  obtain j where j: "j \<le> length (sleeping s)" "?k + of_nat j \<notin> sleep_keys ?w"
  proof -
    have "finite (sleep_keys ?w)" "card (sleep_keys ?w) < 2 ^ 64" using card assms(4) by simp_all
    from free_key [OF this] obtain j where "j \<le> card (sleep_keys ?w)" "?k + of_nat j \<notin> sleep_keys ?w" by blast
    then show ?thesis using that card le_trans by blast
  qed
  have keys: "sleep_keys ?s = sleep_keys ?w" using t(2) by (auto intro!: image_cong)
  have f: "tree_ok co_sleep_usecs (coros ?s) (sleeping ?s)" "co \<notin> set (sleeping ?s)" "coros ?s co = Some ?c" "co_sleep_usecs ?c + of_nat j \<notin> sleep_keys ?s"
    using tree_ok_upd [OF t0, of co "Some ?c"] t(2) j(2) unfolding keys by simp_all
  obtain i u where i: "i \<le> j" "sleep_insert co ?s = Some (put_co co (slept (co_sleep_usecs ?c + of_nat i) ?c) (?s\<lparr>sleeping := u\<rparr>))"
      "set u = insert co (set ?t)" "tree_ok co_sleep_usecs ((coros ?s)(co \<mapsto> slept (co_sleep_usecs ?c + of_nat i) ?c)) u"
    using sleep_insert_law [OF f(1, 2) assms(2) f(3, 4)] by auto
  have c: "slept (co_sleep_usecs ?c + of_nat i) ?c = slept (?k + of_nat i) c" by (simp add: slept_def)
  have "nty_schedule_sched_sleepdown now co msecs s = sleep_insert co ?s"
  proof -
    have "nty_schedule_sched_sleepdown now co msecs s = do {
        s \<leftarrow> (do { r \<leftarrow> tree_find nty_coroutine_sleep_cmp (coros s) (sleeping s) c;
          if r \<noteq> NULL then do { t \<leftarrow> tree_remove (sleeping s) r; Some (s\<lparr>sleeping := t\<rparr>) } else Some s });
        sleep_insert co (put_co co (c\<lparr>co_sleep_usecs := (now - sbirth s) + msecs * 1000\<rparr>) s) }"
      using assms(3, 5) by (simp add: nty_schedule_sched_sleepdown_def bind_assoc)
    then show ?thesis unfolding find_and_remove [OF assms(1, 3)] by simp
  qed
  then have r: "nty_schedule_sched_sleepdown now co msecs s = Some (put_co co (slept (?k + of_nat i) c) (?s\<lparr>sleeping := u\<rparr>))"
    using i(2) unfolding c by simp
  have "coros (put_co co (slept (?k + of_nat i) c) (?s\<lparr>sleeping := u\<rparr>)) = (coros s)(co \<mapsto> slept (?k + of_nat i) c)" by simp
  then show ?thesis using r i(1, 3, 4) j(1) unfolding c t(1)
    by (intro exI [of _ i] exI [of _ "put_co co (slept (?k + of_nat i) c) (?s\<lparr>sleeping := u\<rparr>)"]) (simp del: fun_upd_apply)
qed

theorem sleepdown_registers_witness:
  "\<exists>i s'. i \<le> 1 \<and> nty_schedule_sched_sleepdown 0 (Ref 1) 5 nap_sched = Some s' \<and> set (sleeping s') = {Ref 1, Ref 0} \<and>
     coros s' (Ref 1) = Some (slept (5000 + of_nat i) (nap_co 8 (-1) 0))"
proof -
  obtain i s' where "i \<le> length (sleeping nap_sched)" "nty_schedule_sched_sleepdown 0 (Ref 1) 5 nap_sched = Some s'"
      "set (sleeping s') = insert (Ref 1) {r \<in> set (sleeping nap_sched). co_sleep_usecs (the (coros nap_sched r)) \<noteq> co_sleep_usecs (nap_co 8 (-1) 0)}"
      "coros s' = (coros nap_sched)(Ref 1 \<mapsto> slept ((0 - sbirth nap_sched) + 5 * 1000 + of_nat i) (nap_co 8 (-1) 0))"
    using sleepdown_registers [OF nap_trees(1), of "Ref 1" "nap_co 8 (-1) 0" 5 0] by (auto simp: nap_sched_def)
  moreover have "{r \<in> set (sleeping nap_sched). co_sleep_usecs (the (coros nap_sched r)) \<noteq> co_sleep_usecs (nap_co 8 (-1) 0)} = {Ref 0}"
    by (auto simp: nap_sched_def nap_co_def)
  ultimately show ?thesis by (intro exI [of _ i] exI [of _ s']) (simp add: nap_sched_def)
qed

section \<open>Stacks\<close>

text \<open>A coroutine gets its stack back: after \<open>_save_stack\<close>, whatever other coroutines have written
  on the shared stack since, \<open>_load_stack\<close> restores the part that was in use at the yield byte by
  byte, and writes nothing below it.\<close>

lemma stack_roundtrip:
  assumes "save_stack ok depth co s = Some s1" "coros s2 co = coros s1 co" "length (sstack s2) = length (sstack s)"
  shows "\<exists>s3. load_stack co s2 = Some s3 \<and> length (sstack s3) = length (sstack s) \<and>
    drop (length (sstack s) - depth) (sstack s3) = drop (length (sstack s) - depth) (sstack s) \<and>
    take (length (sstack s) - depth) (sstack s3) = take (length (sstack s) - depth) (sstack s2)"
  using assms by (auto simp: save_stack_def load_stack_def split: bind_splits if_splits)

section \<open>Timeouts\<close>

lemma epoll_timespec_ms:
  defines "ms \<equiv> \<lambda>usecs. if uint usecs < 1000000 then uint usecs div 1000 else uint usecs div 1000000 * 1000"
  shows "nty_epoller_wait (epoll_timespec usecs) = (if ms usecs > 2147483647 then None else Some (ms usecs))"
proof -
  have u: "uint (usecs div 1000000) = uint usecs div 1000000" by (simp add: uint_div)
  have lt: "uint usecs < 18446744073709551616" using uint_lt2p [of usecs] by simp
  have z: "usecs div 1000000 = 0 \<longleftrightarrow> uint usecs < 1000000"
    using u uint_0_iff [of "usecs div 1000000"] lt by (auto simp: zdiv_eq_0_iff)
  have "uint (usecs mod 1000) = uint usecs mod 1000" by (simp add: uint_mod)
  then have m: "uint ((usecs mod 1000) * 1000) = uint usecs mod 1000 * 1000"
    by (simp add: uint_word_ariths)
  have s: "uint (usecs * 1000) = uint usecs * 1000" if "uint usecs < 1000000"
    using that by (simp add: uint_word_ariths)
  have "\<not> 2147483647 < uint usecs div 1000" if "uint usecs < 1000000"
    using that mult_div_mod_eq [of 1000 "uint usecs"] pos_mod_sign [of 1000 "uint usecs"] by linarith
  then show ?thesis using u z m s by (simp add: nty_epoller_wait_def epoll_timespec_def Let_def ms_def)
qed

lemma epoll_timeout:
  assumes "uint usecs < 2147483648000"
  shows "\<exists>ms. nty_epoller_wait (epoll_timespec usecs) = Some ms \<and> 0 \<le> ms \<and> 1000 * ms \<le> uint usecs"
proof -
  let ?ms = "if uint usecs < 1000000 then uint usecs div 1000 else uint usecs div 1000000 * 1000"
  have ms: "0 \<le> ?ms \<and> 1000 * ?ms \<le> uint usecs"
    using mult_div_mod_eq [of 1000 "uint usecs"] mult_div_mod_eq [of 1000000 "uint usecs"]
      pos_mod_sign [of 1000 "uint usecs"] pos_mod_sign [of 1000000 "uint usecs"]
    by (simp add: pos_imp_zdiv_nonneg_iff del: mult_div_mod_eq) linarith
  then have "\<not> ?ms > 2147483647" using assms by linarith
  then show ?thesis using ms unfolding epoll_timespec_ms by (intro exI [of _ ?ms]) simp
qed

text \<open>A first sleeper that is due in \<open>2147484\<close> seconds (24 days and 20 hours) or later: the conversion of the timeout is undefined.\<close>

lemma epoll_timeout_overflow:
  assumes "uint usecs \<ge> 2147484000000"
  shows "nty_epoller_wait (epoll_timespec usecs) = None"
proof -
  have "2147484000000 div 1000000 \<le> uint usecs div 1000000" using assms by (rule zdiv_mono1) simp
  then show ?thesis using assms unfolding epoll_timespec_ms by simp
qed

text \<open>C38: the scheduler does not oversleep: with a well-formed sleeping tree and a sleeper that is due now
  or in less than \<open>2 ^ 31\<close> milliseconds, the timeout that the scheduler passes to \<open>epoll_wait\<close> fits an
  \<open>int\<close> and ends at or before the wake-up time of that sleeper, however the time is split into seconds
  and nanoseconds. Sleepers that are due later are left out: when the first one is, the timeout
  overflows.\<close>

theorem epoll_never_oversleeps:
  assumes "tree_ok co_sleep_usecs (coros s) (sleeping s)" "r \<in> set (sleeping s)" "coros s r = Some c"
    "now - sbirth s \<le> co_sleep_usecs c" "uint (co_sleep_usecs c) - uint (now - sbirth s) < 2147483648 * 1000"
  shows "\<exists>usecs ms. nty_schedule_min_timeout now s = Some usecs \<and> nty_epoller_wait (epoll_timespec usecs) = Some ms \<and>
    0 \<le> ms \<and> uint (now - sbirth s) + 1000 * ms \<le> uint (co_sleep_usecs c)"
proof -
  obtain q t where q: "sleeping s = q # t" using assms(2) by (cases "sleeping s") auto
  then obtain d where d: "coros s q = Some d" "q \<noteq> NULL" "co_sleep_usecs d \<le> co_sleep_usecs c"
    using assms(1-3) by (force simp: tree_ok_Cons)
  let ?now = "now - sbirth s"
  define usecs where "usecs = (if co_sleep_usecs d > ?now then co_sleep_usecs d - ?now else 0)"
  have "nty_schedule_min_timeout now s = Some usecs"
    using q d by (simp add: nty_schedule_min_timeout_def tree_min_def usecs_def)
  moreover have u: "uint ?now + uint usecs \<le> uint (co_sleep_usecs c)"
    using assms(4) d(3) by (auto simp: usecs_def word_le_def word_less_def uint_sub_if')
  moreover have "uint usecs < 2147483648000" using u assms(5) by simp
  then obtain ms where "nty_epoller_wait (epoll_timespec usecs) = Some ms" "0 \<le> ms" "1000 * ms \<le> uint usecs"
    using epoll_timeout by blast
  ultimately show ?thesis by fastforce
qed

theorem epoll_never_oversleeps_witness:
  "\<exists>usecs ms. nty_schedule_min_timeout 2000 nap_sched = Some usecs \<and> nty_epoller_wait (epoll_timespec usecs) = Some ms \<and> 2000 + 1000 * ms \<le> 5000"
proof -
  have "\<exists>usecs ms. nty_schedule_min_timeout 2000 nap_sched = Some usecs \<and> nty_epoller_wait (epoll_timespec usecs) = Some ms \<and>
    0 \<le> ms \<and> uint (2000 - sbirth nap_sched) + 1000 * ms \<le> uint (co_sleep_usecs (nap_co 64 9 5000))"
    by (rule epoll_never_oversleeps [OF nap_trees(1), of "Ref 0"]) (simp_all add: nap_sched_def nap_co_def)
  then show ?thesis by (auto simp: nap_sched_def nap_co_def)
qed

section \<open>Sending\<close>

lemma send_rest_complete:
  assumes "\<forall>r \<in> set rets. 0 < r" "n < len" "int n + sum_list rets = int len"
  shows "send_rest len n rets = Some (len, int len)"
  using assms
proof (induction rets arbitrary: n)
  case (Cons r rets)
  have r: "0 < r" "\<forall>r \<in> set rets. 0 < r" using Cons.prems(1) by simp_all
  have "0 \<le> sum_list rets" using r(2) by (intro sum_list_nonneg) fastforce
  show ?case
  proof (cases "n + nat r < len")
    case True
    then have "send_rest len (n + nat r) rets = Some (len, int len)" using Cons.IH r Cons.prems(3) by simp
    then show ?thesis using True r(1) by (simp add: send_next_def send_loop_def)
  next
    case False
    then have "n + nat r = len" using Cons.prems(3) \<open>0 \<le> sum_list rets\<close> r(1) by simp
    then show ?thesis using r(1) by (simp add: send_next_def send_loop_def)
  qed
qed simp

lemma send_all_complete:
  assumes "first \<noteq> 0" "\<forall>r \<in> set rets. 0 < r" "0 < len" "max 0 first + sum_list rets = int len"
  shows "send_all len (first # rets) = Some (len, int len)"
proof -
  let ?n = "if first > 0 then nat first else 0"
  have "0 \<le> sum_list rets" using assms(2) by (intro sum_list_nonneg) fastforce
  show ?thesis
  proof (cases "?n < len")
    case True
    have "int ?n + sum_list rets = int len" using assms(4) by (auto simp: max_def split: if_splits)
    then have "send_rest len ?n rets = Some (len, int len)" using send_rest_complete [OF assms(2) True] by simp
    then show ?thesis using True assms(1) by (simp add: send_all_def send_first_def send_loop_def Let_def)
  next
    case False
    then have "0 < first" "nat first = len" using assms(3, 4) \<open>0 \<le> sum_list rets\<close> by (auto split: if_splits)
    then show ?thesis by (simp add: send_all_def send_first_def send_loop_def)
  qed
qed

section \<open>Sleepers that are woken by their descriptor\<close>

text \<open>C39: a coroutine that sleeps on a timeout is not taken from the sleeping tree when its descriptor
  wakes it, since \<open>nty_schedule_desched_wait\<close> clears the status before it looks for the sleeping
  bit. When the first of the sleepers has been woken like that and ends, the scheduler reads the
  freed coroutine, both for the expired sleepers and for the timeout.\<close>

theorem woken_sleeper_is_freed:
  assumes "nty_schedule_desched_wait fd s = Some (co, s1)" "co = tree_min (sleeping s)" "sleeping s \<noteq> []"
    "NULL \<notin> set (sleeping s)" "nty_coroutine_free co s1 = Some s2"
  shows "sleeping s1 = sleeping s \<and> nty_schedule_expired now s2 = None \<and> nty_schedule_min_timeout now s2 = None"
proof -
  have sl: "sleeping s1 = sleeping s"
    using assms(1) by (auto simp: nty_schedule_desched_wait_def nty_schedule_desched_sleepdown_def put_co_def
        split: bind_splits if_splits)
  have co: "co \<noteq> NULL" using assms(2-4) by (cases "sleeping s") (auto simp: tree_min_def)
  then have "coros s2 co = None" "sleeping s2 = sleeping s"
    using assms(5) sl by (auto simp: nty_coroutine_free_def split: bind_splits)
  then show ?thesis using sl co assms(2) by (simp add: nty_schedule_expired_def nty_schedule_min_timeout_def Let_def)
qed

theorem woken_sleeper_is_freed_witness:
  "\<exists>s1 s2. nty_schedule_desched_wait 9 nap_sched = Some (Ref 0, s1) \<and> nty_coroutine_free (Ref 0) s1 = Some s2 \<and>
     nty_schedule_expired 9000 s2 = None"
proof -
  obtain s1 where s1: "nty_schedule_desched_wait 9 nap_sched = Some (Ref 0, s1)" "coros s1 (Ref 0) \<noteq> None"
    using desched_wait_law [OF nap_trees(2), of "Ref 0" "nap_co 64 9 5000" 9] by (simp add: nap_sched_def nap_co_def put_co_def)
  then obtain s2 where "nty_coroutine_free (Ref 0) s1 = Some s2" by (auto simp: nty_coroutine_free_def)
  then show ?thesis using woken_sleeper_is_freed [OF s1(1), of s2 9000] s1(1) by (simp add: nap_sched_def tree_min_def)
qed

end
