(* ===== verification/Ntyco_Spec.thy ===== *)
theory Ntyco_Spec
  imports Kvs_Ntyco Nty_Correct Network_Spec Rdb_Correct
begin

unbundle bit_operations_syntax

text \<open>
  The coroutine server against the contract of the network layers. Its invariant says which
  coroutines there are and where they stand: every one but the running one is in the ready queue
  or in the waiting tree, a waiting coroutine is inside a socket call on its own descriptor, at
  most one reader has not started, and the word on the stack at the address it was given is the
  descriptor that the server has accepted for it.
  Inside the locale \<open>msg_service\<close> every step of the scheduler is shown to keep the invariant and to
  follow \<open>net_do\<close>.
\<close>

section \<open>The invariant\<close>

fun frame_fd :: "co_frame \<Rightarrow> int" where
  "frame_fd (Server_accept fd) = fd"
| "frame_fd (Reader_recv fd ns) = fd"
| "frame_fd (Reader_send fd ns response slength n) = fd"
| "frame_fd _ = -1"

fun is_server :: "co_frame \<Rightarrow> bool" where
  "is_server Server_start = True"
| "is_server (Server_accept fd) = True"
| "is_server _ = False"

text \<open>A frame inside a socket call.\<close>

fun frame_ok :: "(string \<Rightarrow> bool) \<Rightarrow> co_frame \<Rightarrow> bool" where
  "frame_ok ok_ns (Server_accept fd) = (0 \<le> fd)"
| "frame_ok ok_ns (Reader_recv fd ns) = (0 \<le> fd \<and> ok_ns ns)"
| "frame_ok ok_ns (Reader_send fd ns response slength n) =
     (0 \<le> fd \<and> ok_ns ns \<and> n < slength \<and> slength < BUFFER_LENGTH \<and> length response = BUFFER_LENGTH)"
| "frame_ok ok_ns _ = False"

definition waiter_ok :: "(string \<Rightarrow> bool) \<Rightarrow> nty_coroutine \<Rightarrow> co_frame \<Rightarrow> bool" where
  "waiter_ok ok_ns c fr \<longleftrightarrow> frame_ok ok_ns fr \<and> co_fd c = frame_fd fr \<and> co_status c \<in> {0, 1, 8, 9} \<and>
     length (co_stack c) \<le> NTY_CO_MAX_STACKSIZE"

definition starter_ok :: "nty_coroutine \<Rightarrow> co_frame \<Rightarrow> bool" where
  "starter_ok c fr \<longleftrightarrow> co_status c = 4 \<and> co_stack c = [] \<and> (fr = Server_start \<or> fr = Reader_start)"

abbreviation fd_of :: "'z nty_schedule_scheme \<Rightarrow> ref \<Rightarrow> int" where
  "fd_of s r \<equiv> co_fd (the (coros s r))"

text \<open>The coroutines, while \<open>co\<close> runs or, when it is NULL, the scheduler.\<close>

definition threads_ok :: "(string \<Rightarrow> bool) \<Rightarrow> ref \<Rightarrow> 's ntyco \<Rightarrow> bool" where
  "threads_ok ok_ns co s \<longleftrightarrow>
     curr_thread s = co \<and> sleeping s = [] \<and> busy s = [] \<and> default_timeout s = 3000000 \<and>
     length (sstack s) = NTY_CO_MAX_STACKSIZE \<and> 0 < conext s \<and>
     tree_ok co_fd (coros s) (waiting s) \<and>
     dom (coros s) - {co} = set (ready s) \<union> set (waiting s) \<and> dom (coros s) \<subseteq> Ref ` {..<conext s} \<and>
     set (ready s) \<inter> set (waiting s) = {} \<and> length (ready s) \<le> 1 \<and>
     (\<forall>r \<in> set (waiting s). \<exists>c fr. coros s r = Some c \<and> frames s r = Some fr \<and> waiter_ok ok_ns c fr \<and> (is_server fr \<longleftrightarrow> r = Ref 0)) \<and>
     (\<forall>r \<in> set (ready s). \<exists>c fr. coros s r = Some c \<and> frames s r = Some fr \<and> starter_ok c fr \<and> (is_server fr \<longleftrightarrow> r = Ref 0)) \<and>
     dom (poller s) = insert (eventfd s) (fd_of s ` set (waiting s)) \<and> eventfd s \<notin> fd_of s ` set (waiting s) \<and>
     (\<forall>r \<in> set (ready s). frames s r = Some Reader_start \<longrightarrow> 0 \<le> cli_fd s \<and> poller s (cli_fd s) = None) \<and>
     4 \<le> cli_at s \<and> cli_at s \<le> NTY_CO_MAX_STACKSIZE"

text \<open>Where the scheduler stands. While a reader has not started, no event is left.\<close>

definition phase_ok :: "'s ntyco \<Rightarrow> bool" where
  "phase_ok s \<longleftrightarrow>
     (case run_pc s of
        At_ready l \<Rightarrow> ready s = [] \<or> ready s = [l]
      | At_epoll \<Rightarrow> ready s = []
      | At_wait \<Rightarrow> ready s = []
      | At_events \<Rightarrow> distinct (map fst (new_events s)) \<and> fst ` set (new_events s) \<subseteq> fd_of s ` set (waiting s) \<and>
          (ready s \<noteq> [] \<longrightarrow> Ref 0 \<in> set (waiting s) \<and> new_events s = [])
      | At_end \<Rightarrow> False
      | _ \<Rightarrow> True)"

text \<open>The reader that has not started will find its descriptor.\<close>

definition arg_ok :: "'s ntyco \<Rightarrow> bool" where
  "arg_ok s \<longleftrightarrow> (\<forall>r \<in> set (ready s). frames s r = Some Reader_start \<longrightarrow> arg_int s = cli_fd s)"

definition ntyco_inv :: "(string \<Rightarrow> bool) \<Rightarrow> ('s \<Rightarrow> bool) \<Rightarrow> 's ntyco \<Rightarrow> bool" where
  "ntyco_inv ok_ns good s \<longleftrightarrow> threads_ok ok_ns NULL s \<and> phase_ok s \<and> arg_ok s \<and> good (napp s) \<and> Ref 0 \<in> dom (coros s)"

text \<open>A running coroutine that is about to wait for \<open>fd\<close> or to end.\<close>

definition running :: "(string \<Rightarrow> bool) \<Rightarrow> ref \<Rightarrow> int \<Rightarrow> 's ntyco \<Rightarrow> bool" where
  "running ok_ns co fd s \<longleftrightarrow> threads_ok ok_ns co s \<and> 0 \<le> fd \<and> poller s fd = None \<and>
     (\<exists>c. coros s co = Some c \<and> co_status c \<in> {0, 8} \<and> length (co_stack c) \<le> NTY_CO_MAX_STACKSIZE)"

text \<open>What is left when it has yielded: \<open>fro\<close> is its frame, unless it has ended. A yield of the server leaves
  the variable on the stack alone.\<close>

definition rests :: "(string \<Rightarrow> bool) \<Rightarrow> ref \<Rightarrow> co_frame option \<Rightarrow> 's ntyco \<Rightarrow> 's ntyco \<Rightarrow> bool" where
  "rests ok_ns co fro s s' \<longleftrightarrow> threads_ok ok_ns NULL s' \<and> frames s' = (frames s)(co := fro) \<and>
     set (waiting s') = (if fro = None then {} else {co}) \<union> set (waiting s) \<and> ready s' = ready s \<and>
     (\<forall>r. r \<noteq> co \<longrightarrow> coros s' r = coros s r) \<and> (\<forall>fr. fro = Some fr \<longrightarrow> fd_of s' co = frame_fd fr) \<and>
     cli_fd s' = cli_fd s \<and> new_events s' = new_events s \<and> run_pc s' = run_pc s \<and>
     (\<forall>f. fro = Some (Server_accept f) \<longrightarrow> arg_int s' = arg_int s)"

section \<open>Yields\<close>

text \<open>\<open>nty_coroutine_resume\<close> after the switch back.\<close>

definition after_exec :: "ref \<Rightarrow> 'z nty_schedule_scheme \<Rightarrow> 'z nty_schedule_scheme option" where
  "after_exec co s = do {
     let s = s\<lparr>curr_thread := NULL\<rparr>;
     c \<leftarrow> coros s co;
     if has_bit (co_status c) NTY_COROUTINE_STATUS_EXITED \<and> has_bit (co_status c) NTY_COROUTINE_STATUS_DETACH
     then nty_coroutine_free co s else Some s }"

lemma resume_after_exec:
  "map_option snd (nty_coroutine_resume ex co s) = do {
     c \<leftarrow> coros s co;
     s \<leftarrow> (if has_bit (co_status c) NTY_COROUTINE_STATUS_NEW then nty_coroutine_init co s else load_stack co s);
     s \<leftarrow> ex co (s\<lparr>curr_thread := co\<rparr>);
     after_exec co s }"
  by (auto simp: nty_coroutine_resume_def after_exec_def Let_def split: Option.bind_split option.splits)

lemma status_bits:
  "has_bit (8 :: 32 word) 0 = False" "has_bit (8 :: 32 word) (Suc 0) = False" "has_bit (8 :: 32 word) 4 = False"
  "has_bit (1 :: 32 word) 4 = False" "has_bit (9 :: 32 word) 4 = False"
  by (simp_all add: has_bit_def BIT_def)

lemma wait_status_values:
  "st \<in> {0, 8} \<Longrightarrow> wait_status ev st \<in> {0, 1, 8, 9}"
  by (auto simp: wait_status_def)

lemma idle_status: "st \<in> {0, 8} \<Longrightarrow> \<not> has_bit st 0 \<and> \<not> has_bit st (Suc 0)"
  "st \<in> {0, 1, 8, 9} \<Longrightarrow> \<not> has_bit st 4"
  by (auto simp: status_bits)

lemma readable_bits:
  "READABLE AND POLLIN \<noteq> 0" "WRITABLE AND POLLOUT \<noteq> 0"
  by (simp_all add: READABLE_def WRITABLE_def POLLIN_def POLLOUT_def POLLERR_def POLLHUP_def)

lemma threads_okD:
  assumes "threads_ok ok_ns co s"
  shows "curr_thread s = co" "sleeping s = []" "busy s = []" "default_timeout s = 3000000" "length (sstack s) = NTY_CO_MAX_STACKSIZE"
    "0 < conext s" "tree_ok co_fd (coros s) (waiting s)" "dom (coros s) - {co} = set (ready s) \<union> set (waiting s)"
    "dom (coros s) \<subseteq> Ref ` {..<conext s}" "set (ready s) \<inter> set (waiting s) = {}" "length (ready s) \<le> 1"
    "\<forall>r \<in> set (waiting s). \<exists>c fr. coros s r = Some c \<and> frames s r = Some fr \<and> waiter_ok ok_ns c fr \<and> (is_server fr \<longleftrightarrow> r = Ref 0)"
    "\<forall>r \<in> set (ready s). \<exists>c fr. coros s r = Some c \<and> frames s r = Some fr \<and> starter_ok c fr \<and> (is_server fr \<longleftrightarrow> r = Ref 0)"
    "dom (poller s) = insert (eventfd s) (fd_of s ` set (waiting s))" "eventfd s \<notin> fd_of s ` set (waiting s)"
    "\<forall>r \<in> set (ready s). frames s r = Some Reader_start \<longrightarrow> 0 \<le> cli_fd s \<and> poller s (cli_fd s) = None"
    "4 \<le> cli_at s" "cli_at s \<le> NTY_CO_MAX_STACKSIZE"
  using assms unfolding threads_ok_def by - (elim conjE, assumption)+

lemma threads_null:
  assumes "threads_ok ok_ns co s"
  shows "NULL \<notin> set (ready s)" "NULL \<notin> set (waiting s)" "coros s NULL = None"
  using threads_okD(8, 9) [OF assms] by auto

lemma threads_dom: "threads_ok ok_ns NULL s \<Longrightarrow> dom (coros s) = set (ready s) \<union> set (waiting s)"
  using threads_okD(8) threads_null(3) by (metis Diff_empty Diff_insert0 domIff)

lemma running_fd:
  assumes "running ok_ns co fd s"
  shows "\<forall>r \<in> set (waiting s). fd_of s r \<noteq> fd" "fd \<noteq> eventfd s"
proof -
  have "threads_ok ok_ns co s" "fd \<notin> dom (poller s)" using assms by (auto simp: running_def)
  then have "fd \<notin> insert (eventfd s) (fd_of s ` set (waiting s))" by (simp add: threads_okD(14))
  then show "\<forall>r \<in> set (waiting s). fd_of s r \<noteq> fd" "fd \<noteq> eventfd s" by (auto simp: image_iff)
qed

lemma running_co:
  assumes "running ok_ns co fd s"
  shows "curr_thread s = co" "co \<noteq> NULL" "co \<notin> set (waiting s)" "co \<notin> set (ready s)"
  using assms unfolding running_def threads_ok_def by auto

text \<open>Reading and writing the stack.\<close>

lemma stack_write_laws:
  assumes "length bs \<le> d" "d \<le> length st"
  shows "length (stack_write d bs st) = length st" "stack_read d (length bs) (stack_write d bs st) = bs"
  using assms by (simp_all add: stack_write_def stack_read_def)

lemma stack_read_length: "n \<le> d \<Longrightarrow> d \<le> length st \<Longrightarrow> length (stack_read d n st) = n"
  by (simp add: stack_read_def)

lemma int_bytes_laws: "length (int_bytes v) = 4" "- (2 ^ 31) \<le> v \<Longrightarrow> v < 2 ^ 31 \<Longrightarrow> bytes_int (int_bytes v) = v"
  by (simp add: int_bytes_def htonl_def) (simp add: int_bytes_def bytes_int_def ntohl_htonl)

lemma enter_stack_length: "length (enter_stack a st) = length st"
proof -
  have "length (fold (\<lambda>(d, b) st. st[length st - d := b]) ws st) = length (st :: string)" for ws st
    by (induction ws arbitrary: st) (auto split: prod.splits)
  then show ?thesis by (simp add: enter_stack_def)
qed

lemma stack_read_update:
  assumes "d \<le> length st" "n \<le> length st" "n < d \<or> d + k \<le> n"
  shows "stack_read n k (st[length st - d := b]) = stack_read n k st"
  using assms
proof (cases "n < d")
  case True
  then have "drop (length st - n) (st[length st - d := b]) = drop (length st - n) st" using assms(1) by (simp add: drop_update_cancel)
  then show ?thesis by (simp add: stack_read_def)
next
  case False
  then have "d + k \<le> n" using assms(3) by simp
  then have "drop (length st - n) (st[length st - d := b]) = (drop (length st - n) st)[n - d := b]" using assms(2) by (simp add: drop_update_swap)
  then show ?thesis using \<open>d + k \<le> n\<close> by (simp add: stack_read_def take_update_cancel)
qed

lemma enter_stack_read:
  assumes "\<forall>(d, b) \<in> set (a_entry a). d \<le> length st \<and> (n < d \<or> d + k \<le> n)" "n \<le> length st"
  shows "stack_read n k (enter_stack a st) = stack_read n k st"
proof -
  have "stack_read n k (fold (\<lambda>(d, b) st. st[length st - d := b]) ws st) = stack_read n k st"
    if "\<forall>(d, b) \<in> set ws. d \<le> length st \<and> (n < d \<or> d + k \<le> n)" "n \<le> length st" for ws st
    using that by (induction ws arbitrary: st) (auto simp: stack_read_update split: prod.splits)
  then show ?thesis using assms by (simp add: enter_stack_def)
qed

lemma use_stack_law:
  assumes "length (a_used a) \<le> NTY_CO_MAX_STACKSIZE" "length (sstack s) = NTY_CO_MAX_STACKSIZE" "4 \<le> cli_at s" "cli_at s \<le> NTY_CO_MAX_STACKSIZE"
  shows "\<exists>st. use_stack a s = Some (s\<lparr>sstack := st\<rparr>) \<and> length st = NTY_CO_MAX_STACKSIZE \<and>
    (\<forall>f. frames s (curr_thread s) = Some (Server_accept f) \<longrightarrow> stack_read (cli_at s) 4 st = stack_read (cli_at s) 4 (sstack s))"
proof -
  let ?st = "take (length (sstack s) - length (a_used a)) (sstack s) @ a_used a" and ?bs = "stack_read (cli_at s) 4 (sstack s)"
  have len: "length ?st = NTY_CO_MAX_STACKSIZE" "length ?bs = 4" using assms by (simp_all add: stack_read_length)
  have w: "length (stack_write (cli_at s) ?bs ?st) = NTY_CO_MAX_STACKSIZE" "stack_read (cli_at s) 4 (stack_write (cli_at s) ?bs ?st) = ?bs"
    using stack_write_laws [of ?bs "cli_at s" ?st] len assms(3, 4) by simp_all
  define st where "st = (case frames s (curr_thread s) of Some (Server_accept fd) \<Rightarrow> stack_write (cli_at s) ?bs ?st | _ \<Rightarrow> ?st)"
  have "use_stack a s = Some (s\<lparr>sstack := st\<rparr>)" using assms(1, 2) unfolding use_stack_def st_def by (simp add: Let_def cong: option.case_cong co_frame.case_cong)
  moreover have "length st = NTY_CO_MAX_STACKSIZE" using w(1) len(1) by (simp add: st_def split: option.split co_frame.split)
  moreover have "stack_read (cli_at s) 4 st = ?bs" if "frames s (curr_thread s) = Some (Server_accept f)" for f using that w(2) by (simp add: st_def)
  ultimately show ?thesis by blast
qed

lemma yield_law:
  assumes "coros s co = Some c" "\<not> has_bit (co_status c) 4" "length (sstack s) = NTY_CO_MAX_STACKSIZE" "depth \<le> NTY_CO_MAX_STACKSIZE"
  shows "nty_coroutine_yield True depth co s =
    Some (put_co co (c\<lparr>co_ops := 0, co_stack := drop (length (sstack s) - depth) (sstack s)\<rparr>) s)"
  using assms by (simp add: nty_coroutine_yield_def save_stack_def status_defs put_co_def)

lemma wait_io_law:
  assumes "running ok_ns co fd s" "ev AND POLLIN \<noteq> 0 \<or> ev AND POLLOUT \<noteq> 0" "length (a_used a) \<le> NTY_CO_MAX_STACKSIZE" "a_realloc a"
  shows "\<exists>c t st. wait_io a fd ev s = Some (put_co co c (s\<lparr>poller := (poller s)(fd \<mapsto> nty_pollevent_2epoll ev), waiting := t, sstack := st\<rparr>)) \<and>
    length st = NTY_CO_MAX_STACKSIZE \<and> co_fd c = fd \<and> co_status c \<in> {0, 1, 8, 9} \<and> length (co_stack c) \<le> NTY_CO_MAX_STACKSIZE \<and>
    set t = insert co (set (waiting s)) \<and> tree_ok co_fd ((coros s)(co \<mapsto> c)) t \<and>
    (\<forall>f. frames s co = Some (Server_accept f) \<longrightarrow> stack_read (cli_at s) 4 st = stack_read (cli_at s) 4 (sstack s))"
proof -
  obtain c where c: "coros s co = Some c" "co_status c \<in> {0, 8}" and fd: "0 \<le> fd" "poller s fd = None" and
    t: "tree_ok co_fd (coros s) (waiting s)" "length (sstack s) = NTY_CO_MAX_STACKSIZE" and at: "4 \<le> cli_at s" "cli_at s \<le> NTY_CO_MAX_STACKSIZE"
    using assms(1) by (auto simp: running_def threads_ok_def)
  note co = running_co [OF assms(1)]
  define c1 where "c1 = c\<lparr>co_status := wait_status ev (co_status c), co_fd := fd, co_events := ev\<rparr>"
  obtain t where t: "poll_enter (tk_now (a_tick a)) 1 [(fd, ev)] s =
        Some (put_co co c1 (s\<lparr>poller := (poller s)(fd \<mapsto> nty_pollevent_2epoll ev), waiting := t\<rparr>))"
      "set t = insert co (set (waiting s))" "tree_ok co_fd ((coros s)(co \<mapsto> c1)) t"
    using poll_enter_law [OF t(1) co(1-3) c(1) _ _ running_fd(1) [OF assms(1)] fd assms(2), of "tk_now (a_tick a)"] idle_status(1) [OF c(2)]
    unfolding c1_def by auto
  let ?s1 = "put_co co c1 (s\<lparr>poller := (poller s)(fd \<mapsto> nty_pollevent_2epoll ev), waiting := t\<rparr>)"
  have s1: "sstack ?s1 = sstack s" "cli_at ?s1 = cli_at s" "frames ?s1 = frames s" "curr_thread ?s1 = co" using co(1) by (simp_all add: put_co_def)
  obtain st where use: "use_stack a ?s1 = Some (?s1\<lparr>sstack := st\<rparr>)" "length st = NTY_CO_MAX_STACKSIZE"
      "\<forall>f. frames s co = Some (Server_accept f) \<longrightarrow> stack_read (cli_at s) 4 st = stack_read (cli_at s) 4 (sstack s)"
    using use_stack_law [OF assms(3), of ?s1] \<open>length (sstack s) = _\<close> at unfolding s1 by blast
  let ?c = "c1\<lparr>co_ops := 0, co_stack := drop (length st - length (a_used a)) st\<rparr>"
  have st: "wait_status ev (co_status c) \<in> {0, 1, 8, 9}" by (rule wait_status_values [OF c(2)])
  note len = use(2)
  have "wait_io a fd ev s = nty_coroutine_yield True (length (a_used a)) co (?s1\<lparr>sstack := st\<rparr>)"
    using use(1) t(1) co(1) assms(4) by (simp add: wait_io_def)
  also have "\<dots> = Some (put_co co ?c (?s1\<lparr>sstack := st\<rparr>))"
    using yield_law [of "?s1\<lparr>sstack := st\<rparr>" co c1 "length (a_used a)"] idle_status(2) [OF st] len assms(3) by (simp add: c1_def)
  also have "put_co co ?c (?s1\<lparr>sstack := st\<rparr>) =
      put_co co ?c (s\<lparr>poller := (poller s)(fd \<mapsto> nty_pollevent_2epoll ev), waiting := t, sstack := st\<rparr>)"
    by (simp add: put_co_def)
  finally have w: "wait_io a fd ev s = Some (put_co co ?c (s\<lparr>poller := (poller s)(fd \<mapsto> nty_pollevent_2epoll ev), waiting := t, sstack := st\<rparr>))" .
  have "tree_ok co_fd ((coros s)(co \<mapsto> ?c)) t"
    using tree_ok_same_key [OF t(3), of co c1 ?c] by simp
  moreover have "co_fd ?c = fd" "co_status ?c \<in> {0, 1, 8, 9}" "length (co_stack ?c) \<le> NTY_CO_MAX_STACKSIZE"
    using st len assms(3) by (simp_all add: c1_def)
  ultimately show ?thesis using w len t(2) use(3) by blast
qed

text \<open>A wait puts the coroutine back among the waiting ones.\<close>

lemma wait_rests:
  assumes "running ok_ns co fd s" "ev = READABLE \<or> ev = WRITABLE" "length (a_used a) \<le> NTY_CO_MAX_STACKSIZE" "a_realloc a"
    and "frame_ok ok_ns fr" "frame_fd fr = fd" "is_server fr \<longleftrightarrow> co = Ref 0" "\<forall>r \<in> set (ready s). frames s r = Some Reader_start \<longrightarrow> cli_fd s \<noteq> fd"
  shows "\<exists>s1 s2. wait_io a fd ev (put_frame fr s) = Some s1 \<and> after_exec co s1 = Some s2 \<and> rests ok_ns co (Some fr) s s2 \<and>
    nsent s2 = nsent s \<and> napp s2 = napp s"
proof -
  note co = running_co [OF assms(1)]
  have th: "threads_ok ok_ns co s" using assms(1) by (simp add: running_def)
  note T = threads_okD [OF th] and null = threads_null [OF th]
  have run: "running ok_ns co fd (put_frame fr s)"
    using assms(1) co unfolding running_def threads_ok_def put_frame_def by auto
  have ev: "ev AND POLLIN \<noteq> 0 \<or> ev AND POLLOUT \<noteq> 0" using assms(2) readable_bits by blast
  let ?s = "put_frame fr s"
  obtain c t st where c: "wait_io a fd ev ?s = Some (put_co co c (?s\<lparr>poller := (poller ?s)(fd \<mapsto> nty_pollevent_2epoll ev), waiting := t, sstack := st\<rparr>))"
      "length st = NTY_CO_MAX_STACKSIZE" "co_fd c = fd" "co_status c \<in> {0, 1, 8, 9}" "length (co_stack c) \<le> NTY_CO_MAX_STACKSIZE"
      "set t = insert co (set (waiting ?s))" "tree_ok co_fd ((coros ?s)(co \<mapsto> c)) t"
      "\<forall>f. frames ?s co = Some (Server_accept f) \<longrightarrow> stack_read (cli_at ?s) 4 st = stack_read (cli_at ?s) 4 (sstack ?s)"
    using wait_io_law [OF run ev assms(3, 4)] by blast
  define s2 where "s2 = put_co co c (s\<lparr>frames := (frames s)(co \<mapsto> fr), poller := (poller s)(fd \<mapsto> nty_pollevent_2epoll ev), waiting := t,
    sstack := st, curr_thread := NULL\<rparr>)"
  have f: "coros s2 = (coros s)(co \<mapsto> c)" "frames s2 = (frames s)(co \<mapsto> fr)" "waiting s2 = t" "sstack s2 = st" "curr_thread s2 = NULL"
    "poller s2 = (poller s)(fd \<mapsto> nty_pollevent_2epoll ev)" "ready s2 = ready s" "eventfd s2 = eventfd s" "conext s2 = conext s"
    "sleeping s2 = sleeping s" "busy s2 = busy s" "default_timeout s2 = default_timeout s" "cli_fd s2 = cli_fd s" "nsent s2 = nsent s"
    "napp s2 = napp s" "new_events s2 = new_events s" "run_pc s2 = run_pc s" "cli_at s2 = cli_at s"
    by (simp_all add: s2_def put_co_def)
  have arg: "arg_int s2 = arg_int s" if "fr = Server_accept g" for g
    using c(8) that co(1) unfolding arg_int_def f(4, 18) by (simp add: put_frame_def)
  have after: "after_exec co (put_co co c (?s\<lparr>poller := (poller ?s)(fd \<mapsto> nty_pollevent_2epoll ev), waiting := t, sstack := st\<rparr>)) = Some s2"
    using idle_status(2) [OF c(4)] co(1) by (simp add: after_exec_def status_defs s2_def put_co_def put_frame_def)
  have wt: "set t = insert co (set (waiting s))" using c(6) by (simp add: put_frame_def)
  have fds: "fd_of s2 ` set (waiting s2) = insert fd (fd_of s ` set (waiting s))"
    using c(3) co(3) unfolding f wt by (auto simp: image_def)
  have "threads_ok ok_ns NULL s2"
    unfolding threads_ok_def
  proof (intro conjI)
    show "tree_ok co_fd (coros s2) (waiting s2)" using c(7) f by (simp add: put_frame_def)
    show "dom (coros s2) - {NULL} = set (ready s2) \<union> set (waiting s2)" using T(8) co null unfolding f wt by auto
    show "dom (coros s2) \<subseteq> Ref ` {..<conext s2}" using T(9) assms(1) unfolding f running_def by auto
    show "set (ready s2) \<inter> set (waiting s2) = {}" using T(10) co unfolding f wt by auto
    show "\<forall>r \<in> set (waiting s2). \<exists>c fr. coros s2 r = Some c \<and> frames s2 r = Some fr \<and> waiter_ok ok_ns c fr \<and> (is_server fr \<longleftrightarrow> r = Ref 0)"
      using T(12) co(3) assms(5-7) c(3-5) unfolding f wt by (auto simp: waiter_ok_def)
    show "\<forall>r \<in> set (ready s2). \<exists>c fr. coros s2 r = Some c \<and> frames s2 r = Some fr \<and> starter_ok c fr \<and> (is_server fr \<longleftrightarrow> r = Ref 0)"
      using T(13) co(4) unfolding f by auto
    show "dom (poller s2) = insert (eventfd s2) (fd_of s2 ` set (waiting s2))" using T(14) by (subst fds) (simp add: f insert_commute)
    show "eventfd s2 \<notin> fd_of s2 ` set (waiting s2)" using T(15) running_fd(2) [OF assms(1)] by (subst fds) (simp add: f)
    show "\<forall>r \<in> set (ready s2). frames s2 r = Some Reader_start \<longrightarrow> 0 \<le> cli_fd s2 \<and> poller s2 (cli_fd s2) = None"
      using T(16) co(4) assms(8) unfolding f by auto
  qed (use T(2-6, 11, 17, 18) f c(2) in simp_all)
  then have "rests ok_ns co (Some fr) s s2" using c(3) assms(6) wt f arg by (simp add: rests_def)
  then show ?thesis using c(1) after f(14, 15) by blast
qed

text \<open>The end of a coroutine frees it.\<close>

lemma finish_rests:
  assumes "running ok_ns co fd s" "length (a_used a) \<le> NTY_CO_MAX_STACKSIZE"
  shows "\<exists>s1 s2. finish a s = Some s1 \<and> after_exec co s1 = Some s2 \<and> rests ok_ns co None s s2 \<and> nsent s2 = nsent s \<and> napp s2 = napp s"
proof -
  note co = running_co [OF assms(1)]
  have th: "threads_ok ok_ns co s" using assms(1) by (simp add: running_def)
  note T = threads_okD [OF th] and null = threads_null [OF th]
  obtain c where c: "coros s co = Some c" "co_status c \<in> {0, 8}" using assms(1) by (auto simp: running_def)
  let ?st = "take (length (sstack s) - length (a_used a)) (sstack s) @ a_used a"
  let ?s = "s\<lparr>frames := (frames s)(co := None), sstack := ?st\<rparr>"
  let ?c = "c\<lparr>co_status := co_status c OR 784, co_ops := 0\<rparr>"
  have bits: "has_bit (co_status c OR 784) 4" "has_bit (co_status c OR 784) 9"
    using c(2) by (auto simp: has_bit_def BIT_def)
  have "use_stack a (s\<lparr>frames := (frames s)(co := None)\<rparr>) = Some ?s" using T(5) assms(2) co(1) by (simp add: use_stack_def)
  then have f1: "finish a s = Some (put_co co ?c ?s)"
    using co(1) c(1) bits by (simp add: finish_def exec_return_def nty_coroutine_yield_def status_defs BIT_def put_co_def)
  define s2 where "s2 = s\<lparr>frames := (frames s)(co := None), sstack := ?st, curr_thread := NULL,
    spawned_coroutines := spawned_coroutines s - 1, coros := (coros s)(co := None)\<rparr>"
  have f: "coros s2 = (coros s)(co := None)" "frames s2 = (frames s)(co := None)" "waiting s2 = waiting s" "sstack s2 = ?st" "curr_thread s2 = NULL"
    "poller s2 = poller s" "ready s2 = ready s" "eventfd s2 = eventfd s" "conext s2 = conext s"
    "sleeping s2 = sleeping s" "busy s2 = busy s" "default_timeout s2 = default_timeout s" "cli_fd s2 = cli_fd s" "nsent s2 = nsent s"
    "napp s2 = napp s" "new_events s2 = new_events s" "run_pc s2 = run_pc s" "cli_at s2 = cli_at s"
    by (simp_all add: s2_def)
  have after: "after_exec co (put_co co ?c ?s) = Some s2"
    using bits co(2) by (simp add: after_exec_def status_defs nty_coroutine_free_def s2_def put_co_def)
  have fds: "fd_of s2 ` set (waiting s2) = fd_of s ` set (waiting s)" using co(3) unfolding f by (auto intro!: image_cong)
  have "threads_ok ok_ns NULL s2"
    unfolding threads_ok_def
  proof (intro conjI)
    show "tree_ok co_fd (coros s2) (waiting s2)" unfolding f by (rule tree_ok_upd [OF T(7) co(3)])
    show "dom (coros s2) - {NULL} = set (ready s2) \<union> set (waiting s2)" using T(8) co null unfolding f by auto
    show "dom (coros s2) \<subseteq> Ref ` {..<conext s2}" using T(9) unfolding f by auto
    show "\<forall>r \<in> set (waiting s2). \<exists>c fr. coros s2 r = Some c \<and> frames s2 r = Some fr \<and> waiter_ok ok_ns c fr \<and> (is_server fr \<longleftrightarrow> r = Ref 0)"
      using T(12) co(3) unfolding f by auto
    show "\<forall>r \<in> set (ready s2). \<exists>c fr. coros s2 r = Some c \<and> frames s2 r = Some fr \<and> starter_ok c fr \<and> (is_server fr \<longleftrightarrow> r = Ref 0)"
      using T(13) co(4) unfolding f by auto
    show "dom (poller s2) = insert (eventfd s2) (fd_of s2 ` set (waiting s2))" using T(14) by (subst fds) (simp add: f insert_commute)
    show "eventfd s2 \<notin> fd_of s2 ` set (waiting s2)" using T(15) by (subst fds) (simp add: f)
    show "\<forall>r \<in> set (ready s2). frames s2 r = Some Reader_start \<longrightarrow> 0 \<le> cli_fd s2 \<and> poller s2 (cli_fd s2) = None"
      using T(16) co(4) unfolding f by auto
  qed (use T(2-6, 10, 11, 17, 18) f assms(2) in simp_all)
  then have "rests ok_ns co None s s2" using f by (simp add: rests_def)
  then show ?thesis using f1 after f(14, 15) by blast
qed

section \<open>Resuming\<close>

text \<open>The state in which a coroutine goes on, once it has left its wait.\<close>

definition popped :: "ref \<Rightarrow> 's ntyco \<Rightarrow> 's ntyco \<Rightarrow> bool" where
  "popped co s s' \<longleftrightarrow> frames s' = frames s \<and> waiting s' = remove1 co (waiting s) \<and> ready s' = ready s \<and>
     (\<forall>r. r \<noteq> co \<longrightarrow> coros s' r = coros s r) \<and> nsent s' = nsent s \<and> napp s' = napp s \<and> cli_fd s' = cli_fd s \<and>
     new_events s' = new_events s \<and> run_pc s' = run_pc s \<and> conext s' = conext s \<and> cli_at s' = cli_at s"

lemma fds_without:
  assumes "tree_ok co_fd (coros s) (waiting s)" "co \<in> set (waiting s)" "coros s co = Some c"
  shows "fd_of s ` (set (waiting s) - {co}) = fd_of s ` set (waiting s) - {co_fd c}"
proof (rule subset_antisym)
  have k: "fd_of s co = co_fd c" using assms(3) by simp
  have "r = co" if "r \<in> set (waiting s)" "fd_of s r = co_fd c" for r using tree_ok_key_inj [OF assms(1) that(1) assms(2)] that(2) k by simp
  then show "fd_of s ` (set (waiting s) - {co}) \<subseteq> fd_of s ` set (waiting s) - {co_fd c}" by auto
  show "fd_of s ` set (waiting s) - {co_fd c} \<subseteq> fd_of s ` (set (waiting s) - {co})" using k by auto
qed

lemma leave_running:
  assumes "threads_ok ok_ns NULL s" "co \<in> set (waiting s)" "frames s co = Some fr" "coros s co = Some c" "length st = NTY_CO_MAX_STACKSIZE"
  shows "\<exists>s2. poll_leave [(frame_fd fr, ev)] ((put_co co (c\<lparr>co_status := x\<rparr>) s)\<lparr>sstack := st, curr_thread := co\<rparr>) = Some s2 \<and>
    running ok_ns co (frame_fd fr) s2 \<and> popped co s s2 \<and> poller s2 = (poller s)(frame_fd fr := None)"
proof -
  note T = threads_okD [OF assms(1)] and null = threads_null [OF assms(1)]
  let ?fd = "frame_fd fr"
  let ?s = "(put_co co (c\<lparr>co_status := x\<rparr>) s)\<lparr>sstack := st, curr_thread := co\<rparr>"
  have w: "waiter_ok ok_ns c fr" using bspec [OF T(12) assms(2)] assms(3, 4) by auto
  have fd: "co_fd c = ?fd" "0 \<le> ?fd" using w by (cases fr; simp add: waiter_ok_def)+
  have t: "tree_ok co_fd (coros ?s) (waiting ?s)" using tree_ok_same_key [OF T(7) assms(4)] by simp
  define s2 where "s2 = put_co co (c\<lparr>co_status := 0\<rparr>) (s\<lparr>sstack := st, curr_thread := co, poller := (poller s)(?fd := None),
    waiting := remove1 co (waiting s)\<rparr>)"
  have p: "poll_leave [(?fd, ev)] ?s = Some s2"
    using poll_leave_law [OF t, of co "c\<lparr>co_status := x\<rparr>" ?fd ev] assms(2) fd(1) by (simp add: s2_def put_co_def)
  have f: "coros s2 = (coros s)(co \<mapsto> c\<lparr>co_status := 0\<rparr>)" "frames s2 = frames s" "waiting s2 = remove1 co (waiting s)" "sstack s2 = st"
    "curr_thread s2 = co" "poller s2 = (poller s)(?fd := None)" "ready s2 = ready s" "eventfd s2 = eventfd s" "conext s2 = conext s"
    "sleeping s2 = sleeping s" "busy s2 = busy s" "default_timeout s2 = default_timeout s" "cli_fd s2 = cli_fd s" "nsent s2 = nsent s"
    "napp s2 = napp s" "new_events s2 = new_events s" "run_pc s2 = run_pc s" "cli_at s2 = cli_at s"
    by (simp_all add: s2_def put_co_def)
  have d: "distinct (waiting s)" using tree_ok_distinct [OF T(7)] .
  have wt: "set (waiting s2) = set (waiting s) - {co}" using d unfolding f by simp
  have rdy: "co \<notin> set (ready s)" using T(10) assms(2) by auto
  have fds: "fd_of s2 ` set (waiting s2) = fd_of s ` set (waiting s) - {?fd}"
  proof -
    have "fd_of s2 ` set (waiting s2) = fd_of s ` (set (waiting s) - {co})" unfolding wt by (rule image_cong) (auto simp: f)
    then show ?thesis using fds_without [OF T(7) assms(2, 4)] fd(1) by simp
  qed
  have "fd_of s co \<noteq> eventfd s" using T(15) assms(2) by (metis imageI)
  then have evfd: "?fd \<noteq> eventfd s" using assms(4) fd(1) by simp
  have "threads_ok ok_ns co s2"
    unfolding threads_ok_def
  proof (intro conjI)
    have "tree_ok co_fd ((coros s)(co \<mapsto> c\<lparr>co_status := 0\<rparr>)) (remove1 co (waiting s))"
      by (rule tree_ok_remove [OF tree_ok_same_key [OF T(7) assms(4)]]) simp
    then show "tree_ok co_fd (coros s2) (waiting s2)" by (simp add: f)
    have "set (ready s) - {co} = set (ready s)" using rdy by simp
    then show "dom (coros s2) - {co} = set (ready s2) \<union> set (waiting s2)" unfolding wt by (simp add: f threads_dom [OF assms(1)] Un_Diff)
    show "dom (coros s2) \<subseteq> Ref ` {..<conext s2}" using T(9) assms(4) by (auto simp: f)
    show "set (ready s2) \<inter> set (waiting s2) = {}" using T(10) unfolding wt by (auto simp: f)
    show "\<forall>r \<in> set (waiting s2). \<exists>c fr. coros s2 r = Some c \<and> frames s2 r = Some fr \<and> waiter_ok ok_ns c fr \<and> (is_server fr \<longleftrightarrow> r = Ref 0)"
      using T(12) unfolding wt by (auto simp: f)
    show "\<forall>r \<in> set (ready s2). \<exists>c fr. coros s2 r = Some c \<and> frames s2 r = Some fr \<and> starter_ok c fr \<and> (is_server fr \<longleftrightarrow> r = Ref 0)"
      using T(13) rdy by (auto simp: f)
    show "dom (poller s2) = insert (eventfd s2) (fd_of s2 ` set (waiting s2))" using T(14) evfd by (subst fds) (auto simp: f)
    show "eventfd s2 \<notin> fd_of s2 ` set (waiting s2)" using T(15) by (subst fds) (simp add: f)
    show "\<forall>r \<in> set (ready s2). frames s2 r = Some Reader_start \<longrightarrow> 0 \<le> cli_fd s2 \<and> poller s2 (cli_fd s2) = None"
      using T(16) by (auto simp: f)
  qed (use T(2-6, 11, 17, 18) f assms(5) in simp_all)
  then have "running ok_ns co ?fd s2" using fd(2) w f by (simp add: running_def waiter_ok_def)
  moreover have "popped co s s2" using f by (simp add: popped_def)
  ultimately show ?thesis using p f(6) by blast
qed

text \<open>A coroutine that starts.\<close>

lemma start_running:
  assumes "threads_ok ok_ns NULL s" "ready s = [co]" "coros s co = Some c" "0 \<le> fd" "poller s fd = None"
  shows "running ok_ns co fd ((put_co co (c\<lparr>co_status := 8\<rparr>) (s\<lparr>ready := []\<rparr>))\<lparr>curr_thread := co\<rparr>)" (is "running ok_ns co fd ?s")
proof -
  note T = threads_okD [OF assms(1)] and null = threads_null [OF assms(1)]
  have "co \<in> set (ready s)" using assms(2) by simp
  then have co: "co \<notin> set (waiting s)" "co \<noteq> NULL" using T(10) null(1) by auto
  have st: "co_stack c = []" using bspec [OF T(13) \<open>co \<in> set (ready s)\<close>] assms(3) by (auto simp: starter_ok_def)
  have fds: "fd_of ?s ` set (waiting ?s) = fd_of s ` set (waiting s)" using co(1) by (auto intro!: image_cong)
  have "threads_ok ok_ns co ?s"
    unfolding threads_ok_def
  proof (intro conjI)
    show "tree_ok co_fd (coros ?s) (waiting ?s)" using tree_ok_upd [OF T(7) co(1)] by simp
    show "dom (coros ?s) - {co} = set (ready ?s) \<union> set (waiting ?s)" using co(1) by (simp add: threads_dom [OF assms(1)] assms(2))
    show "dom (coros ?s) \<subseteq> Ref ` {..<conext ?s}" using T(9) assms(3) by auto
    show "\<forall>r \<in> set (waiting ?s). \<exists>c fr. coros ?s r = Some c \<and> frames ?s r = Some fr \<and> waiter_ok ok_ns c fr \<and> (is_server fr \<longleftrightarrow> r = Ref 0)"
      using T(12) co(1) by (auto simp: put_co_def)
    show "dom (poller ?s) = insert (eventfd ?s) (fd_of ?s ` set (waiting ?s))" using T(14) by (subst fds) simp
    show "eventfd ?s \<notin> fd_of ?s ` set (waiting ?s)" using T(15) by (subst fds) simp
  qed (use T(2-6, 17, 18) in \<open>simp_all add: put_co_def\<close>)
  then show ?thesis using assms(4, 5) st by (simp add: running_def)
qed

text \<open>The server adds a reader to the ready queue.\<close>

lemma create_running:
  assumes "running ok_ns co fd s" "ready s = []" "0 \<le> cli" "poller s cli = None" "a_calloc a" "cli < 2 ^ 31"
  defines "s' \<equiv> create_reader a cli s" and "new \<equiv> Ref (conext s)"
  shows "running ok_ns co fd s'" "ready s' = [new]" "frames s' = (frames s)(new \<mapsto> Reader_start)" "cli_fd s' = cli"
    "nsent s' = (nsent s)(cli := [])" "napp s' = napp s" "waiting s' = waiting s" "new_events s' = new_events s" "run_pc s' = run_pc s"
    "\<forall>r. r \<noteq> new \<longrightarrow> coros s' r = coros s r" "new \<notin> set (waiting s)" "new \<noteq> co" "poller s' = poller s" "arg_int s' = cli"
proof -
  have th: "threads_ok ok_ns co s" using assms(1) by (simp add: running_def)
  note T = threads_okD [OF th] and co = running_co [OF assms(1)]
  obtain c where c: "coros s co = Some c" "co_status c \<in> {0, 8}" "length (co_stack c) \<le> NTY_CO_MAX_STACKSIZE"
    using assms(1) by (auto simp: running_def)
  define d where "d = \<lparr>co_status = BIT NTY_COROUTINE_STATUS_NEW, co_birth = tk_now (a_tick a), co_id = of_int (spawned_coroutines s),
    co_fd = -1, co_events = 0, co_ops = 0, co_sleep_usecs = 0, co_stack = []\<rparr>"
  let ?st = "stack_write (cli_at s) (int_bytes cli) (sstack s)"
  have s': "s' = s\<lparr>sstack := ?st, cli_fd := cli, nsent := (nsent s)(cli := []), spawned_coroutines := spawned_coroutines s + 1, conext := conext s + 1,
      ready := [new], coros := (coros s)(new \<mapsto> d), frames := (frames s)(new \<mapsto> Reader_start)\<rparr>"
    using assms(2, 3, 5) by (simp add: s'_def new_def d_def create_reader_def nty_coroutine_create_def Let_def)
  have "new \<notin> dom (coros s)" using T(9) by (auto simp: new_def)
  then have new: "new \<notin> set (waiting s)" "new \<noteq> co" using T(7) c(1) by (auto simp: tree_ok_def)
  have f: "coros s' = (coros s)(new \<mapsto> d)" "frames s' = (frames s)(new \<mapsto> Reader_start)" "waiting s' = waiting s" "sstack s' = ?st"
    "curr_thread s' = curr_thread s" "poller s' = poller s" "ready s' = [new]" "eventfd s' = eventfd s" "conext s' = conext s + 1"
    "sleeping s' = sleeping s" "busy s' = busy s" "default_timeout s' = default_timeout s" "cli_fd s' = cli" "cli_at s' = cli_at s"
    by (simp_all add: s')
  have st: "length ?st = NTY_CO_MAX_STACKSIZE" "stack_read (cli_at s) 4 ?st = int_bytes cli"
    using stack_write_laws [of "int_bytes cli" "cli_at s" "sstack s"] T(5, 17, 18) by (simp_all add: int_bytes_laws(1))
  show "arg_int s' = cli" using st(2) int_bytes_laws(2) [of cli] assms(3, 6) by (simp add: arg_int_def f)
  have fds: "fd_of s' ` set (waiting s') = fd_of s ` set (waiting s)" using new(1) unfolding f by (auto intro!: image_cong)
  have "threads_ok ok_ns co s'"
    unfolding threads_ok_def
  proof (intro conjI)
    show "tree_ok co_fd (coros s') (waiting s')" unfolding f by (rule tree_ok_upd [OF T(7) new(1)])
    have "dom (coros s) - {co} = set (waiting s)" using T(8) assms(2) by simp
    then show "dom (coros s') - {co} = set (ready s') \<union> set (waiting s')" using new(2) by (simp add: f insert_Diff_if)
    show "dom (coros s') \<subseteq> Ref ` {..<conext s'}" using T(9) by (auto simp: f new_def)
    show "set (ready s') \<inter> set (waiting s') = {}" using new(1) by (simp add: f)
    show "\<forall>r \<in> set (waiting s'). \<exists>c fr. coros s' r = Some c \<and> frames s' r = Some fr \<and> waiter_ok ok_ns c fr \<and> (is_server fr \<longleftrightarrow> r = Ref 0)"
      using T(12) new(1) by (auto simp: f)
    show "\<forall>r \<in> set (ready s'). \<exists>c fr. coros s' r = Some c \<and> frames s' r = Some fr \<and> starter_ok c fr \<and> (is_server fr \<longleftrightarrow> r = Ref 0)"
      using T(6) by (simp add: f starter_ok_def d_def BIT_def status_defs new_def)
    show "dom (poller s') = insert (eventfd s') (fd_of s' ` set (waiting s'))" using T(14) by (subst fds) (simp add: f)
    show "eventfd s' \<notin> fd_of s' ` set (waiting s')" using T(15) by (subst fds) (simp add: f)
    show "\<forall>r \<in> set (ready s'). frames s' r = Some Reader_start \<longrightarrow> 0 \<le> cli_fd s' \<and> poller s' (cli_fd s') = None"
      using assms(3, 4) by (simp add: f)
  qed (use T(1-5, 17, 18) f st(1) in simp_all)
  moreover have "coros s' co = Some c" using c(1) new(2) by (simp add: f)
  ultimately show "running ok_ns co fd s'" using assms(1) c(2, 3) by (simp add: running_def f)
  show "new \<notin> set (waiting s)" "new \<noteq> co" by (rule new)+
qed (use assms(3) in \<open>simp_all add: s'_def new_def create_reader_def nty_coroutine_create_def Let_def assms(2, 5)\<close>)

section \<open>Clients\<close>

text \<open>The connection a frame serves, with the namespace and the bytes that are still to be sent.\<close>

fun conn_of :: "int \<Rightarrow> co_frame \<Rightarrow> (int \<times> string \<times> string) set" where
  "conn_of cli Reader_start = {(cli, ''default'', [])}"
| "conn_of cli (Reader_recv fd ns) = {(fd, ns, [])}"
| "conn_of cli (Reader_send fd ns response slength n) = {(fd, ns, drop n (take slength response))}"
| "conn_of cli _ = {}"

definition others :: "ref \<Rightarrow> 's ntyco \<Rightarrow> (int \<times> string \<times> string) set" where
  "others co s = (\<Union>r \<in> set (ready s) \<union> set (waiting s) - {co}. case frames s r of None \<Rightarrow> {} | Some fr \<Rightarrow> conn_of (cli_fd s) fr)"

text \<open>The state of the abstract server for a set of connections, the application and the bytes sent.\<close>

definition serves :: "(int \<times> string \<times> string) set \<Rightarrow> 's \<Rightarrow> (int \<Rightarrow> string) \<Rightarrow> 's net_state \<Rightarrow> bool" where
  "serves C a b S \<longleftrightarrow> core S = a \<and> (\<forall>(fd, ns, p) \<in> C. users S fd = Some ns \<and> out S fd = b fd @ p) \<and>
     (\<forall>fd. users S fd \<noteq> None \<longrightarrow> fd \<in> fst ` C) \<and> (\<forall>fd. users S fd = None \<longrightarrow> out S fd = b fd)"

definition net_rel :: "'s ntyco \<Rightarrow> 's net_state \<Rightarrow> bool" where
  "net_rel s S \<longleftrightarrow> serves (others NULL s) (napp s) (nsent s) S"

lemma serves_open:
  assumes "serves C a b S" "fd \<notin> fst ` C"
  shows "\<exists>S'. net_do h (Opened fd) S = Some S' \<and> serves (insert (fd, ''default'', []) C) a (b(fd := [])) S'"
  using assms by (force simp: serves_def)

lemma serves_close:
  assumes "serves (insert (fd, ns, []) C) a b S" "fd \<notin> fst ` C"
  shows "\<exists>S'. net_do h (Closed fd) S = Some S' \<and> serves C a b S'"
  using assms by (force simp: serves_def)

lemma serves_send:
  assumes "serves (insert (fd, ns, p) C) a b S" "fd \<notin> fst ` C"
  shows "serves (insert (fd, ns, drop n p) C) a (b(fd := b fd @ take n p)) S"
  using assms by (force simp: serves_def)

lemma serves_request:
  assumes "serves (insert (fd, ns, []) C) a b S" "fd \<notin> fst ` C"
    "h rq (padded bs) (int (length bs)) (Some ns) a = Some ((int (length t), t), Some ns', msg, a')"
  shows "\<exists>S'. net_do h (Request fd rq bs) S = Some S' \<and> serves (insert (fd, ns', drop n t) C) a' (b(fd := b fd @ take n t)) S'"
  using assms by (force simp: serves_def)

section \<open>Stretches between yields\<close>

text \<open>Good requests.\<close>

definition tame_answer :: "(request \<Rightarrow> string \<Rightarrow> bool) \<Rightarrow> answers \<Rightarrow> bool" where
  "tame_answer ok_req a \<longleftrightarrow> (case a_recv a of None \<Rightarrow> True | Some bs \<Rightarrow> bs \<noteq> [] \<longrightarrow> ok_req (a_rq a) (take BUFFER_LENGTH bs))"

definition yields :: "(string \<Rightarrow> bool) \<Rightarrow> ref \<Rightarrow> 's ntyco option \<Rightarrow> co_frame option \<Rightarrow> 's ntyco \<Rightarrow> 's ntyco \<Rightarrow> bool" where
  "yields ok_ns co x fro s s2 \<longleftrightarrow> (\<exists>s1. x = Some s1 \<and> after_exec co s1 = Some s2) \<and> rests ok_ns co fro s s2"

definition conn_opt :: "int \<Rightarrow> co_frame option \<Rightarrow> (int \<times> string \<times> string) set" where
  "conn_opt cli fro = (case fro of None \<Rightarrow> {} | Some fr \<Rightarrow> conn_of cli fr)"

lemma conn_opt_simps [simp]: "conn_opt cli None = {}" "conn_opt cli (Some fr) = conn_of cli fr"
  by (simp_all add: conn_opt_def)

definition recv_ops :: "int \<Rightarrow> answers \<Rightarrow> net_op list" where
  "recv_ops fd a = (case a_recv a of None \<Rightarrow> [] | Some bs \<Rightarrow>
     if bs = [] then [Closed fd] else [Request fd (a_rq a) (take BUFFER_LENGTH bs)])"

lemma send_cases:
  "send_first True len ret = (k, io) \<Longrightarrow> (\<exists>r. io = Returns r) \<or> io = Wait_for WRITABLE \<and> k < len"
  "send_next len n ret = (k, io) \<Longrightarrow> (\<exists>r. io = Returns r) \<or> io = Wait_for WRITABLE \<and> k < len"
  by (auto simp: send_first_def send_next_def send_loop_def Let_def split: if_splits)

text \<open>A kernel that takes bytes.\<close>

lemma send_progress:
  "0 < m \<Longrightarrow> send_first True len (min m (int len)) = (k, io) \<Longrightarrow>
     k = nat (min m (int len)) \<and> (io = Wait_for WRITABLE \<and> k < len \<or> io = Returns (int len) \<and> k = len)"
  "0 < m \<Longrightarrow> n < len \<Longrightarrow> send_next len n (min m (int (len - n))) = (k, io) \<Longrightarrow>
     k = n + nat (min m (int (len - n))) \<and> (io = Wait_for WRITABLE \<and> k < len \<or> io = Returns (int len) \<and> k = len)"
  by (auto simp: send_first_def send_next_def send_loop_def Let_def split: if_splits)

text \<open>No reader waits to be started on the descriptor.\<close>

abbreviation no_clash :: "int \<Rightarrow> 's ntyco \<Rightarrow> bool" where
  "no_clash fd s \<equiv> \<forall>r \<in> set (ready s). frames s r = Some Reader_start \<longrightarrow> cli_fd s \<noteq> fd"

context msg_service
begin

abbreviation steps_to :: "ref \<Rightarrow> 's ntyco option \<Rightarrow> co_frame option \<Rightarrow> 's ntyco \<Rightarrow> 's ntyco \<Rightarrow> bool" where
  "steps_to \<equiv> yields ok_ns"

lemma reader_loop_yields:
  assumes "running ok_ns co fd s" "co \<noteq> Ref 0" "ok_ns ns" "no_clash fd s" "length (a_used a) \<le> NTY_CO_MAX_STACKSIZE" "a_realloc a"
  shows "\<exists>s2. steps_to co (reader_loop a fd ns s) (Some (Reader_recv fd ns)) s s2 \<and> nsent s2 = nsent s \<and> napp s2 = napp s"
  using wait_rests [OF assms(1) _ assms(5, 6), of READABLE "Reader_recv fd ns"] assms
  by (auto simp: reader_loop_def recv_begin_def yields_def running_def)

lemma after_send_yields:
  assumes "running ok_ns co fd s" "co \<noteq> Ref 0" "ok_ns ns" "no_clash fd s" "length (a_used a) \<le> NTY_CO_MAX_STACKSIZE" "a_realloc a"
    "length response = BUFFER_LENGTH" "slength < BUFFER_LENGTH" "(\<exists>r. io = Returns r) \<or> io = Wait_for WRITABLE \<and> k < slength"
  shows "\<exists>fro s2. steps_to co (after_send a fd ns response slength (k, io) s) fro s s2 \<and> nsent s2 = nsent s \<and> napp s2 = napp s \<and>
    (\<forall>cli. io = Wait_for WRITABLE \<and> k < slength \<or> io = Returns (int slength) \<and> k = slength \<longrightarrow>
       conn_opt cli fro = {(fd, ns, drop k (take slength response))})"
proof (cases io)
  case (Wait_for e)
  then have e: "e = WRITABLE" "k < slength" using assms(9) by auto
  then show ?thesis
    using wait_rests [OF assms(1) _ assms(5, 6), of WRITABLE "Reader_send fd ns response slength k"] assms(1-4, 7, 8) Wait_for
    by (fastforce simp: after_send_def yields_def running_def)
next
  case (Returns r)
  show ?thesis
  proof (cases "r = -1")
    case True
    then show ?thesis using finish_rests [OF assms(1, 5)] Returns by (fastforce simp: after_send_def yields_def)
  next
    case False
    then show ?thesis using reader_loop_yields [OF assms(1-6)] Returns by (fastforce simp: after_send_def)
  qed
qed (use assms(9) in auto)

end

lemma running_update:
  "running ok_ns co fd (s\<lparr>nsent := b\<rparr>) = running ok_ns co fd s" "running ok_ns co fd (s\<lparr>napp := x\<rparr>) = running ok_ns co fd s"
  "rests ok_ns co fro (s\<lparr>nsent := b\<rparr>) s2 = rests ok_ns co fro s s2" "rests ok_ns co fro (s\<lparr>napp := x\<rparr>) s2 = rests ok_ns co fro s s2"
  by (simp_all add: running_def threads_ok_def rests_def arg_int_def)

context msg_service
begin

text \<open>A request: the handler's reply, and as much of it as the kernel takes at once.\<close>

lemma reply_yields:
  assumes "running ok_ns co fd s" "co \<noteq> Ref 0" "ok_ns ns" "no_clash fd s" "length (a_used a) \<le> NTY_CO_MAX_STACKSIZE" "a_realloc a"
    "good (napp s)" "got \<noteq> []" "length got \<le> BUFFER_LENGTH" "ok_req (a_rq a) got"
  shows "\<exists>fro s2. steps_to co (reader_reply h a fd ns got s) fro s s2 \<and> good (napp s2) \<and>
    (\<forall>C S. 0 < a_send a \<and> fd \<notin> fst ` C \<and> serves (insert (fd, ns, []) C) (napp s) (nsent s) S \<longrightarrow>
       (\<exists>S'. net_do h (Request fd (a_rq a) got) S = Some S' \<and> serves (conn_opt (cli_fd s) fro \<union> C) (napp s2) (nsent s2) S'))"
proof -
  obtain rep ns' msg s' where hd: "h (a_rq a) (padded got) (int (length got)) (Some ns) (napp s) = Some (rep, Some ns', msg, s')"
      "fits rep" "ok_ns ns'" "good s'"
    using handles [OF assms(7, 3, 10, 8, 9)] by blast
  obtain t where rep: "rep = (int (length t), t)" "length t < BUFFER_LENGTH" using hd(2) by (cases rep) (auto simp: fits_def)
  let ?response = "t @ CHR 0x00 # drop (Suc (length t)) (zeros 1024)"
  have resp: "put_reply (zeros 1024) rep = Some ?response" "length ?response = BUFFER_LENGTH" "take (length t) ?response = t"
    using rep by (simp_all add: put_reply_def zeros_def BUFFER_LENGTH_def)
  let ?ret = "min (a_send a) (int (length t))"
  let ?s = "s\<lparr>napp := s', nsent := (nsent s)(fd := nsent s fd @ take (nat ?ret) t)\<rparr>"
  obtain k io where io: "send_first True (length t) ?ret = (k, io)" by (cases "send_first True (length t) ?ret")
  have eq: "reader_reply h a fd ns got s = after_send a fd ns' ?response (length t) (k, io) ?s"
    using hd(1) rep resp(1, 3) io
    by (simp add: reader_reply_def padded_def BUFFER_LENGTH_def take_bytes_def Let_def)
  obtain fro s2 where y: "steps_to co (after_send a fd ns' ?response (length t) (k, io) ?s) fro ?s s2" "nsent s2 = nsent ?s" "napp s2 = napp ?s"
      "\<And>cli. io = Wait_for WRITABLE \<and> k < length t \<or> io = Returns (int (length t)) \<and> k = length t \<longrightarrow>
        conn_opt cli fro = {(fd, ns', drop k (take (length t) ?response))}"
  proof -
    have "running ok_ns co fd ?s" "no_clash fd ?s" using assms(1, 4) by (simp_all add: running_update)
    from after_send_yields [OF this(1) assms(2) hd(3) this(2) assms(5, 6) resp(2) rep(2) send_cases(1) [OF io]] show ?thesis using that by blast
  qed
  have "steps_to co (reader_reply h a fd ns got s) fro s s2" using y(1) unfolding eq yields_def running_update .
  moreover have "\<exists>S'. net_do h (Request fd (a_rq a) got) S = Some S' \<and> serves (conn_opt (cli_fd s) fro \<union> C) (napp s2) (nsent s2) S'"
    if g: "0 < a_send a" "fd \<notin> fst ` C" "serves (insert (fd, ns, []) C) (napp s) (nsent s) S" for C S
  proof -
    note pr = send_progress(1) [OF g(1) io]
    have k: "k = nat ?ret" "conn_opt (cli_fd s) fro = {(fd, ns', drop k t)}"
      by (rule conjunct1 [OF pr]) (simp only: mp [OF y(4) conjunct2 [OF pr]] resp(3))
    show ?thesis
      using serves_request [OF g(3, 2), of h "a_rq a" got t ns' msg s' k] hd(1) unfolding k(2) y(2, 3) k(1) rep(1) by simp
  qed
  moreover have "good (napp s2)" using y(3) hd(4) by simp
  ultimately show ?thesis by (intro exI [of _ fro] exI [of _ s2]) simp
qed

lemma recv_yields:
  assumes "running ok_ns co fd s" "co \<noteq> Ref 0" "ok_ns ns" "no_clash fd s" "length (a_used a) \<le> NTY_CO_MAX_STACKSIZE" "a_realloc a"
    "good (napp s)" "tame_answer ok_req a"
  shows "\<exists>fro s2. steps_to co (reader_got h a fd ns s) fro s s2 \<and> good (napp s2) \<and>
    (\<forall>C S. 0 < a_send a \<and> fd \<notin> fst ` C \<and> serves (insert (fd, ns, []) C) (napp s) (nsent s) S \<longrightarrow>
       (\<exists>S'. net_run h (recv_ops fd a) S = Some S' \<and> serves (conn_opt (cli_fd s) fro \<union> C) (napp s2) (nsent s2) S'))"
proof (cases "a_recv a")
  case None
  obtain s2 where "steps_to co (reader_loop a fd ns s) (Some (Reader_recv fd ns)) s s2" "nsent s2 = nsent s" "napp s2 = napp s"
    using reader_loop_yields [OF assms(1-6)] by blast
  then show ?thesis using None assms(7)
    by (intro exI [of _ "Some (Reader_recv fd ns)"] exI [of _ s2]) (simp add: reader_got_def recv_next_def recv_ops_def)
next
  case (Some bs)
  show ?thesis
  proof (cases "bs = []")
    case True
    obtain s1 s2 where f: "finish a s = Some s1" "after_exec co s1 = Some s2" "rests ok_ns co None s s2" "nsent s2 = nsent s" "napp s2 = napp s"
      using finish_rests [OF assms(1, 5)] by blast
    have "\<exists>S'. net_run h [Closed fd] S = Some S' \<and> serves C (napp s) (nsent s) S'"
      if "fd \<notin> fst ` C" "serves (insert (fd, ns, []) C) (napp s) (nsent s) S" for C S
      using serves_close [OF that(2, 1), of h] by simp
    then show ?thesis using Some True f assms(7)
      by (intro exI [of _ None] exI [of _ s2]) (simp add: reader_got_def recv_next_def recv_ops_def yields_def)
  next
    case False
    let ?got = "take BUFFER_LENGTH bs"
    have got: "?got \<noteq> []" "length ?got \<le> BUFFER_LENGTH" "ok_req (a_rq a) ?got"
      using False assms(8) Some by (simp_all add: tame_answer_def BUFFER_LENGTH_def)
    have eq: "reader_got h a fd ns s = reader_reply h a fd ns ?got s"
      using Some False by (simp add: reader_got_def recv_next_def BUFFER_LENGTH_def)
    have "net_run h (recv_ops fd a) S = net_do h (Request fd (a_rq a) ?got) S" for S
      using Some False by (simp add: recv_ops_def split: Option.bind_split)
    then show ?thesis using reply_yields [OF assms(1-7) got] unfolding eq by simp
  qed
qed

text \<open>More of a reply.\<close>

lemma send_yields:
  assumes "running ok_ns co fd s" "co \<noteq> Ref 0" "ok_ns ns" "no_clash fd s" "length (a_used a) \<le> NTY_CO_MAX_STACKSIZE" "a_realloc a"
    "good (napp s)" "n < slength" "slength < BUFFER_LENGTH" "length response = BUFFER_LENGTH"
  defines "ret \<equiv> min (a_send a) (int (slength - n))" and "p \<equiv> drop n (take slength response)"
  shows "\<exists>fro s2. steps_to co (after_send a fd ns response slength (send_next slength n ret) (take_bytes fd p ret s)) fro s s2 \<and> good (napp s2) \<and>
    (\<forall>C S. 0 < a_send a \<and> fd \<notin> fst ` C \<and> serves (insert (fd, ns, p) C) (napp s) (nsent s) S \<longrightarrow>
       serves (conn_opt (cli_fd s) fro \<union> C) (napp s2) (nsent s2) S)"
proof -
  let ?s = "s\<lparr>nsent := (nsent s)(fd := nsent s fd @ take (nat ret) p)\<rparr>"
  have s: "take_bytes fd p ret s = ?s" by (simp add: take_bytes_def)
  obtain k io where io: "send_next slength n ret = (k, io)" by (cases "send_next slength n ret")
  obtain fro s2 where y: "steps_to co (after_send a fd ns response slength (k, io) ?s) fro ?s s2" "nsent s2 = nsent ?s" "napp s2 = napp ?s"
      "\<And>cli. io = Wait_for WRITABLE \<and> k < slength \<or> io = Returns (int slength) \<and> k = slength \<longrightarrow>
        conn_opt cli fro = {(fd, ns, drop k (take slength response))}"
  proof -
    have "running ok_ns co fd ?s" "no_clash fd ?s" using assms(1, 4) by (simp_all add: running_update)
    from after_send_yields [OF this(1) assms(2, 3) this(2) assms(5, 6, 10, 9) send_cases(2) [OF io]] show ?thesis using that by blast
  qed
  have "steps_to co (after_send a fd ns response slength (k, io) ?s) fro s s2" using y(1) unfolding yields_def running_update .
  moreover have "serves (conn_opt (cli_fd s) fro \<union> C) (napp s2) (nsent s2) S"
    if g: "0 < a_send a" "fd \<notin> fst ` C" "serves (insert (fd, ns, p) C) (napp s) (nsent s) S" for C S
  proof -
    note pr = send_progress(2) [OF g(1) assms(8) io [unfolded ret_def], folded ret_def]
    have k: "k = n + nat ret" "conn_opt (cli_fd s) fro = {(fd, ns, drop k (take slength response))}"
      by (rule conjunct1 [OF pr], rule mp [OF y(4) conjunct2 [OF pr]])
    have "drop k (take slength response) = drop (nat ret) p" by (simp add: p_def k(1) add.commute)
    then show ?thesis using serves_send [OF g(3, 2), of "nat ret"] k(2) y(2, 3) by simp
  qed
  moreover have "good (napp s2)" using y(3) assms(7) by simp
  ultimately show ?thesis unfolding io s by (intro exI [of _ fro] exI [of _ s2]) simp
qed

end

section \<open>Steps\<close>

text \<open>The frame that the next step of the scheduler resumes, and the operations behind the step.\<close>

definition next_frame :: "'s ntyco \<Rightarrow> co_frame option" where
  "next_frame s =
     (case run_pc s of
        At_ready l \<Rightarrow> (case ready s of [] \<Rightarrow> None | co # _ \<Rightarrow> frames s co)
      | At_events \<Rightarrow>
          if new_events s = [] then None
          else (case find (\<lambda>r. fd_of s r = fst (last (new_events s))) (waiting s) of None \<Rightarrow> None | Some co \<Rightarrow> frames s co)
      | _ \<Rightarrow> None)"

definition nty_ops :: "answers \<Rightarrow> 's ntyco \<Rightarrow> net_op list" where
  "nty_ops a s =
     (case next_frame s of
        Some (Server_accept fd) \<Rightarrow> if a_accept a < 0 then [] else [Opened (a_accept a)]
      | Some (Reader_recv fd ns) \<Rightarrow> recv_ops fd a
      | _ \<Rightarrow> [])"

text \<open>What the kernel promises for one step: \<open>epoll_wait\<close> reports each descriptor once and only those that
  are registered (the event descriptor is never written to, so it is not reported), a new descriptor is
  an \<open>int\<close> and not one that is open.\<close>

definition kernel_ok :: "'s ntyco \<Rightarrow> answers \<Rightarrow> bool" where
  "kernel_ok s a \<longleftrightarrow>
     (case tk_epoll (a_tick a) of
        Ready_events evs \<Rightarrow> distinct (map fst evs) \<and> (\<forall>fd \<in> fst ` set evs. fd \<noteq> eventfd s \<and> poller s fd \<noteq> None)
      | _ \<Rightarrow> True) \<and>
     (0 \<le> a_socket a \<longrightarrow> poller s (a_socket a) = None) \<and> (0 \<le> a_accept a \<longrightarrow> poller s (a_accept a) = None) \<and> a_accept a < 2 ^ 31"

text \<open>A client is accepted only by the last event of its batch, so that its reader is the next coroutine to
  run.\<close>

definition accepts_last :: "'s ntyco \<Rightarrow> answers \<Rightarrow> bool" where
  "accepts_last s a \<longleftrightarrow>
     (case next_frame s of Some (Server_accept fd) \<Rightarrow> 0 \<le> a_accept a \<longrightarrow> length (new_events s) = 1 | _ \<Rightarrow> True)"

text \<open>The start of a reader leaves the variable of the server on the stack alone.\<close>

definition entry_ok :: "'s ntyco \<Rightarrow> answers \<Rightarrow> bool" where
  "entry_ok s a \<longleftrightarrow> (\<forall>(d, b) \<in> set (a_entry a). d \<le> NTY_CO_MAX_STACKSIZE \<and> (cli_at s < d \<or> d + 4 \<le> cli_at s))"

text \<open>Nothing runs out: the stack is large enough, allocations, \<open>socket\<close> and \<open>fcntl\<close> succeed, \<open>epoll_wait\<close>
  fails at most for a signal and \<open>accept\<close> only because nobody is there.\<close>

definition nothing_fails :: "answers \<Rightarrow> bool" where
  "nothing_fails a \<longleftrightarrow> length (a_used a) \<le> NTY_CO_MAX_STACKSIZE \<and> a_realloc a \<and> a_calloc a \<and> a_fcntl a \<and> 0 \<le> a_socket a \<and>
     tk_epoll (a_tick a) \<noteq> Failed \<and> (a_accept a < 0 \<longrightarrow> a_errno a = EAGAIN)"

text \<open>The runs considered. No kernel promises these conditions; the code relies on them.\<close>

definition run_ok :: "'s ntyco \<Rightarrow> answers \<Rightarrow> bool" where
  "run_ok s a \<longleftrightarrow> nothing_fails a \<and> accepts_last s a \<and> entry_ok s a"

definition steady :: "'s ntyco \<Rightarrow> answers \<Rightarrow> bool" where
  "steady s a \<longleftrightarrow> kernel_ok s a \<and> run_ok s a"

text \<open>An event resumes the coroutine that waits for its descriptor.\<close>

lemma run_event_law:
  assumes "threads_ok ok_ns NULL s" "phase_ok s" "run_pc s = At_events" "new_events s \<noteq> []"
  defines "s0 \<equiv> s\<lparr>new_events := butlast (new_events s)\<rparr>"
  shows "\<exists>co c fr x st. co \<in> set (waiting s) \<and> coros s co = Some c \<and> frames s co = Some fr \<and> co_fd c = fst (last (new_events s)) \<and>
    frame_fd fr = fst (last (new_events s)) \<and> next_frame s = Some fr \<and> length st = NTY_CO_MAX_STACKSIZE \<and>
    run_event ex s = do { s \<leftarrow> ex co ((put_co co (c\<lparr>co_status := x\<rparr>) s0)\<lparr>sstack := st, curr_thread := co\<rparr>); after_exec co s }"
proof -
  note T = threads_okD [OF assms(1)]
  obtain fd e where l: "last (new_events s) = (fd, e)" by (cases "last (new_events s)")
  have "fd \<in> fst ` set (new_events s)" using l assms(4) by (metis fst_conv image_eqI last_in_set)
  moreover have "fst ` set (new_events s) \<subseteq> fd_of s ` set (waiting s)" using assms(2, 3) by (simp add: phase_ok_def)
  ultimately have "fd \<in> fd_of s ` set (waiting s)" by blast
  then obtain co where co: "co \<in> set (waiting s)" "fd_of s co = fd" by (rule imageE) simp
  obtain c fr where c: "coros s co = Some c" "frames s co = Some fr" "waiter_ok ok_ns c fr" using bspec [OF T(12) co(1)] by auto
  have fd: "co_fd c = fd" "frame_fd fr = fd" using co(2) c(1, 3) by (simp_all add: waiter_ok_def)
  have "co \<noteq> NULL" using threads_null(2) [OF assms(1)] co(1) by auto
  have find: "tree_find nty_coroutine_wait_cmp (coros s0) (waiting s0) (find_it fd) = Some co"
    using wt.find_present [OF T(7) co(1)] co(2) by (simp add: find_it_def s0_def)
  have "find (\<lambda>r. fd_of s r = fd) (waiting s) = Some co"
  proof -
    have "find (\<lambda>r. fd_of s r = fd) (waiting s) \<noteq> None" using co by (auto simp: find_None_iff)
    then obtain q where q: "find (\<lambda>r. fd_of s r = fd) (waiting s) = Some q" by blast
    then have "q \<in> set (waiting s)" "fd_of s q = fd" by (auto simp: find_Some_iff)
    then show ?thesis using q tree_ok_key_inj [OF T(7) _ co(1)] co(2) by auto
  qed
  then have nf: "next_frame s = Some fr" using assms(3, 4) l c(2) by (simp add: next_frame_def)
  define x :: "32 word" where "x = (if e AND 16 \<noteq> 0 then BIT NTY_COROUTINE_STATUS_FDEOF else 0)"
  let ?st = "take (length (sstack s) - length (co_stack c)) (sstack s) @ co_stack c"
  have x: "\<not> has_bit x NTY_COROUTINE_STATUS_NEW" by (simp add: x_def has_bit_def BIT_def status_defs)
  have len: "length (co_stack c) \<le> length (sstack s)" using c(3) T(5) by (simp add: waiter_ok_def)
  have "run_event ex s = map_option snd (nty_coroutine_resume ex co (put_co co (c\<lparr>co_status := x\<rparr>) s0))"
    using assms(4) l find c(1) \<open>co \<noteq> NULL\<close>
    by (simp add: run_event_def nty_schedule_search_wait_def x_def put_co_def s0_def Let_def map_option_case
        split: Option.bind_split option.split)
  also have "\<dots> = do { s \<leftarrow> ex co ((put_co co (c\<lparr>co_status := x\<rparr>) s0)\<lparr>sstack := ?st, curr_thread := co\<rparr>); after_exec co s }"
    unfolding resume_after_exec using x len by (simp add: load_stack_def s0_def)
  finally have r: "run_event ex s = do { s \<leftarrow> ex co ((put_co co (c\<lparr>co_status := x\<rparr>) s0)\<lparr>sstack := ?st, curr_thread := co\<rparr>); after_exec co s }" .
  have "length ?st = NTY_CO_MAX_STACKSIZE" using len T(5) by simp
  then show ?thesis using co(1) c(1, 2) fd nf r l by (intro exI [of _ co] exI [of _ c] exI [of _ fr] exI [of _ x] exI [of _ ?st]) simp
qed

text \<open>A coroutine in the ready queue is started.\<close>

lemma run_ready_law:
  assumes "threads_ok ok_ns NULL s" "ready s = [co]" "coros s co = Some c"
  shows "run_ready ex co s = do {
    s \<leftarrow> ex co ((put_co co (c\<lparr>co_status := 8\<rparr>) (s\<lparr>ready := []\<rparr>))\<lparr>curr_thread := co\<rparr>);
    s \<leftarrow> after_exec co s; Some (s\<lparr>run_pc := At_epoll\<rparr>) }"
proof -
  have "co_status c = 4" using bspec [OF threads_okD(13) [OF assms(1)], of co] assms(2, 3) by (auto simp: starter_ok_def)
  then have st: "\<not> has_bit (co_status c) NTY_COROUTINE_STATUS_FDEOF" "has_bit (co_status c) NTY_COROUTINE_STATUS_NEW"
    by (simp_all add: has_bit_def BIT_def status_defs)
  let ?s = "s\<lparr>ready := []\<rparr>"
  have "run_ready ex co s = do { s \<leftarrow> map_option snd (nty_coroutine_resume ex co ?s); Some (s\<lparr>run_pc := At_epoll\<rparr>) }"
    using assms(2, 3) st(1) by (simp add: run_ready_def map_option_case split: Option.bind_split option.split)
  then show ?thesis unfolding resume_after_exec using assms(3) st(2)
    by (simp add: nty_coroutine_init_def BIT_def status_defs bind_assoc)
qed

section \<open>Connections\<close>

lemma others_split:
  assumes "co \<in> set (ready s) \<union> set (waiting s)" "NULL \<notin> set (ready s) \<union> set (waiting s)" "frames s co = Some fr"
  shows "others NULL s = conn_of (cli_fd s) fr \<union> others co s"
proof -
  have "set (ready s) \<union> set (waiting s) - {NULL} = insert co (set (ready s) \<union> set (waiting s) - {co})" using assms(1, 2) by auto
  then show ?thesis using assms(3) by (simp only: others_def UN_insert) simp
qed

lemma others_fresh:
  assumes "threads_ok ok_ns NULL s" "co \<in> set (waiting s)" "frames s co = Some fr"
  shows "frame_fd fr \<notin> fst ` others co s"
proof
  note T = threads_okD [OF assms(1)]
  obtain c where c: "coros s co = Some c" "waiter_ok ok_ns c fr" using bspec [OF T(12) assms(2)] assms(3) by auto
  have fd: "fd_of s co = frame_fd fr" using c by (simp add: waiter_ok_def)
  assume "frame_fd fr \<in> fst ` others co s"
  then obtain x where "x \<in> others co s" "fst x = frame_fd fr" by force
  then obtain r fr' where r: "r \<in> set (ready s) \<union> set (waiting s)" "r \<noteq> co" "frames s r = Some fr'" "x \<in> conn_of (cli_fd s) fr'" "fst x = frame_fd fr"
    by (force simp: others_def split: option.splits)
  show False
  proof (cases "r \<in> set (waiting s)")
    case True
    obtain c' where c': "coros s r = Some c'" "waiter_ok ok_ns c' fr'" using bspec [OF T(12) True] r(3) by auto
    then have "fd_of s r = frame_fd fr" using r(4, 5) by (cases fr') (auto simp: waiter_ok_def)
    then show False using tree_ok_key_inj [OF T(7) True assms(2)] fd r(2) by simp
  next
    case False
    then have rr: "r \<in> set (ready s)" using r(1) by simp
    have "starter_ok c' fr'" if "coros s r = Some c'" for c' using bspec [OF T(13) rr] r(3) that by auto
    moreover obtain c' where "coros s r = Some c'" using bspec [OF T(13) rr] by auto
    ultimately have "fr' = Reader_start" using r(4) by (auto simp: starter_ok_def)
    then have "poller s (frame_fd fr) = None" using bspec [OF T(16) rr] r(3-5) by simp
    moreover have "frame_fd fr \<in> dom (poller s)" unfolding T(14) fd [symmetric] using assms(2) by simp
    ultimately show False by blast
  qed
qed

lemma others_rests:
  assumes "rests ok_ns co fro s s2" "co \<notin> set (ready s)" "co \<notin> set (waiting s)" "co \<noteq> NULL"
  shows "others NULL s2 = conn_opt (cli_fd s) fro \<union> others NULL s"
proof -
  let ?A = "set (ready s) \<union> set (waiting s) - {NULL}"
  have f: "frames s2 = (frames s)(co := fro)" "cli_fd s2 = cli_fd s"
    and A: "set (ready s2) \<union> set (waiting s2) - {NULL} = (if fro = None then {} else {co}) \<union> ?A"
    using assms(1, 4) by (auto simp: rests_def)
  have "(\<Union>r \<in> ?A. case frames s2 r of None \<Rightarrow> {} | Some fr \<Rightarrow> conn_of (cli_fd s2) fr) = others NULL s"
    unfolding others_def f using assms(2, 3) by (intro SUP_cong) auto
  moreover have "(\<Union>r \<in> (if fro = None then {} else {co}). case frames s2 r of None \<Rightarrow> {} | Some fr \<Rightarrow> conn_of (cli_fd s2) fr) = conn_opt (cli_fd s) fro"
    by (auto simp: f conn_opt_def)
  ultimately show ?thesis unfolding others_def [of NULL s2] A by (simp only: UN_Un)
qed

lemma others_popped:
  assumes "popped co s s'" "threads_ok ok_ns NULL s" "co \<in> set (waiting s)"
  shows "others NULL s' = others co s" "co \<notin> set (ready s')" "co \<notin> set (waiting s')" "co \<noteq> NULL"
proof -
  note T = threads_okD [OF assms(2)] and null = threads_null [OF assms(2)]
  have d: "set (waiting s') = set (waiting s) - {co}" "ready s' = ready s" "frames s' = frames s" "cli_fd s' = cli_fd s"
    using assms(1) tree_ok_distinct [OF T(7)] by (simp_all add: popped_def)
  have co: "co \<notin> set (ready s)" "co \<noteq> NULL" using T(10) null(2) assms(3) by auto
  then show "co \<notin> set (ready s')" "co \<notin> set (waiting s')" "co \<noteq> NULL" using d by simp_all
  have "set (ready s') \<union> set (waiting s') - {NULL} = set (ready s) \<union> set (waiting s) - {co}" using d(1, 2) co null by auto
  then show "others NULL s' = others co s" by (simp only: others_def d(3, 4))
qed

lemma others_events: "others co (s\<lparr>new_events := evs\<rparr>) = others co s"
  by (simp add: others_def cong: option.case_cong)

lemma others_ready_nil:
  assumes "\<forall>r \<in> set (waiting s). \<exists>fr. frames s r = Some fr \<and> frame_ok ok_ns fr" "ready s = []" "NULL \<notin> set (waiting s)"
  shows "others NULL s = (\<Union>r \<in> set (waiting s). conn_of cli (the (frames s r)))"
proof -
  have c: "conn_of cli fr = conn_of cli' fr" if "frame_ok ok_ns fr" for cli cli' fr using that by (cases fr) auto
  have "(case frames s r of None \<Rightarrow> {} | Some fr \<Rightarrow> conn_of (cli_fd s) fr) = conn_of cli (the (frames s r))" if w: "r \<in> set (waiting s)" for r
  proof -
    obtain fr where "frames s r = Some fr" "frame_ok ok_ns fr" using bspec [OF assms(1) w] by blast
    then show ?thesis using c [of fr] by simp
  qed
  then show ?thesis unfolding others_def using assms(2, 3) by (intro SUP_cong) auto
qed

lemma others_create:
  assumes "running ok_ns co fd s" "ready s = []" "0 \<le> cli" "poller s cli = None" "a_calloc a" "cli < 2 ^ 31"
  shows "others NULL (create_reader a cli s) = insert (cli, ''default'', []) (others NULL s)"
proof -
  note C = create_running [OF assms]
  let ?new = "Ref (conext s)" and ?s = "create_reader a cli s"
  have th: "threads_ok ok_ns co s" using assms(1) by (simp add: running_def)
  have ok: "\<forall>r \<in> set (waiting s). \<exists>fr. frames s r = Some fr \<and> frame_ok ok_ns fr"
    using threads_okD(12) [OF th] unfolding waiter_ok_def by blast
  note null = threads_null(2) [OF th]
  have "set (ready ?s) \<union> set (waiting ?s) - {NULL} = insert ?new (set (waiting s))" using C(2, 7) null by auto
  then have "others NULL ?s = conn_of cli Reader_start \<union> (\<Union>r \<in> set (waiting s). case frames ?s r of None \<Rightarrow> {} | Some fr \<Rightarrow> conn_of cli fr)"
    unfolding others_def C(4) by (simp add: C(3))
  also have "(\<Union>r \<in> set (waiting s). case frames ?s r of None \<Rightarrow> {} | Some fr \<Rightarrow> conn_of cli fr) =
      (\<Union>r \<in> set (waiting s). conn_of cli (the (frames s r)))"
  proof (rule SUP_cong [OF refl])
    fix r assume "r \<in> set (waiting s)"
    then show "(case frames ?s r of None \<Rightarrow> {} | Some fr \<Rightarrow> conn_of cli fr) = conn_of cli (the (frames s r))"
      using ok C(3, 11) by (auto split: option.split)
  qed
  finally show ?thesis using others_ready_nil [OF ok assms(2) null] by simp
qed

section \<open>Keeping the invariant\<close>

lemma event_keeps:
  assumes "ntyco_inv ok_ns P s" "run_pc s = At_events" "new_events s \<noteq> []" "co \<in> set (waiting s)" "fd_of s co = fst (last (new_events s))"
    and "threads_ok ok_ns NULL s2" "P (napp s2)" "run_pc s2 = At_events" "new_events s2 = butlast (new_events s)"
    and "\<forall>r \<in> set (waiting s) - {co}. r \<in> set (waiting s2) \<and> coros s2 r = coros s r"
    and "ready s2 \<noteq> [] \<longrightarrow> Ref 0 \<in> set (waiting s2) \<and> butlast (new_events s) = []"
    and "Ref 0 \<in> dom (coros s2)" "arg_ok s2"
  shows "ntyco_inv ok_ns P s2"
proof -
  have ph: "distinct (map fst (new_events s))" "fst ` set (new_events s) \<subseteq> fd_of s ` set (waiting s)"
    using assms(1, 2) by (simp_all add: ntyco_inv_def phase_ok_def)
  have ev: "new_events s = butlast (new_events s) @ [last (new_events s)]" using assms(3) by simp
  have d: "distinct (map fst (butlast (new_events s)))" "fst (last (new_events s)) \<notin> fst ` set (butlast (new_events s))"
    using ph(1) by (subst (asm) ev, simp)+
  have "f \<in> fd_of s2 ` set (waiting s2)" if "f \<in> fst ` set (butlast (new_events s))" for f
  proof -
    have "f \<in> fst ` set (new_events s)" using that by (auto dest: in_set_butlastD)
    then have "f \<in> fd_of s ` set (waiting s)" using ph(2) by blast
    then obtain r where r: "r \<in> set (waiting s)" "fd_of s r = f" by (rule imageE) simp
    have "r \<noteq> co" using r(2) assms(5) d(2) that by metis
    then have "r \<in> set (waiting s2)" "fd_of s2 r = f" using assms(10) r by auto
    then show ?thesis by (metis imageI)
  qed
  then have "phase_ok s2" using d(1) assms(8, 9, 11) by (auto simp: phase_ok_def)
  then show ?thesis using assms(6, 7, 12, 13) by (simp add: ntyco_inv_def)
qed

lemma threads_frame:
  assumes "threads_ok ok_ns NULL s" "co \<in> set (waiting s)" "frames s co = Some fr"
  shows "frame_ok ok_ns fr" "is_server fr \<longleftrightarrow> co = Ref 0" "poller s (frame_fd fr) \<noteq> None" "no_clash (frame_fd fr) s"
proof -
  note T = threads_okD [OF assms(1)]
  obtain c where c: "coros s co = Some c" "waiter_ok ok_ns c fr" "is_server fr \<longleftrightarrow> co = Ref 0" using bspec [OF T(12) assms(2)] assms(3) by auto
  show "frame_ok ok_ns fr" "is_server fr \<longleftrightarrow> co = Ref 0" using c(2, 3) by (simp_all add: waiter_ok_def)
  have "fd_of s co \<in> dom (poller s)" unfolding T(14) using assms(2) by simp
  then show p: "poller s (frame_fd fr) \<noteq> None" using c(1, 2) by (auto simp: waiter_ok_def)
  then show "no_clash (frame_fd fr) s" using T(16) by fastforce
qed

text \<open>The end of a stretch of a reader that an event has resumed.\<close>

lemma reader_event_keeps:
  assumes "ntyco_inv ok_ns P s" "run_pc s = At_events" "new_events s \<noteq> []" "co \<in> set (waiting s)" "fd_of s co = fst (last (new_events s))"
    and "co \<noteq> Ref 0" "popped co (s\<lparr>new_events := butlast (new_events s)\<rparr>) s'" "rests ok_ns co fro s' s2" "P (napp s2)"
  shows "ntyco_inv ok_ns P s2 \<and> others NULL s2 = conn_opt (cli_fd s) fro \<union> others co s"
proof
  let ?s0 = "s\<lparr>new_events := butlast (new_events s)\<rparr>"
  have th: "threads_ok ok_ns NULL s" "threads_ok ok_ns NULL ?s0" using assms(1) by (simp_all add: ntyco_inv_def threads_ok_def)
  note T = threads_okD [OF th(1)]
  have w': "waiting s' = remove1 co (waiting s)" "ready s' = ready s" "run_pc s' = run_pc s" "new_events s' = butlast (new_events s)" "cli_fd s' = cli_fd s"
    "\<forall>r. r \<noteq> co \<longrightarrow> coros s' r = coros s r"
    using assms(7) by (simp_all add: popped_def)
  have r: "threads_ok ok_ns NULL s2" "run_pc s2 = run_pc s'" "new_events s2 = new_events s'" "ready s2 = ready s'"
    "\<forall>r. r \<noteq> co \<longrightarrow> coros s2 r = coros s' r" "set (waiting s') \<subseteq> set (waiting s2)"
    using assms(8) by (simp_all add: rests_def)
  have same: "\<forall>r \<in> set (waiting s) - {co}. r \<in> set (waiting s2) \<and> coros s2 r = coros s r"
  proof
    fix r assume "r \<in> set (waiting s) - {co}"
    then have "r \<in> set (waiting s')" "r \<noteq> co" unfolding w'(1) set_remove1_eq [OF tree_ok_distinct [OF T(7)]] by simp_all
    then show "r \<in> set (waiting s2) \<and> coros s2 r = coros s r" using r(5, 6) w'(6) by auto
  qed
  have "ready s = []" using assms(1-3) by (auto simp: ntyco_inv_def phase_ok_def)
  then have rdy: "ready s2 = []" using r(4) w'(2) by simp
  then have "arg_ok s2" by (simp add: arg_ok_def)
  moreover have "Ref 0 \<in> dom (coros s2)" using assms(1, 6) r(5) w'(6) by (simp add: ntyco_inv_def domIff)
  ultimately show "ntyco_inv ok_ns P s2"
    using event_keeps [OF assms(1-5) r(1) assms(9) _ _ same] r(2, 3) w'(3, 4) assms(2) rdy by simp
  note o = others_popped [OF assms(7) th(2)]
  have "others NULL s2 = conn_opt (cli_fd s') fro \<union> others NULL s'" using others_rests [OF assms(8)] o assms(4) by simp
  then show "others NULL s2 = conn_opt (cli_fd s) fro \<union> others co s" using o(1) assms(4) w'(5) by (simp add: others_events)
qed

context msg_service
begin

abbreviation ninv :: "'s ntyco \<Rightarrow> bool" where
  "ninv \<equiv> ntyco_inv ok_ns good"

abbreviation follows :: "answers \<Rightarrow> 's ntyco \<Rightarrow> 's ntyco \<Rightarrow> bool" where
  "follows a s s2 \<equiv> \<forall>S. 0 < a_send a \<and> net_rel s S \<longrightarrow> (\<exists>S'. net_run h (nty_ops a s) S = Some S' \<and> net_rel s2 S')"

lemma reader_event:
  assumes "ninv s" "run_pc s = At_events" "new_events s \<noteq> []" "co \<in> set (waiting s)" "fd_of s co = fst (last (new_events s))"
    and "co \<noteq> Ref 0" "popped co (s\<lparr>new_events := butlast (new_events s)\<rparr>) s'" "frames s co = Some fr" "conn_of (cli_fd s) fr = {(frame_fd fr, ns, p)}"
    and "steps_to co x fro s' s2" "good (napp s2)"
    and "\<And>C S. 0 < a_send a \<Longrightarrow> frame_fd fr \<notin> fst ` C \<Longrightarrow> serves (insert (frame_fd fr, ns, p) C) (napp s) (nsent s) S \<Longrightarrow>
      \<exists>S'. net_run h (nty_ops a s) S = Some S' \<and> serves (conn_opt (cli_fd s) fro \<union> C) (napp s2) (nsent s2) S'"
  shows "ninv s2 \<and> follows a s s2"
proof
  have th: "threads_ok ok_ns NULL s" using assms(1) by (simp add: ntyco_inv_def)
  have "rests ok_ns co fro s' s2" using assms(10) by (simp add: yields_def)
  note k = reader_event_keeps [OF assms(1-7) this assms(11)]
  show "ninv s2" using k by simp
  have "others NULL s = insert (frame_fd fr, ns, p) (others co s)"
    using others_split [of co s fr] threads_null [OF th] assms(4, 8, 9) by simp
  then show "follows a s s2"
    using assms(12) [of "others co s"] others_fresh [OF th assms(4, 8)] k unfolding net_rel_def by simp
qed

end

lemma others_registered:
  assumes "threads_ok ok_ns NULL s" "ready s = []"
  shows "fst ` others co s \<subseteq> dom (poller s)"
proof
  fix fd assume "fd \<in> fst ` others co s"
  then obtain y where "y \<in> others co s" "fst y = fd" by force
  then obtain r fr where r: "r \<in> set (waiting s)" "frames s r = Some fr" "y \<in> conn_of (cli_fd s) fr" "fst y = fd"
    using assms(2) by (force simp: others_def split: option.splits)
  have "frame_fd fr = fd" using threads_frame(1) [OF assms(1) r(1, 2)] r(3, 4) by (cases fr) auto
  then show "fd \<in> dom (poller s)" using threads_frame(3) [OF assms(1) r(1, 2)] by blast
qed

lemma steadyD:
  assumes "steady s a"
  shows "length (a_used a) \<le> NTY_CO_MAX_STACKSIZE" "a_realloc a" "a_calloc a" "a_fcntl a" "0 \<le> a_socket a" "poller s (a_socket a) = None"
    "a_accept a < 0 \<Longrightarrow> a_errno a = EAGAIN" "\<not> a_accept a < 0 \<Longrightarrow> poller s (a_accept a) = None" "a_accept a < 2 ^ 31" "entry_ok s a" "accepts_last s a"
  using assms by (simp_all add: steady_def kernel_ok_def run_ok_def nothing_fails_def)

context msg_service
begin

text \<open>The steps of a reader, given the state \<open>s'\<close> behind its wait.\<close>

lemma recv_event:
  assumes "ninv s" "run_pc s = At_events" "new_events s \<noteq> []" "steady s a" "tame_answer ok_req a"
    and "co \<in> set (waiting s)" "fd_of s co = fst (last (new_events s))" "frames s co = Some (Reader_recv fd ns)" "next_frame s = Some (Reader_recv fd ns)"
    and "popped co (s\<lparr>new_events := butlast (new_events s)\<rparr>) s'" "running ok_ns co fd s'"
  shows "\<exists>fro s2. steps_to co (reader_got h a fd ns s') fro s' s2 \<and> ninv s2 \<and> follows a s s2"
proof -
  have th: "threads_ok ok_ns NULL s" and good: "good (napp s)" using assms(1) by (simp_all add: ntyco_inv_def)
  note fr = threads_frame [OF th assms(6, 8)] and K = steadyD [OF assms(4)]
  have s': "napp s' = napp s" "nsent s' = nsent s" "cli_fd s' = cli_fd s" "ready s' = ready s" "frames s' = frames s"
    using assms(10) by (simp_all add: popped_def)
  have co: "co \<noteq> Ref 0" "ok_ns ns" "no_clash fd s'" using fr s' by simp_all
  obtain fro s2 where y: "steps_to co (reader_got h a fd ns s') fro s' s2" "good (napp s2)"
      "\<And>C S. 0 < a_send a \<and> fd \<notin> fst ` C \<and> serves (insert (fd, ns, []) C) (napp s) (nsent s) S \<longrightarrow>
        (\<exists>S'. net_run h (recv_ops fd a) S = Some S' \<and> serves (conn_opt (cli_fd s) fro \<union> C) (napp s2) (nsent s2) S')"
    using recv_yields [OF assms(11) co K(1, 2) _ assms(5)] good unfolding s' by blast
  have ops: "nty_ops a s = recv_ops fd a" using assms(9) by (simp add: nty_ops_def)
  have "ninv s2 \<and> follows a s s2"
    by (rule reader_event [OF assms(1-3, 6, 7) co(1) assms(10, 8) _ y(1, 2), of ns "[]"]) (use y(3) ops in simp_all)
  then show ?thesis using y(1) by blast
qed

lemma send_event:
  assumes "ninv s" "run_pc s = At_events" "new_events s \<noteq> []" "steady s a"
    and "co \<in> set (waiting s)" "fd_of s co = fst (last (new_events s))" "frames s co = Some (Reader_send fd ns response slength n)"
    "next_frame s = Some (Reader_send fd ns response slength n)"
    and "popped co (s\<lparr>new_events := butlast (new_events s)\<rparr>) s'" "running ok_ns co fd s'"
  defines "ret \<equiv> min (a_send a) (int (slength - n))"
  shows "\<exists>fro s2. steps_to co (after_send a fd ns response slength (send_next slength n ret)
      (take_bytes fd (drop n (take slength response)) ret s')) fro s' s2 \<and> ninv s2 \<and> follows a s s2"
proof -
  have th: "threads_ok ok_ns NULL s" and good: "good (napp s)" using assms(1) by (simp_all add: ntyco_inv_def)
  note fr = threads_frame [OF th assms(5, 7)] and K = steadyD [OF assms(4)]
  have s': "napp s' = napp s" "nsent s' = nsent s" "cli_fd s' = cli_fd s" "ready s' = ready s" "frames s' = frames s"
    using assms(9) by (simp_all add: popped_def)
  have co: "co \<noteq> Ref 0" "ok_ns ns" "no_clash fd s'" "n < slength" "slength < BUFFER_LENGTH" "length response = BUFFER_LENGTH"
    using fr s' by simp_all
  let ?p = "drop n (take slength response)"
  obtain fro s2 where y: "steps_to co (after_send a fd ns response slength (send_next slength n ret) (take_bytes fd ?p ret s')) fro s' s2" "good (napp s2)"
      "\<And>C S. 0 < a_send a \<and> fd \<notin> fst ` C \<and> serves (insert (fd, ns, ?p) C) (napp s) (nsent s) S \<longrightarrow>
        serves (conn_opt (cli_fd s) fro \<union> C) (napp s2) (nsent s2) S"
    using send_yields [OF assms(10) co(1-3) K(1, 2) _ co(4-6)] good unfolding s' ret_def by blast
  have ops: "nty_ops a s = []" using assms(8) by (simp add: nty_ops_def)
  have "ninv s2 \<and> follows a s s2"
    by (rule reader_event [OF assms(1-3, 5, 6) co(1) assms(9, 7) _ y(1, 2), of ns ?p]) (use y(3) ops in simp_all)
  then show ?thesis using y(1) by blast
qed

end

text \<open>The end of a stretch of the server that an event has resumed, in a state that may have a new
  reader.\<close>

lemma server_event_keeps:
  assumes "ntyco_inv ok_ns P s" "run_pc s = At_events" "new_events s \<noteq> []" "Ref 0 \<in> set (waiting s)"
    "fd_of s (Ref 0) = fst (last (new_events s))" "frame_fd fr = fst (last (new_events s))"
    and "waiting s' = remove1 (Ref 0) (waiting s)" "\<forall>r \<in> set (waiting s'). coros s' r = coros s r" "run_pc s' = run_pc s" "new_events s' = butlast (new_events s)"
    and "rests ok_ns (Ref 0) (Some fr) s' s2" "P (napp s2)" "ready s2 \<noteq> [] \<longrightarrow> butlast (new_events s) = []" "arg_ok s2"
  shows "ntyco_inv ok_ns P s2"
proof -
  have T: "tree_ok co_fd (coros s) (waiting s)" using assms(1) threads_okD(7) by (auto simp: ntyco_inv_def)
  have r: "threads_ok ok_ns NULL s2" "run_pc s2 = run_pc s'" "new_events s2 = new_events s'" "set (waiting s2) = insert (Ref 0) (set (waiting s'))"
    "\<forall>r. r \<noteq> Ref 0 \<longrightarrow> coros s2 r = coros s' r" "fd_of s2 (Ref 0) = frame_fd fr"
    using assms(11) by (simp_all add: rests_def)
  have "\<forall>r \<in> set (waiting s) - {Ref 0}. r \<in> set (waiting s2) \<and> coros s2 r = coros s r"
    using r(4, 5) assms(7, 8) set_remove1_eq [OF tree_ok_distinct [OF T], of "Ref 0"] by simp
  moreover have "Ref 0 \<in> dom (coros s2)" using threads_dom [OF r(1)] r(4) by simp
  ultimately show ?thesis
    using event_keeps [OF assms(1-5) r(1) assms(12)] r(2-4) assms(2, 9, 10, 13, 14) by simp
qed

text \<open>The server, given the state \<open>s'\<close> behind its wait.\<close>

lemma accept_state:
  assumes "ntyco_inv ok_ns P s" "run_pc s = At_events" "new_events s \<noteq> []" "co \<in> set (waiting s)" "fd_of s co = fst (last (new_events s))"
    "frames s co = Some (Server_accept fd)" "popped co (s\<lparr>new_events := butlast (new_events s)\<rparr>) s'"
  shows "co = Ref 0" "ready s' = []" "fd = fst (last (new_events s))" "others NULL s' = others NULL s" "co \<notin> set (waiting s')"
    "\<forall>r \<in> set (waiting s'). coros s' r = coros s r" "fst ` others NULL s \<subseteq> dom (poller s)"
proof -
  let ?fr = "Server_accept fd"
  have th: "threads_ok ok_ns NULL s" "threads_ok ok_ns NULL (s\<lparr>new_events := butlast (new_events s)\<rparr>)"
    using assms(1) by (simp_all add: ntyco_inv_def threads_ok_def)
  show co: "co = Ref 0" using threads_frame(2) [OF th(1) assms(4, 6)] by simp
  have rdy: "ready s = []" using assms(1-3) by (auto simp: ntyco_inv_def phase_ok_def)
  then show "ready s' = []" using assms(7) by (simp add: popped_def)
  obtain c where "coros s co = Some c" "waiter_ok ok_ns c ?fr" using bspec [OF threads_okD(12) [OF th(1)] assms(4)] assms(6) by auto
  then show "fd = fst (last (new_events s))" using assms(5) by (simp add: waiter_ok_def)
  have o: "others NULL s' = others co s" "co \<notin> set (waiting s')"
    using others_popped [OF assms(7) th(2)] assms(4) by (simp_all add: others_events)
  then show "co \<notin> set (waiting s')" "others NULL s' = others NULL s"
    using others_split [of co s ?fr] threads_null [OF th(1)] assms(4, 6) by simp_all
  have "\<forall>r. r \<noteq> co \<longrightarrow> coros s' r = coros s r" using assms(7) by (simp add: popped_def)
  then show "\<forall>r \<in> set (waiting s'). coros s' r = coros s r" using o(2) by metis
  show "fst ` others NULL s \<subseteq> dom (poller s)" using others_registered [OF th(1) rdy] .
qed

context msg_service
begin

lemma accept_nobody:
  assumes "ninv s" "run_pc s = At_events" "new_events s \<noteq> []" "steady s a"
    and "co \<in> set (waiting s)" "fd_of s co = fst (last (new_events s))" "frames s co = Some (Server_accept fd)" "next_frame s = Some (Server_accept fd)"
    and "popped co (s\<lparr>new_events := butlast (new_events s)\<rparr>) s'" "running ok_ns co fd s'" "a_accept a < 0"
  shows "\<exists>s2. steps_to co (wait_io a fd READABLE (put_frame (Server_accept fd) s')) (Some (Server_accept fd)) s' s2 \<and> ninv s2 \<and> follows a s s2"
proof -
  let ?fr = "Server_accept fd"
  note A = accept_state [OF assms(1-3, 5-7, 9)] and K = steadyD [OF assms(4)]
  have s': "napp s' = napp s" "nsent s' = nsent s" "waiting s' = remove1 co (waiting s)" "run_pc s' = run_pc s" "new_events s' = butlast (new_events s)"
    using assms(9) by (simp_all add: popped_def)
  have fd: "frame_fd ?fr = fst (last (new_events s))" "0 \<le> fd" using A(3) assms(10) by (simp_all add: running_def)
  obtain s1 s2 where w: "wait_io a fd READABLE (put_frame ?fr s') = Some s1" "after_exec co s1 = Some s2" "rests ok_ns co (Some ?fr) s' s2"
      "nsent s2 = nsent s'" "napp s2 = napp s'"
    using wait_rests [OF assms(10) _ K(1, 2), of READABLE ?fr] fd(2) A(1, 2) by auto
  have "good (napp s)" using assms(1) by (simp add: ntyco_inv_def)
  moreover have "ready s2 = []" using w(3) A(2) by (simp add: rests_def)
  ultimately have "ninv s2" using server_event_keeps [OF assms(1-3) _ _ fd(1), of s' s2] assms(5, 6) w(3, 5) s' A(1, 6) by (simp add: arg_ok_def)
  moreover have "others NULL s2 = others NULL s" using others_rests [OF w(3)] running_co [OF assms(10)] A(4) by simp
  moreover have "nty_ops a s = []" using assms(8, 11) by (simp add: nty_ops_def)
  ultimately show ?thesis using w s'(1, 2) by (auto simp: net_rel_def yields_def)
qed

lemma accept_client:
  assumes "ninv s" "run_pc s = At_events" "new_events s \<noteq> []" "steady s a"
    and "co \<in> set (waiting s)" "fd_of s co = fst (last (new_events s))" "frames s co = Some (Server_accept fd)" "next_frame s = Some (Server_accept fd)"
    and "popped co (s\<lparr>new_events := butlast (new_events s)\<rparr>) s'" "running ok_ns co fd s'" "poller s' = (poller s)(fd := None)" "\<not> a_accept a < 0"
  defines "s'' \<equiv> create_reader a (a_accept a) s'"
  shows "\<exists>s2. steps_to co (wait_io a fd READABLE (put_frame (Server_accept fd) s'')) (Some (Server_accept fd)) s'' s2 \<and> ninv s2 \<and> follows a s s2"
proof -
  let ?fr = "Server_accept fd" and ?cli = "a_accept a"
  note A = accept_state [OF assms(1-3, 5-7, 9)] and K = steadyD [OF assms(4)]
  have th: "threads_ok ok_ns NULL s" using assms(1) by (simp add: ntyco_inv_def)
  have s': "napp s' = napp s" "nsent s' = nsent s" "waiting s' = remove1 co (waiting s)" "run_pc s' = run_pc s" "new_events s' = butlast (new_events s)"
    using assms(9) by (simp_all add: popped_def)
  have fd: "frame_fd ?fr = fst (last (new_events s))" "0 \<le> fd" using A(3) assms(10) by (simp_all add: running_def)
  have cli: "0 \<le> ?cli" "?cli \<noteq> fd" "poller s' ?cli = None" "?cli \<notin> fst ` others NULL s"
    using assms(11, 12) K(8) threads_frame(3) [OF th assms(5, 7)] A(7) by auto
  note C = create_running [OF assms(10) A(2) cli(1, 3) K(3, 9), folded s''_def]
  obtain s1 s2 where w: "wait_io a fd READABLE (put_frame ?fr s'') = Some s1" "after_exec co s1 = Some s2" "rests ok_ns co (Some ?fr) s'' s2"
      "nsent s2 = nsent s''" "napp s2 = napp s''"
    using wait_rests [OF C(1) _ K(1, 2), of READABLE ?fr] fd(2) A(1) C(2-4) cli(2) by auto
  have "coros s'' r = coros s r" if "r \<in> set (waiting s'')" for r
    using that A(6) C(7, 10, 11) by metis
  moreover have "good (napp s)" using assms(1) by (simp add: ntyco_inv_def)
  moreover have "butlast (new_events s) = []"
    using K(11) assms(8, 12) by (cases "new_events s") (simp_all add: accepts_last_def)
  moreover have "arg_ok s2" using w(3) C(4, 14) by (simp add: rests_def arg_ok_def)
  ultimately have "ninv s2"
    using server_event_keeps [OF assms(1-3) _ _ fd(1), of s'' s2] assms(5, 6) w(3, 5) s' A(1) C(6-9) by simp
  moreover have "others NULL s2 = insert (?cli, ''default'', []) (others NULL s)"
    using others_rests [OF w(3)] running_co [OF C(1)] others_create [OF assms(10) A(2) cli(1, 3) K(3, 9)] A(4) by (simp add: s''_def)
  moreover have "nty_ops a s = [Opened ?cli]" using assms(8, 12) by (simp add: nty_ops_def)
  ultimately show ?thesis
    using serves_open [of "others NULL s" "napp s" "nsent s" _ ?cli h] cli(4) w s'(1, 2) C(5, 6) by (auto simp: net_rel_def yields_def)
qed

lemma accept_event:
  assumes "ninv s" "run_pc s = At_events" "new_events s \<noteq> []" "steady s a"
    and "co \<in> set (waiting s)" "fd_of s co = fst (last (new_events s))" "frames s co = Some (Server_accept fd)" "next_frame s = Some (Server_accept fd)"
    and "popped co (s\<lparr>new_events := butlast (new_events s)\<rparr>) s'" "running ok_ns co fd s'" "poller s' = (poller s)(fd := None)"
    and "frames s1 co = Some (Server_accept fd)" "poll_leave [(fd, READABLE)] s1 = Some s'"
  shows "\<exists>fro s'' s2. steps_to co (exec h a co s1) fro s'' s2 \<and> ninv s2 \<and> follows a s s2"
proof (cases "a_accept a < 0")
  case True
  have "exec h a co s1 = wait_io a fd READABLE (put_frame (Server_accept fd) s')"
    using assms(12, 13) True steadyD(7) [OF assms(4)] by (simp add: exec_def ntyco_server_def accept_next_def del: poll_leave.simps)
  then show ?thesis using accept_nobody [OF assms(1-10) True] by metis
next
  case False
  have "exec h a co s1 = wait_io a fd READABLE (put_frame (Server_accept fd) (create_reader a (a_accept a) s'))"
    using assms(12, 13) False steadyD(4) [OF assms(4)]
    by (simp add: exec_def ntyco_server_def accept_next_def server_loop_def accept_begin_def del: poll_leave.simps)
  then show ?thesis using accept_client [OF assms(1-11) False] by metis
qed

text \<open>Every event.\<close>

lemma nty_event_step:
  assumes "ninv s" "run_pc s = At_events" "new_events s \<noteq> []" "steady s a" "tame_answer ok_req a"
  shows "\<exists>s2. run_event (exec h a) s = Some s2 \<and> ninv s2 \<and> follows a s s2"
proof -
  let ?s0 = "s\<lparr>new_events := butlast (new_events s)\<rparr>"
  have th: "threads_ok ok_ns NULL s" "threads_ok ok_ns NULL ?s0" "phase_ok s" using assms(1) by (simp_all add: ntyco_inv_def threads_ok_def)
  obtain co c fr x st where co: "co \<in> set (waiting s)" "coros s co = Some c" "frames s co = Some fr" "co_fd c = fst (last (new_events s))"
      "frame_fd fr = fst (last (new_events s))" "next_frame s = Some fr" "length st = NTY_CO_MAX_STACKSIZE"
      "run_event (exec h a) s = do { s \<leftarrow> exec h a co ((put_co co (c\<lparr>co_status := x\<rparr>) ?s0)\<lparr>sstack := st, curr_thread := co\<rparr>); after_exec co s }"
    using run_event_law [OF th(1, 3) assms(2, 3)] by blast
  let ?s1 = "(put_co co (c\<lparr>co_status := x\<rparr>) ?s0)\<lparr>sstack := st, curr_thread := co\<rparr>"
  have fr1: "frames ?s1 co = Some fr" using co(3) by (simp add: put_co_def)
  have fd: "fd_of s co = fst (last (new_events s))" using co(2, 4) by simp
  have leave: "\<exists>s'. poll_leave [(frame_fd fr, ev)] ?s1 = Some s' \<and> running ok_ns co (frame_fd fr) s' \<and> popped co ?s0 s' \<and>
      poller s' = (poller s)(frame_fd fr := None)" for ev
    using leave_running [OF th(2), of co fr c st ev x] co(1-3, 7) by simp
  have go: ?thesis if "exec h a co ?s1 = y" "\<exists>fro s' s2. steps_to co y fro s' s2 \<and> ninv s2 \<and> follows a s s2" for y
    using that co(8) by (auto simp: yields_def)
  show ?thesis
  proof (cases fr)
    case (Server_accept f)
    obtain s' where s': "poll_leave [(f, READABLE)] ?s1 = Some s'" "running ok_ns co f s'" "popped co ?s0 s'" "poller s' = (poller s)(f := None)"
      using leave [of READABLE] Server_accept by auto
    from accept_event [OF assms(1-4) co(1) fd co(3, 6) [unfolded Server_accept] s'(3, 2, 4) fr1 [unfolded Server_accept] s'(1)]
    show ?thesis by (intro go [OF refl])
  next
    case (Reader_recv f ns)
    obtain s' where s': "poll_leave [(f, READABLE)] ?s1 = Some s'" "running ok_ns co f s'" "popped co ?s0 s'"
      using leave [of READABLE] Reader_recv by auto
    have "exec h a co ?s1 = reader_got h a f ns s'"
      using fr1 s'(1) Reader_recv by (simp add: exec_def server_reader_def del: poll_leave.simps)
    then show ?thesis using recv_event [OF assms co(1) fd co(3, 6) [unfolded Reader_recv] s'(3, 2)] by (intro go) blast+
  next
    case (Reader_send f ns response slength n)
    obtain s' where s': "poll_leave [(f, WRITABLE)] ?s1 = Some s'" "running ok_ns co f s'" "popped co ?s0 s'"
      using leave [of WRITABLE] Reader_send by auto
    let ?ret = "min (a_send a) (int (slength - n))"
    have "exec h a co ?s1 = after_send a f ns response slength (send_next slength n ?ret) (take_bytes f (drop n (take slength response)) ?ret s')"
      using fr1 s'(1) Reader_send by (simp add: exec_def server_reader_def Let_def del: poll_leave.simps)
    then show ?thesis using send_event [OF assms(1-4) co(1) fd co(3, 6) [unfolded Reader_send] s'(3, 2)] by (intro go) blast+
  qed (use threads_frame(1) [OF th(1) co(1, 3)] in simp_all)
qed

end

end
