(* ===== verification/Ntyco_Correct.thy ===== *)
theory Ntyco_Correct
  imports Ntyco_Spec Reactor_Correct
begin

unbundle bit_operations_syntax

text \<open>
  The coroutine server in front of the command protocol: every step of the scheduler keeps the
  invariant of \<open>Ntyco_Spec\<close> and follows the abstract server. Through the interpretation \<open>service\<close> of
  the contract of message handlers this gives that the server never faults and that its
  interleaved clients get the replies of a server that takes their requests one at a time, in the
  runs that \<open>run_ok\<close> describes. Outside of them it goes wrong: a client that is accepted before
  another event of the batch gets a reader for a stale descriptor, and when \<open>accept\<close> fails twice for
  another reason than that nobody is there, the server aborts.
\<close>

section \<open>Starting a coroutine\<close>

abbreviation started :: "ref \<Rightarrow> nty_coroutine \<Rightarrow> 's ntyco \<Rightarrow> 's ntyco" where
  "started co c s \<equiv> (put_co co (c\<lparr>co_status := 8\<rparr>) (s\<lparr>ready := []\<rparr>))\<lparr>curr_thread := co\<rparr>"

lemma started_fields:
  "frames (started co c s) = frames s" "cli_fd (started co c s) = cli_fd s" "napp (started co c s) = napp s" "nsent (started co c s) = nsent s"
  by (simp_all add: put_co_def)

lemma started_others:
  assumes "threads_ok ok_ns NULL s" "ready s = [co]"
  shows "others NULL (started co c s) = others co s"
proof -
  have "co \<notin> set (waiting s)" "NULL \<notin> set (waiting s)" using threads_okD(10) threads_null(2) assms by fastforce+
  then have "set (ready (started co c s)) \<union> set (waiting (started co c s)) - {NULL} = set (ready s) \<union> set (waiting s) - {co}"
    using assms(2) by auto
  then show ?thesis by (simp only: others_def started_fields)
qed

lemma others_stack: "others co (s\<lparr>sstack := st\<rparr>) = others co s"
  by (simp add: others_def cong: option.case_cong)

lemma running_stack: "running ok_ns co fd s \<Longrightarrow> length st = NTY_CO_MAX_STACKSIZE \<Longrightarrow> running ok_ns co fd (s\<lparr>sstack := st\<rparr>)"
  by (simp add: running_def threads_ok_def)

lemma started_keeps:
  assumes "ntyco_inv ok_ns P s" "ready s = [co]" "rests ok_ns co (Some fr) ((started co c s)\<lparr>sstack := st\<rparr>) s2" "P (napp s2)"
  shows "ntyco_inv ok_ns P (s2\<lparr>run_pc := At_epoll\<rparr>)"
proof -
  have r: "threads_ok ok_ns NULL s2" "ready s2 = []" "set (waiting s2) = insert co (set (waiting s))"
    using assms(3) by (simp_all add: rests_def)
  have "Ref 0 \<in> set (ready s) \<union> set (waiting s)" using assms(1) threads_dom by (auto simp: ntyco_inv_def)
  then have "Ref 0 \<in> dom (coros s2)" using threads_dom [OF r(1)] r(2, 3) assms(2) by auto
  then show ?thesis using r(1, 2) assms(4) by (simp add: ntyco_inv_def threads_ok_def phase_ok_def arg_ok_def)
qed

lemma others_pc: "others co (s\<lparr>run_pc := pc\<rparr>) = others co s"
  by (simp add: others_def cong: option.case_cong)

context msg_service
begin

lemma ready_step:
  assumes "ninv s" "run_pc s = At_ready co" "ready s = [co]" "steady s a"
  shows "\<exists>s2. run_ready (exec h a) co s = Some s2 \<and> ninv s2 \<and> follows a s s2"
proof -
  have th: "threads_ok ok_ns NULL s" and good: "good (napp s)" and arg: "arg_ok s" using assms(1) by (simp_all add: ntyco_inv_def)
  note T = threads_okD [OF th] and K = steadyD [OF assms(4)]
  obtain c fr where c: "coros s co = Some c" "frames s co = Some fr" "starter_ok c fr" "is_server fr \<longleftrightarrow> co = Ref 0"
    using bspec [OF T(13), of co] assms(3) by auto
  define fd where "fd = (if fr = Server_start then a_socket a else cli_fd s)"
  define fr' where "fr' = (if fr = Server_start then Server_accept fd else Reader_recv fd ''default'')"
  define st where "st = (if fr = Server_start then sstack s else enter_stack a (sstack s))"
  let ?s = "(started co c s)\<lparr>sstack := st\<rparr>"
  have fr: "fr = Server_start \<or> fr = Reader_start" using c(3) by (simp add: starter_ok_def)
  have fd: "0 \<le> fd" "poller s fd = None" using fr K(5, 6) bspec [OF T(16), of co] assms(3) c(2) by (auto simp: fd_def)
  have st: "length st = NTY_CO_MAX_STACKSIZE" using T(5) by (simp add: st_def enter_stack_length)
  have run: "running ok_ns co fd ?s" using running_stack [OF start_running [OF th assms(3) c(1) fd] st] .
  have slot: "arg_int ?s = cli_fd s" if "fr = Reader_start"
  proof -
    have "stack_read (cli_at s) 4 (enter_stack a (sstack s)) = stack_read (cli_at s) 4 (sstack s)"
      using enter_stack_read [of a "sstack s" "cli_at s" 4] K(10) T(5, 18) by (auto simp: entry_ok_def)
    then show ?thesis using arg assms(3) c(2) that by (simp add: arg_int_def arg_ok_def st_def put_co_def)
  qed
  have ex: "exec h a co (started co c s) = wait_io a fd READABLE (put_frame fr' ?s)"
    using fr
  proof
    assume f: "fr = Server_start"
    have "?s = started co c s" using f by (simp add: st_def put_co_def)
    then show ?thesis using f c(2) K(4, 5) unfolding fd_def fr'_def
      by (simp add: exec_def ntyco_server_def started_fields socket_next_def server_loop_def accept_begin_def Let_def)
  next
    assume f: "fr = Reader_start"
    then have "exec h a co (started co c s) = reader_loop a (arg_int ?s) ''default'' ?s"
      using c(2) by (simp add: exec_def server_reader_def started_fields st_def Let_def)
    then show ?thesis using f slot [OF f] by (simp add: fr'_def fd_def reader_loop_def recv_begin_def)
  qed
  have ok: "frame_ok ok_ns fr'" "frame_fd fr' = fd" "is_server fr' \<longleftrightarrow> co = Ref 0"
    using fr c(4) fd(1) default_ns by (auto simp: fr'_def)
  obtain s1 s2 where w: "wait_io a fd READABLE (put_frame fr' ?s) = Some s1" "after_exec co s1 = Some s2"
      "rests ok_ns co (Some fr') ?s s2" "nsent s2 = nsent s" "napp s2 = napp s"
    using wait_rests [OF run _ K(1, 2) ok, of READABLE] by (auto simp: put_co_def)
  have "run_ready (exec h a) co s = Some (s2\<lparr>run_pc := At_epoll\<rparr>)"
    unfolding run_ready_law [OF th assms(3) c(1)] ex using w(1, 2) by simp
  moreover have "ninv (s2\<lparr>run_pc := At_epoll\<rparr>)" using started_keeps [OF assms(1, 3) w(3)] w(5) good by simp
  moreover have "others NULL s2 = others NULL s"
    using others_rests [OF w(3)] running_co [OF run] started_others [OF th assms(3)] others_split [of co s fr] threads_null [OF th] assms(3) c(2) fr
    by (auto simp: started_fields fr'_def fd_def others_stack)
  moreover have "nty_ops a s = []" using fr c(2) assms(2, 3) by (auto simp: nty_ops_def next_frame_def)
  ultimately show ?thesis using w(4, 5) by (auto simp: net_rel_def others_pc)
qed

lemma quiet_step:
  assumes "ninv s" "s2 = s\<lparr>new_events := evs, run_pc := pc\<rparr>" "phase_ok s2" "nty_ops a s = []"
  shows "ninv s2 \<and> follows a s s2"
proof -
  have "others NULL s2 = others NULL s" "napp s2 = napp s" "nsent s2 = nsent s" by (simp_all add: assms(2) others_pc others_events)
  moreover have "ninv s2" using assms(1-3) by (simp add: ntyco_inv_def threads_ok_def arg_ok_def arg_int_def)
  ultimately show ?thesis using assms(4) by (auto simp: net_rel_def)
qed

text \<open>The other steps of the scheduler. It is never done, since the server waits for clients.\<close>

lemma loop_steps:
  assumes "ninv s" "run_pc s \<in> {At_top, At_expired, At_epoll}"
  shows "\<exists>s2. ntyco_step h a s = Some s2 \<and> ninv s2 \<and> follows a s s2"
proof -
  have th: "threads_ok ok_ns NULL s" using assms(1) by (simp add: ntyco_inv_def)
  note T = threads_okD [OF th]
  have ph: "phase_ok s" using assms(1) by (simp add: ntyco_inv_def)
  have "Ref 0 \<in> set (ready s) \<union> set (waiting s)" using assms(1) threads_dom by (auto simp: ntyco_inv_def)
  then have busy: "\<not> nty_schedule_isdone s" by (auto simp: nty_schedule_isdone_def)
  have rdy: "ready s \<noteq> [] \<longrightarrow> ready s = [last (ready s)]" using T(11) by (cases "ready s") auto
  define pc where "pc = (case run_pc s of At_top \<Rightarrow> At_expired | At_expired \<Rightarrow> At_ready (if ready s = [] then NULL else last (ready s)) | _ \<Rightarrow> At_wait)"
  define evs where "evs = (if run_pc s = At_epoll then [] else new_events s)"
  define s2 where "s2 = s\<lparr>new_events := evs, run_pc := pc\<rparr>"
  consider "run_pc s = At_top" | "run_pc s = At_expired" | "run_pc s = At_epoll" "ready s = []"
    using assms(2) ph by (auto simp: phase_ok_def)
  then have "ntyco_step h a s = Some s2 \<and> phase_ok s2 \<and> nty_ops a s = []"
  proof cases
    case 1
    then show ?thesis using busy by (simp add: ntyco_step_def nty_schedule_run_def s2_def pc_def evs_def phase_ok_def nty_ops_def next_frame_def)
  next
    case 2
    then show ?thesis using rdy T(2)
      by (simp add: ntyco_step_def nty_schedule_run_def run_expired_def nty_schedule_expired_def tree_min_def s2_def pc_def evs_def phase_ok_def
          nty_ops_def next_frame_def)
  next
    case 3
    then show ?thesis using T(2, 4) epoll_timespec_ms [of 3000000]
      by (simp add: ntyco_step_def nty_schedule_run_def nty_schedule_epoll_def nty_schedule_min_timeout_def tree_min_def s2_def pc_def evs_def
          phase_ok_def nty_ops_def next_frame_def)
  qed
  then show ?thesis using quiet_step [OF assms(1) s2_def] by blast
qed

lemma wait_step:
  assumes "ninv s" "run_pc s = At_wait" "steady s a"
  shows "\<exists>s2. ntyco_step h a s = Some s2 \<and> ninv s2 \<and> follows a s s2"
proof (cases "tk_epoll (a_tick a)")
  case Interrupted
  then have "ntyco_step h a s = Some s" using assms(2) by (simp add: ntyco_step_def nty_schedule_run_def epoll_round_def)
  then show ?thesis using assms(1, 2) by (auto simp: nty_ops_def next_frame_def)
next
  case Failed
  then show ?thesis using assms(3) by (simp add: steady_def run_ok_def nothing_fails_def)
next
  case (Ready_events evs)
  have th: "threads_ok ok_ns NULL s" "ready s = []" using assms(1, 2) by (simp_all add: ntyco_inv_def phase_ok_def)
  have evs: "distinct (map fst evs)" "\<forall>fd \<in> fst ` set evs. fd \<noteq> eventfd s \<and> poller s fd \<noteq> None"
    using assms(3) Ready_events by (simp_all add: steady_def kernel_ok_def)
  have "fst ` set evs \<subseteq> fd_of s ` set (waiting s)"
  proof
    fix fd assume "fd \<in> fst ` set evs"
    then have "fd \<in> dom (poller s)" "fd \<noteq> eventfd s" using evs(2) by auto
    then show "fd \<in> fd_of s ` set (waiting s)" unfolding threads_okD(14) [OF th(1)] by simp
  qed
  then have "phase_ok (s\<lparr>new_events := evs, run_pc := At_events\<rparr>)" using th(2) evs(1) by (simp add: phase_ok_def)
  moreover have "nty_ops a s = []" using assms(2) by (simp add: nty_ops_def next_frame_def)
  moreover have "ntyco_step h a s = Some (s\<lparr>new_events := evs, run_pc := At_events\<rparr>)"
    using assms(2) Ready_events by (simp add: ntyco_step_def nty_schedule_run_def epoll_round_def)
  ultimately show ?thesis using quiet_step [OF assms(1) refl, of At_events evs a] by blast
qed

lemma scheduler_step:
  assumes "ninv s" "steady s a" "tame_answer ok_req a"
  shows "\<exists>s2. ntyco_step h a s = Some s2 \<and> ninv s2 \<and> follows a s s2"
proof (cases "run_pc s")
  case (At_ready l)
  consider "ready s = []" | "ready s = [l]" using assms(1) At_ready by (auto simp: ntyco_inv_def phase_ok_def)
  then show ?thesis
  proof cases
    case 1
    have "phase_ok (s\<lparr>new_events := new_events s, run_pc := At_epoll\<rparr>)" using 1 by (simp add: phase_ok_def)
    moreover have "nty_ops a s = []" using 1 At_ready by (simp add: nty_ops_def next_frame_def)
    ultimately show ?thesis using quiet_step [OF assms(1) refl, of At_epoll "new_events s" a] 1 At_ready
      by (simp add: ntyco_step_def nty_schedule_run_def run_ready_def)
  next
    case 2
    then show ?thesis using ready_step [OF assms(1) At_ready 2 assms(2)] At_ready by (simp add: ntyco_step_def nty_schedule_run_def)
  qed
next
  case At_events
  show ?thesis
  proof (cases "new_events s = []")
    case True
    have "phase_ok (s\<lparr>new_events := new_events s, run_pc := At_top\<rparr>)" by (simp add: phase_ok_def)
    moreover have "nty_ops a s = []" using True At_events by (simp add: nty_ops_def next_frame_def)
    moreover have "ntyco_step h a s = Some (s\<lparr>new_events := new_events s, run_pc := At_top\<rparr>)"
      using True At_events by (simp add: ntyco_step_def nty_schedule_run_def run_event_def)
    ultimately show ?thesis using quiet_step [OF assms(1) refl, of At_top "new_events s" a] by blast
  next
    case False
    then show ?thesis using nty_event_step [OF assms(1) At_events False assms(2, 3)] At_events by (simp add: ntyco_step_def nty_schedule_run_def)
  qed
next
  case At_wait
  then show ?thesis using wait_step [OF assms(1) _ assms(2)] by blast
next
  case At_end
  then show ?thesis using assms(1) by (simp add: ntyco_inv_def phase_ok_def)
qed (use loop_steps [OF assms(1)] in simp_all)

end

section \<open>Runs\<close>

text \<open>The promises hold along a run, as far as it goes, and the operations behind it.\<close>

fun promised :: "'s msg_handler \<Rightarrow> ('s ntyco \<Rightarrow> answers \<Rightarrow> bool) \<Rightarrow> answers list \<Rightarrow> 's ntyco \<Rightarrow> bool" where
  "promised h P [] s = True"
| "promised h P (a # as) s = (P s a \<and> (case ntyco_step h a s of None \<Rightarrow> True | Some s' \<Rightarrow> promised h P as s'))"

fun nty_trace :: "'s msg_handler \<Rightarrow> answers list \<Rightarrow> 's ntyco \<Rightarrow> net_op list" where
  "nty_trace h [] s = []"
| "nty_trace h (a # as) s = nty_ops a s @ (case ntyco_step h a s of None \<Rightarrow> [] | Some s' \<Rightarrow> nty_trace h as s')"

lemma promised_mono: "promised h P as s \<Longrightarrow> (\<And>s a. P s a \<Longrightarrow> Q s a) \<Longrightarrow> promised h Q as s"
  by (induction as arbitrary: s) (auto split: option.splits)

context msg_service
begin

lemma run_safe:
  assumes "ninv s" "promised h (\<lambda>s a. steady s a \<and> tame_answer ok_req a) as s"
  shows "\<exists>s'. each (ntyco_step h) as s = Some s' \<and> ninv s'"
  using assms
proof (induction as arbitrary: s)
  case (Cons a as)
  obtain s2 where "ntyco_step h a s = Some s2" "ninv s2" using scheduler_step [OF Cons.prems(1)] Cons.prems(2) by auto
  then show ?case using Cons.IH [of s2] Cons.prems(2) by simp
qed simp

lemma run_follows:
  assumes "ninv s" "promised h (\<lambda>s a. steady s a \<and> tame_answer ok_req a \<and> 0 < a_send a) as s" "net_rel s S"
  shows "\<exists>s' S'. each (ntyco_step h) as s = Some s' \<and> net_run h (nty_trace h as s) S = Some S' \<and> net_rel s' S'"
  using assms
proof (induction as arbitrary: s S)
  case (Cons a as)
  have p: "steady s a" "tame_answer ok_req a" "0 < a_send a" using Cons.prems(2) by simp_all
  obtain s2 where s2: "ntyco_step h a s = Some s2" "ninv s2" "follows a s s2" using scheduler_step [OF Cons.prems(1) p(1, 2)] by blast
  obtain S2 where S2: "net_run h (nty_ops a s) S = Some S2" "net_rel s2 S2" using s2(3) p(3) Cons.prems(3) by blast
  obtain s' S' where "each (ntyco_step h) as s2 = Some s'" "net_run h (nty_trace h as s2) S2 = Some S'" "net_rel s' S'"
    using Cons.IH [OF s2(2) _ S2(2)] Cons.prems(2) s2(1) by auto
  then show ?case using s2(1) S2(1) by (simp add: net_run_append)
qed simp

end

lemma start_inv:
  assumes "ntyco_start True True evfd True (Some mem) True now layout a = Some (Some s0)" "length mem = NTY_CO_MAX_STACKSIZE"
    "4 \<le> layout" "layout \<le> NTY_CO_MAX_STACKSIZE" "P a"
  shows "ntyco_inv ok_ns P s0" "net_rel s0 (net_start a)"
proof -
  have s0: "s0 = \<lparr>sbirth = now, sstack = mem, spawned_coroutines = 1, default_timeout = 3000000, curr_thread = NULL, poller = [evfd \<mapsto> 1],
      eventfd = evfd, new_events = [], ready = [Ref 0], busy = [], sleeping = [], waiting = [],
      coros = [Ref 0 \<mapsto> \<lparr>co_status = 4, co_birth = now, co_id = 0, co_fd = -1, co_events = 0, co_ops = 0, co_sleep_usecs = 0, co_stack = []\<rparr>],
      conext = 1, run_pc = At_top, frames = [Ref 0 \<mapsto> Server_start], cli_at = layout, cli_fd = 0, nsent = (\<lambda>_. []), napp = a\<rparr>"
    using assms(1) by (simp add: ntyco_start_def nty_schedule_create_def nty_epoller_ev_register_trigger_def nty_coroutine_create_def
        nty_schedule.extend_def Let_def BIT_def status_defs split: if_splits)
  show "ntyco_inv ok_ns P s0" using assms(2-5) by (simp add: s0 ntyco_inv_def threads_ok_def phase_ok_def starter_ok_def arg_ok_def)
  show "net_rel s0 (net_start a)" by (simp add: s0 net_rel_def others_def serves_def net_start_def)
qed

lemma steady_promised:
  assumes "promised h (\<lambda>s x. kernel_ok s x \<and> run_ok s x \<and> Q x) as s"
  shows "promised h (\<lambda>s x. steady s x \<and> Q x) as s"
  by (rule promised_mono [OF assms]) (simp add: steady_def)

section \<open>A client\<close>

text \<open>Runs in which every coroutine uses 64 bytes of the stack. The variable \<open>cli_fd\<close> takes the lowest four of
  them; the other bytes are zeros. The rest of the stack is \<open>pre\<close>.\<close>

definition stk :: "string \<Rightarrow> int \<Rightarrow> string" where
  "stk pre v = pre @ int_bytes v @ replicate 60 (CHR 0x00)"

abbreviation stack_size :: "string \<Rightarrow> bool" where
  "stack_size pre \<equiv> NTY_CO_MAX_STACKSIZE = length pre + 64"

lemma stk_laws [simp]:
  "stack_read 64 4 (stk pre v) = int_bytes v" "stack_write 64 (int_bytes w) (stk pre v) = stk pre w" "length (stk [] v) = 64"
  by (simp_all add: stk_def stack_read_def stack_write_def int_bytes_laws(1))

lemma stk_size [simp]:
  assumes "stack_size pre"
  shows "length (stk pre v) = NTY_CO_MAX_STACKSIZE" "take (NTY_CO_MAX_STACKSIZE - 64) (stk pre v) @ stk [] w = stk pre w"
    "drop (NTY_CO_MAX_STACKSIZE - 64) (stk pre v) = stk [] v" "\<not> NTY_CO_MAX_STACKSIZE < 64"
  using assms by (simp_all add: stk_def int_bytes_laws(1))

lemma zero_stack: "stk (replicate n (CHR 0x00)) 0 = replicate (n + 64) (CHR 0x00)"
proof -
  have "int_bytes 0 = replicate 4 (CHR 0x00)" by (simp add: int_bytes_def htonl_def numeral_eq_Suc char_of_def)
  then show ?thesis by (simp add: stk_def replicate_add [symmetric] add.commute)
qed

text \<open>A client connects on descriptor 7 and sends a line; the server listens on 4.\<close>

definition ans0 :: answers where
  "ans0 = \<lparr>a_tick = \<lparr>tk_now = 0, tk_epoll = Ready_events []\<rparr>, a_used = stk [] 0, a_entry = [], a_realloc = True, a_calloc = True, a_socket = 4,
     a_fcntl = True, a_accept = -1, a_errno = EAGAIN, a_recv = None, a_send = 1024, a_rq = rq0\<rparr>"

definition ans1 :: answers where "ans1 = ans0\<lparr>a_socket := 5\<rparr>"

definition accepts :: "int \<Rightarrow> answers" where "accepts w = ans1\<lparr>a_accept := w\<rparr>"

definition events_at :: "int list \<Rightarrow> answers" where
  "events_at fds = ans1\<lparr>a_tick := \<lparr>tk_now = 0, tk_epoll = Ready_events (map (\<lambda>fd. (fd, 1)) fds)\<rparr>\<rparr>"

text \<open>A coroutine with the word that its saved stack holds in the place of the variable, if it has one.\<close>

definition co0 :: "32 word \<Rightarrow> int \<Rightarrow> 64 word \<Rightarrow> int option \<Rightarrow> nty_coroutine" where
  "co0 st fd i v = \<lparr>co_status = st, co_birth = 0, co_id = i, co_fd = fd, co_events = (if v = None then 0 else 25), co_ops = 0, co_sleep_usecs = 0,
     co_stack = (case v of None \<Rightarrow> [] | Some v \<Rightarrow> stk [] v)\<rparr>"

definition demo_state :: "string \<Rightarrow> int \<Rightarrow> 's \<Rightarrow> run_pc \<Rightarrow> (int \<times> 32 word) list \<Rightarrow> ref list \<Rightarrow> ref list \<Rightarrow> (int \<rightharpoonup> 32 word) \<Rightarrow>
    (ref \<rightharpoonup> nty_coroutine) \<Rightarrow> (ref \<rightharpoonup> co_frame) \<Rightarrow> int \<Rightarrow> nat \<Rightarrow> 's ntyco" where
  "demo_state pre v a pc evs rdy wt pl cs frs cli n = \<lparr>sbirth = 0, sstack = stk pre v, spawned_coroutines = int n, default_timeout = 3000000,
     curr_thread = NULL, poller = pl, eventfd = 3, new_events = evs, ready = rdy, busy = [], sleeping = [], waiting = wt, coros = cs, conext = n,
     run_pc = pc, frames = frs, cli_at = 64, cli_fd = cli, nsent = (\<lambda>_. []), napp = a\<rparr>"

text \<open>Evaluating the scheduler and the coroutines.\<close>

lemmas step_defs = ntyco_step_def nty_schedule_run_def run_expired_def nty_schedule_expired_def tree_min_def nty_schedule_epoll_def
  nty_schedule_min_timeout_def nty_schedule_isdone_def epoll_round_def run_ready_def run_event_def

lemmas co_defs = nty_coroutine_resume_def nty_coroutine_init_def load_stack_def exec_def has_bit_def BIT_def CLEARBIT_def status_defs put_co_def
     ntyco_server_def server_loop_def accept_begin_def accept_next_def socket_next_def wait_io_def put_frame_def use_stack_def nty_schedule_sched_wait_def
     nty_coroutine_yield_def save_stack_def epoll_ctl_add_def epoll_ctl_del_def READABLE_def POLLIN_def POLLOUT_def POLLERR_def POLLHUP_def nty_pollevent_2epoll_def
     POLLRDNORM_def POLLWRNORM_def nty_schedule_desched_wait_def nty_schedule_desched_sleepdown_def tree_remove_def nty_schedule_search_wait_def
     find_it_def nty_coroutine_wait_cmp_def create_reader_def nty_coroutine_create_def server_reader_def reader_loop_def recv_begin_def enter_stack_def
     arg_int_def int_bytes_laws(2)

lemmas demo_defs = demo_state_def accepts_def ans1_def ans0_def co0_def EAGAIN_def

lemma demo_starts:
  "ntyco_start True True 3 True (Some (stk pre 0)) True 0 64 a =
   Some (Some (demo_state pre 0 a At_top [] [Ref 0] [] [3 \<mapsto> 1] [Ref 0 \<mapsto> co0 4 (-1) 0 None] [Ref 0 \<mapsto> Server_start] 0 1))"
  by (simp add: ntyco_start_def nty_schedule_create_def nty_epoller_ev_register_trigger_def nty_coroutine_create_def
        nty_schedule.extend_def Let_def BIT_def status_defs demo_state_def co0_def)

lemma idle_steps:
  "rdy \<noteq> [] \<or> wt \<noteq> [] \<Longrightarrow> ntyco_step h x (demo_state pre v a At_top evs rdy wt pl cs frs cli n) = Some (demo_state pre v a At_expired evs rdy wt pl cs frs cli n)"
  "ntyco_step h x (demo_state pre v a At_expired evs rdy wt pl cs frs cli n) =
     Some (demo_state pre v a (At_ready (if rdy = [] then NULL else last rdy)) evs rdy wt pl cs frs cli n)"
  "ntyco_step h x (demo_state pre v a At_epoll evs [] wt pl cs frs cli n) = Some (demo_state pre v a At_wait [] [] wt pl cs frs cli n)"
  "ntyco_step h (events_at fds) (demo_state pre v a At_wait evs rdy wt pl cs frs cli n) =
     Some (demo_state pre v a At_events (map (\<lambda>fd. (fd, 1)) fds) rdy wt pl cs frs cli n)"
  "ntyco_step h x (demo_state pre v a At_events [] rdy wt pl cs frs cli n) = Some (demo_state pre v a At_top [] rdy wt pl cs frs cli n)"
  using epoll_timespec_ms [of 3000000] by (auto simp: step_defs demo_state_def events_at_def)

lemma server_starts:
  "stack_size pre \<Longrightarrow>
   ntyco_step h ans0 (demo_state pre 0 a (At_ready (Ref 0)) [] [Ref 0] [] [3 \<mapsto> 1] [Ref 0 \<mapsto> co0 4 (-1) 0 None] [Ref 0 \<mapsto> Server_start] 0 1) =
   Some (demo_state pre 0 a At_epoll [] [] [Ref 0] [3 \<mapsto> 1, 4 \<mapsto> 25] [Ref 0 \<mapsto> co0 8 4 0 (Some 0)] [Ref 0 \<mapsto> Server_accept 4] 0 1)"
  by (simp add: step_defs co_defs demo_defs Let_def)

lemma server_accepts:
  "stack_size pre \<Longrightarrow>
   ntyco_step h (accepts 7) (demo_state pre 0 a At_events [(4, 1)] [] [Ref 0] [3 \<mapsto> 1, 4 \<mapsto> 25] [Ref 0 \<mapsto> co0 8 4 0 (Some 0)] [Ref 0 \<mapsto> Server_accept 4] 0 1) =
   Some (demo_state pre 7 a At_events [] [Ref 1] [Ref 0] [3 \<mapsto> 1, 4 \<mapsto> 25] [Ref 0 \<mapsto> co0 0 4 0 (Some 7), Ref 1 \<mapsto> co0 4 (-1) 1 None]
     [Ref 0 \<mapsto> Server_accept 4, Ref 1 \<mapsto> Reader_start] 7 2)"
  by (simp add: step_defs co_defs demo_defs Let_def) (auto simp: fun_eq_iff)

lemma reader_starts:
  "stack_size pre \<Longrightarrow>
   ntyco_step h ans1 (demo_state pre 7 a (At_ready (Ref 1)) [] [Ref 1] [Ref 0] [3 \<mapsto> 1, 4 \<mapsto> 25] [Ref 0 \<mapsto> co0 0 4 0 (Some 7), Ref 1 \<mapsto> co0 4 (-1) 1 None]
     [Ref 0 \<mapsto> Server_accept 4, Ref 1 \<mapsto> Reader_start] 7 2) =
   Some (demo_state pre 0 a At_epoll [] [] [Ref 0, Ref 1] [3 \<mapsto> 1, 4 \<mapsto> 25, 7 \<mapsto> 25] [Ref 0 \<mapsto> co0 0 4 0 (Some 7), Ref 1 \<mapsto> co0 8 7 1 (Some 0)]
     [Ref 0 \<mapsto> Server_accept 4, Ref 1 \<mapsto> Reader_recv 7 ''default''] 7 2)"
  by (simp add: step_defs co_defs demo_defs Let_def)

definition fly_line :: string where "fly_line = command_line [''FLY''] @ crlf"

definition demo_answers :: "answers list" where
  "demo_answers = [ans0, ans0, ans0, ans1, events_at [4], accepts 7, ans1, ans1, ans1, ans1, ans1, events_at [7], ans1\<lparr>a_recv := Some fly_line\<rparr>]"

lemma fly_request: "service_request rq0 fly_line"
proof -
  have "hd [''FLY''] \<notin> fst ` set command" by (simp add: command_def)
  then have t: "service_tokens [''FLY'']" unfolding service_tokens_def by (simp add: KVS_MAX_TOKENS_def)
  then show ?thesis unfolding fly_line_def
    unfolding service_request_def by (intro conjI exI [of _ "[''FLY'']"]) (simp_all add: BUFFER_LENGTH_def quote_def crlf_def clean_def ascii_def)
qed

lemma demo_nothing_fails: "nothing_fails ans0" "nothing_fails ans1" "nothing_fails (accepts w)" "nothing_fails (events_at fds)" "nothing_fails (ans1\<lparr>a_recv := r\<rparr>)"
  by (simp_all add: nothing_fails_def ans0_def ans1_def accepts_def events_at_def NTY_CO_MAX_STACKSIZE_def)

lemma demo_entry_ok: "entry_ok s ans0" "entry_ok s ans1" "entry_ok s (accepts w)" "entry_ok s (events_at fds)" "entry_ok s (ans1\<lparr>a_recv := r\<rparr>)"
  by (simp_all add: entry_ok_def ans0_def ans1_def accepts_def events_at_def)

lemma demo_accepts_last:
  "accepts_last s ans0" "accepts_last s ans1" "accepts_last s (events_at fds)" "accepts_last s (ans1\<lparr>a_recv := r\<rparr>)"
  "accepts_last (demo_state pre v a pc [ev] rdy wt pl cs frs cli n) (accepts w)"
  by (simp_all add: accepts_last_def ans0_def ans1_def events_at_def demo_state_def split: option.split co_frame.split)

lemmas demo_run_ok = demo_nothing_fails demo_entry_ok demo_accepts_last

text \<open>The kernel's promises, for the descriptors that are registered.\<close>

lemma demo_kernel_ok:
  "pl 4 = None \<Longrightarrow> kernel_ok (demo_state pre v a pc evs rdy wt pl cs frs cli n) ans0"
  "pl 5 = None \<Longrightarrow> kernel_ok (demo_state pre v a pc evs rdy wt pl cs frs cli n) ans1"
  "pl 5 = None \<Longrightarrow> kernel_ok (demo_state pre v a pc evs rdy wt pl cs frs cli n) (ans1\<lparr>a_recv := r\<rparr>)"
  "pl 5 = None \<Longrightarrow> pl 7 = None \<Longrightarrow> kernel_ok (demo_state pre v a pc evs rdy wt pl cs frs cli n) (accepts 7)"
  "pl 5 = None \<Longrightarrow> pl 8 = None \<Longrightarrow> kernel_ok (demo_state pre v a pc evs rdy wt pl cs frs cli n) (accepts 8)"
  "pl 5 = None \<Longrightarrow> distinct fds \<Longrightarrow> 3 \<notin> set fds \<Longrightarrow> \<forall>fd \<in> set fds. pl fd \<noteq> None \<Longrightarrow>
     kernel_ok (demo_state pre v a pc evs rdy wt pl cs frs cli n) (events_at fds)"
  by (auto simp: kernel_ok_def demo_state_def ans0_def ans1_def accepts_def events_at_def comp_def)

lemma demo_tame:
  "tame_answer service_request ans0" "tame_answer service_request ans1" "tame_answer service_request (accepts w)"
  "tame_answer service_request (events_at fds)" "tame_answer service_request (ans1\<lparr>a_recv := Some fly_line\<rparr>)"
  "0 < a_send ans0" "0 < a_send ans1" "0 < a_send (accepts w)" "0 < a_send (events_at fds)" "0 < a_send (ans1\<lparr>a_recv := r\<rparr>)"
  using fly_request
  by (simp_all add: tame_answer_def ans0_def ans1_def accepts_def events_at_def fly_line_def BUFFER_LENGTH_def quote_def crlf_def)

lemmas demo_steps = idle_steps server_starts server_accepts reader_starts

abbreviation demo_start :: "string \<Rightarrow> 's \<Rightarrow> 's ntyco" where
  "demo_start pre a \<equiv> demo_state pre 0 a At_top [] [Ref 0] [] [3 \<mapsto> 1] [Ref 0 \<mapsto> co0 4 (-1) 0 None] [Ref 0 \<mapsto> Server_start] 0 1"

lemma demo_promised:
  assumes "stack_size pre"
  shows "promised h (\<lambda>s x. kernel_ok s x \<and> run_ok s x \<and> tame_answer service_request x \<and> 0 < a_send x) demo_answers (demo_start pre a)"
  unfolding demo_answers_def run_ok_def
  by (simp add: demo_steps assms demo_kernel_ok demo_run_ok demo_tame split: option.split del: One_nat_def)

lemma demo_trace:
  assumes "stack_size pre"
  shows "nty_trace h demo_answers (demo_start pre a) = [Opened 7, Request 7 rq0 fly_line]"
  unfolding demo_answers_def
  by (simp add: demo_steps assms split: option.split del: fun_upd_apply One_nat_def)
    (simp add: nty_ops_def next_frame_def demo_state_def co0_def accepts_def ans1_def ans0_def events_at_def recv_ops_def fly_line_def
      BUFFER_LENGTH_def quote_def crlf_def)

section \<open>A stale descriptor\<close>

text \<open>A second client connects while the first has something to read: the batch has both events, and the
  one of the listening socket is handled first.\<close>

lemma second_client:
  "stack_size pre \<Longrightarrow>
   ntyco_step h (accepts 8) (demo_state pre 0 a At_events [(7, 1), (4, 1)] [] [Ref 0, Ref 1] [3 \<mapsto> 1, 4 \<mapsto> 25, 7 \<mapsto> 25]
     [Ref 0 \<mapsto> co0 0 4 0 (Some 7), Ref 1 \<mapsto> co0 8 7 1 (Some 0)] [Ref 0 \<mapsto> Server_accept 4, Ref 1 \<mapsto> Reader_recv 7 ''default''] 7 2) =
   Some (demo_state pre 8 a At_events [(7, 1)] [Ref 2] [Ref 0, Ref 1] [3 \<mapsto> 1, 4 \<mapsto> 25, 7 \<mapsto> 25]
     [Ref 0 \<mapsto> co0 0 4 0 (Some 8), Ref 1 \<mapsto> co0 8 7 1 (Some 0), Ref 2 \<mapsto> co0 4 (-1) 2 None]
     [Ref 0 \<mapsto> Server_accept 4, Ref 1 \<mapsto> Reader_recv 7 ''default'', Ref 2 \<mapsto> Reader_start] 8 3)"
  by (simp add: step_defs co_defs demo_defs Let_def) (auto simp: fun_eq_iff)

lemma first_client_runs:
  "stack_size pre \<Longrightarrow>
   ntyco_step h ans1 (demo_state pre 8 a At_events [(7, 1)] [Ref 2] [Ref 0, Ref 1] [3 \<mapsto> 1, 4 \<mapsto> 25, 7 \<mapsto> 25]
     [Ref 0 \<mapsto> co0 0 4 0 (Some 8), Ref 1 \<mapsto> co0 8 7 1 (Some 0), Ref 2 \<mapsto> co0 4 (-1) 2 None]
     [Ref 0 \<mapsto> Server_accept 4, Ref 1 \<mapsto> Reader_recv 7 ''default'', Ref 2 \<mapsto> Reader_start] 8 3) =
   Some (demo_state pre 0 a At_events [] [Ref 2] [Ref 0, Ref 1] [3 \<mapsto> 1, 4 \<mapsto> 25, 7 \<mapsto> 25]
     [Ref 0 \<mapsto> co0 0 4 0 (Some 8), Ref 1 \<mapsto> co0 0 7 1 (Some 0), Ref 2 \<mapsto> co0 4 (-1) 2 None]
     [Ref 0 \<mapsto> Server_accept 4, Ref 1 \<mapsto> Reader_recv 7 ''default'', Ref 2 \<mapsto> Reader_start] 8 3)"
  by (simp add: step_defs co_defs demo_defs reader_got_def recv_next_def Let_def) (auto simp: fun_eq_iff)

lemma second_reader_starts:
  "stack_size pre \<Longrightarrow>
   ntyco_step h ans1 (demo_state pre 0 a (At_ready (Ref 2)) [] [Ref 2] [Ref 0, Ref 1] [3 \<mapsto> 1, 4 \<mapsto> 25, 7 \<mapsto> 25]
     [Ref 0 \<mapsto> co0 0 4 0 (Some 8), Ref 1 \<mapsto> co0 0 7 1 (Some 0), Ref 2 \<mapsto> co0 4 (-1) 2 None]
     [Ref 0 \<mapsto> Server_accept 4, Ref 1 \<mapsto> Reader_recv 7 ''default'', Ref 2 \<mapsto> Reader_start] 8 3) =
   Some (demo_state pre 0 a At_epoll [] [] [Ref 2, Ref 0, Ref 1] [3 \<mapsto> 1, 4 \<mapsto> 25, 7 \<mapsto> 25, 0 \<mapsto> 25]
     [Ref 0 \<mapsto> co0 0 4 0 (Some 8), Ref 1 \<mapsto> co0 0 7 1 (Some 0), Ref 2 \<mapsto> co0 8 0 2 (Some 0)]
     [Ref 0 \<mapsto> Server_accept 4, Ref 1 \<mapsto> Reader_recv 7 ''default'', Ref 2 \<mapsto> Reader_recv 0 ''default''] 8 3)"
  by (simp add: step_defs co_defs demo_defs Let_def)

definition stale_answers :: "answers list" where
  "stale_answers = [ans0, ans0, ans0, ans1, events_at [4], accepts 7, ans1, ans1, ans1, ans1, ans1, events_at [7, 4], accepts 8, ans1,
     ans1, ans1, ans1, ans1]"

lemmas stale_steps = demo_steps second_client first_client_runs second_reader_starts

lemma stale_promised:
  assumes "stack_size pre"
  shows "promised h (\<lambda>s x. kernel_ok s x \<and> nothing_fails x \<and> entry_ok s x) stale_answers (demo_start pre a)"
  unfolding stale_answers_def
  by (simp add: stale_steps assms demo_kernel_ok demo_run_ok del: One_nat_def)

lemma stale_trace:
  assumes "stack_size pre"
  shows "nty_trace h stale_answers (demo_start pre a) = [Opened 7, Opened 8]"
  unfolding stale_answers_def
  by (simp add: stale_steps assms del: fun_upd_apply One_nat_def)
    (simp add: nty_ops_def next_frame_def demo_state_def co0_def accepts_def ans1_def ans0_def events_at_def recv_ops_def)

lemma stale_run:
  assumes "stack_size pre"
  shows "\<exists>s. each (ntyco_step h) stale_answers (demo_start pre a) = Some s \<and>
     frames s (Ref 2) = Some (Reader_recv 0 ''default'') \<and> poller s 8 = None \<and> 8 \<notin> frame_fd ` ran (frames s)"
proof -
  let ?s = "demo_state pre 0 a At_epoll [] [] [Ref 2, Ref 0, Ref 1] [3 \<mapsto> 1, 4 \<mapsto> 25, 7 \<mapsto> 25, 0 \<mapsto> 25]
     [Ref 0 \<mapsto> co0 0 4 0 (Some 8), Ref 1 \<mapsto> co0 0 7 1 (Some 0), Ref 2 \<mapsto> co0 8 0 2 (Some 0)]
     [Ref 0 \<mapsto> Server_accept 4, Ref 1 \<mapsto> Reader_recv 7 ''default'', Ref 2 \<mapsto> Reader_recv 0 ''default''] 8 3"
  have "each (ntyco_step h) stale_answers (demo_start pre a) = Some ?s"
    unfolding stale_answers_def by (simp add: stale_steps assms del: fun_upd_apply One_nat_def)
  moreover have "frames ?s (Ref 2) = Some (Reader_recv 0 ''default'')" "poller ?s 8 = None" "8 \<notin> frame_fd ` ran (frames ?s)"
    by (auto simp: demo_state_def ran_def split: if_splits)
  ultimately show ?thesis by blast
qed

section \<open>Failing accepts\<close>

definition EMFILE :: int where "EMFILE = 24"

definition ans_fail :: answers where "ans_fail = ans1\<lparr>a_accept := -1, a_errno := EMFILE\<rparr>"

lemma first_failure:
  "stack_size pre \<Longrightarrow>
   ntyco_step h ans_fail (demo_state pre 0 a At_events [(4, 1)] [] [Ref 0] [3 \<mapsto> 1, 4 \<mapsto> 25] [Ref 0 \<mapsto> co0 8 4 0 (Some 0)] [Ref 0 \<mapsto> Server_accept 4] 0 1) =
   Some (demo_state pre (-1) a At_events [] [Ref 1] [Ref 0] [3 \<mapsto> 1, 4 \<mapsto> 25] [Ref 0 \<mapsto> co0 0 4 0 (Some (-1)), Ref 1 \<mapsto> co0 4 (-1) 1 None]
     [Ref 0 \<mapsto> Server_accept 4, Ref 1 \<mapsto> Reader_start] (-1) 2)"
  by (simp add: step_defs co_defs demo_defs ans_fail_def EMFILE_def Let_def) (auto simp: fun_eq_iff)

lemma bad_reader_starts:
  "stack_size pre \<Longrightarrow>
   ntyco_step h ans1 (demo_state pre (-1) a (At_ready (Ref 1)) [] [Ref 1] [Ref 0] [3 \<mapsto> 1, 4 \<mapsto> 25]
     [Ref 0 \<mapsto> co0 0 4 0 (Some (-1)), Ref 1 \<mapsto> co0 4 (-1) 1 None] [Ref 0 \<mapsto> Server_accept 4, Ref 1 \<mapsto> Reader_start] (-1) 2) =
   Some (demo_state pre 0 a At_epoll [] [] [Ref 1, Ref 0] [3 \<mapsto> 1, 4 \<mapsto> 25] [Ref 0 \<mapsto> co0 0 4 0 (Some (-1)), Ref 1 \<mapsto> co0 8 (-1) 1 (Some 0)]
     [Ref 0 \<mapsto> Server_accept 4, Ref 1 \<mapsto> Reader_recv (-1) ''default''] (-1) 2)"
  by (simp add: step_defs co_defs demo_defs Let_def)

lemma second_failure:
  "stack_size pre \<Longrightarrow>
   ntyco_step h ans_fail (demo_state pre 0 a At_events [(4, 1)] [] [Ref 1, Ref 0] [3 \<mapsto> 1, 4 \<mapsto> 25]
     [Ref 0 \<mapsto> co0 0 4 0 (Some (-1)), Ref 1 \<mapsto> co0 8 (-1) 1 (Some 0)] [Ref 0 \<mapsto> Server_accept 4, Ref 1 \<mapsto> Reader_recv (-1) ''default''] (-1) 2) =
   Some (demo_state pre (-1) a At_events [] [Ref 2] [Ref 1, Ref 0] [3 \<mapsto> 1, 4 \<mapsto> 25]
     [Ref 0 \<mapsto> co0 0 4 0 (Some (-1)), Ref 1 \<mapsto> co0 8 (-1) 1 (Some 0), Ref 2 \<mapsto> co0 4 (-1) 2 None]
     [Ref 0 \<mapsto> Server_accept 4, Ref 1 \<mapsto> Reader_recv (-1) ''default'', Ref 2 \<mapsto> Reader_start] (-1) 3)"
  by (simp add: step_defs co_defs demo_defs ans_fail_def EMFILE_def Let_def) (auto simp: fun_eq_iff)

lemma second_bad_reader:
  "stack_size pre \<Longrightarrow>
   ntyco_step h ans1 (demo_state pre (-1) a (At_ready (Ref 2)) [] [Ref 2] [Ref 1, Ref 0] [3 \<mapsto> 1, 4 \<mapsto> 25]
     [Ref 0 \<mapsto> co0 0 4 0 (Some (-1)), Ref 1 \<mapsto> co0 8 (-1) 1 (Some 0), Ref 2 \<mapsto> co0 4 (-1) 2 None]
     [Ref 0 \<mapsto> Server_accept 4, Ref 1 \<mapsto> Reader_recv (-1) ''default'', Ref 2 \<mapsto> Reader_start] (-1) 3) = None"
  by (simp add: step_defs co_defs demo_defs Let_def)

definition failing_answers :: "answers list" where
  "failing_answers = [ans0, ans0, ans0, ans1, events_at [4], ans_fail, ans1, ans1, ans1, ans1, ans1, events_at [4], ans_fail, ans1, ans1, ans1]"

lemma failing_run:
  assumes "stack_size pre"
  shows "each (ntyco_step h) failing_answers (demo_start pre a) =
    Some (demo_state pre (-1) a (At_ready (Ref 2)) [] [Ref 2] [Ref 1, Ref 0] [3 \<mapsto> 1, 4 \<mapsto> 25]
     [Ref 0 \<mapsto> co0 0 4 0 (Some (-1)), Ref 1 \<mapsto> co0 8 (-1) 1 (Some 0), Ref 2 \<mapsto> co0 4 (-1) 2 None]
     [Ref 0 \<mapsto> Server_accept 4, Ref 1 \<mapsto> Reader_recv (-1) ''default'', Ref 2 \<mapsto> Reader_start] (-1) 3)"
  unfolding failing_answers_def
  by (simp add: demo_steps assms first_failure bad_reader_starts second_failure del: fun_upd_apply One_nat_def)

section \<open>Properties\<close>

abbreviation zero_pre :: string where "zero_pre \<equiv> replicate (NTY_CO_MAX_STACKSIZE - 64) (CHR 0x00)"

lemma zero_mem: "stack_size zero_pre" "stk zero_pre 0 = replicate NTY_CO_MAX_STACKSIZE (CHR 0x00)"
  using zero_stack [of "NTY_CO_MAX_STACKSIZE - 64"] by (simp_all add: NTY_CO_MAX_STACKSIZE_def del: replicate.simps)

lemmas zero_starts = demo_starts [of zero_pre, unfolded zero_mem(2)]

text \<open>C7: the coroutine server is type safe in the runs that \<open>run_ok\<close> describes. From its start, as long as
  the kernel keeps its documented promises (\<open>kernel_ok\<close>), nothing runs out and \<open>accept\<close> fails only
  because nobody is there, a client is accepted only by the last event of its batch, the start of a
  coroutine leaves the variable \<open>cli_fd\<close> on the stack alone, and requests are of the kind that
  \<open>service_request\<close> describes, every step of the scheduler returns: no freed coroutine is used, no
  assertion of the library fails, no event finds nobody waiting, and no reply leaves its buffer. The
  state it reaches is well formed: every coroutine is in the ready queue or waits in a socket call
  on a descriptor of its own, and a reader that has not started will find its descriptor on the stack.\<close>

theorem ntyco_type_safe:
  assumes "safe_server a" "length mem = NTY_CO_MAX_STACKSIZE" "4 \<le> layout" "layout \<le> NTY_CO_MAX_STACKSIZE"
    and "ntyco_start True True evfd True (Some mem) True now layout a = Some (Some s0)"
    and "promised (kvs_handler F) (\<lambda>s x. kernel_ok s x \<and> run_ok s x \<and> tame_answer service_request x) as s0"
  shows "\<exists>s. each (ntyco_step (kvs_handler F)) as s0 = Some s \<and> ntyco_inv service_ns safe_server s"
  using service.run_safe [OF start_inv(1) [where P = safe_server, OF assms(5, 2-4, 1)] steady_promised [OF assms(6)]] .

theorem ntyco_type_safe_witness:
  "\<exists>s s0 s1. init_kvengine rat_ops (\<lambda>_. env0) (\<lambda>_. env0) Map.empty = Some (0, s) \<and>
     ntyco_start True True 3 True (Some (replicate NTY_CO_MAX_STACKSIZE (CHR 0x00))) True 0 64 s = Some (Some s0) \<and>
     each (ntyco_step (kvs_handler rat_ops)) demo_answers s0 = Some s1 \<and> ntyco_inv service_ns safe_server s1"
proof -
  obtain s where s: "init_kvengine rat_ops (\<lambda>_. env0) (\<lambda>_. env0) Map.empty = Some (0, s)" "safe_server s"
    using fresh_safe_server [of rat_ops] by blast
  let ?h = "kvs_handler rat_ops"
  have m: "length (replicate NTY_CO_MAX_STACKSIZE (CHR 0x00)) = NTY_CO_MAX_STACKSIZE" "4 \<le> (64 :: nat)" "64 \<le> NTY_CO_MAX_STACKSIZE"
    by (simp_all add: NTY_CO_MAX_STACKSIZE_def)
  have "promised ?h (\<lambda>s x. kernel_ok s x \<and> run_ok s x \<and> tame_answer service_request x) demo_answers (demo_start zero_pre s)"
    by (rule promised_mono [OF demo_promised [OF zero_mem(1)]]) simp
  from ntyco_type_safe [OF s(2) m zero_starts this] obtain s1 where
    r: "each (ntyco_step ?h) demo_answers (demo_start zero_pre s) = Some s1" "ntyco_inv service_ns safe_server s1" by (elim exE conjE)
  show ?thesis by (intro exI [of _ s] exI [of _ "demo_start zero_pre s"] exI [of _ s1] conjI s(1) zero_starts r)
qed

text \<open>C6: the coroutine server takes requests one at a time. In the runs of the previous property, and
  with a kernel that takes at least a byte of a reply at a time, the scheduler does what the abstract
  server does with the connections and requests in the order in which the coroutines are resumed,
  whatever that order among the readers is: every open connection has its namespace, and has been
  sent the replies to its own requests except for the rest that its coroutine holds.\<close>

theorem ntyco_serialises:
  assumes "safe_server a" "length mem = NTY_CO_MAX_STACKSIZE" "4 \<le> layout" "layout \<le> NTY_CO_MAX_STACKSIZE"
    and "ntyco_start True True evfd True (Some mem) True now layout a = Some (Some s0)"
    and "promised (kvs_handler F) (\<lambda>s x. kernel_ok s x \<and> run_ok s x \<and> tame_answer service_request x \<and> 0 < a_send x) as s0"
  shows "\<exists>s S. each (ntyco_step (kvs_handler F)) as s0 = Some s \<and>
    net_run (kvs_handler F) (nty_trace (kvs_handler F) as s0) (net_start a) = Some S \<and> net_rel s S"
  using service.run_follows [OF start_inv(1) [where P = safe_server, OF assms(5, 2-4, 1)] steady_promised [OF assms(6)] start_inv(2) [where P = safe_server, OF assms(5, 2-4, 1)]] .

theorem ntyco_serialises_witness:
  "\<exists>s s0 s1 S. init_kvengine rat_ops (\<lambda>_. env0) (\<lambda>_. env0) Map.empty = Some (0, s) \<and>
     ntyco_start True True 3 True (Some (replicate NTY_CO_MAX_STACKSIZE (CHR 0x00))) True 0 64 s = Some (Some s0) \<and>
     each (ntyco_step (kvs_handler rat_ops)) demo_answers s0 = Some s1 \<and> net_rel s1 S \<and> out S 7 = ''Unknown command'' @ crlf"
proof -
  obtain s where s: "init_kvengine rat_ops (\<lambda>_. env0) (\<lambda>_. env0) Map.empty = Some (0, s)" "safe_server s"
    using fresh_safe_server [of rat_ops] by blast
  let ?h = "kvs_handler rat_ops"
  have m: "length (replicate NTY_CO_MAX_STACKSIZE (CHR 0x00)) = NTY_CO_MAX_STACKSIZE" "4 \<le> (64 :: nat)" "64 \<le> NTY_CO_MAX_STACKSIZE"
    by (simp_all add: NTY_CO_MAX_STACKSIZE_def)
  obtain s1 S where r: "each (ntyco_step ?h) demo_answers (demo_start zero_pre s) = Some s1"
      "net_run ?h [Opened 7, Request 7 rq0 fly_line] (net_start s) = Some S" "net_rel s1 S"
    using ntyco_serialises [OF s(2) m zero_starts demo_promised [OF zero_mem(1)], of rat_ops] unfolding demo_trace [OF zero_mem(1)] by (elim exE conjE)
  have b: "padded fly_line = request_buffer [''FLY''] (1024 - length fly_line)" "int (length fly_line) = request_length [''FLY'']"
    by (simp_all add: padded_def request_buffer_def zeros_def request_length_def crlf_def BUFFER_LENGTH_def fly_line_def)
  have "kvs_protocol rat_ops rq0 (padded fly_line) (int (length fly_line)) (Some ''default'') s =
      Some (say ''Unknown command'', Some ''default'', s)"
    unfolding b using unknown_request_safe [of "[''FLY'']" rat_ops rq0 "''default''" s]
    by (subst protocol_request) (simp_all add: clean_def KVS_MAX_TOKENS_def quote_def crlf_def say_def command_def fly_line_def)
  then have "out S 7 = ''Unknown command'' @ crlf" using r(2)
    by (auto simp: net_start_def kvs_handler_def say_def crlf_def)
  then show ?thesis by (intro exI [of _ s] exI [of _ "demo_start zero_pre s"] exI [of _ s1] exI [of _ S] conjI s(1) zero_starts r(1, 3))
qed

text \<open>C35: the result of \<open>accept\<close> is not tested, and a reader is created for the descriptor -1. When
  \<open>accept\<close> has failed twice (too many open files, say), the second reader waits for the same
  descriptor as the first, the insertion into the waiting tree collides, and the assertion of
  \<open>nty_schedule_sched_wait\<close> aborts the server.\<close>

theorem failed_accepts_abort:
  "\<exists>s0 s. ntyco_start True True 3 True (Some (replicate NTY_CO_MAX_STACKSIZE (CHR 0x00))) True 0 64 a = Some (Some s0) \<and>
     each (ntyco_step h) failing_answers s0 = Some s \<and> ntyco_step h ans1 s = None"
  by (rule exI, rule exI, rule conjI [OF zero_starts conjI [OF failing_run [OF zero_mem(1)] second_bad_reader [OF zero_mem(1)]]])

text \<open>C36: the reader of a client is given the address of a variable on the stack that all coroutines share.
  When a batch of events has a new client and, handled after it, something to read for an earlier one,
  the coroutine of the earlier client overwrites the variable before the new reader looks at it. In a
  run in which the kernel keeps its promises, nothing fails and the start of the reader does not touch
  the variable, a client is accepted on descriptor 8, its reader takes what the other coroutine has
  left on the stack (0) for the descriptor, and nobody ever waits for descriptor 8.\<close>

theorem stale_descriptor:
  "\<exists>s0 s. ntyco_start True True 3 True (Some (replicate NTY_CO_MAX_STACKSIZE (CHR 0x00))) True 0 64 a = Some (Some s0) \<and>
     promised h (\<lambda>s x. kernel_ok s x \<and> nothing_fails x \<and> entry_ok s x) stale_answers s0 \<and>
     each (ntyco_step h) stale_answers s0 = Some s \<and> nty_trace h stale_answers s0 = [Opened 7, Opened 8] \<and>
     frames s (Ref 2) = Some (Reader_recv 0 ''default'') \<and> poller s 8 = None \<and> 8 \<notin> frame_fd ` ran (frames s)"
proof -
  obtain s where "each (ntyco_step h) stale_answers (demo_start zero_pre a) = Some s"
      "frames s (Ref 2) = Some (Reader_recv 0 ''default'')" "poller s 8 = None" "8 \<notin> frame_fd ` ran (frames s)"
    using stale_run [OF zero_mem(1), of h a] by (elim exE conjE)
  then show ?thesis
    by (intro exI [of _ "demo_start zero_pre a"] exI [of _ s] conjI zero_starts stale_promised [OF zero_mem(1)] stale_trace [OF zero_mem(1)])
qed

end
