(* ===== verification/Vector_Correct.thy ===== *)
theory Vector_Correct
  imports Kvs_Vector "HOL-Library.Multiset"
begin

text \<open>
  Correctness of the vector engine. The exchange sort of the search is shown to sort. The
  index invariant \<open>ix_inv\<close> says that every level up to the level of the entry node is one
  linked chain of exactly the nodes of that level, that live keys are distinct and that the
  deletion counter is exact, for vectors of the full dimension. Under it the pointer walks
  stop, the operations implement a map from keys to vectors, and the search returns the
  nearest of the live vectors it considers, for distances without NaN. These lemmas are about
  the functions of the engine: a vector of 1536 components does not fit into a message of 1024
  bytes, so the server never stores one. The vectors it can store make the insertion read past
  their ends, which is a theorem.
\<close>

section \<open>The exchange sort\<close>

text \<open>A strict weak order, as the comparison of floats other than NaN is.\<close>

definition float_order :: "'f float_ops \<Rightarrow> bool" where
  "float_order F \<longleftrightarrow> (\<forall>x y. f_less F x y \<longrightarrow> \<not> f_less F y x) \<and>
     (\<forall>x y z. f_less F x z \<longrightarrow> f_less F x y \<or> f_less F y z)"

definition not_nearer :: "'f float_ops \<Rightarrow> nat \<times> 'f \<Rightarrow> nat \<times> 'f \<Rightarrow> bool" where
  "not_nearer F a b \<longleftrightarrow> \<not> f_less F (snd b) (snd a)"

lemma not_nearer_refl: "float_order F \<Longrightarrow> not_nearer F a a"
  by (auto simp: float_order_def not_nearer_def)

lemma not_nearer_trans: "float_order F \<Longrightarrow> not_nearer F a b \<Longrightarrow> not_nearer F b c \<Longrightarrow> not_nearer F a c"
  unfolding float_order_def not_nearer_def by blast

lemma not_nearer_less: "float_order F \<Longrightarrow> f_less F (snd a) (snd b) \<Longrightarrow> not_nearer F a b"
  unfolding float_order_def not_nearer_def by blast

lemma length_swap [simp]: "length (swap i j xs) = length xs"
  by (simp add: swap_def)

lemma mset_swap_at: "i < length xs \<Longrightarrow> j < length xs \<Longrightarrow> mset (swap i j xs) = mset xs"
  by (simp add: swap_def mset_swap)

lemma take_swap: "n \<le> i \<Longrightarrow> n \<le> j \<Longrightarrow> take n (swap i j xs) = take n xs"
  by (simp add: swap_def take_update_cancel)

lemma nth_swap: "i < length xs \<Longrightarrow> j < length xs \<Longrightarrow> m < length xs \<Longrightarrow>
    swap i j xs ! m = (if m = j then xs ! i else if m = i then xs ! j else xs ! m)"
  by (auto simp: swap_def nth_list_update)

lemma sort_inner_correct:
  assumes "float_order F" "i < j" "j \<le> length ws" "\<forall>m. i < m \<and> m < j \<longrightarrow> not_nearer F (ws ! i) (ws ! m)"
  shows "mset (sort_inner F i j ws) = mset ws \<and> take i (sort_inner F i j ws) = take i ws \<and>
    (\<forall>m. i < m \<and> m < length ws \<longrightarrow> not_nearer F (sort_inner F i j ws ! i) (sort_inner F i j ws ! m))"
  using assms
proof (induction F i j ws rule: sort_inner.induct)
  case (1 F i j ws)
  show ?case
  proof (cases "j < length ws")
    case False
    then show ?thesis using "1.prems" by (subst (1 2 3 4) sort_inner.simps) auto
  next
    case True
    define ws' where "ws' = (if f_less F (snd (ws ! j)) (snd (ws ! i)) then swap i j ws else ws)"
    have s: "sort_inner F i j ws = sort_inner F i (Suc j) ws'"
      using True by (subst sort_inner.simps) (simp add: ws'_def)
    have i: "i < length ws" using True "1.prems"(2) by simp
    have m: "mset ws' = mset ws" "take i ws' = take i ws" "length ws' = length ws"
      using True i "1.prems"(2) by (auto simp: ws'_def mset_swap_at take_swap)
    have "\<forall>m. i < m \<and> m < Suc j \<longrightarrow> not_nearer F (ws' ! i) (ws' ! m)"
    proof (cases "f_less F (snd (ws ! j)) (snd (ws ! i))")
      case less: True
      then have n: "not_nearer F (ws ! j) (ws ! i)" using not_nearer_less "1.prems"(1) by blast
      have "not_nearer F (ws ! j) (ws ! m)" if "i < m" "m < j" for m
        using not_nearer_trans [OF "1.prems"(1) n] "1.prems"(4) that by blast
      then show ?thesis using n "1.prems"(2) True i by (auto simp: ws'_def less nth_swap less_Suc_eq)
    next
      case False
      then show ?thesis using "1.prems" by (auto simp: ws'_def not_nearer_def less_Suc_eq)
    qed
    then have "mset (sort_inner F i (Suc j) ws') = mset ws' \<and> take i (sort_inner F i (Suc j) ws') = take i ws' \<and>
        (\<forall>m. i < m \<and> m < length ws' \<longrightarrow> not_nearer F (sort_inner F i (Suc j) ws' ! i) (sort_inner F i (Suc j) ws' ! m))"
      unfolding ws'_def [symmetric] using "1.IH" [OF True] "1.prems" True m unfolding ws'_def by auto
    then show ?thesis using s m by simp
  qed
qed

text \<open>A sorted prefix, none of whose elements is farther than one of the rest.\<close>

definition prefix_sorted :: "'f float_ops \<Rightarrow> nat \<Rightarrow> (nat \<times> 'f) list \<Rightarrow> bool" where
  "prefix_sorted F n ws \<longleftrightarrow> (\<forall>a b. a < n \<and> a < b \<and> b < length ws \<longrightarrow> not_nearer F (ws ! a) (ws ! b))"

lemma sort_outer_correct:
  assumes "float_order F" "i \<le> length ws" "prefix_sorted F i ws"
  shows "mset (sort_outer F i ws) = mset ws \<and> sorted_wrt (not_nearer F) (sort_outer F i ws)"
  using assms
proof (induction F i ws rule: sort_outer.induct)
  case (1 F i ws)
  show ?case
  proof (cases "int i < int (length ws) - 1")
    case False
    then have "length ws \<le> Suc i" by simp
    then have "sorted_wrt (not_nearer F) ws"
      using "1.prems"(3) by (auto simp: sorted_wrt_iff_nth_less prefix_sorted_def)
    then show ?thesis using False by (simp add: sort_outer.simps)
  next
    case True
    then have i: "Suc i \<le> length ws" by simp
    let ?ws = "sort_inner F i (Suc i) ws"
    have c: "mset ?ws = mset ws" "take i ?ws = take i ws"
        "\<And>m. i < m \<Longrightarrow> m < length ws \<Longrightarrow> not_nearer F (?ws ! i) (?ws ! m)"
      using sort_inner_correct [OF "1.prems"(1) lessI i] not_less_eq by blast+
    have low: "?ws ! a = ws ! a" if "a < i" for a using c(2) that by (metis nth_take)
    have "mset (take i ?ws @ drop i ?ws) = mset (take i ws @ drop i ws)" using c(1) by simp
    then have "mset (drop i ?ws) = mset (drop i ws)" unfolding mset_append c(2) by simp
    then have dr: "set (drop i ?ws) = set (drop i ws)" by (rule mset_eq_setD)
    have "prefix_sorted F (Suc i) ?ws"
      unfolding prefix_sorted_def
    proof (intro allI impI)
      fix a b assume ab: "a < Suc i \<and> a < b \<and> b < length ?ws"
      show "not_nearer F (?ws ! a) (?ws ! b)"
      proof (cases "a = i")
        case True
        then show ?thesis using c(3) ab by simp
      next
        case False
        then have a: "a < i" using ab by simp
        show ?thesis
        proof (cases "b < i")
          case True
          then show ?thesis using low a ab "1.prems"(3) by (auto simp: prefix_sorted_def)
        next
          case False
          then have "?ws ! b \<in> set (drop i ?ws)" using ab
            by (auto simp: in_set_conv_nth intro!: exI [of _ "b - i"])
          then obtain b' where "b' < length ws - i" "?ws ! b = ws ! (i + b')"
            unfolding dr by (auto simp: in_set_conv_nth)
          then show ?thesis using low [OF a] a "1.prems"(3) by (auto simp: prefix_sorted_def)
        qed
      qed
    qed
    then have "mset (sort_outer F (Suc i) ?ws) = mset ?ws \<and> sorted_wrt (not_nearer F) (sort_outer F (Suc i) ?ws)"
      using "1.IH" [OF True] "1.prems"(1) i by simp
    then show ?thesis using True c(1) by (simp add: sort_outer.simps [of F i ws])
  qed
qed

lemma exchange_sort:
  "float_order F \<Longrightarrow> mset (sort_outer F 0 ws) = mset ws"
  "float_order F \<Longrightarrow> sorted_wrt (not_nearer F) (sort_outer F 0 ws)"
  using sort_outer_correct [of F 0 ws] by (auto simp: prefix_sorted_def)

section \<open>Chains\<close>

text \<open>The nodes on a level, followed from a pointer to NULL.\<close>

fun vpath :: "(nat \<rightharpoonup> 'f HNSWNode) \<Rightarrow> nat \<Rightarrow> nat option \<Rightarrow> nat list \<Rightarrow> bool" where
  "vpath h l p [] \<longleftrightarrow> p = None"
| "vpath h l p (i # is) \<longleftrightarrow> p = Some i \<and>
     (case h i of None \<Rightarrow> False | Some n \<Rightarrow> l < length (nforward n) \<and> vpath h l (nforward n ! l) is)"

text \<open>What the insertion of a node leaves alone.\<close>

definition core :: "'f HNSWNode \<Rightarrow> 'f HNSWNode" where
  "core n = n\<lparr>nforward := [], neighbors_count := []\<rparr>"

lemma core_sel [simp]:
  "nid (core n) = nid n" "nlevel (core n) = nlevel n" "nvec (core n) = nvec n" "ndim (core n) = ndim n"
  "nkey (core n) = nkey n" "is_deleted (core n) = is_deleted n"
  by (simp_all add: core_def)

lemma core_upd [simp]: "core (n\<lparr>nforward := f\<rparr>) = core n" "core (n\<lparr>neighbors_count := c\<rparr>) = core n"
  by (simp_all add: core_def)

definition same_core :: "(nat \<rightharpoonup> 'f HNSWNode) \<Rightarrow> (nat \<rightharpoonup> 'f HNSWNode) \<Rightarrow> bool" where
  "same_core h h' \<longleftrightarrow> (\<forall>i. map_option core (h i) = map_option core (h' i))"

lemma same_core_refl [simp]: "same_core h h"
  by (simp add: same_core_def)

lemma same_core_trans: "same_core a b \<Longrightarrow> same_core b c \<Longrightarrow> same_core a c"
  by (simp add: same_core_def)

lemma same_core_upd: "h i = Some n \<Longrightarrow> core n' = core n \<Longrightarrow> same_core h (h(i \<mapsto> n'))"
  by (auto simp: same_core_def)

lemma same_coreD:
  assumes "same_core h h'" "h i = Some n"
  shows "\<exists>n'. h' i = Some n' \<and> core n' = core n"
  using assms unfolding same_core_def by (metis (no_types, lifting) map_option_eq_Some)

lemma same_coreD2:
  assumes "same_core h h'" "h' i = Some n'"
  shows "\<exists>n. h i = Some n \<and> core n' = core n"
  using assms unfolding same_core_def by (metis (no_types, lifting) map_option_eq_Some)

text \<open>The shape of every node: full dimension, and arrays as long as its level says.\<close>

definition node_ok :: "nat \<Rightarrow> 'f HNSWNode \<Rightarrow> bool" where
  "node_ok i n \<longleftrightarrow> nid n = i \<and> ndim n = MAX_DIM \<and> length (nvec n) = MAX_DIM \<and> nkey n \<noteq> None \<and>
     length (nforward n) = nlevel n + 1 \<and> length (neighbors_count n) = nlevel n + 1"

definition nodes_ok :: "(nat \<rightharpoonup> 'f HNSWNode) \<Rightarrow> bool" where
  "nodes_ok h \<longleftrightarrow> (\<forall>i n. h i = Some n \<longrightarrow> node_ok i n)"

text \<open>The nodes of a level, and a chain of exactly those below \<open>N\<close>.\<close>

definition on_level :: "(nat \<rightharpoonup> 'f HNSWNode) \<Rightarrow> nat \<Rightarrow> nat \<Rightarrow> bool" where
  "on_level h l i \<longleftrightarrow> (case h i of None \<Rightarrow> False | Some n \<Rightarrow> l \<le> nlevel n)"

definition level_chain :: "(nat \<rightharpoonup> 'f HNSWNode) \<Rightarrow> nat \<Rightarrow> nat \<Rightarrow> bool" where
  "level_chain h N l \<longleftrightarrow> (\<exists>is. vpath h l (Some 0) is \<and> distinct is \<and> set is = {i. i < N \<and> on_level h l i})"

lemma on_level_core: "same_core h h' \<Longrightarrow> on_level h' l i = on_level h l i"
  by (auto simp: on_level_def split: option.splits dest: same_coreD same_coreD2) (metis core_sel(2) same_coreD option.inject)+

lemma vpath_frame:
  assumes "\<forall>i \<in> set is. map_option (\<lambda>n. (length (nforward n), nforward n ! l)) (h' i) =
      map_option (\<lambda>n. (length (nforward n), nforward n ! l)) (h i)"
  shows "vpath h' l p is = vpath h l p is"
  using assms
proof (induction "is" arbitrary: p)
  case (Cons i js)
  then show ?case by (auto split: option.splits)
qed simp

lemma vpath_append:
  "vpath h l p (is @ j # js) \<Longrightarrow> vpath h l (Some j) (j # js)"
proof (induction "is" arbitrary: p)
  case (Cons i ks)
  obtain n where "h i = Some n" "vpath h l (nforward n ! l) (ks @ j # js)"
    using Cons.prems by (auto split: option.splits)
  then show ?case using Cons.IH by blast
qed simp

section \<open>The insertion walk stops\<close>

lemma dist_from_total:
  assumes "dm \<le> length a" "dm \<le> length b"
  shows "\<exists>d. dist_from F a b dm i acc = Some d"
  using assms
proof (induction F a b dm i acc rule: dist_from.induct)
  case (1 F a b dm i acc)
  then show ?case by (cases "i < dm") (auto simp: dist_from.simps [of F a b dm i] Let_def)
qed

lemma euclidean_total:
  "dm \<le> length a \<Longrightarrow> dm \<le> length b \<Longrightarrow> \<exists>d. euclidean_distance F a b dm = Some d"
  using dist_from_total [of dm a b F 0 "f_lit F 0"] by (auto simp: euclidean_distance_def)

lemma insert_walk_stops:
  assumes "vpath (nodes ix) l (Some c) (c # js)" "nodes_ok (nodes ix)" "idim ix = MAX_DIM" "length v = MAX_DIM"
  shows "\<exists>prev' c'. insert_walk F ix v l prev c d = Some (prev', c') \<and>
    (prev' = prev \<and> c' = c \<or> (\<exists>p. prev' = Some p \<and> p \<in> set (c # js)))"
  using assms
proof (induction js arbitrary: c prev d)
  case (Cons j js)
  obtain n where n: "nodes ix c = Some n" "l < length (nforward n)" "vpath (nodes ix) l (nforward n ! l) (j # js)"
    using Cons.prems(1) by (auto split: option.splits)
  obtain m where m: "nodes ix j = Some m" "nforward n ! l = Some j" using n(3) by (auto split: option.splits)
  have "length (nvec m) = MAX_DIM" using Cons.prems(2) m(1) by (simp add: nodes_ok_def node_ok_def)
  then obtain d' where d': "euclidean_distance F v (nvec m) (idim ix) = Some d'"
    using euclidean_total [of "idim ix" v "nvec m" F] Cons.prems(3, 4) by auto
  have s: "insert_walk F ix v l prev c d =
      (if l \<le> nlevel n \<and> f_less F d' d then insert_walk F ix v l (Some c) j d' else Some (prev, c))"
    using n m d' by (subst insert_walk.simps) simp
  show ?case
  proof (cases "l \<le> nlevel n \<and> f_less F d' d")
    case True
    have "vpath (nodes ix) l (Some j) (j # js)" using n(3) m(2) by simp
    from Cons.IH [OF this Cons.prems(2-4), of "Some c" d'] show ?thesis unfolding s using True by auto
  qed (unfold s, auto)
qed (subst insert_walk.simps, auto split: option.splits)

text \<open>The node behind which the walk inserts.\<close>

lemma insert_point:
  assumes "vpath (nodes ix) l (Some c) (c # js)" "nodes_ok (nodes ix)" "idim ix = MAX_DIM" "length v = MAX_DIM"
  shows "\<exists>prev c'. insert_walk F ix v l None c d = Some (prev, c') \<and>
    (case prev of None \<Rightarrow> c' | Some p \<Rightarrow> p) \<in> set (c # js)"
  using insert_walk_stops [OF assms, of F None d] by auto

text \<open>Linking a node into the chain of a level.\<close>

lemma vpath_insert:
  assumes "vpath h l p is" "distinct is" "q \<in> set is" "new \<notin> set is"
    and "h q = Some n" "h new = Some m" "l < length (nforward m)"
  shows "\<exists>js. vpath (h(new \<mapsto> m\<lparr>nforward := (nforward m)[l := nforward n ! l], neighbors_count := c\<rparr>,
      q \<mapsto> n\<lparr>nforward := (nforward n)[l := Some new]\<rparr>)) l p js \<and> distinct js \<and> set js = insert new (set is)"
    (is "\<exists>js. vpath ?h l p js \<and> _ js")
  using assms
proof (induction "is" arbitrary: p)
  case (Cons i js)
  have nq: "new \<noteq> q" using Cons.prems(3, 4) by auto
  obtain k where k: "h i = Some k" "p = Some i" "l < length (nforward k)" "vpath h l (nforward k ! l) js"
    using Cons.prems(1) by (auto split: option.splits)
  show ?case
  proof (cases "i = q")
    case True
    then have "k = n" "q \<notin> set js" "new \<notin> set js" using k Cons.prems by auto
    then have "vpath ?h l (nforward n ! l) js" using k(4) by (subst vpath_frame [of js l ?h h]) auto
    then have "vpath ?h l p (q # new # js)" using True k nq Cons.prems(5-7) \<open>k = n\<close> by simp
    moreover have "distinct (q # new # js)" "set (q # new # js) = insert new (set (i # js))"
      using True Cons.prems(2, 4) nq by auto
    ultimately show ?thesis by blast
  next
    case False
    then have "q \<in> set js" "new \<notin> set js" "distinct js" "i \<noteq> new" using Cons.prems by auto
    then obtain ks where ks: "vpath ?h l (nforward k ! l) ks" "distinct ks" "set ks = insert new (set js)"
      using Cons.IH [OF k(4)] Cons.prems(5-7) by blast
    have "vpath ?h l p (i # ks)" using False k ks(1) \<open>i \<noteq> new\<close> by simp
    moreover have "distinct (i # ks)" "set (i # ks) = insert new (set (i # js))"
      using ks(2, 3) Cons.prems(2, 4) by auto
    ultimately show ?thesis by blast
  qed
qed simp

lemma link_level_eq:
  assumes "nodes ix q = Some n" "nodes ix new = Some m" "q \<noteq> new"
    and "l < length (nforward n)" "l < length (nforward m)" "l < length (neighbors_count m)"
  shows "\<exists>c. length c = length (neighbors_count m) \<and> link_level ix new q l = Some (ix\<lparr>nodes := (nodes ix)
    (new \<mapsto> m\<lparr>nforward := (nforward m)[l := nforward n ! l], neighbors_count := c\<rparr>,
     q \<mapsto> n\<lparr>nforward := (nforward n)[l := Some new]\<rparr>)\<rparr>)"
  using assms
  by (intro exI [of _ "(neighbors_count m)[l := if neighbors_count m ! l + 1 > M_MAX then M_MAX
      else neighbors_count m ! l + 1]"])
    (simp add: link_level_def Let_def fun_upd_twist)

text \<open>The index while a node is being linked: the levels from \<open>k\<close> on are done.\<close>

definition building :: "'f HNSWIndex \<Rightarrow> nat \<Rightarrow> nat \<Rightarrow> bool" where
  "building ix new k \<longleftrightarrow> nodes_ok (nodes ix) \<and> idim ix = MAX_DIM \<and> 0 < new \<and> nodes ix new \<noteq> None \<and>
     nodes ix 0 \<noteq> None \<and>
     (\<forall>l. on_level (nodes ix) l 0 \<longrightarrow> level_chain (nodes ix) (if l < k then new else Suc new) l)"

lemma level_chain_frame:
  assumes "level_chain h N l" "same_core h h'"
    and "\<forall>i. map_option (\<lambda>n. (length (nforward n), nforward n ! l)) (h' i) =
      map_option (\<lambda>n. (length (nforward n), nforward n ! l)) (h i)"
  shows "level_chain h' N l"
proof -
  obtain "is" where "vpath h l (Some 0) is" "distinct is" "set is = {i. i < N \<and> on_level h l i}"
    using assms(1) by (auto simp: level_chain_def)
  moreover have "vpath h' l (Some 0) is = vpath h l (Some 0) is" using assms(3) by (intro vpath_frame) simp
  ultimately show ?thesis unfolding level_chain_def on_level_core [OF assms(2)] by blast
qed

lemma level_chain_skip:
  "level_chain h new l \<Longrightarrow> \<not> on_level h l new \<Longrightarrow> level_chain h (Suc new) l"
  by (auto simp: level_chain_def less_Suc_eq)

lemma level_chain_link:
  assumes "level_chain h new l" "q < new" "on_level h l q" "on_level h l new"
    and "h q = Some n" "h new = Some m" "l < length (nforward m)" "same_core h h'"
    and "h' = h(new \<mapsto> m\<lparr>nforward := (nforward m)[l := nforward n ! l], neighbors_count := c\<rparr>,
      q \<mapsto> n\<lparr>nforward := (nforward n)[l := Some new]\<rparr>)"
  shows "level_chain h' (Suc new) l"
proof -
  obtain "is" where i: "vpath h l (Some 0) is" "distinct is" "set is = {i. i < new \<and> on_level h l i}"
    using assms(1) by (auto simp: level_chain_def)
  obtain js where "vpath h' l (Some 0) js" "distinct js" "set js = insert new (set is)"
    using vpath_insert [OF i(1, 2) _ _ assms(5-7)] i(3) assms(2, 3) unfolding assms(9) by blast
  moreover have "insert new (set is) = {i. i < Suc new \<and> on_level h' l i}"
    using i(3) assms(4) by (auto simp: on_level_core [OF assms(8)] less_Suc_eq)
  ultimately show ?thesis unfolding level_chain_def by auto
qed

lemma nodes_ok_linked:
  assumes "nodes_ok h" "h q = Some n" "h new = Some m" "length c = length (neighbors_count m)"
  shows "nodes_ok (h(new \<mapsto> m\<lparr>nforward := (nforward m)[l := p], neighbors_count := c\<rparr>,
      q \<mapsto> n\<lparr>nforward := (nforward n)[l := p']\<rparr>))"
  using assms by (auto simp: nodes_ok_def node_ok_def)

lemma insert_level_correct:
  assumes "building ix new (Suc l)"
  shows "\<exists>h. insert_level F ix new 0 l = Some (ix\<lparr>nodes := h\<rparr>) \<and> building (ix\<lparr>nodes := h\<rparr>) new l \<and>
    same_core (nodes ix) h"
proof -
  let ?h = "nodes ix"
  have b: "nodes_ok ?h" "idim ix = MAX_DIM" "0 < new"
    and ch: "\<And>l'. on_level ?h l' 0 \<Longrightarrow> level_chain ?h (if l' < Suc l then new else Suc new) l'"
    using assms by (auto simp: building_def)
  obtain z m where z: "?h 0 = Some z" and m: "?h new = Some m" using assms by (auto simp: building_def)
  have ok: "node_ok 0 z" "node_ok new m" using b(1) z m by (auto simp: nodes_ok_def)
  show ?thesis
  proof (cases "l \<le> nlevel m \<and> l \<le> nlevel z")
    case False
    have "level_chain ?h (if l' < l then new else Suc new) l'" if "on_level ?h l' 0" for l'
      using ch [OF that] level_chain_skip [of ?h new l'] False that z m
      by (cases "l' = l") (auto simp: on_level_def less_Suc_eq split: if_splits)
    then have "building (ix\<lparr>nodes := ?h\<rparr>) new l" using assms by (simp add: building_def)
    then show ?thesis using False z m by (intro exI [of _ ?h]) (auto simp: insert_level_def)
  next
    case True
    have lc: "level_chain ?h new l" using ch [of l] True z by (simp add: on_level_def)
    then obtain "is" where i: "vpath ?h l (Some 0) is" "set is = {i. i < new \<and> on_level ?h l i}"
      by (auto simp: level_chain_def)
    then obtain js where js: "is = 0 # js" by (cases "is") auto
    obtain d where d: "euclidean_distance F (nvec m) (nvec z) (idim ix) = Some d"
      using euclidean_total [of "idim ix" "nvec m" "nvec z" F] ok b(2) by (auto simp: node_ok_def)
    obtain prev c' where w: "insert_walk F ix (nvec m) l None 0 d = Some (prev, c')"
        "(case prev of None \<Rightarrow> c' | Some p \<Rightarrow> p) \<in> set is"
      using insert_point [OF i(1) [unfolded js] b(1, 2), of "nvec m" F d] ok js by (auto simp: node_ok_def)
    define q where "q = (case prev of None \<Rightarrow> c' | Some p \<Rightarrow> p)"
    have q: "q < new" "on_level ?h l q" using w(2) i(2) by (auto simp: q_def)
    obtain n where n: "?h q = Some n" "l < length (nforward n)"
      using q(2) b(1) by (fastforce simp: on_level_def nodes_ok_def node_ok_def split: option.splits)
    obtain c where c: "length c = length (neighbors_count m)" and lk: "link_level ix new q l = Some (ix\<lparr>nodes := ?h
        (new \<mapsto> m\<lparr>nforward := (nforward m)[l := nforward n ! l], neighbors_count := c\<rparr>,
         q \<mapsto> n\<lparr>nforward := (nforward n)[l := Some new]\<rparr>)\<rparr>)"
      using link_level_eq [OF n(1) m _ n(2)] q(1) True ok by (fastforce simp: node_ok_def)
    define h where "h = ?h(new \<mapsto> m\<lparr>nforward := (nforward m)[l := nforward n ! l], neighbors_count := c\<rparr>,
         q \<mapsto> n\<lparr>nforward := (nforward n)[l := Some new]\<rparr>)"
    have sc: "same_core ?h h" using n m q(1) by (auto simp: h_def same_core_def)
    have "level_chain h (if l' < l then new else Suc new) l'" if l': "on_level h l' 0" for l'
    proof (cases "l' = l")
      case True
      then show ?thesis
        using level_chain_link [OF lc q _ n(1) m _ sc h_def] \<open>l \<le> nlevel m \<and> _\<close> ok m
        by (simp add: node_ok_def on_level_def)
    next
      case False
      have "level_chain ?h (if l' < Suc l then new else Suc new) l'"
        using ch l' by (simp add: on_level_core [OF sc])
      then have "level_chain h (if l' < Suc l then new else Suc new) l'"
        by (rule level_chain_frame [OF _ sc]) (use False n m q(1) in \<open>auto simp: h_def\<close>)
      then show ?thesis using False by (simp add: less_Suc_eq)
    qed
    moreover have "nodes_ok h" unfolding h_def by (rule nodes_ok_linked [OF b(1) n(1) m c])
    ultimately have "building (ix\<lparr>nodes := h\<rparr>) new l" using b(2, 3) m z by (auto simp: building_def h_def)
    moreover have "insert_level F ix new 0 l = Some (ix\<lparr>nodes := h\<rparr>)"
      using True z m d w(1) lk by (simp add: insert_level_def q_def h_def)
    ultimately show ?thesis using sc by blast
  qed
qed

lemma insert_levels_correct:
  assumes "building ix new k"
  shows "\<exists>h. insert_levels F ix new 0 k = Some (ix\<lparr>nodes := h\<rparr>) \<and> building (ix\<lparr>nodes := h\<rparr>) new 0 \<and>
    same_core (nodes ix) h"
  using assms
proof (induction k arbitrary: ix)
  case 0
  then show ?case by (intro exI [of _ "nodes ix"]) simp
next
  case (Suc l)
  obtain h where h: "insert_level F ix new 0 l = Some (ix\<lparr>nodes := h\<rparr>)" "building (ix\<lparr>nodes := h\<rparr>) new l"
      "same_core (nodes ix) h"
    using insert_level_correct [OF Suc.prems] by blast
  obtain h' where "insert_levels F (ix\<lparr>nodes := h\<rparr>) new 0 l = Some (ix\<lparr>nodes := h'\<rparr>)"
      "building (ix\<lparr>nodes := h'\<rparr>) new 0" "same_core h h'"
    using Suc.IH [OF h(2)] by auto
  then show ?case using h(1) same_core_trans [OF h(3)] by auto
qed

section \<open>The index invariant\<close>

definition ix_shape :: "'f HNSWIndex \<Rightarrow> bool" where
  "ix_shape ix \<longleftrightarrow> nodes_ok (nodes ix) \<and> idim ix = MAX_DIM \<and> dom (nodes ix) = {..<isize ix} \<and>
     isize ix \<le> imax_size ix \<and> imax_size ix = MAX_ELEMENTS \<and> enterpoint_id ix = 0 \<and>
     (\<forall>l. on_level (nodes ix) l 0 \<longrightarrow> level_chain (nodes ix) (isize ix) l)"

lemma same_core_dom: "same_core h h' \<Longrightarrow> dom h' = dom h"
  unfolding same_core_def dom_def by (metis option.map_disc_iff)

lemma level_chain_extend:
  assumes "level_chain h N l" "h N = None"
  shows "level_chain (h(N \<mapsto> n)) N l"
proof -
  obtain "is" where i: "vpath h l (Some 0) is" "distinct is" "set is = {i. i < N \<and> on_level h l i}"
    using assms(1) by (auto simp: level_chain_def)
  have "vpath (h(N \<mapsto> n)) l (Some 0) is" using i(1, 3) by (subst vpath_frame [of "is" l _ h]) auto
  moreover have "set is = {i. i < N \<and> on_level (h(N \<mapsto> n)) l i}" using i(3) by (auto simp: on_level_def)
  ultimately show ?thesis using i(2) by (auto simp: level_chain_def)
qed

lemma insert_hnsw_correct:
  assumes "ix_shape ix" "isize ix < MAX_ELEMENTS" "node_ok (isize ix) (node\<lparr>nid := isize ix\<rparr>)"
    and "nforward node = replicate (nlevel node + 1) None"
  shows "\<exists>ix'. insert_hnsw F ix node = Some (0, ix') \<and> ix_shape ix' \<and> isize ix' = isize ix + 1 \<and>
    deleted_count ix' = deleted_count ix \<and>
    same_core ((nodes ix)(isize ix \<mapsto> node\<lparr>nid := isize ix\<rparr>)) (nodes ix')"
proof -
  let ?new = "isize ix" and ?n = "node\<lparr>nid := isize ix\<rparr>"
  let ?h = "(nodes ix)(?new \<mapsto> ?n)"
  have sh: "nodes_ok (nodes ix)" "idim ix = MAX_DIM" "dom (nodes ix) = {..<?new}" "imax_size ix = MAX_ELEMENTS"
      "enterpoint_id ix = 0" "\<And>l. on_level (nodes ix) l 0 \<Longrightarrow> level_chain (nodes ix) ?new l"
    using assms(1) by (auto simp: ix_shape_def)
  have fresh: "nodes ix ?new = None" using sh(3) by auto
  have ok: "nodes_ok ?h" using sh(1) assms(3) by (auto simp: nodes_ok_def)
  have dm: "dom ?h = {..<Suc ?new}" using sh(3) by auto
  show ?thesis
  proof (cases "?new = 0")
    case True
    have "nforward node ! l = None" if "l \<le> nlevel node" for l
      using that unfolding assms(4) by (subst nth_replicate) simp_all
    then have "vpath ?h l (Some 0) [0]" "distinct [0]" "set [0] = {i. i < Suc 0 \<and> on_level ?h l i}"
      if "on_level ?h l 0" for l
      using that True assms(4) by (auto simp: on_level_def)
    then have "level_chain ?h (Suc 0) l" if "on_level ?h l 0" for l
      unfolding level_chain_def using that by blast
    then show ?thesis
      using True sh(2, 4) ok dm assms(2) by (auto simp: insert_hnsw_def ix_shape_def Let_def)
  next
    case False
    define ix1 where "ix1 = (let ix = ix\<lparr>nodes := ?h, isize := isize ix + 1\<rparr> in
      if nlevel node > imax_level ix then ix\<lparr>imax_level := nlevel node\<rparr> else ix)"
    have ix1: "nodes ix1 = ?h" "idim ix1 = MAX_DIM" "isize ix1 = Suc ?new" "imax_size ix1 = MAX_ELEMENTS"
        "enterpoint_id ix1 = 0" "nlevel node \<le> imax_level ix1" "deleted_count ix1 = deleted_count ix"
      using sh by (auto simp: ix1_def Let_def)
    have "level_chain ?h (if l < Suc (imax_level ix1) then ?new else Suc ?new) l" if "on_level ?h l 0" for l
    proof -
      have "level_chain (nodes ix) ?new l" using sh(6) [of l] that False by (simp add: on_level_def)
      then have "level_chain ?h ?new l" using fresh by (rule level_chain_extend)
      moreover have "\<not> on_level ?h l ?new" if "\<not> l < Suc (imax_level ix1)"
        using that ix1(6) by (simp add: on_level_def)
      ultimately show ?thesis using level_chain_skip by auto
    qed
    moreover have "0 \<in> dom (nodes ix)" using sh(3) False by simp
    ultimately have "building ix1 ?new (imax_level ix1 + 1)"
      using ok ix1(1, 2) False by (auto simp: building_def)
    then obtain h where h: "insert_levels F ix1 ?new 0 (imax_level ix1 + 1) = Some (ix1\<lparr>nodes := h\<rparr>)"
        "building (ix1\<lparr>nodes := h\<rparr>) ?new 0" "same_core ?h h"
      using insert_levels_correct [of ix1 ?new "imax_level ix1 + 1" F] unfolding ix1(1) by blast
    have "ix_shape (ix1\<lparr>nodes := h\<rparr>)"
      using h(2) same_core_dom [OF h(3)] dm ix1 assms(2) by (simp add: ix_shape_def building_def)
    moreover have "insert_hnsw F ix node = Some (0, ix1\<lparr>nodes := h\<rparr>)"
      using h(1) False assms(2) sh(4, 5) ix1(5)
      by (simp add: insert_hnsw_def ix1_def Let_def del: insert_levels.simps split: if_splits)
    ultimately show ?thesis using h(3) ix1 by auto
  qed
qed

section \<open>The map of the live vectors\<close>

definition live :: "(nat \<rightharpoonup> 'f HNSWNode) \<Rightarrow> string \<Rightarrow> nat \<Rightarrow> bool" where
  "live h k i \<longleftrightarrow> (\<exists>n. h i = Some n \<and> \<not> is_deleted n \<and> nkey n = Some k)"

definition dead :: "(nat \<rightharpoonup> 'f HNSWNode) \<Rightarrow> nat set" where
  "dead h = {i. \<exists>n. h i = Some n \<and> is_deleted n}"

definition vectors :: "'f HNSWIndex \<Rightarrow> string \<rightharpoonup> 'f list" where
  "vectors ix k = (case find_live ix k (isize ix) of None \<Rightarrow> None | Some i \<Rightarrow> map_option nvec (nodes ix i))"

definition ix_inv :: "'f HNSWIndex \<Rightarrow> bool" where
  "ix_inv ix \<longleftrightarrow> ix_shape ix \<and> (\<forall>k i j. live (nodes ix) k i \<longrightarrow> live (nodes ix) k j \<longrightarrow> i = j) \<and>
     deleted_count ix = int (card (dead (nodes ix)))"

definition vec_inv :: "'f kvs_vector_t \<Rightarrow> bool" where
  "vec_inv vec \<longleftrightarrow> (case index vec of VPtr ix \<Rightarrow> ix_inv ix \<and> vdim vec = MAX_DIM \<and>
     vcount vec = int (isize ix) - deleted_count ix | _ \<Rightarrow> False)"

definition vec_map :: "'f kvs_vector_t \<Rightarrow> string \<rightharpoonup> 'f list" where
  "vec_map vec = (case index vec of VPtr ix \<Rightarrow> vectors ix | _ \<Rightarrow> Map.empty)"

lemma live_key_live: "live_key ix k i = live (nodes ix) k i"
  by (auto simp: live_key_def live_def split: option.splits)

lemma find_live_Some: "find_live ix k n = Some i \<Longrightarrow> live (nodes ix) k i \<and> i < n"
  by (auto simp: find_live_def find_Some_iff live_key_live)

lemma find_live_None: "find_live ix k n = None \<longleftrightarrow> (\<forall>i<n. \<not> live (nodes ix) k i)"
  by (auto simp: find_live_def find_None_iff live_key_live)

lemma find_live_unique:
  assumes "live (nodes ix) k i" "i < n" "\<And>j. live (nodes ix) k j \<Longrightarrow> j < n \<Longrightarrow> j = i"
  shows "find_live ix k n = Some i"
proof (cases "find_live ix k n")
  case None
  then show ?thesis using assms(1, 2) by (simp add: find_live_None)
next
  case (Some j)
  then show ?thesis using find_live_Some [OF Some] assms(3) by simp
qed

lemma core_eqD: "core n' = core n \<Longrightarrow> nvec n' = nvec n \<and> nkey n' = nkey n \<and> is_deleted n' = is_deleted n"
proof -
  assume eq: "core n' = core n"
  show ?thesis using arg_cong [OF eq, of nvec] arg_cong [OF eq, of nkey] arg_cong [OF eq, of is_deleted] by simp
qed

lemma same_core_cases:
  assumes "same_core h h'"
  obtains "h i = None" "h' i = None"
  | n n' where "h i = Some n" "h' i = Some n'" "nvec n' = nvec n" "nkey n' = nkey n" "is_deleted n' = is_deleted n"
  using assms [unfolded same_core_def, rule_format, of i] that
  by (cases "h i"; cases "h' i") (auto dest!: core_eqD [OF sym])

lemma live_core: "same_core h h' \<Longrightarrow> live h' k i = live h k i"
  by (erule same_core_cases [of h h' i]) (auto simp: live_def)

lemma dead_core: "same_core h h' \<Longrightarrow> dead h' = dead h"
proof -
  assume sc: "same_core h h'"
  have "i \<in> dead h' \<longleftrightarrow> i \<in> dead h" for i
    using sc by (rule same_core_cases [of h h' i]) (auto simp: dead_def)
  then show ?thesis by blast
qed

lemma nvec_core: "same_core h h' \<Longrightarrow> map_option nvec (h' i) = map_option nvec (h i)"
  by (erule same_core_cases [of h h' i]) auto

lemma live_bound: "ix_shape ix \<Longrightarrow> live (nodes ix) k i \<Longrightarrow> i < isize ix"
  by (auto simp: ix_shape_def live_def)

lemma vectors_live:
  assumes "ix_inv ix" "live (nodes ix) k i"
  shows "vectors ix k = map_option nvec (nodes ix i)"
proof -
  have "find_live ix k (isize ix) = Some i"
    using assms live_bound [of ix k i] by (intro find_live_unique) (auto simp: ix_inv_def)
  then show ?thesis by (simp add: vectors_def)
qed

lemma vectors_dead:
  assumes "ix_shape ix"
  shows "vectors ix k = None \<longleftrightarrow> (\<forall>i. \<not> live (nodes ix) k i)"
proof (cases "find_live ix k (isize ix)")
  case None
  then show ?thesis
    using None [unfolded find_live_None] live_bound [OF assms, of k] by (auto simp: vectors_def)
next
  case (Some i)
  then show ?thesis using find_live_Some [OF Some] by (auto simp: vectors_def live_def)
qed

text \<open>A map is determined by its live entries.\<close>

lemma vectors_eqI:
  assumes "ix_inv ix"
    and "\<And>k v. m k = Some v \<Longrightarrow> \<exists>i n. nodes ix i = Some n \<and> live (nodes ix) k i \<and> nvec n = v"
    and "\<And>k. m k = None \<Longrightarrow> \<forall>i. \<not> live (nodes ix) k i"
  shows "vectors ix = m"
proof
  fix k
  show "vectors ix k = m k"
  proof (cases "m k")
    case None
    then show ?thesis using assms vectors_dead [of ix k] by (auto simp: ix_inv_def)
  next
    case (Some v)
    then show ?thesis using assms(2) [OF Some] vectors_live [OF assms(1)] by fastforce
  qed
qed

lemma mark_deleted_nodes:
  "nodes (mark_deleted e ix i) = (nodes ix)(i := map_option (\<lambda>n. n\<lparr>is_deleted := True, delete_time := wall_time e\<rparr>) (nodes ix i))"
  by (simp add: mark_deleted_def)

lemma live_mark: "live (nodes (mark_deleted e ix i)) k j \<longleftrightarrow> live (nodes ix) k j \<and> j \<noteq> i"
  by (auto simp: live_def mark_deleted_nodes)

lemma dead_mark: "i \<in> dom (nodes ix) \<Longrightarrow> dead (nodes (mark_deleted e ix i)) = insert i (dead (nodes ix))"
  by (auto simp: dead_def mark_deleted_nodes)

lemma on_level_mark: "on_level (nodes (mark_deleted e ix i)) l j = on_level (nodes ix) l j"
  by (auto simp: on_level_def mark_deleted_nodes split: option.splits)

lemma level_chain_mark: "level_chain (nodes ix) N l \<Longrightarrow> level_chain (nodes (mark_deleted e ix i)) N l"
proof -
  have "vpath (nodes (mark_deleted e ix i)) l p is = vpath (nodes ix) l p is" for p "is"
    by (rule vpath_frame) (simp add: mark_deleted_nodes option.map_comp comp_def)
  then show "level_chain (nodes ix) N l \<Longrightarrow> ?thesis" by (simp add: level_chain_def on_level_mark)
qed

lemma mark_deleted_sel [simp]:
  "isize (mark_deleted e ix i) = isize ix" "idim (mark_deleted e ix i) = idim ix"
  "imax_size (mark_deleted e ix i) = imax_size ix" "enterpoint_id (mark_deleted e ix i) = enterpoint_id ix"
  "deleted_count (mark_deleted e ix i) = deleted_count ix + 1"
  by (simp_all add: mark_deleted_def)

lemma mark_deleted_shape:
  assumes "ix_shape ix"
  shows "ix_shape (mark_deleted e ix i)"
proof -
  have "nodes_ok (nodes (mark_deleted e ix i))"
    using assms by (auto simp: ix_shape_def nodes_ok_def node_ok_def mark_deleted_nodes)
  moreover have "dom (nodes (mark_deleted e ix i)) = dom (nodes ix)"
    by (auto simp: mark_deleted_nodes split: if_splits)
  ultimately show ?thesis using assms by (simp add: ix_shape_def on_level_mark level_chain_mark)
qed

section \<open>The operations\<close>

text \<open>The vector of a \<open>VSET\<close> value whose dimension is the full one, or out of range, which the
  code reads as the full one.\<close>

definition parse_vec :: "'f float_ops \<Rightarrow> string \<Rightarrow> 'f list option" where
  "parse_vec F s = do {
     (token, rest) \<leftarrow> strtok s;
     if 0 < atoi token \<and> atoi token < int MAX_DIM then None else parse_floats F MAX_DIM rest }"

lemma length_parse_floats: "parse_floats F n s = Some v \<Longrightarrow> length v = n"
  by (induction n arbitrary: s v) (auto split: bind_splits)

lemma finite_dead: "ix_shape ix \<Longrightarrow> finite (dead (nodes ix))"
  by (rule finite_subset [of _ "{..<isize ix}"]) (auto simp: ix_shape_def dead_def)

definition live_slots :: "'f HNSWIndex \<Rightarrow> nat set" where
  "live_slots ix = {i. \<exists>n. nodes ix i = Some n \<and> \<not> is_deleted n}"

lemma live_slots_key: "ix_shape ix \<Longrightarrow> i \<in> live_slots ix \<longleftrightarrow> (\<exists>k. live (nodes ix) k i)"
  by (auto simp: live_slots_def live_def ix_shape_def nodes_ok_def node_ok_def)

lemma live_slots_bound: "ix_shape ix \<Longrightarrow> live_slots ix \<subseteq> {..<isize ix}"
  by (auto simp: ix_shape_def live_slots_def)

lemma card_live:
  assumes "ix_inv ix"
  shows "card (live_slots ix) = card (dom (vectors ix))"
proof -
  let ?key = "\<lambda>i. the (nkey (the (nodes ix i)))"
  have sh: "ix_shape ix" using assms by (simp add: ix_inv_def)
  have key: "live (nodes ix) k i \<Longrightarrow> ?key i = k" for k i by (auto simp: live_def)
  have "inj_on ?key (live_slots ix)"
    using assms key live_slots_key [OF sh] by (auto simp: inj_on_def ix_inv_def)
  moreover have "?key ` live_slots ix = dom (vectors ix)"
  proof (intro set_eqI iffI)
    fix k assume "k \<in> ?key ` live_slots ix"
    then obtain i k' where "live (nodes ix) k' i" "k = ?key i" using live_slots_key [OF sh] by blast
    then have "live (nodes ix) k i" using key by blast
    then show "k \<in> dom (vectors ix)" using vectors_dead [OF sh, of k] by auto
  next
    fix k assume "k \<in> dom (vectors ix)"
    then obtain i where i: "live (nodes ix) k i" using vectors_dead [OF sh, of k] by auto
    then have "i \<in> live_slots ix" using live_slots_key [OF sh] by blast
    then show "k \<in> ?key ` live_slots ix" using key [OF i] by (intro image_eqI [of _ _ i]) simp_all
  qed
  ultimately show ?thesis by (metis card_image)
qed

lemma count_live:
  assumes "ix_inv ix"
  shows "int (isize ix) - deleted_count ix = int (card (dom (vectors ix)))"
proof -
  have sh: "ix_shape ix" using assms by (simp add: ix_inv_def)
  have "{..<isize ix} = dom (nodes ix)" using sh by (simp add: ix_shape_def)
  then have part: "{..<isize ix} = live_slots ix \<union> dead (nodes ix)" "live_slots ix \<inter> dead (nodes ix) = {}"
    by (auto simp: live_slots_def dead_def)
  have fin: "finite (live_slots ix)" using part(1) by (metis finite_Un finite_lessThan)
  have "isize ix = card (live_slots ix) + card (dead (nodes ix))"
    using card_Un_disjoint [OF fin finite_dead [OF sh] part(2)] part(1) by (metis card_lessThan)
  then show ?thesis using assms card_live [OF assms] by (simp add: ix_inv_def)
qed

lemma delete_inv:
  assumes "ix_shape ix" "live (nodes ix) k i" "deleted_count ix = int (card (dead (nodes ix)))"
    and "\<And>k j j'. live (nodes ix) k j \<Longrightarrow> live (nodes ix) k j' \<Longrightarrow> j \<noteq> i \<Longrightarrow> j' \<noteq> i \<Longrightarrow> j = j'"
  shows "ix_inv (mark_deleted e ix i)"
proof -
  have "i \<in> dom (nodes ix)" "i \<notin> dead (nodes ix)" using assms(2) by (auto simp: live_def dead_def)
  then show ?thesis
    using assms finite_dead [OF assms(1)] mark_deleted_shape [OF assms(1)]
    by (auto simp: ix_inv_def live_mark dead_mark)
qed

lemma nvec_mark: "map_option nvec (nodes (mark_deleted e ix i) j) = map_option nvec (nodes ix j)"
  by (auto simp: mark_deleted_nodes option.map_comp comp_def)

lemma delete_vectors:
  assumes "ix_inv ix" "live (nodes ix) k i"
  shows "vectors (mark_deleted e ix i) = (vectors ix)(k := None)"
proof (rule vectors_eqI)
  have sh: "ix_shape ix" and u: "\<And>k i j. live (nodes ix) k i \<Longrightarrow> live (nodes ix) k j \<Longrightarrow> i = j"
    and d: "deleted_count ix = int (card (dead (nodes ix)))"
    using assms(1) by (auto simp: ix_inv_def)
  show "ix_inv (mark_deleted e ix i)" by (rule delete_inv [OF sh assms(2) d]) (use u in blast)
  have ki: "k' = k" if "live (nodes ix) k' i" for k' using that assms(2) by (auto simp: live_def)
  fix k'
  show "\<forall>j. \<not> live (nodes (mark_deleted e ix i)) k' j" if "((vectors ix)(k := None)) k' = None"
    using that vectors_dead [OF sh, of k'] u assms(2) by (auto simp: live_mark split: if_splits)
  fix v assume v: "((vectors ix)(k := None)) k' = Some v"
  then have k': "k' \<noteq> k" "vectors ix k' = Some v" by (auto split: if_splits)
  then obtain j where j: "live (nodes ix) k' j" using vectors_dead [OF sh, of k'] by auto
  then have "map_option nvec (nodes ix j) = Some v" using vectors_live [OF assms(1)] k'(2) by simp
  then obtain n where "nodes (mark_deleted e ix i) j = Some n" "nvec n = v"
    using nvec_mark [of e ix i j] by auto
  moreover have "j \<noteq> i" using ki j k'(1) by blast
  ultimately show "\<exists>j n. nodes (mark_deleted e ix i) j = Some n \<and> live (nodes (mark_deleted e ix i)) k' j \<and> nvec n = v"
    using j live_mark by blast
qed

lemma vectors_update:
  assumes "ix_inv ix" "ix_inv ix2" "nodes ix new = None"
    and lv: "\<And>k' j. live (nodes ix2) k' j \<longleftrightarrow> live (nodes ix) k' j \<and> k' \<noteq> k \<or> j = new \<and> k' = k"
    and nv: "\<And>j. map_option nvec (nodes ix2 j) = (if j = new then Some v else map_option nvec (nodes ix j))"
  shows "vectors ix2 = (vectors ix)(k \<mapsto> v)"
proof (rule vectors_eqI [OF assms(2)])
  have sh: "ix_shape ix" using assms(1) by (simp add: ix_inv_def)
  fix k'
  show "\<forall>i. \<not> live (nodes ix2) k' i" if "((vectors ix)(k \<mapsto> v)) k' = None"
    using that vectors_dead [OF sh, of k'] by (auto simp: lv split: if_splits)
  fix w assume w: "((vectors ix)(k \<mapsto> v)) k' = Some w"
  show "\<exists>i n. nodes ix2 i = Some n \<and> live (nodes ix2) k' i \<and> nvec n = w"
  proof (cases "k' = k")
    case True
    then show ?thesis using w nv [of new] lv by auto
  next
    case False
    then obtain i where i: "live (nodes ix) k' i" using w vectors_dead [OF sh, of k'] by fastforce
    then have "map_option nvec (nodes ix i) = Some w" using vectors_live [OF assms(1) i] w False by simp
    then obtain n where "nodes ix2 i = Some n" "nvec n = w" using nv [of i] assms(3) by (cases "i = new") auto
    then show ?thesis using lv i False by blast
  qed
qed

lemma insert_vectors:
  assumes "ix_inv ix" "isize ix < MAX_ELEMENTS" "node_ok (isize ix) (node\<lparr>nid := isize ix\<rparr>)"
    and "nforward node = replicate (nlevel node + 1) None" "nkey node = Some k" "\<not> is_deleted node"
  shows "\<exists>ix'. insert_hnsw F ix node = Some (0, ix') \<and> isize ix' = isize ix + 1 \<and>
    (case find_live ix' k (isize ix' - 1) of
       None \<Rightarrow> deleted_count ix' = deleted_count ix \<and> ix_inv ix' \<and> vectors ix' = (vectors ix)(k \<mapsto> nvec node)
     | Some i \<Rightarrow> deleted_count ix' = deleted_count ix \<and> ix_inv (mark_deleted e ix' i) \<and>
         vectors (mark_deleted e ix' i) = (vectors ix)(k \<mapsto> nvec node))"
proof -
  let ?new = "isize ix" and ?n = "node\<lparr>nid := isize ix\<rparr>"
  let ?h = "(nodes ix)(?new \<mapsto> ?n)"
  have sh: "ix_shape ix" and u: "\<And>k i j. live (nodes ix) k i \<Longrightarrow> live (nodes ix) k j \<Longrightarrow> i = j"
    and d: "deleted_count ix = int (card (dead (nodes ix)))"
    using assms(1) by (auto simp: ix_inv_def)
  obtain ix' where ix': "insert_hnsw F ix node = Some (0, ix')" "ix_shape ix'" "isize ix' = ?new + 1"
      "deleted_count ix' = deleted_count ix" and sc: "same_core ?h (nodes ix')"
    using insert_hnsw_correct [OF sh assms(2-4)] by blast
  have fresh: "nodes ix ?new = None" using sh by (auto simp: ix_shape_def)
  have lv: "live (nodes ix') k' i \<longleftrightarrow> live (nodes ix) k' i \<or> i = ?new \<and> k' = k" for k' i
    unfolding live_core [OF sc] using fresh assms(5, 6) by (auto simp: live_def)
  have dd: "dead (nodes ix') = dead (nodes ix)"
    unfolding dead_core [OF sc] using fresh assms(6) by (auto simp: dead_def)
  have nv: "map_option nvec (nodes ix' i) = (if i = ?new then Some (nvec node) else map_option nvec (nodes ix i))" for i
    using nvec_core [OF sc, of i] by simp
  have old: "i < ?new" if "live (nodes ix) k' i" for k' i using live_bound [OF sh that] .
  show ?thesis
  proof (cases "find_live ix' k ?new")
    case None
    then have nk: "\<not> live (nodes ix) k i" for i using find_live_None [of ix' k ?new] lv old by blast
    have inv: "ix_inv ix'" using ix'(2, 4) d dd u nk by (auto simp: ix_inv_def lv)
    have "vectors ix' = (vectors ix)(k \<mapsto> nvec node)"
      by (rule vectors_update [OF assms(1) inv fresh]) (use nk in \<open>auto simp: lv nv\<close>)
    then show ?thesis using ix' None inv by simp
  next
    case (Some i)
    have i: "live (nodes ix) k i" "i < ?new" using find_live_Some [OF Some] lv by auto
    have inv: "ix_inv (mark_deleted e ix' i)"
      by (rule delete_inv [of ix' k]) (use ix'(2, 4) d dd u i in \<open>auto simp: lv\<close>)
    have "k' = k \<longleftrightarrow> j = i" if "live (nodes ix) k' j" for k' j using that i(1) u by (auto simp: live_def)
    then have "vectors (mark_deleted e ix' i) = (vectors ix)(k \<mapsto> nvec node)"
      by (intro vectors_update [OF assms(1) inv fresh]) (use i in \<open>auto simp: lv nv live_mark nvec_mark\<close>)
    then show ?thesis using ix' Some inv by simp
  qed
qed

text \<open>Each operation on a well-formed engine.\<close>

lemma vec_invE:
  assumes "vec_inv vec"
  obtains ix where "index vec = VPtr ix" "ix_inv ix" "vdim vec = MAX_DIM"
    "vcount vec = int (isize ix) - deleted_count ix" "the_index vec = Some (Some ix)" "vec_map vec = vectors ix"
  using assms by (auto simp: vec_inv_def the_index_def vec_map_def split: vptr.splits)

definition used :: "'f kvs_vector_t \<Rightarrow> nat" where
  "used vec = (case index vec of VPtr ix \<Rightarrow> isize ix | _ \<Rightarrow> 0)"

lemma parse_vecE:
  assumes "parse_vec F s = Some v"
  obtains token rest where "strtok s = Some (token, rest)" "parse_floats F MAX_DIM rest = Some v"
    "effective_dim MAX_DIM (atoi token) = MAX_DIM"
proof -
  obtain token rest where "strtok s = Some (token, rest)" "parse_floats F MAX_DIM rest = Some v"
      "\<not> (0 < atoi token \<and> atoi token < int MAX_DIM)"
    using assms by (auto simp: parse_vec_def split: bind_splits if_splits)
  moreover from this(3) have "effective_dim MAX_DIM (atoi token) = MAX_DIM" by (auto simp: effective_dim_def)
  ultimately show thesis using that by blast
qed

lemma vector_set_new:
  assumes "vec_inv vec" "env_ok e" "parse_vec F s = Some v" "used vec < MAX_ELEMENTS"
  shows "\<exists>vec'. kvs_vector_set F e vec (Some k) (Some s) = Some (0, vec') \<and> vec_inv vec' \<and>
    vec_map vec' = (vec_map vec)(k \<mapsto> v) \<and> used vec' = used vec + 1"
proof -
  obtain ix where ix: "index vec = VPtr ix" "ix_inv ix" "vdim vec = MAX_DIM"
      "vcount vec = int (isize ix) - deleted_count ix" "the_index vec = Some (Some ix)" "vec_map vec = vectors ix"
    using vec_invE [OF assms(1)] .
  obtain token rest where t: "strtok s = Some (token, rest)" "parse_floats F MAX_DIM rest = Some v"
      "effective_dim MAX_DIM (atoi token) = MAX_DIM"
    using parse_vecE [OF assms(3)] .
  let ?lv = "random_level F e (ml ix)"
  obtain node where node: "hnsw_create_node e (isize ix) v MAX_DIM ?lv (Some k) = Some node"
      "node_ok (isize ix) (node\<lparr>nid := isize ix\<rparr>)" "nforward node = replicate (nlevel node + 1) None"
      "nkey node = Some k" "\<not> is_deleted node" "nvec node = v"
    using assms(2) length_parse_floats [OF t(2)] by (auto simp: hnsw_create_node_def node_ok_def)
  have room: "isize ix < MAX_ELEMENTS" using assms(4) ix(1) by (simp add: used_def)
  obtain ix' where ix': "insert_hnsw F ix node = Some (0, ix')" "isize ix' = isize ix + 1"
      "case find_live ix' k (isize ix' - 1) of
         None \<Rightarrow> deleted_count ix' = deleted_count ix \<and> ix_inv ix' \<and> vectors ix' = (vectors ix)(k \<mapsto> v)
       | Some i \<Rightarrow> deleted_count ix' = deleted_count ix \<and> ix_inv (mark_deleted e ix' i) \<and>
           vectors (mark_deleted e ix' i) = (vectors ix)(k \<mapsto> v)"
    using insert_vectors [OF ix(2) room node(2-5), of F e] node(6) by auto
  have "kvs_vector_set F e vec (Some k) (Some s) = Some (0, case find_live ix' k (isize ix' - 1) of
        None \<Rightarrow> vec\<lparr>index := VPtr ix', vcount := vcount vec + 1\<rparr>
      | Some i \<Rightarrow> vec\<lparr>index := VPtr (mark_deleted e ix' i), vcount := vcount vec - 1 + 1\<rparr>)"
    using ix(3, 5) t node(1) ix'(1) assms(2) by (simp add: kvs_vector_set_def Let_def)
  then show ?thesis
    using ix'(2, 3) ix by (auto simp: vec_inv_def vec_map_def used_def split: option.splits)
qed

lemma vector_set_full:
  assumes "vec_inv vec" "env_ok e" "parse_vec F s = Some v" "\<not> used vec < MAX_ELEMENTS"
  shows "kvs_vector_set F e vec (Some k) (Some s) = Some (-1, vec)"
proof -
  obtain ix where ix: "index vec = VPtr ix" "ix_inv ix" "vdim vec = MAX_DIM" "the_index vec = Some (Some ix)"
    using vec_invE [OF assms(1)] by blast
  have "isize ix \<ge> imax_size ix" using assms(4) ix(1, 2) by (auto simp: used_def ix_inv_def ix_shape_def)
  moreover have "(vec\<lparr>index := VPtr ix\<rparr>) = vec" using ix(1) by (cases vec) simp
  moreover obtain token rest where "strtok s = Some (token, rest)" "parse_floats F MAX_DIM rest = Some v"
      "effective_dim MAX_DIM (atoi token) = MAX_DIM"
    using parse_vecE [OF assms(3)] .
  ultimately show ?thesis
    using ix assms(2) by (simp add: kvs_vector_set_def Let_def hnsw_create_node_def insert_hnsw_def)
qed

lemma vector_del:
  assumes "vec_inv vec"
  shows "\<exists>vec'. kvs_vector_del e vec (Some k) = Some (if vec_map vec k = None then -2 else 0, vec') \<and>
    vec_inv vec' \<and> vec_map vec' = (vec_map vec)(k := None) \<and> used vec' = used vec"
proof -
  obtain ix where ix: "index vec = VPtr ix" "ix_inv ix" "vdim vec = MAX_DIM"
      "vcount vec = int (isize ix) - deleted_count ix" "the_index vec = Some (Some ix)" "vec_map vec = vectors ix"
    using vec_invE [OF assms(1)] .
  have sh: "ix_shape ix" using ix(2) by (simp add: ix_inv_def)
  show ?thesis
  proof (cases "find_live ix k (isize ix)")
    case None
    then have "vectors ix k = None" by (simp add: vectors_def)
    then show ?thesis using None ix assms by (auto simp: kvs_vector_del_def fun_upd_idem)
  next
    case (Some i)
    have l: "live (nodes ix) k i" using find_live_Some [OF Some] by simp
    have "ix_inv (mark_deleted e ix i)"
      by (rule delete_inv [OF sh l]) (use ix(2) in \<open>auto simp: ix_inv_def\<close>)
    moreover have "vectors ix k \<noteq> None" using vectors_dead [OF sh] l by blast
    ultimately show ?thesis
      using Some ix delete_vectors [OF ix(2) l, of e]
      by (auto simp: kvs_vector_del_def vec_inv_def vec_map_def used_def)
  qed
qed

lemma vector_exist:
  assumes "vec_inv vec"
  shows "kvs_vector_exist vec (Some k) = Some (if vec_map vec k = None then 1 else 0)"
proof -
  obtain ix where ix: "ix_inv ix" "the_index vec = Some (Some ix)" "vec_map vec = vectors ix"
    using vec_invE [OF assms(1)] by metis
  have sh: "ix_shape ix" using ix(1) by (simp add: ix_inv_def)
  have "vectors ix k = None \<longleftrightarrow> find_live ix k (isize ix) = None"
    unfolding vectors_dead [OF sh] find_live_None using live_bound [OF sh] by blast
  then show ?thesis using ix by (simp add: kvs_vector_exist_def)
qed

lemma vector_count: "vec_inv vec \<Longrightarrow> kvs_vector_count vec = Some (int (card (dom (vec_map vec))))"
  by (erule vec_invE) (simp add: kvs_vector_count_def count_live)

section \<open>Contract of a vector store\<close>

record 's vector_ops =
  vop_set :: "env \<Rightarrow> 's \<Rightarrow> cstr \<Rightarrow> cstr \<Rightarrow> (int \<times> 's) option"
  vop_del :: "env \<Rightarrow> 's \<Rightarrow> cstr \<Rightarrow> (int \<times> 's) option"
  vop_exist :: "'s \<Rightarrow> cstr \<Rightarrow> int option"
  vop_count :: "'s \<Rightarrow> int option"

datatype vec_cmd = VSet string string | VDel string | VExist string | VCount

fun vec_step :: "'s vector_ops \<Rightarrow> env \<Rightarrow> 's \<Rightarrow> vec_cmd \<Rightarrow> (int \<times> 's) option" where
  "vec_step ops e s (VSet k t) = vop_set ops e s (Some k) (Some t)"
| "vec_step ops e s (VDel k) = vop_del ops e s (Some k)"
| "vec_step ops e s (VExist k) = do { r \<leftarrow> vop_exist ops s (Some k); Some (r, s) }"
| "vec_step ops e s VCount = do { r \<leftarrow> vop_count ops s; Some (r, s) }"

fun vec_run :: "'s vector_ops \<Rightarrow> 's \<Rightarrow> (env \<times> vec_cmd) list \<Rightarrow> (int list \<times> 's) option" where
  "vec_run ops s [] = Some ([], s)"
| "vec_run ops s ((e, c) # cs) =
     do { (r, s) \<leftarrow> vec_step ops e s c; (rs, s) \<leftarrow> vec_run ops s cs; Some (r # rs, s) }"

text \<open>The abstract store: a map and the number of slots used, which a deletion does not give back.\<close>

fun vspec_step :: "(string \<Rightarrow> 'v option) \<Rightarrow> nat \<Rightarrow> (string \<rightharpoonup> 'v) \<times> nat \<Rightarrow> vec_cmd \<Rightarrow> int \<times> (string \<rightharpoonup> 'v) \<times> nat" where
  "vspec_step parse cap (m, u) (VSet k t) = (if u < cap then (0, m(k := parse t), u + 1) else (-1, m, u))"
| "vspec_step parse cap (m, u) (VDel k) = (if m k = None then -2 else 0, m(k := None), u)"
| "vspec_step parse cap (m, u) (VExist k) = (if m k = None then 1 else 0, m, u)"
| "vspec_step parse cap (m, u) VCount = (int (card (dom m)), m, u)"

fun vspec_run :: "(string \<Rightarrow> 'v option) \<Rightarrow> nat \<Rightarrow> (string \<rightharpoonup> 'v) \<times> nat \<Rightarrow> vec_cmd list \<Rightarrow> int list \<times> (string \<rightharpoonup> 'v) \<times> nat" where
  "vspec_run parse cap a [] = ([], a)"
| "vspec_run parse cap a (c # cs) =
     (let (r, a) = vspec_step parse cap a c; (rs, a) = vspec_run parse cap a cs in (r # rs, a))"

definition cmd_ok :: "(string \<Rightarrow> 'v option) \<Rightarrow> vec_cmd \<Rightarrow> bool" where
  "cmd_ok parse c \<longleftrightarrow> (case c of VSet k t \<Rightarrow> parse t \<noteq> None | _ \<Rightarrow> True)"

locale vec_engine =
  fixes ops :: "'s vector_ops"
    and inv :: "'s \<Rightarrow> bool"
    and contents :: "'s \<Rightarrow> string \<rightharpoonup> 'v"
    and slots :: "'s \<Rightarrow> nat"
    and parse :: "string \<Rightarrow> 'v option"
    and cap :: nat
  assumes set_new: "inv s \<Longrightarrow> env_ok e \<Longrightarrow> parse t = Some v \<Longrightarrow> slots s < cap \<Longrightarrow>
      \<exists>s'. vop_set ops e s (Some k) (Some t) = Some (0, s') \<and> inv s' \<and>
        contents s' = (contents s)(k \<mapsto> v) \<and> slots s' = slots s + 1"
    and set_full: "inv s \<Longrightarrow> env_ok e \<Longrightarrow> parse t = Some v \<Longrightarrow> \<not> slots s < cap \<Longrightarrow>
      vop_set ops e s (Some k) (Some t) = Some (-1, s)"
    and del_law: "inv s \<Longrightarrow> \<exists>s'. vop_del ops e s (Some k) = Some (if contents s k = None then -2 else 0, s') \<and>
      inv s' \<and> contents s' = (contents s)(k := None) \<and> slots s' = slots s"
    and exist_law: "inv s \<Longrightarrow> vop_exist ops s (Some k) = Some (if contents s k = None then 1 else 0)"
    and count_law: "inv s \<Longrightarrow> vop_count ops s = Some (int (card (dom (contents s))))"
begin

lemma step_refines:
  assumes "inv s" "env_ok e" "cmd_ok parse c"
  shows "\<exists>s'. vec_step ops e s c = Some (fst (vspec_step parse cap (contents s, slots s) c), s') \<and> inv s' \<and>
    (contents s', slots s') = snd (vspec_step parse cap (contents s, slots s) c)"
proof (cases c)
  case (VSet k t)
  then obtain v where "parse t = Some v" using assms(3) by (auto simp: cmd_ok_def)
  then show ?thesis using VSet assms(1, 2) set_new [of s e t v k] set_full [of s e t v k] by auto
next
  case (VDel k)
  then show ?thesis using del_law [OF assms(1), of e k] by auto
qed (use assms(1) in \<open>simp_all add: exist_law count_law\<close>)

lemma run_refines:
  assumes "inv s" "\<forall>(e, c) \<in> set ecs. env_ok e \<and> cmd_ok parse c"
  shows "\<exists>s'. vec_run ops s ecs = Some (fst (vspec_run parse cap (contents s, slots s) (map snd ecs)), s') \<and> inv s' \<and>
    (contents s', slots s') = snd (vspec_run parse cap (contents s, slots s) (map snd ecs))"
  using assms
proof (induction ecs arbitrary: s)
  case (Cons ec ecs)
  obtain e c where ec: "ec = (e, c)" by (cases ec)
  obtain s1 where s1: "vec_step ops e s c = Some (fst (vspec_step parse cap (contents s, slots s) c), s1)" "inv s1"
      "(contents s1, slots s1) = snd (vspec_step parse cap (contents s, slots s) c)"
    using step_refines [of s e c] Cons.prems ec by auto
  then show ?case
    using Cons.IH [OF s1(2)] Cons.prems(2) by (auto simp: ec Let_def split_beta)
qed simp

end

definition vector_engine :: "'f float_ops \<Rightarrow> 'f kvs_vector_t vector_ops" where
  "vector_engine F = \<lparr>vop_set = kvs_vector_set F, vop_del = kvs_vector_del, vop_exist = kvs_vector_exist,
     vop_count = kvs_vector_count\<rparr>"

interpretation vecs: vec_engine "vector_engine F" vec_inv vec_map used "parse_vec F" MAX_ELEMENTS for F
  by unfold_locales
    (simp_all add: vector_engine_def vector_set_new [simplified] vector_set_full vector_del vector_exist vector_count)

lemma vector_create_inv:
  assumes "env_ok e"
  shows "fst (kvs_vector_create F e) = 0" "vec_inv (snd (kvs_vector_create F e))"
    "vec_map (snd (kvs_vector_create F e)) = Map.empty" "used (snd (kvs_vector_create F e)) = 0"
  using assms
  by (auto simp: kvs_vector_create_def vec_inv_def vec_map_def vectors_def find_live_def used_def ix_inv_def
      ix_shape_def nodes_ok_def on_level_def live_def dead_def fun_eq_iff)

text \<open>For vectors of the full dimension, every sequence of \<open>set\<close>, \<open>del\<close>, \<open>exist\<close> and
  \<open>count\<close> calls on a fresh vector engine returns, and replies as a map from keys to vectors
  does, in which a later \<open>set\<close> replaces the vector of its key and the count is the number of
  keys; the engine ends with the map's contents, every level a chain of the nodes of that level.\<close>

lemma vector_refines_map:
  assumes "env_ok e0" "\<forall>(e, c) \<in> set ecs. env_ok e \<and> cmd_ok (parse_vec F) c"
  shows "\<exists>vec. vec_run (vector_engine F) (snd (kvs_vector_create F e0)) ecs =
      Some (fst (vspec_run (parse_vec F) MAX_ELEMENTS (Map.empty, 0) (map snd ecs)), vec) \<and>
    vec_inv vec \<and>
    (vec_map vec, used vec) = snd (vspec_run (parse_vec F) MAX_ELEMENTS (Map.empty, 0) (map snd ecs))"
  using vecs.run_refines [OF vector_create_inv(2) [OF assms(1)] assms(2)]
  unfolding vector_create_inv(3, 4) [OF assms(1)] .

section \<open>Search\<close>

definition dist_to :: "'f float_ops \<Rightarrow> 'f HNSWIndex \<Rightarrow> 'f list \<Rightarrow> nat \<Rightarrow> 'f" where
  "dist_to F ix query i = the (euclidean_distance F query (nvec (the (nodes ix i))) MAX_DIM)"

lemma dist_to_node:
  assumes "nodes_ok (nodes ix)" "nodes ix i = Some n" "length query = MAX_DIM"
  shows "euclidean_distance F query (nvec n) MAX_DIM = Some (dist_to F ix query i)" "ndim n = MAX_DIM" "nid n = i"
  using assms euclidean_total [of MAX_DIM query "nvec n" F]
  by (auto simp: nodes_ok_def node_ok_def dist_to_def)

lemma scan_live_correct:
  assumes "nodes_ok (nodes ix)" "length query = MAX_DIM" "length ws \<le> EF_SEARCH"
  shows "scan_live F ix query cur i ws = Some (ws @ map (\<lambda>j. (j, dist_to F ix query j))
    (take (EF_SEARCH - length ws) (filter (\<lambda>j. j \<in> live_slots ix \<and> cur \<noteq> Some j) [i..<isize ix])))"
  using assms
proof (induction F ix query cur i ws rule: scan_live.induct)
  case (1 F ix query cur i ws)
  show ?case
  proof (cases "i < isize ix \<and> length ws < EF_SEARCH")
    case False
    then show ?thesis using "1.prems"(3) by (subst scan_live.simps) auto
  next
    case True
    then have up: "[i..<isize ix] = i # [Suc i..<isize ix]" by (simp add: upt_rec)
    show ?thesis
    proof (cases "i \<in> live_slots ix \<and> cur \<noteq> Some i")
      case hit: True
      then obtain n where n: "nodes ix i = Some n" "\<not> is_deleted n" by (auto simp: live_slots_def)
      note d = dist_to_node [OF "1.prems"(1) n(1) "1.prems"(2)]
      have "EF_SEARCH - length ws = Suc (EF_SEARCH - Suc (length ws))" using True by (simp add: Suc_diff_Suc)
      then show ?thesis
        using True hit n d "1.IH"(3) [OF True n(1)] "1.prems" by (subst scan_live.simps) (simp add: up)
    next
      case miss: False
      then show ?thesis
        using True "1.IH"(1) [OF True] "1.IH"(2) [OF True] "1.prems"
        by (subst scan_live.simps) (auto simp: up live_slots_def split: option.splits)
    qed
  qed
qed

text \<open>The descent stops at a live node.\<close>

lemma search_walk_stops:
  assumes "vpath (nodes ix) l (Some c) (c # js)" "nodes_ok (nodes ix)" "length query = MAX_DIM" "c \<in> live_slots ix"
  shows "\<exists>c'. search_walk F ix query l c best = Some c' \<and> c' \<in> live_slots ix"
  using assms
proof (induction js arbitrary: c best)
  case Nil
  then show ?case by (subst search_walk.simps) (auto split: option.splits)
next
  case (Cons j js)
  obtain n where n: "nodes ix c = Some n" "l < length (nforward n)" "vpath (nodes ix) l (nforward n ! l) (j # js)"
    using Cons.prems(1) by (auto split: option.splits)
  obtain m where m: "nodes ix j = Some m" "nforward n ! l = Some j" using n(3) by (auto split: option.splits)
  note d = dist_to_node [OF Cons.prems(2) m(1) Cons.prems(3)]
  have s: "search_walk F ix query l c best = (if is_deleted m then Some c
      else if f_less F (dist_to F ix query j) best then search_walk F ix query l j (dist_to F ix query j) else Some c)"
    using n m d by (subst search_walk.simps) simp
  show ?case
  proof (cases "\<not> is_deleted m \<and> f_less F (dist_to F ix query j) best")
    case True
    have "vpath (nodes ix) l (Some j) (j # js)" "j \<in> live_slots ix" using n(3) m True by (auto simp: live_slots_def)
    from Cons.IH [OF this(1) Cons.prems(2, 3) this(2)] show ?thesis unfolding s using True by auto
  qed (use Cons.prems(4) in \<open>unfold s, auto\<close>)
qed

lemma on_chain:
  assumes "level_chain h N l" "i < N" "on_level h l i"
  shows "\<exists>js. vpath h l (Some i) (i # js)"
proof -
  obtain "is" where "vpath h l (Some 0) is" "i \<in> set is" using assms by (auto simp: level_chain_def)
  then show ?thesis using split_list [of i "is"] vpath_append by fastforce
qed

lemma search_levels_stops:
  assumes "ix_shape ix" "length query = MAX_DIM" "c \<in> live_slots ix" "c = 0 \<or> on_level (nodes ix) L 0"
  shows "\<exists>c'. search_levels F ix query L c = Some c' \<and> c' \<in> live_slots ix"
  using assms(3, 4)
proof (induction L arbitrary: c)
  case (Suc l)
  have ok: "nodes_ok (nodes ix)" "idim ix = MAX_DIM" "dom (nodes ix) = {..<isize ix}"
    using assms(1) by (auto simp: ix_shape_def)
  have low: "c = 0 \<or> on_level (nodes ix) l 0"
    using Suc.prems(2) by (auto simp: on_level_def split: option.splits)
  obtain n where n: "nodes ix c = Some n" using Suc.prems(1) by (auto simp: live_slots_def)
  note d = dist_to_node [OF ok(1) n assms(2)]
  show ?case
  proof (cases "Suc l > nlevel n")
    case True
    then show ?thesis using n Suc.IH [OF Suc.prems(1) low] by simp
  next
    case False
    then have c: "on_level (nodes ix) (Suc l) c" "on_level (nodes ix) (Suc l) 0"
      using n Suc.prems(2) by (auto simp: on_level_def)
    have "level_chain (nodes ix) (isize ix) (Suc l)" using assms(1) c(2) by (simp add: ix_shape_def)
    moreover have "c < isize ix" using n ok(3) by blast
    ultimately obtain js where js: "vpath (nodes ix) (Suc l) (Some c) (c # js)" using on_chain c(1) by blast
    obtain c' where c': "search_walk F ix query (Suc l) c (dist_to F ix query c) = Some c'" "c' \<in> live_slots ix"
      using search_walk_stops [OF js ok(1) assms(2) Suc.prems(1)] by blast
    have "on_level (nodes ix) l 0" using c(2) by (auto simp: on_level_def split: option.splits)
    then obtain c'' where "search_levels F ix query l c' = Some c''" "c'' \<in> live_slots ix"
      using Suc.IH [OF c'(2)] by blast
    moreover have "search_levels F ix query (Suc l) c = search_levels F ix query l c'"
      using False n d(1) ok(2) c'(1) by simp
    ultimately show ?thesis by simp
  qed
qed simp

text \<open>The candidates the search sorts: up to \<open>EF_SEARCH\<close> distinct live slots.\<close>

definition candidates :: "'f HNSWIndex \<Rightarrow> nat list \<Rightarrow> bool" where
  "candidates ix js \<longleftrightarrow> distinct js \<and> set js \<subseteq> live_slots ix \<and>
     length js = min EF_SEARCH (card (live_slots ix))"

lemma card_filter_live:
  assumes "ix_shape ix"
  shows "length (filter (\<lambda>j. j \<in> live_slots ix \<and> cur \<noteq> Some j) [0..<isize ix]) =
    card (live_slots ix - {c. cur = Some c})"
proof -
  have "set (filter (\<lambda>j. j \<in> live_slots ix \<and> cur \<noteq> Some j) [0..<isize ix]) = live_slots ix - {c. cur = Some c}"
    using live_slots_bound [OF assms] by auto
  moreover have "distinct (filter (\<lambda>j. j \<in> live_slots ix \<and> cur \<noteq> Some j) [0..<isize ix])" by simp
  ultimately show ?thesis by (metis distinct_card)
qed

lemma scan_candidates:
  assumes "ix_shape ix" "cur = Some c \<longrightarrow> c \<in> live_slots ix"
  defines "js \<equiv> take EF_SEARCH (filter (\<lambda>j. j \<in> live_slots ix \<and> cur \<noteq> Some j) [0..<isize ix])"
  shows "cur = None \<Longrightarrow> candidates ix js"
    and "cur = Some c \<Longrightarrow> candidates ix (if length js < EF_SEARCH then js @ [c] else js)"
proof -
  have fin: "finite (live_slots ix)" using live_slots_bound [OF assms(1)] finite_subset by blast
  have "set js \<subseteq> set (filter (\<lambda>j. j \<in> live_slots ix \<and> cur \<noteq> Some j) [0..<isize ix])"
    unfolding js_def by (rule set_take_subset)
  then have js: "distinct js" "set js \<subseteq> live_slots ix - {c. cur = Some c}"
      "length js = min EF_SEARCH (card (live_slots ix - {c. cur = Some c}))"
    using card_filter_live [OF assms(1), of cur] by (auto simp: js_def min.commute)
  show "candidates ix js" if "cur = None" using that js by (simp add: candidates_def)
  show "candidates ix (if length js < EF_SEARCH then js @ [c] else js)" if "cur = Some c"
    using that js assms(2) fin card_gt_0_iff [of "live_slots ix"] by (auto simp: candidates_def card_Diff_singleton)
qed

lemma those_ids:
  assumes "nodes_ok (nodes ix)" "\<forall>(i, d) \<in> set ws. nodes ix i \<noteq> None"
  shows "those (map (\<lambda>(i, d). map_option (\<lambda>n. (nid n, d)) (nodes ix i)) ws) = Some ws"
  using assms(2)
proof (induction ws)
  case (Cons w ws)
  then show ?case using assms(1) by (cases w) (auto simp: nodes_ok_def node_ok_def)
qed simp

lemma search_hnsw_eq:
  assumes "ix_shape ix" "0 < isize ix" "length query = MAX_DIM" "float_order F"
  shows "\<exists>js. candidates ix js \<and> search_hnsw F ix query k =
    Some (let n = (if int (length js) < k then int (length js) else k) in
      (n, take (nat n) (sort_outer F 0 (map (\<lambda>j. (j, dist_to F ix query j)) js))))"
proof -
  let ?d = "\<lambda>j. (j, dist_to F ix query j)"
  have ok: "nodes_ok (nodes ix)" "enterpoint_id ix = 0" using assms(1) by (auto simp: ix_shape_def)
  obtain z where z: "nodes ix 0 = Some z" using assms(1, 2) by (auto simp: ix_shape_def)
  have live: "\<exists>n. nodes ix j = Some n" if "j \<in> live_slots ix" for j using that by (auto simp: live_slots_def)
  have fin: ?thesis
    if ws: "candidates ix js" and "search_hnsw F ix query k = do {
        let ws = sort_outer F 0 (map ?d js);
        let n_result = (if int (length ws) < k then int (length ws) else k);
        rs \<leftarrow> those (map (\<lambda>(i, d). map_option (\<lambda>n. (nid n, d)) (nodes ix i)) (take (nat n_result) ws));
        Some (n_result, rs) }" for js
  proof -
    let ?ws = "sort_outer F 0 (map ?d js)"
    have m: "mset ?ws = mset (map ?d js)" using exchange_sort(1) [OF assms(4)] .
    have "set ?ws = ?d ` set js" using mset_eq_setD [OF m] by simp
    then have "\<forall>(i, d) \<in> set (take n ?ws). nodes ix i \<noteq> None" for n
      using ws live in_set_takeD [of _ n ?ws] by (fastforce simp: candidates_def)
    moreover have "length ?ws = length js" using mset_eq_length [OF m] by simp
    ultimately show ?thesis using that by (auto simp: Let_def those_ids [OF ok(1)])
  qed
  show ?thesis
  proof (cases "is_deleted z")
    case True
    show ?thesis
      by (rule fin [OF scan_candidates(1) [OF assms(1), of None 0]])
        (use True z ok assms(2, 3) in \<open>simp_all add: search_hnsw_def scan_live_correct [OF ok(1)]\<close>)
  next
    case False
    then have "0 \<in> live_slots ix" using z by (auto simp: live_slots_def)
    then obtain c where c: "search_levels F ix query (imax_level ix) 0 = Some c" "c \<in> live_slots ix"
      using search_levels_stops [OF assms(1, 3)] by blast
    obtain n where n: "nodes ix c = Some n" "\<not> is_deleted n" using c(2) by (auto simp: live_slots_def)
    show ?thesis
      by (rule fin [OF scan_candidates(2) [OF assms(1), of "Some c" c]])
        (use False z ok assms(2, 3) c n dist_to_node [OF ok(1) n(1) assms(3)] in
          \<open>simp_all add: search_hnsw_def scan_live_correct [OF ok(1)] Let_def\<close>)
  qed
qed

lemma sorted_take_drop:
  assumes "sorted_wrt R xs" "x \<in> set (take n xs)" "y \<in> set xs" "y \<notin> set (take n xs)"
  shows "R x y"
  using assms sorted_wrt_append [of R "take n xs" "drop n xs"]
  by (metis Un_iff append_take_drop_id set_append)

lemma search_hnsw_correct:
  assumes "ix_shape ix" "0 < isize ix" "length query = MAX_DIM" "float_order F" "0 < k"
  shows "\<exists>rs. search_hnsw F ix query k = Some (int (length rs), rs) \<and>
    length rs = min (nat k) (min EF_SEARCH (card (live_slots ix))) \<and> distinct (map fst rs) \<and>
    sorted_wrt (not_nearer F) rs \<and> (\<forall>(i, d) \<in> set rs. i \<in> live_slots ix \<and> d = dist_to F ix query i) \<and>
    (card (live_slots ix) \<le> EF_SEARCH \<longrightarrow> (\<forall>i \<in> live_slots ix - fst ` set rs. \<forall>r \<in> set rs.
      not_nearer F r (i, dist_to F ix query i)))"
proof -
  let ?d = "\<lambda>j. (j, dist_to F ix query j)"
  obtain js where js: "candidates ix js" and s: "search_hnsw F ix query k =
      Some (let n = (if int (length js) < k then int (length js) else k) in
        (n, take (nat n) (sort_outer F 0 (map ?d js))))"
    using search_hnsw_eq [OF assms(1-4)] by blast
  define ws where "ws = sort_outer F 0 (map ?d js)"
  have m: "mset ws = mset (map ?d js)" unfolding ws_def by (rule exchange_sort(1) [OF assms(4)])
  have "mset (map fst ws) = mset js"
    using arg_cong [OF m, of "image_mset fst"] by (simp add: multiset.map_comp comp_def)
  then have ws: "length ws = length js" "set ws = ?d ` set js" "distinct (map fst ws)" "sorted_wrt (not_nearer F) ws"
    using mset_eq_length [OF m] mset_eq_setD [OF m] exchange_sort(2) [OF assms(4)] js
      mset_eq_imp_distinct_iff [of "map fst ws" js]
    by (auto simp: ws_def candidates_def)
  define rs where "rs = take (nat k) ws"
  have e: "search_hnsw F ix query k = Some (int (length rs), rs)"
    using s assms(5) ws(1) by (auto simp: Let_def rs_def ws_def)
  have sub: "set rs \<subseteq> ?d ` set js" using ws(2) set_take_subset [of "nat k" ws] by (simp add: rs_def)
  have near: "not_nearer F r (?d i)" if "i \<in> set js" "i \<notin> fst ` set rs" "r \<in> set rs" for i r
    using sorted_take_drop [OF ws(4), of r "nat k" "?d i"] that ws(2) by (force simp: rs_def)
  have "set js = live_slots ix" if "card (live_slots ix) \<le> EF_SEARCH"
    using that js live_slots_bound [OF assms(1)]
    by (intro card_subset_eq) (auto simp: candidates_def distinct_card min_def intro: finite_subset)
  with near have "card (live_slots ix) \<le> EF_SEARCH \<longrightarrow> (\<forall>i \<in> live_slots ix - fst ` set rs. \<forall>r \<in> set rs.
      not_nearer F r (?d i))" by blast
  moreover have "\<forall>(i, d) \<in> set rs. i \<in> live_slots ix \<and> d = dist_to F ix query i"
    using sub js by (auto simp: candidates_def)
  moreover have "length rs = min (nat k) (min EF_SEARCH (card (live_slots ix)))"
    using ws(1) js by (simp add: rs_def candidates_def min.commute)
  moreover have "distinct (map fst rs)" "sorted_wrt (not_nearer F) rs"
    using ws(3, 4) by (auto simp: rs_def sorted_wrt_take distinct_take simp flip: take_map)
  ultimately show ?thesis using e by blast
qed

lemma length_parse_query [simp]: "length (parse_query F n q) = n"
  by (induction n arbitrary: q) (auto split: option.splits)

lemma first_live_dim_eq:
  assumes "ix_shape ix"
  shows "first_live_dim ix = (if live_slots ix = {} then 0 else MAX_DIM)"
proof -
  let ?P = "\<lambda>i. case nodes ix i of None \<Rightarrow> False | Some n \<Rightarrow> \<not> is_deleted n"
  have P: "?P i \<longleftrightarrow> i \<in> live_slots ix" for i by (auto simp: live_slots_def split: option.splits)
  show ?thesis
  proof (cases "find ?P [0..<isize ix]")
    case None
    then have "live_slots ix = {}"
      using live_slots_bound [OF assms] unfolding find_None_iff P by (auto simp: subset_iff)
    then show ?thesis using None by (simp add: first_live_dim_def)
  next
    case (Some i)
    then have "i \<in> live_slots ix" using P by (auto simp: find_Some_iff)
    then show ?thesis using Some assms
      by (auto simp: first_live_dim_def live_slots_def ix_shape_def nodes_ok_def node_ok_def)
  qed
qed

text \<open>A live slot holds the vector of its key.\<close>

lemma slot_key:
  assumes "vec_inv vec" "index vec = VPtr ix" "i \<in> live_slots ix" "length query = MAX_DIM"
  shows "\<exists>t v. kvs_vector_get_key_by_id vec (int i) = Some (Some t) \<and> vec_map vec t = Some v \<and>
    euclidean_distance F query v MAX_DIM = Some (dist_to F ix query i)"
proof -
  have ix: "ix_inv ix" "ix_shape ix" "the_index vec = Some (Some ix)"
    using assms(1, 2) by (auto simp: vec_inv_def ix_inv_def the_index_def)
  obtain t where t: "live (nodes ix) t i" using live_slots_key [OF ix(2)] assms(3) by blast
  then obtain n where n: "nodes ix i = Some n" "\<not> is_deleted n" "nkey n = Some t" by (auto simp: live_def)
  have "nodes_ok (nodes ix)" using ix(2) by (simp add: ix_shape_def)
  from dist_to_node(1) [OF this n(1) assms(4), of F] show ?thesis
    using vectors_live [OF ix(1) t] n ix(3) live_bound [OF ix(2) t] assms(2)
    by (simp add: kvs_vector_get_key_by_id_def vec_map_def)
qed

lemma key_slot:
  assumes "vec_inv vec" "index vec = VPtr ix" "vec_map vec t = Some v" "length query = MAX_DIM"
  shows "\<exists>i \<in> live_slots ix. kvs_vector_get_key_by_id vec (int i) = Some (Some t) \<and>
    euclidean_distance F query v MAX_DIM = Some (dist_to F ix query i)"
proof -
  have ix: "ix_inv ix" "ix_shape ix" "the_index vec = Some (Some ix)" "vec_map vec = vectors ix"
    using assms(1, 2) by (auto simp: vec_inv_def ix_inv_def the_index_def vec_map_def)
  obtain i where i: "live (nodes ix) t i" using assms(3) vectors_dead [OF ix(2), of t] ix(4) by auto
  then have l: "i \<in> live_slots ix" using live_slots_key [OF ix(2)] by blast
  have g: "kvs_vector_get_key_by_id vec (int i) = Some (Some t)"
    using ix(3) i live_bound [OF ix(2) i] by (auto simp: kvs_vector_get_key_by_id_def live_def)
  then show ?thesis using slot_key [OF assms(1, 2) l assms(4), of F] assms(3) l by auto
qed

text \<open>What a search finds among the live slots, in terms of the keys.\<close>

lemma results_by_key:
  assumes "vec_inv vec" "index vec = VPtr ix" "length query = MAX_DIM"
    and rs: "\<forall>(i, d) \<in> set rs. i \<in> live_slots ix \<and> d = dist_to F ix query i"
    and far: "card (live_slots ix) \<le> EF_SEARCH \<longrightarrow> (\<forall>i \<in> live_slots ix - fst ` set rs. \<forall>r \<in> set rs.
          not_nearer F r (i, dist_to F ix query i))"
  shows "\<forall>(i, d) \<in> set rs. \<exists>t v. kvs_vector_get_key_by_id vec (int i) = Some (Some t) \<and>
        vec_map vec t = Some v \<and> euclidean_distance F query v MAX_DIM = Some d"
    and "card (live_slots ix) \<le> EF_SEARCH \<Longrightarrow> vec_map vec t = Some v \<Longrightarrow> euclidean_distance F query v MAX_DIM = Some d \<Longrightarrow>
      (\<exists>i \<in> fst ` set rs. kvs_vector_get_key_by_id vec (int i) = Some (Some t)) \<or> (\<forall>r \<in> set rs. \<not> f_less F d (snd r))"
proof -
  note key = slot_key [OF assms(1, 2) _ assms(3), of _ F]
  show "\<forall>(i, d) \<in> set rs. \<exists>t v. kvs_vector_get_key_by_id vec (int i) = Some (Some t) \<and>
      vec_map vec t = Some v \<and> euclidean_distance F query v MAX_DIM = Some d"
  proof (intro ballI, clarify)
    fix i d assume "(i, d) \<in> set rs"
    then have "i \<in> live_slots ix" "d = dist_to F ix query i" using rs by auto
    then show "\<exists>t v. kvs_vector_get_key_by_id vec (int i) = Some (Some t) \<and>
      vec_map vec t = Some v \<and> euclidean_distance F query v MAX_DIM = Some d" using key [of i] by simp
  qed
  assume c: "card (live_slots ix) \<le> EF_SEARCH" and v: "vec_map vec t = Some v"
    and d: "euclidean_distance F query v MAX_DIM = Some d"
  obtain i where i: "i \<in> live_slots ix" "kvs_vector_get_key_by_id vec (int i) = Some (Some t)"
      "d = dist_to F ix query i"
    using key_slot [OF assms(1, 2) v assms(3), of F] d by auto
  then show "(\<exists>i \<in> fst ` set rs. kvs_vector_get_key_by_id vec (int i) = Some (Some t)) \<or> (\<forall>r \<in> set rs. \<not> f_less F d (snd r))"
    using far c by (cases "i \<in> fst ` set rs") (auto simp: not_nearer_def)
qed

text \<open>A search over full-dimensional vectors returns, with distinct live vectors ordered from
  the nearest on: as many as asked for, stored and, at most, 128. Each reported distance is that
  of the vector stored under the reported key. With at most 128 stored vectors, no vector that is
  left out is nearer than one that is reported.\<close>

lemma vector_search_nearest:
  assumes "vec_inv vec" "env_ok e" "float_order F" "0 < k" and q: "query = parse_query F MAX_DIM q"
  shows "\<exists>rs. kvs_vector_search F e vec (Some key) k (Some q) = Some (int (length rs), rs) \<and>
    length rs = min (nat k) (min EF_SEARCH (card (dom (vec_map vec)))) \<and> distinct (map fst rs) \<and>
    sorted_wrt (\<lambda>a b. \<not> f_less F (snd b) (snd a)) rs \<and>
    (\<forall>(i, d) \<in> set rs. \<exists>t v. kvs_vector_get_key_by_id vec (int i) = Some (Some t) \<and> vec_map vec t = Some v \<and>
      euclidean_distance F query v MAX_DIM = Some d) \<and>
    (card (dom (vec_map vec)) \<le> EF_SEARCH \<longrightarrow>
      (\<forall>t v d. vec_map vec t = Some v \<longrightarrow> euclidean_distance F query v MAX_DIM = Some d \<longrightarrow>
        (\<exists>i \<in> fst ` set rs. kvs_vector_get_key_by_id vec (int i) = Some (Some t)) \<or>
        (\<forall>r \<in> set rs. \<not> f_less F d (snd r))))"
proof -
  obtain ix where ix: "index vec = VPtr ix" "ix_inv ix" "the_index vec = Some (Some ix)" "vec_map vec = vectors ix"
    using vec_invE [OF assms(1)] by metis
  have sh: "ix_shape ix" using ix(2) by (simp add: ix_inv_def)
  have lq: "length query = MAX_DIM" using q by simp
  show ?thesis
  proof (cases "live_slots ix = {}")
    case True
    then have "kvs_vector_search F e vec (Some key) k (Some q) = Some (0, [])"
      using ix(3) first_live_dim_eq [OF sh] by (simp add: kvs_vector_search_def)
    moreover have "card (dom (vec_map vec)) = 0" using True card_live [OF ix(2)] ix(4) by simp
    ultimately show ?thesis using True by (intro exI [of _ "[]"]) auto
  next
    case False
    then have sz: "0 < isize ix" using live_slots_bound [OF sh] by (cases "isize ix") auto
    have e: "kvs_vector_search F e vec (Some key) k (Some q) = search_hnsw F ix query k"
      using ix(3) first_live_dim_eq [OF sh] False sz assms(2) q by (simp add: kvs_vector_search_def MAX_DIM_def)
    obtain rs where rs: "search_hnsw F ix query k = Some (int (length rs), rs)"
        "length rs = min (nat k) (min EF_SEARCH (card (live_slots ix)))" "distinct (map fst rs)"
        "sorted_wrt (not_nearer F) rs" "\<forall>(i, d) \<in> set rs. i \<in> live_slots ix \<and> d = dist_to F ix query i"
        "card (live_slots ix) \<le> EF_SEARCH \<longrightarrow> (\<forall>i \<in> live_slots ix - fst ` set rs. \<forall>r \<in> set rs.
          not_nearer F r (i, dist_to F ix query i))"
      using search_hnsw_correct [OF sh sz lq assms(3, 4)] by blast
    have cd: "card (dom (vec_map vec)) = card (live_slots ix)" using card_live [OF ix(2)] ix(4) by simp
    note named = results_by_key [OF assms(1) ix(1) lq rs(5, 6)]
    have srt: "sorted_wrt (\<lambda>a b. \<not> f_less F (snd b) (snd a)) rs"
      using rs(4) by (simp add: not_nearer_def [abs_def])
    show ?thesis unfolding e cd
    proof (intro exI [of _ rs] conjI impI allI)
      fix t v d
      assume "card (live_slots ix) \<le> EF_SEARCH" "vec_map vec t = Some v" "euclidean_distance F query v MAX_DIM = Some d"
      then show "(\<exists>i \<in> fst ` set rs. kvs_vector_get_key_by_id vec (int i) = Some (Some t)) \<or>
        (\<forall>r \<in> set rs. \<not> f_less F d (snd r))" by (rule named(2))
    qed (rule rs(1) rs(2) rs(3) srt named(1))+
  qed
qed

section \<open>Shorter vectors\<close>

lemma atoi_digits: "atoi ''0'' = 0" "atoi ''1'' = 1"
  by code_simp+

lemma dist_from_overread:
  assumes "length a < dm" "i \<le> length a"
  shows "dist_from F a b dm i acc = None"
  using assms
proof (induction F a b dm i acc rule: dist_from.induct)
  case (1 F a b dm i acc)
  show ?case
  proof (cases "i = length a")
    case True
    then show ?thesis using "1.prems" by (subst dist_from.simps) (simp add: arr_get_def)
  next
    case False
    then have "i < dm" "Suc i \<le> length a" using "1.prems" by auto
    then show ?thesis using "1.IH" "1.prems"(1) by (subst dist_from.simps) (auto simp: Let_def split: bind_splits)
  qed
qed

lemma insert_overread:
  assumes "nodes ix new = Some n" "nodes ix c = Some m" "length (nvec n) < idim ix" "nlevel n = nlevel m"
  shows "insert_levels F ix new c (Suc (nlevel n)) = None"
  using assms dist_from_overread [of "nvec n" "idim ix" 0 F "nvec m"]
  by (simp add: insert_level_def euclidean_distance_def)

text \<open>C27: the insertion compares vectors over the global dimension 1536 whatever their own
  dimensions are. On a fresh engine, storing a vector of one component succeeds, and storing a
  second one reads past the ends of both.\<close>

theorem short_vectors_overread:
  "\<exists>vec. kvs_vector_set F env0 (snd (kvs_vector_create F env0)) (Some ''a'') (Some ''1 5'') = Some (0, vec) \<and>
     kvs_vector_set F env0 vec (Some ''b'') (Some ''1 7'') = None"
proof -
  let ?ix = "\<lparr>idim = MAX_DIM, isize = 0, deleted_count = 0, imax_size = MAX_ELEMENTS, imax_level = 0,
    enterpoint_id = 0, ml = f_lit F LAYER_DECAY, nodes = Map.empty, level_counts = Some (replicate MAX_LAYERS 0)\<rparr>"
  define L where "L = random_level F env0 (f_lit F LAYER_DECAY)"
  define node where "node v k i = \<lparr>nid = i, nlevel = L, nvec = [v], ndim = 1, nkey = Some k, is_deleted = False,
    delete_time = 0, nforward = replicate (L + 1) None, distances = replicate (L + 1) 0,
    neighbors_count = replicate (L + 1) 0\<rparr>" for v :: 'a and k :: string and i :: nat
  define ix1 where "ix1 = ?ix\<lparr>nodes := [0 \<mapsto> node (f_atof F ''5'') ''a'' 0], isize := 1, imax_level := L\<rparr>"
  have c: "index (snd (kvs_vector_create F env0)) = VPtr ?ix" "vdim (snd (kvs_vector_create F env0)) = MAX_DIM"
    by (simp_all add: kvs_vector_create_def)
  have t: "strtok ''1 5'' = Some (''1'', ''5'')" "strtok ''1 7'' = Some (''1'', ''7'')" "strtok ''5'' = Some (''5'', [])"
      "strtok ''7'' = Some (''7'', [])" by (simp_all add: strtok_def)
  have n: "hnsw_create_node env0 i [v] (Suc 0) L (Some k) = Some (node v k i)" for i v k
    by (simp add: hnsw_create_node_def node_def)
  have dm: "effective_dim g 1 = Suc 0" for g by (simp add: effective_dim_def MAX_DIM_def)
  have one: "insert_hnsw F ?ix (node (f_atof F ''5'') ''a'' 0) = Some (0, ix1)"
    by (simp add: insert_hnsw_def ix1_def MAX_ELEMENTS_def node_def Let_def)
  let ?vec = "(snd (kvs_vector_create F env0))\<lparr>index := VPtr ix1, vcount := 1\<rparr>"
  have "kvs_vector_set F env0 (snd (kvs_vector_create F env0)) (Some ''a'') (Some ''1 5'') = Some (0, ?vec)"
    using c one n t
    by (simp add: kvs_vector_set_def the_index_def atoi_digits dm L_def [symmetric] find_live_def ix1_def Let_def
        kvs_vector_create_def)
  moreover have "insert_hnsw F ix1 (node (f_atof F ''7'') ''b'' 1) = None"
  proof -
    let ?ix2 = "ix1\<lparr>nodes := (nodes ix1)(1 \<mapsto> (node (f_atof F ''7'') ''b'' 1)\<lparr>nid := 1\<rparr>), isize := 2\<rparr>"
    have "insert_levels F ?ix2 1 0 (Suc L) = None"
      using insert_overread [of ?ix2 1 "node (f_atof F ''7'') ''b'' 1" 0 "node (f_atof F ''5'') ''a'' 0" F]
      by (simp add: ix1_def node_def MAX_DIM_def del: insert_levels.simps)
    then show ?thesis
      by (simp add: insert_hnsw_def ix1_def MAX_ELEMENTS_def node_def Let_def numeral_2_eq_2 del: insert_levels.simps)
  qed
  then have "kvs_vector_set F env0 ?vec (Some ''b'') (Some ''1 7'') = None"
    using n t c(2)
    by (simp add: kvs_vector_set_def the_index_def atoi_digits dm ix1_def L_def [symmetric] Let_def)
  ultimately show ?thesis by blast
qed

end
