(* ===== verification/Spec2Isabelle.thy ===== *)
theory Spec2Isabelle
  imports Network_Correct Ntyco_Correct Protocol_Correct Cache_ARC Cache_LFU Cache_LRU Cache_Stats Vector_Correct Rdb_Correct
begin

text \<open>
  \<^bold>\<open>LitemultiKV\<close>, a key-value server in C: this is the root of its verification development.

  \<^bold>\<open>The program.\<close> A request arrives as bytes at a network layer, is split into tokens and
  dispatched by name. A command of one of the four string engines (array, red-black tree, hash
  table, skip list) goes through a cache that the engines share: a read that misses fills it, a
  write removes the key from it. Other commands reach the vector engine, the policy and the
  statistics of the cache, the namespace of the connection and the persistence. At start-up the
  last dump is read back into the engines. There is one thread; \<open>BGSAVE\<close> forks a child that
  saves a snapshot.

  \<^bold>\<open>Conventions.\<close> A C function that can fault or not return is in the option monad:
  \<^const>\<open>None\<close> stands for a NULL, dangling or out-of-range access, a NULL passed to a library
  function that does not take it, or a loop that does not end. A theorem that a call equals
  \<open>Some r\<close> therefore says that it is memory safe, terminates and returns \<open>r\<close>. Linked structures
  are partial functions from addresses to records of the source's fields; \<open>free\<close> removes an
  address. Loops that follow pointers are \<open>partial_function (option)\<close>, and that they return is
  proved from the invariant of their structure; there is no fuel. Counted loops recurse with a
  termination proof. C strings are their bytes before the NUL, a pointer that may be NULL is an
  option. Counters of the cache are 64-bit words, sizes and return codes are integers.

  \<^bold>\<open>What comes from outside\<close> is an argument. \<open>env\<close>: which allocations succeed, \<open>rand()\<close>, the
  clocks. \<open>os\<close>: what \<open>open\<close>, \<open>write\<close> and \<open>rename\<close> answer. \<open>request\<close>: these for one command,
  with the result of \<open>fork\<close>. \<open>float_ops\<close>: single-precision arithmetic and its text format; the
  lemmas that need more name it (\<open>float_order\<close>). \<open>net_event\<close>, completions and \<open>answers\<close>: what the
  kernel answers to \<open>epoll_wait\<close>, \<open>accept\<close>, \<open>recv\<close>, \<open>send\<close> and to io_uring; \<open>enabled\<close> and
  \<open>kernel_ok\<close> say what it promises. Conditions that nothing promises have names of their own and
  stand in the theorems: \<open>sends_all\<close> (every \<open>send\<close> takes the whole reply), \<open>run_ok\<close> (below),
  \<open>full_writes\<close> and \<open>no_short_writes\<close> (of a dump), \<open>all_storable\<close> (keys and values are not empty, at
  most a megabyte and without NUL).

  \<^bold>\<open>Components\<close>, with the sources under \<open>src/\<close> they translate.

  \<^item> \<open>LKV_Prelude\<close>: strings, environments and allocation (\<open>kvs_malloc\<close>, \<open>kvs_calloc\<close>,
    \<open>kvs_strdup\<close> of \<open>src/common/kvstore.c\<close>), \<open>strcmp\<close> and the other shared library functions.
    \<open>Kvs_Libc\<close>: numbers as text, \<open>strtok_r\<close>, arrays with bounds, the table of float operations.
  \<^item> \<open>Engine_Spec\<close>: the contract \<open>kv_engine\<close> of a string engine against a map with a capacity,
    proved once for sequences of commands and for iterated loading. \<open>Kvs_Array\<close>
    (\<open>kvs_array.c\<close>), \<open>Kvs_Hash\<close> (\<open>kvs_hash.c\<close>), \<open>Kvs_Skiptable\<close> (\<open>kvs_skiptable.c\<close>), \<open>Kvs_Rbtree\<close>
    and \<open>Rbtree_Correct\<close> (\<open>kvs_rbtree.c\<close>): every operation of the engine, its data invariant, and
    its interpretation of the contract. The tree has the red-black invariants and a sorted
    traversal; \<open>destroy\<close> of the tree and of the skip list frees every node, and none twice, since to free a
    freed node or value is a fault. Signed hash
    values that leave the table, and what a failed allocation in \<open>mod\<close> leaves behind, are theorems
    on the error paths.
  \<^item> \<open>Kvs_Cache\<close> (\<open>kvs_cache.c\<close>): LRU list, LFU heap, ARC lists, and the manager. \<open>Cache_Spec\<close>: the
    contract \<open>lookup_cache\<close> of a cache in front of a store, under which a reader never sees a stale
    value. \<open>Cache_LRU\<close>, \<open>Cache_LFU\<close>, \<open>Cache_ARC\<close>: each policy keeps it; LRU refines a bounded
    list in order of recency, LFU evicts a least used node (unless a deletion has broken the heap
    order, shown as well), ARC keeps its target and its ghost lists within the capacity while
    ghost hits let the cached lists outgrow it (\<open>ghost_hit_grows\<close>). \<open>Cache_Stats\<close>: windows,
    thresholds, pattern detection and the texts of \<open>STATS\<close> and \<open>RECOMMEND\<close>.
  \<^item> \<open>Kvs_Rdb\<close>, \<open>Rdb_Correct\<close> (\<open>kvs_rdb.c\<close>): dump and load, byte by byte. Round trip; a failed save
    leaves the old dump, a successful one without short writes the encoding of all entries; and the
    cases in which a short write is taken for success, an empty value loses the records after it,
    or a string is freed twice.
  \<^item> \<open>Kvs_Vector\<close>, \<open>Vector_Correct\<close> (\<open>kvs_vector.c\<close>): the layered index. Lemmas on its functions:
    the contract \<open>vec_engine\<close> against a map from keys to vectors of 1536 components, and that a search
    returns the nearest ones for distances without NaN. No request can carry such a vector; the theorem
    about the server is that the second short vector makes the insertion read out of bounds.
  \<^item> \<open>Kvs_Protocol\<close>, \<open>Protocol_Tokens\<close>, \<open>Protocol_Correct\<close> (\<open>kvstore.c\<close>): tokeniser, command table,
    every command, start-up. The locale \<open>cached_engine\<close> joins \<open>kv_engine\<close> and \<open>lookup_cache\<close>; its
    four interpretations give, from the bytes of the requests to the texts of the replies, that
    each family of commands behaves as a map under all three policies, in any namespace. Saving
    and restarting restores the maps. The child of \<open>BGSAVE\<close> has the engines of the fork, and its save
    is one step (\<open>child_save\<close>): with no other save at the same time, the requests that the parent
    handles before it do not touch the disk, and a restart restores the maps of the fork. That the shared
    cache answers one engine's command with another engine's value, and that a switch of policy
    brings back old values, are theorems too.
  \<^item> \<open>Kvs_Reactor\<close>, \<open>Network_Spec\<close>, \<open>Reactor_Correct\<close> (\<open>reactor.c\<close>, \<open>server.h\<close>): the event loop as a
    state machine. The contract \<open>msg_service\<close> says what it relies on of its handler; the protocol
    keeps it for \<open>service_request\<close>: the commands of the four string families, the namespace commands
    and unknown ones, each whole in one \<open>recv\<close>. For these the loop never faults, its connections stay
    well formed, and, when replies are sent completely, its interleaved clients get the replies of a
    server that takes their requests one at a time. \<open>SAVE\<close>, \<open>BGSAVE\<close>, \<open>LASTSAVE\<close>, \<open>POLICY\<close>,
    \<open>STATS\<close>, \<open>RECOMMEND\<close> and the vector commands are modelled but not among these requests.
  \<^item> \<open>Kvs_Proactor\<close>, \<open>Network_Correct\<close> (\<open>proactor.c\<close>): the io_uring loop, which reads a short request
    together with the tail of an older one.
  \<^item> \<open>Nty_Schedule\<close>, \<open>Nty_Socket\<close>, \<open>Nty_Correct\<close> (\<open>NtyCo/core\<close>): the coroutine library. Its scheduler is a
    machine that is stepped with the answers of the kernel; the coroutines are its argument, and a
    coroutine is freed, asserted about and found in trees as in the source. The locale
    \<open>keyed_tree\<close> is the contract of its two trees. Sleeping terminates, and takes
    out only a sleeper with the old wake-up time; a sleeper due in less than \<open>2 ^ 31\<close> milliseconds is not
    overslept, a later one overflows the timeout, which is a fault of \<open>nty_epoller_wait\<close>; stacks are restored; a
    sleeper that its descriptor wakes is not taken from the sleeping tree.
  \<^item> \<open>Kvs_Ntyco\<close>, \<open>Ntyco_Spec\<close>, \<open>Ntyco_Correct\<close> (\<open>ntyco.c\<close>): the coroutine server. \<open>ntyco_server\<close> and
    \<open>server_reader\<close> are split at their yields, with the locals that live across a yield as a frame.
    A reader reads its descriptor from the shared stack \<open>sstack\<close>, at the place \<open>cli_at\<close> of the variable
    \<open>cli_fd\<close> of \<open>server\<close>; what coroutines write elsewhere on the stack is a parameter. With \<open>kernel_ok\<close>
    and in the runs of \<open>run_ok\<close> (nothing runs out, \<open>accept\<close> fails only with \<open>EAGAIN\<close>, a client is accepted
    by the last event of its batch, the start of a reader spares the variable) it never faults, readers
    find their descriptors, and it agrees with the same abstract server as the event loop, partial
    sends included. Outside of these runs it goes wrong: a client that is accepted before another event
    of the batch is never served (\<open>stale_descriptor\<close>), and two failed \<open>accept\<close> calls abort it.

  \<^bold>\<open>Bounds.\<close> The array engine holds \<open>KVS_ARRAY_SIZE\<close> entries, messages and replies are at most
  1024 bytes, a message has at most 128 tokens, the connection table 1024 entries, the vector
  index \<open>MAX_ELEMENTS\<close> vectors: these are the constants of the source and appear as such in the
  contracts. Hypotheses bound them where the code does not check: ASCII keys for the hash table,
  requests that fit the buffer, descriptors inside the table.

  \<^bold>\<open>Not modelled.\<close> Of the NtyCo library the macros of \<open>nty_queue.h\<close> and \<open>nty_tree.h\<close> (queues and trees
  are lists in order), the switch between contexts, which has no effect but to go on with another
  coroutine, the build without \<open>ucontext\<close>, the \<open>nty_\<close> variants of the socket calls that the server
  does not use, and the samples. The choice of a network layer in \<open>main\<close>. Texts that are only printed to the
  terminal. Signals, so that \<open>SIGPIPE\<close> at a \<open>send\<close> to a closed connection is only an error of \<open>send\<close>. Two
  saves that write the same temporary file at the same time. Overflow of 32-bit counters of entries,
  and of the sum of \<open>_hash\<close> for keys of more than \<open>2 ^ 24\<close> bytes, which no message can carry. The client examples, tests and
  benchmarks.
\<close>

end
